(* ===== verification/Prelude.thy ===== *)
theory Prelude
  imports Main "HOL-Library.Word"
begin

text \<open>
  Shared vocabulary of the development.  A \<open>uint64_t\<close> of the program is a natural number
  below \<open>2 ^ 64\<close>; the two operations that can wrap, addition and subtraction, are written
  out as \<open>add64\<close> and \<open>sub64\<close>, and the conditional rewrite rules below turn them into the
  ordinary operations where no wrap-around happens.  Bit masks keep their machine width and
  are \<open>'w word\<close> values.
\<close>

named_theorems u64_simps \<open>64-bit operations that do not wrap around\<close>

type_synonym u64 = nat

abbreviation two64 :: nat where
  "two64 \<equiv> 18446744073709551616"

abbreviation U64_MAX :: u64 where
  "U64_MAX \<equiv> 18446744073709551615"

definition add64 :: "u64 \<Rightarrow> u64 \<Rightarrow> u64" where
  "add64 a b = (a + b) mod two64"

definition sub64 :: "u64 \<Rightarrow> u64 \<Rightarrow> u64" where
  "sub64 a b = (a + (two64 - b)) mod two64"

lemma add64_exact [simp, u64_simps]: "a + b < two64 \<Longrightarrow> add64 a b = a + b"
  by (simp add: add64_def)

lemma sub64_exact [simp, u64_simps]:
  assumes "b \<le> a" and "a < two64"
  shows "sub64 a b = a - b"
proof -
  from assms have "a + (two64 - b) = (a - b) + two64" by simp
  then show ?thesis using assms by (simp only: sub64_def mod_add_self2) simp
qed

lemma add64_less [simp]: "add64 a b < two64"
  by (simp add: add64_def)

lemma sub64_less [simp]: "sub64 a b < two64"
  by (simp add: sub64_def)

lemma add64_add: "add64 (add64 a b) c = add64 a (b + c)"
  by (simp add: add64_def mod_simps add.assoc)

text \<open>A counter that is kept modulo \<open>2 ^ 64\<close> follows the sum it counts.\<close>

lemma add64_mod: "add64 (s mod two64) e = (s + e) mod two64"
  by (simp add: add64_def mod_simps)

lemma sub64_mod: "e \<le> two64 \<Longrightarrow> sub64 ((s + e) mod two64) e = s mod two64"
  unfolding sub64_def mod_add_left_eq by (simp add: add.assoc)

text \<open>Intervals of addresses, as the sets of the bytes they hold.\<close>

definition span :: "u64 \<Rightarrow> u64 \<Rightarrow> u64 set" where
  "span s n = {s ..< s + n}"

lemma in_span [simp]: "a \<in> span s n \<longleftrightarrow> s \<le> a \<and> a < s + n"
  by (auto simp: span_def)

lemma span_empty_iff [simp]: "span s n = {} \<longleftrightarrow> n = 0"
  by (auto simp: span_def)

lemma span_zero [simp]: "span s 0 = {}"
  by (simp add: span_def)

lemma finite_span [simp]: "finite (span s n)"
  by (simp add: span_def)

lemma card_span [simp]: "card (span s n) = n"
  by (simp add: span_def)

lemma span_split: "span s (m + n) = span s m \<union> span (s + m) n"
  by (auto simp: span_def)

lemma span_disjoint: "s + m \<le> t \<Longrightarrow> span s m \<inter> span t n = {}"
  by (auto simp: span_def)

abbreviation (input) UINT32_MAX :: nat where
  "UINT32_MAX \<equiv> 4294967295"

lemma bit_word_less: "bit (w :: 64 word) i \<Longrightarrow> i < 64"
  using bit_imp_le_length [of w i] by simp

text \<open>The first element of a vector or list that a predicate finds: its update and its removal.\<close>

fun update_first :: "('a \<Rightarrow> bool) \<Rightarrow> ('a \<Rightarrow> 'a) \<Rightarrow> 'a list \<Rightarrow> 'a list" where
  "update_first p f [] = []"
| "update_first p f (x # xs) = (if p x then f x # xs else x # update_first p f xs)"

fun remove_first_where :: "('a \<Rightarrow> bool) \<Rightarrow> 'a list \<Rightarrow> 'a list" where
  "remove_first_where p [] = []"
| "remove_first_where p (x # xs) = (if p x then xs else x # remove_first_where p xs)"

lemma update_first_map: "(\<And>x. p x \<Longrightarrow> g (f x) = g x) \<Longrightarrow> map g (update_first p f xs) = map g xs"
  by (induction xs) auto

lemma update_first_all: "\<lbrakk>\<And>x. P x \<Longrightarrow> P (f x); \<forall>x \<in> set xs. P x\<rbrakk> \<Longrightarrow> \<forall>x \<in> set (update_first p f xs). P x"
  by (induction xs) auto

lemma update_first_find: "find p xs = Some x \<Longrightarrow> f x \<in> set (update_first p f xs)"
  by (induction xs) (auto split: if_splits)

lemma remove_first_set: "set (remove_first_where p xs) \<subseteq> set xs"
  by (induction xs) auto

lemma remove_first_distinct: "distinct (map f xs) \<Longrightarrow> distinct (map f (remove_first_where p xs))"
proof (induction xs)
  case (Cons x xs)
  then show ?case using remove_first_set [of p xs] by auto
qed simp

lemma remove_first_sorted: "sorted (map f xs) \<Longrightarrow> sorted (map f (remove_first_where p xs))"
proof (induction xs)
  case (Cons x xs)
  then show ?case using remove_first_set [of p xs] by auto
qed simp

end
