(* ===== verification/OrderedMap.thy ===== *)
theory OrderedMap
  imports Prelude
begin

text \<open>
  The program's \<open>std::map<uint64_t, V>\<close>.  A map is the list of its nodes in key order, an
  iterator is the key of its node (\<open>None\<close> is \<open>end()\<close>), and the operations are those of the
  C++ standard library the source uses: \<open>find\<close>, \<open>emplace\<close> (which keeps an existing node),
  assignment through an iterator, \<open>erase\<close>, \<open>lower_bound\<close>, \<open>upper_bound\<close>, \<open>std::prev\<close> and
  \<open>std::next\<close>.  The lemmas describe every operation through the partial function \<open>map_of m\<close>,
  so that the components never look at the list.
\<close>

type_synonym 'v omap = "(u64 \<times> 'v) list"
type_synonym iter = "u64 option"

definition om_ok :: "'v omap \<Rightarrow> bool" where
  "om_ok m \<longleftrightarrow> sorted_wrt (<) (map fst m)"

fun om_emplace :: "u64 \<Rightarrow> 'v \<Rightarrow> 'v omap \<Rightarrow> 'v omap" where
  "om_emplace k v [] = [(k, v)]"
| "om_emplace k v ((k', v') # m) =
     (if k < k' then (k, v) # (k', v') # m
      else if k = k' then (k', v') # m
      else (k', v') # om_emplace k v m)"

fun om_set :: "u64 \<Rightarrow> 'v \<Rightarrow> 'v omap \<Rightarrow> 'v omap" where
  "om_set k v [] = []"
| "om_set k v ((k', v') # m) = (if k = k' then (k', v) # m else (k', v') # om_set k v m)"

fun om_erase :: "u64 \<Rightarrow> 'v omap \<Rightarrow> 'v omap" where
  "om_erase k [] = []"
| "om_erase k ((k', v') # m) = (if k = k' then m else (k', v') # om_erase k m)"

definition om_from :: "u64 \<Rightarrow> 'v omap \<Rightarrow> 'v omap" where
  "om_from k m = dropWhile (\<lambda>e. fst e < k) m"

definition om_after :: "u64 \<Rightarrow> 'v omap \<Rightarrow> 'v omap" where
  "om_after k m = dropWhile (\<lambda>e. fst e \<le> k) m"

definition om_before :: "u64 \<Rightarrow> 'v omap \<Rightarrow> 'v omap" where
  "om_before k m = takeWhile (\<lambda>e. fst e < k) m"

definition om_begin :: "'v omap \<Rightarrow> iter" where
  "om_begin m = (case m of [] \<Rightarrow> None | e # _ \<Rightarrow> Some (fst e))"

definition om_lower_bound :: "u64 \<Rightarrow> 'v omap \<Rightarrow> iter" where
  "om_lower_bound k m = om_begin (om_from k m)"

definition om_upper_bound :: "u64 \<Rightarrow> 'v omap \<Rightarrow> iter" where
  "om_upper_bound k m = om_begin (om_after k m)"

definition om_next :: "u64 \<Rightarrow> 'v omap \<Rightarrow> iter" where
  "om_next k m = om_upper_bound k m"

text \<open>\<open>om_prev it m\<close> is \<open>std::prev(it)\<close>, and \<open>None\<close> where \<open>it == begin()\<close>.\<close>

fun om_prev :: "iter \<Rightarrow> 'v omap \<Rightarrow> iter" where
  "om_prev None m = (if m = [] then None else Some (fst (last m)))"
| "om_prev (Some k) m = (let b = om_before k m in if b = [] then None else Some (fst (last b)))"

text \<open>\<open>om_floor k m\<close> is the recurring \<open>std::prev(m.upper_bound(k))\<close>.\<close>

definition om_floor :: "u64 \<Rightarrow> 'v omap \<Rightarrow> iter" where
  "om_floor k m = om_prev (om_upper_bound k m) m"

text \<open>The nodes a loop \<open>for (it = first; it != last; ++it)\<close> visits.\<close>

fun om_iter_from :: "iter \<Rightarrow> 'v omap \<Rightarrow> 'v omap" where
  "om_iter_from None m = []"
| "om_iter_from (Some k) m = om_from k m"

fun om_iter_to :: "iter \<Rightarrow> 'v omap \<Rightarrow> 'v omap" where
  "om_iter_to None m = m"
| "om_iter_to (Some k) m = om_before k m"

definition om_range :: "iter \<Rightarrow> iter \<Rightarrow> 'v omap \<Rightarrow> 'v omap" where
  "om_range it stop m = om_iter_to stop (om_iter_from it m)"

subsection \<open>The order of the nodes\<close>

lemma om_ok_Nil [simp]: "om_ok []"
  by (simp add: om_ok_def)

lemma om_ok_Cons: "om_ok ((k, v) # m) \<longleftrightarrow> (\<forall>e\<in>set m. k < fst e) \<and> om_ok m"
  by (auto simp: om_ok_def)

lemma om_ok_append:
  "om_ok (xs @ ys) \<longleftrightarrow> om_ok xs \<and> om_ok ys \<and> (\<forall>x\<in>set xs. \<forall>y\<in>set ys. fst x < fst y)"
  by (auto simp: om_ok_def sorted_wrt_append)

lemma om_ok_distinct: "om_ok m \<Longrightarrow> distinct (map fst m)"
  by (induction m) (force simp: om_ok_Cons)+

lemma om_ok_dropWhile [simp]: "om_ok m \<Longrightarrow> om_ok (dropWhile P m)"
  by (metis om_ok_append takeWhile_dropWhile_id)

lemma om_ok_takeWhile [simp]: "om_ok m \<Longrightarrow> om_ok (takeWhile P m)"
  by (metis om_ok_append takeWhile_dropWhile_id)

lemma om_in_set: "om_ok m \<Longrightarrow> map_of m k = Some v \<longleftrightarrow> (k, v) \<in> set m"
  using om_ok_distinct by (metis map_of_eq_Some_iff)

lemma om_from_set: "om_ok m \<Longrightarrow> set (om_from k m) = {e \<in> set m. k \<le> fst e}"
  by (induction m) (force simp: om_from_def om_ok_Cons)+

lemma om_after_set: "om_ok m \<Longrightarrow> set (om_after k m) = {e \<in> set m. k < fst e}"
  by (induction m) (force simp: om_after_def om_ok_Cons)+

lemma om_before_set: "om_ok m \<Longrightarrow> set (om_before k m) = {e \<in> set m. fst e < k}"
  by (induction m) (force simp: om_before_def om_ok_Cons)+

lemma om_from_ok [simp]: "om_ok m \<Longrightarrow> om_ok (om_from k m)"
  by (simp add: om_from_def)

lemma om_after_ok [simp]: "om_ok m \<Longrightarrow> om_ok (om_after k m)"
  by (simp add: om_after_def)

lemma om_before_ok [simp]: "om_ok m \<Longrightarrow> om_ok (om_before k m)"
  by (simp add: om_before_def)

lemma om_split_at: "m = om_before k m @ om_from k m"
  by (simp add: om_before_def om_from_def)

subsection \<open>Operations through the partial function\<close>

lemma om_keys: "fst ` set m = dom (map_of m)"
  by (simp add: dom_map_of_conv_image_fst)

lemma om_keyI: "e \<in> set m \<Longrightarrow> fst e \<in> dom (map_of m)"
  by (metis imageI om_keys)

lemma om_ok_Cons_dom: "om_ok ((k, v) # m) \<longleftrightarrow> (\<forall>j\<in>dom (map_of m). k < j) \<and> om_ok m"
  by (simp add: om_ok_Cons flip: om_keys)

lemma om_emplace_set: "set (om_emplace k v m) \<subseteq> insert (k, v) (set m)"
  by (induction k v m rule: om_emplace.induct) auto

lemma om_emplace_ok [simp]: "om_ok m \<Longrightarrow> om_ok (om_emplace k v m)"
proof (induction k v m rule: om_emplace.induct)
  case (2 k v k' v' m)
  then show ?case
    using om_emplace_set [of k v m] by (fastforce simp: om_ok_Cons)
qed (simp add: om_ok_Cons)

lemma om_set_keys [simp]: "map fst (om_set k v m) = map fst m"
  by (induction k v m rule: om_set.induct) auto

lemma om_set_ok [simp]: "om_ok (om_set k v m) \<longleftrightarrow> om_ok m"
  by (simp add: om_ok_def)

lemma om_erase_set: "set (om_erase k m) \<subseteq> set m"
  by (induction k m rule: om_erase.induct) auto

lemma om_erase_ok [simp]: "om_ok m \<Longrightarrow> om_ok (om_erase k m)"
proof (induction k m rule: om_erase.induct)
  case (2 k k' v' m)
  then show ?case using om_erase_set [of k m] by (fastforce simp: om_ok_Cons)
qed simp

lemma map_of_emplace:
  "om_ok m \<Longrightarrow>
   map_of (om_emplace k v m) = (if map_of m k = None then (map_of m)(k \<mapsto> v) else map_of m)"
proof (induction k v m rule: om_emplace.induct)
  case (2 k v k' v' m)
  have "map_of m k = None" if "k < k'"
    using 2(2) that by (metis domIff less_asym om_ok_Cons_dom)
  with 2 show ?case by (auto simp: om_ok_Cons fun_eq_iff)
qed auto

lemma map_of_set:
  "map_of (om_set k v m) = (if map_of m k = None then map_of m else (map_of m)(k \<mapsto> v))"
  by (induction k v m rule: om_set.induct) (auto simp: fun_eq_iff)

lemma map_of_erase: "om_ok m \<Longrightarrow> map_of (om_erase k m) = (map_of m)(k := None)"
proof (induction k m rule: om_erase.induct)
  case (2 k k' v' m)
  have "map_of m k' = None"
    using 2(2) by (metis domIff less_irrefl om_ok_Cons_dom)
  with 2 show ?case by (auto simp: om_ok_Cons fun_eq_iff)
qed auto

lemmas om_maps = map_of_emplace map_of_set map_of_erase

text \<open>Two maps with the same lookups are the same list.\<close>

lemma om_eqI:
  assumes "om_ok m" and "om_ok m'" and "map_of m = map_of m'"
  shows "m = m'"
proof -
  have "set m = set m'"
    using om_in_set [OF assms(1)] om_in_set [OF assms(2)] assms(3) by auto
  moreover have "sorted (map fst m)" "sorted (map fst m')"
    using assms(1,2) by (auto simp: om_ok_def strict_sorted_iff)
  moreover have "inj_on fst (set m \<union> set m')"
    using om_ok_distinct [OF assms(1)] \<open>set m = set m'\<close> by (simp add: distinct_map)
  ultimately show ?thesis
    using om_ok_distinct [OF assms(1)] om_ok_distinct [OF assms(2)]
    by (simp add: distinct_map map_sorted_distinct_set_unique)
qed

lemma om_split_node:
  assumes "om_ok m" and "map_of m k = Some v"
  shows "m = om_before k m @ (k, v) # om_after k m"
  using assms
proof (induction m)
  case (Cons e m)
  obtain k' v' where e: "e = (k', v')" by force
  show ?case
  proof (cases "k' = k")
    case True
    have "dropWhile (\<lambda>x. fst x \<le> k) m = m"
      using Cons.prems(1) True e by (cases m) (auto simp: om_ok_Cons)
    with True Cons.prems e show ?thesis by (simp add: om_before_def om_after_def)
  next
    case False
    with Cons.prems e have "map_of m k = Some v" by simp
    moreover from this Cons.prems e have "k' < k" by (force simp: om_ok_Cons_dom)
    ultimately show ?thesis
      using Cons e by (simp add: om_before_def om_after_def om_ok_Cons)
  qed
qed simp

lemma om_erase_node: "om_ok (xs @ (k, v) # ys) \<Longrightarrow> om_erase k (xs @ (k, v) # ys) = xs @ ys"
  by (induction xs) (auto simp: om_ok_Cons)

lemma om_set_node:
  "om_ok (xs @ (k, v) # ys) \<Longrightarrow> om_set k w (xs @ (k, v) # ys) = xs @ (k, w) # ys"
  by (induction xs) (auto simp: om_ok_Cons)

lemma om_emplace_node:
  "\<lbrakk>\<forall>e\<in>set xs. fst e < k; \<forall>e\<in>set ys. k < fst e\<rbrakk> \<Longrightarrow> om_emplace k v (xs @ ys) = xs @ (k, v) # ys"
  by (induction xs) (cases ys; auto)+

text \<open>Positions in a map that is split at a node or at a key.\<close>

lemma om_before_append:
  "\<lbrakk>\<forall>e\<in>set xs. fst e < k; \<forall>e\<in>set ys. k \<le> fst e\<rbrakk> \<Longrightarrow> om_before k (xs @ ys) = xs"
  by (induction xs) (cases ys; auto simp: om_before_def)+

lemma om_from_append:
  "\<lbrakk>\<forall>e\<in>set xs. fst e < k; \<forall>e\<in>set ys. k \<le> fst e\<rbrakk> \<Longrightarrow> om_from k (xs @ ys) = ys"
  by (induction xs) (cases ys; auto simp: om_from_def)+

lemma om_after_append:
  "\<lbrakk>\<forall>e\<in>set xs. fst e \<le> k; \<forall>e\<in>set ys. k < fst e\<rbrakk> \<Longrightarrow> om_after k (xs @ ys) = ys"
  by (induction xs) (cases ys; auto simp: om_after_def)+

lemma om_ok_node:
  "om_ok (xs @ (k, v) # ys) \<longleftrightarrow>
     om_ok xs \<and> om_ok ys \<and> (\<forall>e\<in>set xs. fst e < k) \<and> (\<forall>e\<in>set ys. k < fst e)"
  by (fastforce simp: om_ok_append om_ok_Cons intro: less_trans)

lemma om_node_find: "om_ok (xs @ (k, v) # ys) \<Longrightarrow> map_of (xs @ (k, v) # ys) k = Some v"
  by (simp only: om_in_set) simp

lemma om_node_before: "om_ok (xs @ (k, v) # ys) \<Longrightarrow> om_before k (xs @ (k, v) # ys) = xs"
  by (rule om_before_append) (auto simp: om_ok_node less_imp_le)

lemma om_node_from: "om_ok (xs @ (k, v) # ys) \<Longrightarrow> om_from k (xs @ (k, v) # ys) = (k, v) # ys"
  by (rule om_from_append) (auto simp: om_ok_node less_imp_le)

lemma om_node_after: "om_ok (xs @ (k, v) # ys) \<Longrightarrow> om_after k (xs @ (k, v) # ys) = ys"
  using om_after_append [of "xs @ [(k, v)]" k ys] by (auto simp: om_ok_node less_imp_le)

lemma om_node_next: "om_ok (xs @ (k, v) # ys) \<Longrightarrow> om_next k (xs @ (k, v) # ys) = om_begin ys"
  by (simp add: om_next_def om_upper_bound_def om_node_after)

lemma om_node_prev:
  "om_ok (xs @ (k, v) # ys) \<Longrightarrow>
   om_prev (Some k) (xs @ (k, v) # ys) = (if xs = [] then None else Some (fst (last xs)))"
  by (simp add: om_node_before Let_def)

lemmas om_nodes = om_node_before om_node_from om_node_after om_node_next om_node_prev
  om_erase_node om_set_node

lemma om_node_obtain:
  assumes "om_ok m" and "map_of m k = Some v"
  obtains xs ys where "m = xs @ (k, v) # ys"
  using om_split_node [OF assms] by blast

lemma om_iter_from_begin: "om_ok m \<Longrightarrow> om_iter_from (om_begin (om_from k m)) m = om_from k m"
proof (cases "om_from k m")
  case (Cons e ys)
  assume ok: "om_ok m"
  have m: "m = om_before k m @ (fst e, snd e) # ys"
    using Cons om_split_at [of m k] by simp
  show ?thesis
    using om_node_from [of "om_before k m" "fst e" "snd e" ys] ok m Cons
    by (simp add: om_begin_def)
qed (simp add: om_begin_def)

lemma om_iter_to_append:
  assumes "om_ok (xs @ ys)"
  shows "om_iter_to (om_begin ys) (xs @ ys) = xs"
proof (cases ys)
  case (Cons e zs)
  then show ?thesis
    using om_node_before [of xs "fst e" "snd e" zs] assms by (simp add: om_begin_def)
qed (simp add: om_begin_def)

lemma om_iter_from_append:
  assumes "om_ok (xs @ ys)"
  shows "om_iter_from (om_begin ys) (xs @ ys) = ys"
proof (cases ys)
  case (Cons e zs)
  then show ?thesis
    using om_node_from [of xs "fst e" "snd e" zs] assms by (simp add: om_begin_def)
qed (simp add: om_begin_def)

lemma om_range_append:
  assumes "om_ok (xs @ ys @ zs)"
  shows "om_range (om_begin (ys @ zs)) (om_begin zs) (xs @ ys @ zs) = ys"
  using assms om_iter_from_append [of xs "ys @ zs"] om_iter_to_append [of ys zs]
  by (simp add: om_range_def om_ok_append)

lemma om_lower_bound_append:
  "\<lbrakk>\<forall>e\<in>set xs. fst e < k; \<forall>e\<in>set ys. k \<le> fst e\<rbrakk> \<Longrightarrow>
   om_lower_bound k (xs @ ys) = om_begin ys"
  by (simp add: om_lower_bound_def om_from_append)

lemma om_upper_bound_append:
  "\<lbrakk>\<forall>e\<in>set xs. fst e \<le> k; \<forall>e\<in>set ys. k < fst e\<rbrakk> \<Longrightarrow>
   om_upper_bound k (xs @ ys) = om_begin ys"
  by (simp add: om_upper_bound_def om_after_append)

lemma om_begin_simps [simp]: "om_begin [] = None" "om_begin (e # m) = Some (fst e)"
  by (simp_all add: om_begin_def)

lemma om_prev_append:
  assumes "om_ok (xs @ ys)"
  shows "om_prev (om_begin ys) (xs @ ys) = (if xs = [] then None else Some (fst (last xs)))"
proof (cases ys)
  case (Cons e zs)
  then show ?thesis
    using om_node_prev [of xs "fst e" "snd e" zs] assms by simp
qed simp

subsection \<open>Positions\<close>

lemma om_from_dom: "om_ok m \<Longrightarrow> dom (map_of (om_from k m)) = {j \<in> dom (map_of m). k \<le> j}"
  using om_from_set [of m k] by (auto simp flip: om_keys)

lemma om_after_dom: "om_ok m \<Longrightarrow> dom (map_of (om_after k m)) = {j \<in> dom (map_of m). k < j}"
  using om_after_set [of m k] by (auto simp flip: om_keys)

lemma om_before_dom: "om_ok m \<Longrightarrow> dom (map_of (om_before k m)) = {j \<in> dom (map_of m). j < k}"
  using om_before_set [of m k] by (auto simp flip: om_keys)

lemma om_begin_Some: "om_ok m \<Longrightarrow>
  om_begin m = Some k \<longleftrightarrow> k \<in> dom (map_of m) \<and> (\<forall>j \<in> dom (map_of m). k \<le> j)"
proof (cases m)
  case (Cons e xs)
  assume "om_ok m"
  with Cons have "\<forall>j\<in>dom (map_of xs). fst e < j" by (cases e) (simp add: om_ok_Cons_dom)
  moreover have "dom (map_of m) = insert (fst e) (dom (map_of xs))"
    using Cons by (simp flip: om_keys)
  ultimately show ?thesis
    by (simp add: om_begin_def Cons del: dom_eq_empty_conv) (metis order.antisym less_imp_le order.refl)
qed (simp add: om_begin_def)

lemma om_begin_None: "om_begin m = None \<longleftrightarrow> dom (map_of m) = {}"
  by (cases m) (auto simp: om_begin_def)

lemma om_last_Some:
  assumes "om_ok m" and "m \<noteq> []"
  shows "fst (last m) = k \<longleftrightarrow> k \<in> dom (map_of m) \<and> (\<forall>j \<in> dom (map_of m). j \<le> k)"
proof -
  obtain xs e where m: "m = xs @ [e]" using assms(2) by (metis rev_exhaust)
  have "dom (map_of m) = insert (fst e) (fst ` set xs)" by (simp add: m flip: om_keys)
  moreover have "\<forall>j\<in>fst ` set xs. j < fst e" using assms(1) by (simp add: m om_ok_append)
  ultimately show ?thesis by (auto simp: m)
qed

lemma om_lower_bound_Some: "om_ok m \<Longrightarrow>
  om_lower_bound a m = Some k \<longleftrightarrow>
    k \<in> dom (map_of m) \<and> a \<le> k \<and> (\<forall>j \<in> dom (map_of m). a \<le> j \<longrightarrow> k \<le> j)"
  by (simp add: om_lower_bound_def om_begin_Some om_from_dom) blast

lemma om_lower_bound_None: "om_ok m \<Longrightarrow>
  om_lower_bound a m = None \<longleftrightarrow> (\<forall>j \<in> dom (map_of m). j < a)"
  by (simp add: om_lower_bound_def om_begin_None om_from_dom) (meson linorder_not_less)

lemma om_upper_bound_Some: "om_ok m \<Longrightarrow>
  om_upper_bound a m = Some k \<longleftrightarrow>
    k \<in> dom (map_of m) \<and> a < k \<and> (\<forall>j \<in> dom (map_of m). a < j \<longrightarrow> k \<le> j)"
  by (simp add: om_upper_bound_def om_begin_Some om_after_dom) blast

lemma om_upper_bound_None: "om_ok m \<Longrightarrow>
  om_upper_bound a m = None \<longleftrightarrow> (\<forall>j \<in> dom (map_of m). j \<le> a)"
  by (simp add: om_upper_bound_def om_begin_None om_after_dom) (meson linorder_not_less)

lemma om_prev_Some: "om_ok m \<Longrightarrow>
  om_prev (Some a) m = Some k \<longleftrightarrow>
    k \<in> dom (map_of m) \<and> k < a \<and> (\<forall>j \<in> dom (map_of m). j < a \<longrightarrow> j \<le> k)"
  using om_last_Some [of "om_before a m" k] om_before_dom [of m a]
  by (cases "om_before a m = []") (auto simp: Let_def)

lemma om_prev_None: "om_ok m \<Longrightarrow>
  om_prev (Some a) m = None \<longleftrightarrow> (\<forall>j \<in> dom (map_of m). a \<le> j)"
proof -
  assume "om_ok m"
  then have "om_prev (Some a) m = None \<longleftrightarrow> {j \<in> dom (map_of m). j < a} = {}"
    by (simp add: Let_def flip: om_before_dom)
  then show ?thesis by (simp only: Collect_empty_eq) (meson linorder_not_less)
qed

lemma om_prev_end_Some: "om_ok m \<Longrightarrow>
  om_prev None m = Some k \<longleftrightarrow> k \<in> dom (map_of m) \<and> (\<forall>j \<in> dom (map_of m). j \<le> k)"
  using om_last_Some [of m k] by (cases "m = []") auto

lemma om_prev_end_None: "om_prev None m = None \<longleftrightarrow> dom (map_of m) = {}"
  by (auto simp flip: om_keys)

declare om_prev.simps [simp del]

lemma om_floor_Some:
  assumes "om_ok m"
  shows "om_floor a m = Some k \<longleftrightarrow>
    k \<in> dom (map_of m) \<and> k \<le> a \<and> (\<forall>j \<in> dom (map_of m). j \<le> a \<longrightarrow> j \<le> k)"
proof (cases "om_upper_bound a m")
  case None
  then have "\<forall>j \<in> dom (map_of m). j \<le> a"
    using assms by (simp only: om_upper_bound_None)
  with None assms show ?thesis
    by (simp only: om_floor_def om_prev_end_Some) blast
next
  case (Some u)
  then have "\<forall>j \<in> dom (map_of m). j < u \<longleftrightarrow> j \<le> a"
    using assms by (simp only: om_upper_bound_Some) (meson linorder_not_less order.strict_trans1)
  with Some assms show ?thesis
    by (simp only: om_floor_def om_prev_Some) blast
qed

lemma om_floor_None:
  assumes "om_ok m"
  shows "om_floor a m = None \<longleftrightarrow> (\<forall>j \<in> dom (map_of m). a < j)"
proof (cases "om_upper_bound a m")
  case None
  then have "\<forall>j \<in> dom (map_of m). j \<le> a"
    using assms by (simp only: om_upper_bound_None)
  with None assms show ?thesis
    by (simp only: om_floor_def om_prev_end_None) (metis empty_iff equals0I linorder_not_less)
next
  case (Some u)
  then have "\<forall>j \<in> dom (map_of m). u \<le> j \<longleftrightarrow> a < j"
    using assms by (simp only: om_upper_bound_Some) (meson order.strict_trans2)
  with Some assms show ?thesis
    by (simp only: om_floor_def om_prev_None) blast
qed

end
