(* ===== verification/IntervalMap.thy ===== *)
theory IntervalMap
  imports OrderedMap
begin

text \<open>
  Ordered maps whose nodes are address ranges: the key is the first address of a node and
  \<open>sz\<close> reads its length off the stored value.  Most of the memory manager's state is such a
  map (the virtual ranges, the physical blocks, the free ranges, the backing views).
  \<open>im_ok\<close> is their invariant (no empty node, no overlap, no wrap-around), \<open>im_at\<close> the node
  that holds an address, and \<open>im_cover\<close> the set of addresses the map holds.
\<close>

definition im_ok :: "('v \<Rightarrow> nat) \<Rightarrow> 'v omap \<Rightarrow> bool" where
  "im_ok sz m \<longleftrightarrow> om_ok m
     \<and> (\<forall>k v. map_of m k = Some v \<longrightarrow> 0 < sz v \<and> k + sz v < two64)
     \<and> (\<forall>j k v w. map_of m j = Some v \<and> map_of m k = Some w \<and> j < k \<longrightarrow> j + sz v \<le> k)"

definition im_at :: "('v \<Rightarrow> nat) \<Rightarrow> 'v omap \<Rightarrow> u64 \<Rightarrow> (u64 \<times> 'v) option" where
  "im_at sz m a =
     (case om_floor a m of None \<Rightarrow> None
      | Some k \<Rightarrow> (case map_of m k of None \<Rightarrow> None
                   | Some v \<Rightarrow> if a < k + sz v then Some (k, v) else None))"

definition im_cover :: "('v \<Rightarrow> nat) \<Rightarrow> 'v omap \<Rightarrow> u64 set" where
  "im_cover sz m = (\<Union>(k, v) \<in> set m. span k (sz v))"

definition om_sum :: "('v \<Rightarrow> nat) \<Rightarrow> 'v omap \<Rightarrow> nat" where
  "om_sum f m = sum_list (map (\<lambda>(k, v). f v) m)"

lemma im_okD:
  assumes "im_ok sz m"
  shows "om_ok m"
    and "map_of m k = Some v \<Longrightarrow> 0 < sz v"
    and "map_of m k = Some v \<Longrightarrow> k + sz v < two64"
    and "map_of m j = Some v \<Longrightarrow> map_of m k = Some w \<Longrightarrow> j < k \<Longrightarrow> j + sz v \<le> k"
  using assms unfolding im_ok_def by blast+

lemma im_okI:
  assumes "om_ok m"
    and "\<And>k v. map_of m k = Some v \<Longrightarrow> 0 < sz v \<and> k + sz v < two64"
    and "\<And>j k v w. map_of m j = Some v \<Longrightarrow> map_of m k = Some w \<Longrightarrow> j < k \<Longrightarrow> j + sz v \<le> k"
  shows "im_ok sz m"
  using assms unfolding im_ok_def by blast

lemma im_ok_Nil [simp]: "im_ok sz []"
  by (simp add: im_ok_def)

lemma im_ok_om [simp, intro]: "im_ok sz m \<Longrightarrow> om_ok m"
  by (rule im_okD)

lemma im_at_eqI:
  assumes ok: "im_ok sz m" and v: "map_of m k = Some v" and le: "k \<le> a" and lt: "a < k + sz v"
  shows "im_at sz m a = Some (k, v)"
proof -
  have "j \<le> k" if "j \<in> dom (map_of m)" "j \<le> a" for j
  proof (rule ccontr)
    assume "\<not> j \<le> k"
    then have "k + sz v \<le> j" using im_okD(4) [OF ok v] that(1) by auto
    with that(2) lt show False by simp
  qed
  then have "om_floor a m = Some k"
    using v le by (simp add: om_floor_Some [OF im_okD(1) [OF ok]]) blast
  then show ?thesis using v lt by (simp add: im_at_def)
qed

lemma im_at_Some:
  assumes "im_ok sz m"
  shows "im_at sz m a = Some (k, v) \<longleftrightarrow> map_of m k = Some v \<and> k \<le> a \<and> a < k + sz v"
proof
  assume "im_at sz m a = Some (k, v)"
  then show "map_of m k = Some v \<and> k \<le> a \<and> a < k + sz v"
    using om_floor_Some [OF im_okD(1) [OF assms], of a k]
    by (simp add: im_at_def split: option.splits if_splits)
qed (use im_at_eqI [OF assms] in blast)

lemma im_at_None:
  assumes "im_ok sz m"
  shows "im_at sz m a = None \<longleftrightarrow> (\<forall>k v. map_of m k = Some v \<longrightarrow> \<not> (k \<le> a \<and> a < k + sz v))"
  using im_at_Some [OF assms] by (metis not_None_eq surj_pair)

lemma im_at_unique:
  assumes "im_ok sz m" and "map_of m j = Some v" and "map_of m k = Some w"
    and "j \<le> a" "a < j + sz v" "k \<le> a" "a < k + sz w"
  shows "j = k"
  using im_at_eqI [OF assms(1,2,4,5)] im_at_eqI [OF assms(1,3,6,7)] by simp

lemma im_cover_at: "im_ok sz m \<Longrightarrow> a \<in> im_cover sz m \<longleftrightarrow> im_at sz m a \<noteq> None"
  by (force simp: im_cover_def im_at_None om_in_set [OF im_okD(1), symmetric])

lemma im_cover_iff:
  "om_ok m \<Longrightarrow> a \<in> im_cover sz m \<longleftrightarrow> (\<exists>k v. map_of m k = Some v \<and> k \<le> a \<and> a < k + sz v)"
  by (force simp: im_cover_def om_in_set [symmetric])

lemma im_cover_bound: "im_ok sz m \<Longrightarrow> a \<in> im_cover sz m \<Longrightarrow> a < two64"
  by (force simp: im_cover_iff dest: im_okD(3))

lemma im_cover_Nil [simp]: "im_cover sz [] = {}"
  by (simp add: im_cover_def)

lemma im_cover_Cons [simp]: "im_cover sz ((k, v) # m) = span k (sz v) \<union> im_cover sz m"
  by (auto simp: im_cover_def)

lemma im_cover_append [simp]: "im_cover sz (xs @ ys) = im_cover sz xs \<union> im_cover sz ys"
  by (auto simp: im_cover_def)

subsection \<open>Inserting, removing and changing nodes\<close>

lemma im_ok_erase: "im_ok sz m \<Longrightarrow> im_ok sz (om_erase k m)"
  by (rule im_okI) (auto simp: map_of_erase dest: im_okD split: if_splits)

lemma im_ok_emplace:
  assumes ok: "im_ok sz m" and "0 < sz v" and "k + sz v < two64"
    and free: "\<And>a. a \<in> span k (sz v) \<Longrightarrow> im_at sz m a = None"
  shows "im_ok sz (om_emplace k v m)"
proof (cases "map_of m k")
  case (Some w)
  with ok show ?thesis by (simp add: map_of_emplace im_ok_def)
next
  case None
  have after: "k + sz v \<le> j" if "map_of m j = Some w" "k < j" for j w
  proof (rule ccontr)
    assume "\<not> k + sz v \<le> j"
    then have "im_at sz m j = None" using that free by simp
    moreover have "im_at sz m j = Some (j, w)"
      using im_at_eqI [OF ok that(1)] im_okD(2) [OF ok that(1)] by simp
    ultimately show False by simp
  qed
  have before: "j + sz w \<le> k" if "map_of m j = Some w" "j < k" for j w
  proof (rule ccontr)
    assume "\<not> j + sz w \<le> k"
    then have "im_at sz m k = Some (j, w)" using that im_at_eqI [OF ok that(1)] by simp
    moreover have "im_at sz m k = None" using free assms(2) by simp
    ultimately show False by simp
  qed
  show ?thesis
    by (rule im_okI)
       (use None assms(1-3) after before in
         \<open>auto simp: map_of_emplace dest: im_okD split: if_splits\<close>)
qed

lemma om_sum_emplace: "map_of m k = None \<Longrightarrow> om_sum f (om_emplace k v m) = om_sum f m + f v"
  by (induction k v m rule: om_emplace.induct) (auto simp: om_sum_def split: if_splits)

lemma om_sum_erase: "map_of m k = Some v \<Longrightarrow> om_sum f (om_erase k m) + f v = om_sum f m"
  by (induction k m rule: om_erase.induct) (auto simp: om_sum_def split: if_splits)

lemma om_sum_set:
  "map_of m k = Some v \<Longrightarrow> om_sum f (om_set k w m) + f v = om_sum f m + f w"
  by (induction k w m rule: om_set.induct) (auto simp: om_sum_def split: if_splits)

lemma im_cover_sum:
  assumes "im_ok sz m"
  shows "card (im_cover sz m) = om_sum sz m"
  using assms
proof (induction m)
  case (Cons e m)
  obtain k v where e: "e = (k, v)" by force
  have ok: "om_ok ((k, v) # m)" using Cons.prems e by auto
  then have none: "map_of m k = None" by (metis domIff less_irrefl om_ok_Cons_dom)
  have m: "om_erase k ((k, v) # m) = m" by simp
  have ok': "im_ok sz m" using im_ok_erase [OF Cons.prems, of k] e m by simp
  have "span k (sz v) \<inter> im_cover sz m = {}"
  proof (rule equals0I)
    fix a assume "a \<in> span k (sz v) \<inter> im_cover sz m"
    then obtain j w where "k \<le> a" "a < k + sz v" "map_of m j = Some w" "j \<le> a" "a < j + sz w"
      using ok' by (auto simp: im_cover_iff)
    moreover from this(3) none have "map_of (e # m) j = Some w" "j \<noteq> k" by (auto simp: e)
    ultimately show False
      using im_at_unique [OF Cons.prems, of k v j w a] by (auto simp: e)
  qed
  moreover have "finite (im_cover sz m)" by (auto simp: im_cover_def)
  ultimately show ?case
    using Cons.IH [OF ok'] by (simp add: e card_Un_disjoint om_sum_def)
qed (simp add: om_sum_def)

lemma om_sum_mono: "(\<And>k v. (k, v) \<in> set m \<Longrightarrow> f v \<le> g v) \<Longrightarrow> om_sum f m \<le> om_sum g m"
  by (induction m) (force simp: om_sum_def intro: add_mono)+

lemma im_sum_bound: "im_ok sz m \<Longrightarrow> om_sum sz m \<le> U64_MAX"
proof -
  assume ok: "im_ok sz m"
  have "im_cover sz m \<subseteq> {0..<U64_MAX}"
    using im_okD(3) [OF ok] by (auto simp: im_cover_iff im_okD(1) [OF ok]) force
  then have "card (im_cover sz m) \<le> card {0..<U64_MAX}" by (rule card_mono [rotated]) simp
  then show ?thesis using im_cover_sum [OF ok] by simp
qed

subsection \<open>The list of nodes\<close>

lemma im_ok_sorted:
  "im_ok sz m \<longleftrightarrow>
     sorted_wrt (\<lambda>x y. fst x + sz (snd x) \<le> fst y) m
     \<and> (\<forall>e\<in>set m. 0 < sz (snd e) \<and> fst e + sz (snd e) < two64)"
proof (induction m)
  case (Cons e m)
  obtain k v where e: "e = (k, v)" by force
  show ?case
  proof
    assume ok: "im_ok sz (e # m)"
    then have om: "om_ok ((k, v) # m)" by (simp add: e im_okD(1))
    have "map_of m k = None" using om by (metis domIff less_irrefl om_ok_Cons_dom)
    then have "im_ok sz m" using im_ok_erase [OF ok, of k] e by simp
    moreover have "k + sz v \<le> fst x" if "x \<in> set m" for x
    proof -
      have "k < fst x" "om_ok m" using om that by (auto simp: om_ok_Cons)
      then have "map_of ((k, v) # m) (fst x) = Some (snd x)"
        using that by (simp add: om_in_set)
      then show ?thesis using im_okD(4) [OF ok, of k v "fst x"] \<open>k < fst x\<close> e by simp
    qed
    ultimately show "sorted_wrt (\<lambda>x y. fst x + sz (snd x) \<le> fst y) (e # m)
      \<and> (\<forall>e\<in>set (e # m). 0 < sz (snd e) \<and> fst e + sz (snd e) < two64)"
      using Cons.IH im_okD(2,3) [OF ok, of k v] by (simp add: e)
  next
    assume *: "sorted_wrt (\<lambda>x y. fst x + sz (snd x) \<le> fst y) (e # m)
      \<and> (\<forall>e\<in>set (e # m). 0 < sz (snd e) \<and> fst e + sz (snd e) < two64)"
    then have ok: "im_ok sz m" using Cons.IH by simp
    have ge: "k + sz v \<le> j" if "map_of m j = Some w" for j w
      using * that by (force simp: e dest: map_of_SomeD)
    have pos: "0 < sz v" "k + sz v < two64" using * by (simp_all add: e)
    have "om_ok (e # m)" using ge pos im_okD(1) [OF ok] by (force simp: e om_ok_Cons_dom)
    then show "im_ok sz (e # m)"
    proof (rule im_okI)
      fix j x y z
      assume jk: "map_of (e # m) j = Some y" "map_of (e # m) x = Some z" "j < x"
      have "x \<noteq> k" using jk ge pos by (force simp: e split: if_splits)
      then show "j + sz y \<le> x"
        using jk ge im_okD(4) [OF ok] by (auto simp: e split: if_splits)
    qed (use pos im_okD(2,3) [OF ok] in \<open>auto simp: e split: if_splits\<close>)
  qed
qed (simp add: im_ok_def)

lemma im_ok_append:
  "im_ok sz (xs @ ys) \<longleftrightarrow> im_ok sz xs \<and> im_ok sz ys
     \<and> (\<forall>x\<in>set xs. \<forall>y\<in>set ys. fst x + sz (snd x) \<le> fst y)"
  by (auto simp: im_ok_sorted sorted_wrt_append)

lemma im_ok_Cons:
  "im_ok sz ((k, v) # m) \<longleftrightarrow> im_ok sz m \<and> 0 < sz v \<and> k + sz v < two64
     \<and> (\<forall>e\<in>set m. k + sz v \<le> fst e)"
  by (auto simp: im_ok_sorted)

text \<open>
  \<open>im_view sz f m\<close> is what a map says of every address: the node holding \<open>a\<close>, with key \<open>k\<close>
  and value \<open>v\<close>, says \<open>f k v a\<close>.
\<close>

fun im_view :: "('v \<Rightarrow> nat) \<Rightarrow> (u64 \<Rightarrow> 'v \<Rightarrow> u64 \<Rightarrow> 'b) \<Rightarrow> 'v omap \<Rightarrow> u64 \<Rightarrow> 'b option" where
  "im_view sz f [] a = None"
| "im_view sz f ((k, v) # m) a =
     (if k \<le> a \<and> a < k + sz v then Some (f k v a) else im_view sz f m a)"

lemma im_view_append:
  "im_view sz f (xs @ ys) a =
     (case im_view sz f xs a of None \<Rightarrow> im_view sz f ys a | Some b \<Rightarrow> Some b)"
  by (induction xs) auto

lemma im_view_None: "im_view sz f m a = None \<longleftrightarrow> a \<notin> im_cover sz m"
  by (induction m) (auto split: if_splits)

lemma im_view_at: "im_ok sz m \<Longrightarrow>
  im_view sz f m a = map_option (\<lambda>(k, v). f k v a) (im_at sz m a)"
proof (cases "im_at sz m a")
  case None
  assume "im_ok sz m"
  then show ?thesis using None by (simp add: im_view_None im_cover_at)
next
  case (Some e)
  obtain k v where e: "e = (k, v)" by force
  assume ok: "im_ok sz m"
  then have kv: "map_of m k = Some v" "k \<le> a" "a < k + sz v"
    using Some by (simp_all add: e im_at_Some)
  obtain xs ys where m: "m = xs @ (k, v) # ys" by (rule om_node_obtain [OF im_okD(1) [OF ok] kv(1)])
  have "a \<notin> im_cover sz xs"
  proof
    assume "a \<in> im_cover sz xs"
    then obtain j w where "(j, w) \<in> set xs" "j \<le> a" "a < j + sz w"
      by (auto simp: im_cover_def)
    moreover from this(1) have "j + sz w \<le> k" using ok by (simp add: m im_ok_append) force
    ultimately show False using kv(2) by simp
  qed
  then have "im_view sz f xs a = None" by (simp add: im_view_None)
  then show ?thesis using kv(2,3) by (simp add: Some e) (simp add: m im_view_append)
qed

lemma im_view_below: "\<lbrakk>\<forall>e\<in>set m. s \<le> fst e; a < s\<rbrakk> \<Longrightarrow> im_view sz f m a = None"
  by (induction m) auto

lemma im_view_above: "\<lbrakk>\<forall>e\<in>set m. fst e + sz (snd e) \<le> t; t \<le> a\<rbrakk> \<Longrightarrow> im_view sz f m a = None"
  by (induction m) auto

text \<open>A map that is cut at \<open>s\<close> and at \<open>t\<close>, and what it says of the three parts.\<close>

definition im_cut :: "('v \<Rightarrow> nat) \<Rightarrow> u64 \<Rightarrow> 'v omap \<Rightarrow> 'v omap \<Rightarrow> bool" where
  "im_cut sz s xs ys \<longleftrightarrow>
     (\<forall>e\<in>set xs. fst e + sz (snd e) \<le> s) \<and> (\<forall>e\<in>set ys. s \<le> fst e)"

lemma im_view_cut3:
  assumes "im_cut sz s xs (ys @ zs)" and "im_cut sz t (xs @ ys) zs"
  shows "im_view sz f (xs @ ys @ zs) a =
    (if a < s then im_view sz f xs a else if a < t then im_view sz f ys a
     else im_view sz f zs a)"
proof -
  have "im_view sz f xs a = None" if "\<not> a < s"
    using assms that im_view_above [of xs sz s a f] by (auto simp: im_cut_def)
  moreover have "im_view sz f ys a = None" if "a < s"
    using assms that im_view_below [of ys s a sz f] by (auto simp: im_cut_def)
  moreover have "im_view sz f zs a = None" if "a < t \<or> a < s"
    using assms that im_view_below [of zs s a sz f] im_view_below [of zs t a sz f]
    by (auto simp: im_cut_def)
  moreover have "im_view sz f ys a = None" if "\<not> a < t"
    using assms that im_view_above [of ys sz t a f] by (auto simp: im_cut_def)
  ultimately show ?thesis by (auto simp: im_view_append split: option.splits)
qed

end
