(* ===== verification/MemBase.thy ===== *)
theory MemBase
  imports IntervalMap
begin

unbundle bit_operations_syntax

text \<open>
  The data the memory manager's classes share (src/kernel/memory.cpp): host protection modes,
  GPU access modes, kinds of virtual ranges, range names, overlap tests and the rounding of
  addresses.  A \<open>char name[32]\<close> buffer is the string it holds, at most 31 characters long.
\<close>

datatype vm_mode = NoAccess | MRead | MWrite | ReadWrite | Execute | ExecuteRead
  | ExecuteWrite | ExecuteReadWrite

datatype gpu_mode = GpuNoAccess | GpuRead | GpuWrite | GpuReadWrite

datatype range_type = Reserved | PoolReserved | Direct | Flexible | Pooled | Stack | Code | Runtime

type_synonym prot = "32 word"

definition is_execute :: "vm_mode \<Rightarrow> bool" where
  "is_execute mode \<longleftrightarrow> mode = Execute \<or> mode = ExecuteRead \<or> mode = ExecuteWrite
     \<or> mode = ExecuteReadWrite"

abbreviation PROT_CPU_READ :: prot where "PROT_CPU_READ \<equiv> 0x01"
abbreviation PROT_CPU_WRITE :: prot where "PROT_CPU_WRITE \<equiv> 0x02"
abbreviation PROT_CPU_EXEC :: prot where "PROT_CPU_EXEC \<equiv> 0x04"
abbreviation PROT_GPU_READ :: prot where "PROT_GPU_READ \<equiv> 0x10"
abbreviation PROT_GPU_WRITE :: prot where "PROT_GPU_WRITE \<equiv> 0x20"

abbreviation PAGE_TABLE_GRANULARITY :: u64 where
  "PAGE_TABLE_GRANULARITY \<equiv> 2097152"

definition decode_memory_protection :: "prot \<Rightarrow> (vm_mode \<times> gpu_mode) option" where
  "decode_memory_protection p =
     (let cpu_read = (p AND PROT_CPU_READ) \<noteq> 0;
          cpu_write = (p AND PROT_CPU_WRITE) \<noteq> 0;
          cpu_exec = (p AND PROT_CPU_EXEC) \<noteq> 0;
          gpu_read = (p AND PROT_GPU_READ) \<noteq> 0;
          gpu_write = (p AND PROT_GPU_WRITE) \<noteq> 0
      in if p AND (PROT_CPU_READ OR PROT_CPU_WRITE OR PROT_CPU_EXEC OR PROT_GPU_READ
                   OR PROT_GPU_WRITE) = 0 \<and> p \<noteq> 0
         then None
         else
           (let gmode = (if gpu_read \<and> gpu_write then GpuReadWrite
                         else if gpu_read then GpuRead
                         else if gpu_write then GpuWrite
                         else GpuNoAccess);
                host_write = (cpu_write \<or> gpu_write);
                host_read = (if host_write then True else cpu_read \<or> gpu_read);
                mode = (if cpu_exec
                        then (if host_write then ExecuteReadWrite
                              else if host_read then ExecuteRead else Execute)
                        else if host_write then ReadWrite
                        else if host_read then MRead
                        else NoAccess)
            in Some (mode, gmode)))"

definition copy_virtual_range_name :: "string option \<Rightarrow> string" where
  "copy_virtual_range_name name = (case name of None \<Rightarrow> [] | Some s \<Rightarrow> take 31 s)"

text \<open>\<open>VirtualRanges::End\<close>: the end of a range, saturating at \<open>UINT64_MAX\<close>.\<close>

definition range_end :: "u64 \<Rightarrow> u64 \<Rightarrow> u64" where
  "range_end start sz = (if U64_MAX - start < sz then U64_MAX else start + sz)"

definition virtual_ranges_overlap :: "u64 \<Rightarrow> u64 \<Rightarrow> u64 \<Rightarrow> u64 \<Rightarrow> bool" where
  "virtual_ranges_overlap left_start left_size right_start right_size =
     (if left_size = 0 \<or> right_size = 0 then False
      else (let left_end = (if U64_MAX - left_start < left_size then U64_MAX
                            else left_start + left_size);
                right_end = (if U64_MAX - right_start < right_size then U64_MAX
                             else right_start + right_size)
            in left_start < right_end \<and> right_start < left_end))"

definition is_reserved_type :: "range_type \<Rightarrow> bool" where
  "is_reserved_type t \<longleftrightarrow> t = Reserved \<or> t = PoolReserved"

definition is_pooled_type :: "range_type \<Rightarrow> bool" where
  "is_pooled_type t \<longleftrightarrow> t = Pooled \<or> t = PoolReserved"

definition is_committed_type :: "range_type \<Rightarrow> bool" where
  "is_committed_type t \<longleftrightarrow> \<not> is_reserved_type t"

definition is_private_committed_type :: "range_type \<Rightarrow> bool" where
  "is_private_committed_type t \<longleftrightarrow> t = Stack \<or> t = Code \<or> t = Runtime"

text \<open>\<open>GetAlignedPos\<close> returns the pair of the fields \<open>value\<close> and \<open>valid\<close>.\<close>

definition get_aligned_pos :: "u64 \<Rightarrow> u64 \<Rightarrow> u64 \<times> bool" where
  "get_aligned_pos pos alignment =
     (if alignment = 0 then (pos, True)
      else (let remainder = pos mod alignment;
                increment = (if remainder \<noteq> 0 then alignment - remainder else 0)
            in if increment > U64_MAX - pos then (0, False)
               else (pos + increment, True)))"

lemma range_end_exact [simp]: "s + n < two64 \<Longrightarrow> range_end s n = s + n"
proof -
  assume "s + n < two64"
  then have "\<not> U64_MAX - s < n" by linarith
  then show ?thesis by (simp only: range_end_def if_False)
qed

lemma virtual_ranges_overlap_alt:
  "virtual_ranges_overlap s m t n \<longleftrightarrow>
     m \<noteq> 0 \<and> n \<noteq> 0 \<and> s < range_end t n \<and> t < range_end s m"
  by (simp add: virtual_ranges_overlap_def range_end_def Let_def)

lemma virtual_ranges_overlap_iff:
  assumes "s + m < two64" and "t + n < two64"
  shows "virtual_ranges_overlap s m t n \<longleftrightarrow> span s m \<inter> span t n \<noteq> {}"
proof -
  have "virtual_ranges_overlap s m t n \<longleftrightarrow> m \<noteq> 0 \<and> n \<noteq> 0 \<and> s < t + n \<and> t < s + m"
    using assms by (simp add: virtual_ranges_overlap_alt)
  also have "\<dots> \<longleftrightarrow> max s t \<in> span s m \<inter> span t n" by (auto simp: max_def)
  also have "\<dots> \<longleftrightarrow> span s m \<inter> span t n \<noteq> {}"
  proof
    assume "span s m \<inter> span t n \<noteq> {}"
    then obtain a where "a \<in> span s m" "a \<in> span t n" by blast
    then show "max s t \<in> span s m \<inter> span t n" by (simp add: max_def)
  qed blast
  finally show ?thesis .
qed

text \<open>Rounding up: the least multiple of the alignment that is not below the position.\<close>

definition round_up :: "nat \<Rightarrow> nat \<Rightarrow> nat" where
  "round_up pos al = (if pos mod al = 0 then pos else pos + (al - pos mod al))"

lemma round_up_ge: "pos \<le> round_up pos al"
  by (simp add: round_up_def)

lemma round_up_dvd: "0 < al \<Longrightarrow> al dvd round_up pos al"
proof (cases "pos mod al = 0")
  case False
  assume "0 < al"
  have "pos + (al - pos mod al) = al * (pos div al) + al"
    using mod_less_divisor [OF \<open>0 < al\<close>, of pos] mult_div_mod_eq [of al pos] by linarith
  then show ?thesis using False by (simp add: round_up_def)
qed (auto simp: round_up_def)

lemma round_up_least:
  assumes "0 < al" "al dvd q" "pos \<le> q"
  shows "round_up pos al \<le> q"
proof (cases "pos mod al = 0")
  case False
  have div: "pos = al * (pos div al) + pos mod al" by simp
  obtain c where q: "q = al * c" using assms(2) by blast
  have "al * (pos div al) < al * c" using False assms(3) div q by linarith
  then have "pos div al + 1 \<le> c" by simp
  then have "al * (pos div al + 1) \<le> al * c" by (rule mult_le_mono2)
  then have "al * (pos div al) + al \<le> q" by (simp add: q)
  then show ?thesis
    unfolding round_up_def if_not_P [OF False] using div mod_less_divisor [OF assms(1), of pos]
    by linarith
qed (use assms in \<open>simp add: round_up_def\<close>)

lemma round_up_less: "0 < al \<Longrightarrow> round_up pos al < pos + al"
  by (auto simp: round_up_def)

lemma get_aligned_pos_round:
  assumes "0 < al" and "pos < two64"
  shows "get_aligned_pos pos al =
    (if round_up pos al < two64 then (round_up pos al, True) else (0, False))"
  using assms by (auto simp: get_aligned_pos_def round_up_def Let_def)

lemma get_aligned_pos_valid:
  assumes "get_aligned_pos pos al = (p, True)" and "pos < two64"
  shows "pos \<le> p" and "p < two64" and "0 < al \<Longrightarrow> al dvd p"
    and "\<And>q. \<lbrakk>0 < al; al dvd q; pos \<le> q\<rbrakk> \<Longrightarrow> p \<le> q"
proof -
  have "al = 0 \<and> p = pos \<or> 0 < al \<and> p = round_up pos al \<and> p < two64"
    using assms get_aligned_pos_round [of al pos] unfolding get_aligned_pos_def [of pos 0]
    by (cases "al = 0") (auto simp: get_aligned_pos_def split: if_splits)
  then show "pos \<le> p" and "p < two64" and "0 < al \<Longrightarrow> al dvd p"
    and "\<And>q. \<lbrakk>0 < al; al dvd q; pos \<le> q\<rbrakk> \<Longrightarrow> p \<le> q"
    using assms(2) round_up_ge [of pos al] round_up_dvd [of al pos] round_up_least [of al _ pos]
    by auto
qed

lemma get_aligned_pos_invalid:
  assumes "get_aligned_pos pos al = (p, False)" and "pos < two64"
  shows "0 < al" and "\<And>q. \<lbrakk>al dvd q; pos \<le> q\<rbrakk> \<Longrightarrow> two64 \<le> q"
proof -
  show "0 < al" using assms by (cases al) (simp_all add: get_aligned_pos_def)
  then show "two64 \<le> q" if "al dvd q" "pos \<le> q" for q
    using assms get_aligned_pos_round [of al pos] round_up_least [OF _ that]
    by (auto split: if_splits)
qed

text \<open>What a decoded protection grants.\<close>

definition mode_reads :: "vm_mode \<Rightarrow> bool" where
  "mode_reads m \<longleftrightarrow> m = MRead \<or> m = ReadWrite \<or> m = ExecuteRead \<or> m = ExecuteReadWrite"

definition mode_writes :: "vm_mode \<Rightarrow> bool" where
  "mode_writes m \<longleftrightarrow> m = MWrite \<or> m = ReadWrite \<or> m = ExecuteWrite \<or> m = ExecuteReadWrite"

lemma and_or_mask_zero: "p AND (a OR b) = 0 \<longleftrightarrow> p AND a = 0 \<and> p AND b = 0" for p a b :: prot
  by (simp only: bit.conj_disj_distrib or_eq_0_iff)

text \<open>
  Decoding a guest protection fails exactly for a nonzero value without any known bit;
  otherwise the host mode lets the host execute, write and read as the CPU and GPU bits ask
  (a writable page is also readable), and the GPU mode mirrors the two GPU bits.
\<close>

theorem decode_memory_protection_grants:
  "case decode_memory_protection p of
     None \<Rightarrow> p \<noteq> 0 \<and> p AND 0x37 = 0
   | Some (mode, gmode) \<Rightarrow>
       \<not> (p \<noteq> 0 \<and> p AND 0x37 = 0)
       \<and> is_execute mode = (p AND PROT_CPU_EXEC \<noteq> 0)
       \<and> mode_writes mode = (p AND (PROT_CPU_WRITE OR PROT_GPU_WRITE) \<noteq> 0)
       \<and> mode_reads mode =
           (p AND (PROT_CPU_READ OR PROT_GPU_READ OR PROT_CPU_WRITE OR PROT_GPU_WRITE) \<noteq> 0)
       \<and> (gmode = GpuRead \<or> gmode = GpuReadWrite) = (p AND PROT_GPU_READ \<noteq> 0)
       \<and> (gmode = GpuWrite \<or> gmode = GpuReadWrite) = (p AND PROT_GPU_WRITE \<noteq> 0)"
proof -
  have mask: "(0x37 :: prot) = PROT_CPU_READ OR PROT_CPU_WRITE OR PROT_CPU_EXEC OR PROT_GPU_READ
                   OR PROT_GPU_WRITE" by simp
  show ?thesis
    unfolding mask decode_memory_protection_def Let_def and_or_mask_zero
    by (cases "p AND PROT_CPU_READ = 0"; cases "p AND PROT_CPU_WRITE = 0";
        cases "p AND PROT_CPU_EXEC = 0"; cases "p AND PROT_GPU_READ = 0";
        cases "p AND PROT_GPU_WRITE = 0")
      (simp_all only: simp_thms if_True if_False option.case prod.case is_execute_def
        mode_writes_def mode_reads_def vm_mode.distinct gpu_mode.distinct vm_mode.simps gpu_mode.simps
        split: if_splits)
qed

end
