(* ===== verification/VirtualRanges.thy ===== *)
theory VirtualRanges
  imports MemBase
begin

text \<open>
  The class \<open>VirtualRanges\<close> (src/kernel/memory.cpp): the kernel's table of guest virtual
  ranges, an ordered map from range starts to ranges with two page-table statistics counters.
  Every public method takes the class mutex for its whole body, so an operation is one atomic
  function from table to table.  An iterator is the key of its node, and a loop from \<open>first\<close> to
  \<open>last\<close> is a recursion over the keys between them.
\<close>

record vrange =
  r_start :: u64
  r_size :: u64
  r_offset :: u64
  r_prot :: prot
  r_memory_type :: int
  r_type :: range_type
  r_disallow_merge :: bool
  r_name :: string

record vranges =
  vr_map :: "vrange omap"
  vr_cpu :: u64
  vr_gpu :: u64

definition vr_empty :: vranges where
  "vr_empty = \<lparr>vr_map = [], vr_cpu = 0, vr_gpu = 0\<rparr>"

abbreviation r_end :: "vrange \<Rightarrow> u64" where
  "r_end r \<equiv> range_end (r_start r) (r_size r)"

text \<open>The node an iterator points to.\<close>

definition vr_node :: "vranges \<Rightarrow> u64 \<Rightarrow> vrange" where
  "vr_node s k = the (map_of (vr_map s) k)"

definition same_merge_key :: "vrange \<Rightarrow> vrange \<Rightarrow> bool" where
  "same_merge_key left right =
     (if r_disallow_merge left \<or> r_disallow_merge right \<or> r_type left = Direct
         \<or> r_type right = Direct
      then False
      else r_type left = r_type right \<and> r_prot left = r_prot right
           \<and> r_memory_type left = r_memory_type right \<and> r_name left = r_name right)"

definition can_merge :: "vrange \<Rightarrow> vrange \<Rightarrow> bool" where
  "can_merge left right \<longleftrightarrow> r_end left = r_start right \<and> same_merge_key left right"

definition find_containing :: "u64 \<Rightarrow> vranges \<Rightarrow> iter" where
  "find_containing address s =
     (case om_prev (om_upper_bound address (vr_map s)) (vr_map s) of
        None \<Rightarrow> None
      | Some k \<Rightarrow> if address < r_end (vr_node s k) then Some k else None)"

text \<open>The page-table entries a range contributes, and the statistics counters.\<close>

definition pt_entries :: "vrange \<Rightarrow> u64" where
  "pt_entries r =
     add64 (sub64 (sub64 (r_end r) 1 div PAGE_TABLE_GRANULARITY)
                  (r_start r div PAGE_TABLE_GRANULARITY)) 1"

definition update_pt :: "vrange \<Rightarrow> bool \<Rightarrow> vranges \<Rightarrow> vranges" where
  "update_pt r add s =
     (if \<not> is_committed_type (r_type r) then s
      else let entries = pt_entries r;
               s1 = (if r_prot r AND (PROT_CPU_READ OR PROT_CPU_WRITE OR PROT_CPU_EXEC) \<noteq> 0
                     then s\<lparr>vr_cpu := if add then add64 (vr_cpu s) entries
                                      else sub64 (vr_cpu s) entries\<rparr>
                     else s)
           in if r_prot r AND (PROT_GPU_READ OR PROT_GPU_WRITE) \<noteq> 0
              then s1\<lparr>vr_gpu := if add then add64 (vr_gpu s1) entries
                                else sub64 (vr_gpu s1) entries\<rparr>
              else s1)"

definition erase_unlocked :: "u64 \<Rightarrow> vranges \<Rightarrow> vranges" where
  "erase_unlocked k s =
     (let s1 = update_pt (vr_node s k) False s
      in s1\<lparr>vr_map := om_erase k (vr_map s1)\<rparr>)"

definition merge_next :: "u64 \<Rightarrow> u64 \<Rightarrow> vranges \<Rightarrow> vranges" where
  "merge_next left right s =
     (let s1 = update_pt (vr_node s left) False s;
          l = (vr_node s1 left)\<lparr>r_size := add64 (r_size (vr_node s1 left)) (r_size (vr_node s1 right))\<rparr>;
          s2 = s1\<lparr>vr_map := om_set left l (vr_map s1)\<rparr>;
          s3 = erase_unlocked right s2
      in update_pt (vr_node s3 left) True s3)"

text \<open>The forward loop of \<open>MergeAroundUnlocked\<close>, over the keys after \<open>current\<close>.\<close>

fun merge_fwd :: "u64 \<Rightarrow> u64 list \<Rightarrow> vranges \<Rightarrow> vranges" where
  "merge_fwd current [] s = s"
| "merge_fwd current (n # ns) s =
     (if \<not> can_merge (vr_node s current) (vr_node s n) then s
      else merge_fwd current ns (merge_next current n s))"

definition merge_around :: "u64 \<Rightarrow> vranges \<Rightarrow> vranges" where
  "merge_around current s =
     (let (current', s') =
        (case om_prev (Some current) (vr_map s) of
           None \<Rightarrow> (current, s)
         | Some previous \<Rightarrow>
             if can_merge (vr_node s previous) (vr_node s current)
             then (previous, merge_next previous current s)
             else (current, s))
      in merge_fwd current' (map fst (om_iter_from (om_next current' (vr_map s')) (vr_map s'))) s')"

definition split_at :: "u64 \<Rightarrow> vranges \<Rightarrow> vranges \<times> iter" where
  "split_at address s =
     (let position = om_lower_bound address (vr_map s) in
      case om_prev position (vr_map s) of
        None \<Rightarrow> (s, position)
      | Some p \<Rightarrow>
          let previous = vr_node s p; previous_end = r_end previous in
          if r_start previous < address \<and> address < previous_end then
            (let right = previous\<lparr>r_start := address, r_size := sub64 previous_end address,
                           r_offset := if r_type previous = Direct
                                       then add64 (r_offset previous) (sub64 address (r_start previous))
                                       else r_offset previous\<rparr>;
                 s1 = s\<lparr>vr_map := om_emplace address right (vr_map s)\<rparr>;
                 s2 = update_pt previous False s1;
                 left = previous\<lparr>r_size := sub64 address (r_start previous)\<rparr>;
                 s3 = s2\<lparr>vr_map := om_set p left (vr_map s2)\<rparr>;
                 s4 = update_pt left True s3;
                 s5 = update_pt right True s4
             in (s5, Some address))
          else (s, position))"

fun merge_span_loop :: "u64 \<Rightarrow> u64 list \<Rightarrow> vranges \<Rightarrow> vranges" where
  "merge_span_loop first [] s = s"
| "merge_span_loop first (n # ns) s =
     (if can_merge (vr_node s first) (vr_node s n)
      then merge_span_loop first ns (merge_next first n s)
      else merge_span_loop n ns s)"

definition merge_span :: "iter \<Rightarrow> iter \<Rightarrow> vranges \<Rightarrow> vranges" where
  "merge_span first last_it s =
     (if first = last_it then s
      else (let stop = (case last_it of None \<Rightarrow> None | Some l \<Rightarrow> om_next l (vr_map s)) in
        case first of
          None \<Rightarrow> s
        | Some f \<Rightarrow>
            (let f' = (case om_prev (Some f) (vr_map s) of None \<Rightarrow> f | Some p \<Rightarrow> p)
             in merge_span_loop f' (map fst (om_range (om_next f' (vr_map s)) stop (vr_map s))) s)))"

fun edit_loop :: "(vrange \<Rightarrow> vrange) \<Rightarrow> u64 list \<Rightarrow> vranges \<Rightarrow> vranges" where
  "edit_loop edit [] s = s"
| "edit_loop edit (k # ks) s =
     (let s1 = update_pt (vr_node s k) False s;
          s2 = s1\<lparr>vr_map := om_set k (edit (vr_node s1 k)) (vr_map s1)\<rparr>;
          s3 = update_pt (vr_node s2 k) True s2
      in edit_loop edit ks s3)"

definition edit_unlocked :: "u64 \<Rightarrow> u64 \<Rightarrow> (vrange \<Rightarrow> vrange) \<Rightarrow> vranges \<Rightarrow> vranges" where
  "edit_unlocked start sz edit s =
     (if sz = 0 then s
      else (let (s1, first_it) = split_at start s;
                (s2, last_it) = split_at (range_end start sz) s1;
                s3 = edit_loop edit (map fst (om_range first_it last_it (vr_map s2))) s2
            in merge_span first_it last_it s3))"

fun erase_loop :: "u64 list \<Rightarrow> vranges \<Rightarrow> vranges" where
  "erase_loop [] s = s"
| "erase_loop (k # ks) s = erase_loop ks (erase_unlocked k s)"

definition remove_unlocked :: "u64 \<Rightarrow> u64 \<Rightarrow> vranges \<Rightarrow> vranges \<times> bool" where
  "remove_unlocked start sz s =
     (if sz = 0 then (s, False)
      else (let (s1, first_it) = split_at start s;
                (s2, last_it) = split_at (range_end start sz) s1
            in if first_it = last_it then (s2, False)
               else (erase_loop (map fst (om_range first_it last_it (vr_map s2))) s2, True)))"

definition find_overlap :: "u64 \<Rightarrow> u64 \<Rightarrow> vranges \<Rightarrow> vrange option" where
  "find_overlap start sz s =
     (let position = om_lower_bound start (vr_map s);
          overlaps = (\<lambda>k. virtual_ranges_overlap start sz (r_start (vr_node s k)) (r_size (vr_node s k)));
          at_previous = (case om_prev position (vr_map s) of
                           None \<Rightarrow> None
                         | Some p \<Rightarrow> if overlaps p then Some (vr_node s p) else None)
      in case position of
           None \<Rightarrow> at_previous
         | Some k \<Rightarrow> if overlaps k then Some (vr_node s k) else at_previous)"

text \<open>The public methods.\<close>

definition vr_add :: "u64 \<Rightarrow> u64 \<Rightarrow> u64 \<Rightarrow> prot \<Rightarrow> int \<Rightarrow> range_type \<Rightarrow> string option \<Rightarrow> bool
    \<Rightarrow> vranges \<Rightarrow> vranges \<times> bool" where
  "vr_add start sz offset prot memory_type type name disallow_merge s =
     (if start = 0 \<or> sz = 0 \<or> sz > U64_MAX - start then (s, False)
      else (let position = om_lower_bound start (vr_map s);
                hit = (\<lambda>it. case it of None \<Rightarrow> False
                         | Some k \<Rightarrow> virtual_ranges_overlap start sz (r_start (vr_node s k))
                                       (r_size (vr_node s k)))
            in if hit position \<or> hit (om_prev position (vr_map s)) then (s, False)
               else (let r = \<lparr>r_start = start, r_size = sz, r_offset = offset, r_prot = prot,
                              r_memory_type = memory_type, r_type = type,
                              r_disallow_merge = disallow_merge,
                              r_name = copy_virtual_range_name name\<rparr>;
                         s1 = s\<lparr>vr_map := om_emplace start r (vr_map s)\<rparr>;
                         s2 = update_pt (vr_node s1 start) True s1
                     in (merge_around start s2, True))))"

definition vr_remove :: "u64 \<Rightarrow> u64 \<Rightarrow> vranges \<Rightarrow> vranges \<times> bool" where
  "vr_remove start sz s =
     (case map_of (vr_map s) start of
        Some r \<Rightarrow> if r_size r = sz then (erase_unlocked start s, True) else remove_unlocked start sz s
      | None \<Rightarrow> remove_unlocked start sz s)"

definition vr_has_overlap :: "u64 \<Rightarrow> u64 \<Rightarrow> vranges \<Rightarrow> bool" where
  "vr_has_overlap start sz s \<longleftrightarrow> find_overlap start sz s \<noteq> None"

definition vr_query_overlap :: "u64 \<Rightarrow> u64 \<Rightarrow> vranges \<Rightarrow> vrange option" where
  "vr_query_overlap start sz s = find_overlap start sz s"

definition vr_release_reserved :: "u64 \<Rightarrow> u64 \<Rightarrow> vranges \<Rightarrow> vranges \<times> bool" where
  "vr_release_reserved start sz s =
     (case map_of (vr_map s) start of
        Some r \<Rightarrow> if r_size r = sz \<and> is_reserved_type (r_type r) then (erase_unlocked start s, True)
                  else (s, True)
      | None \<Rightarrow> (s, True))"

text \<open>
  The validation loop of \<open>ReplaceSpan\<close>, over the nodes from the one that holds \<open>start\<close>; the loop
  ends when \<open>current\<close> has reached \<open>end\<close>.
\<close>

fun span_has_type :: "range_type \<Rightarrow> u64 \<Rightarrow> u64 \<Rightarrow> vrange omap \<Rightarrow> bool" where
  "span_has_type expected end current [] = (\<not> current < end)"
| "span_has_type expected end current ((k, r) # m) =
     (if \<not> current < end then True
      else if r_start r > current \<or> r_type r \<noteq> expected then False
      else span_has_type expected end (min end (r_end r)) m)"

definition vr_replace_span :: "u64 \<Rightarrow> u64 \<Rightarrow> range_type \<Rightarrow> u64 \<Rightarrow> prot \<Rightarrow> int \<Rightarrow> range_type
    \<Rightarrow> string option \<Rightarrow> bool \<Rightarrow> vranges \<Rightarrow> vranges \<times> bool" where
  "vr_replace_span start sz expected offset prot memory_type type name disallow_merge s =
     (if start = 0 \<or> sz = 0 \<or> sz > U64_MAX - start then (s, False)
      else if \<not> span_has_type expected (add64 start sz) start
                 (om_iter_from (find_containing start s) (vr_map s)) then (s, False)
      else (let replacement = \<lparr>r_start = start, r_size = sz, r_offset = offset, r_prot = prot,
                  r_memory_type = memory_type, r_type = type, r_disallow_merge = disallow_merge,
                  r_name = copy_virtual_range_name name\<rparr>;
                (s1, first_it) = split_at start s;
                (s2, last_it) = split_at (add64 start sz) s1
            in case first_it of
                 None \<Rightarrow> (s2, True)
               | Some f \<Rightarrow>
                   (let s3 = erase_loop (map fst (om_range (om_next f (vr_map s2)) last_it (vr_map s2))) s2;
                        s4 = update_pt (vr_node s3 f) False s3;
                        s5 = s4\<lparr>vr_map := om_set f replacement (vr_map s4)\<rparr>;
                        s6 = update_pt (vr_node s5 f) True s5
                    in (merge_around f s6, True))))"

definition vr_rename :: "u64 \<Rightarrow> u64 \<Rightarrow> string option \<Rightarrow> vranges \<Rightarrow> vranges" where
  "vr_rename start sz name s =
     (let edit = (\<lambda>r. r\<lparr>r_name := copy_virtual_range_name name\<rparr>) in
      case map_of (vr_map s) start of
        Some r \<Rightarrow> if r_size r = sz
                  then merge_around start (s\<lparr>vr_map := om_set start (edit r) (vr_map s)\<rparr>)
                  else edit_unlocked start sz edit s
      | None \<Rightarrow> edit_unlocked start sz edit s)"

definition vr_protect :: "u64 \<Rightarrow> u64 \<Rightarrow> prot \<Rightarrow> vranges \<Rightarrow> vranges" where
  "vr_protect start sz protection s =
     edit_unlocked start sz (\<lambda>r. r\<lparr>r_prot := protection\<rparr>) s"

definition vr_query :: "u64 \<Rightarrow> int \<Rightarrow> vranges \<Rightarrow> vrange option" where
  "vr_query addr flags s =
     (let next = om_upper_bound addr (vr_map s);
          after = (if flags \<noteq> 1 then None else map_option (vr_node s) next)
      in case om_prev next (vr_map s) of
           None \<Rightarrow> after
         | Some k \<Rightarrow> if addr < r_end (vr_node s k) then Some (vr_node s k) else after)"

text \<open>The loop of \<open>QuerySpan\<close>: the parts collected so far are passed along.\<close>

fun query_span_loop :: "u64 \<Rightarrow> u64 \<Rightarrow> vrange list \<Rightarrow> vrange omap \<Rightarrow> vrange list option" where
  "query_span_loop end current out [] = None"
| "query_span_loop end current out ((k, r) # m) =
     (if r_start r > current then None
      else (let part_size = sub64 (min end (r_end r)) current;
                part = r\<lparr>r_start := current, r_size := part_size,
                         r_offset := if r_type r = Direct
                                     then add64 (r_offset r) (sub64 current (r_start r))
                                     else r_offset r\<rparr>;
                out' = out @ [part];
                current' = add64 current part_size
            in if current' = end then Some out' else query_span_loop end current' out' m))"

definition vr_query_span :: "u64 \<Rightarrow> u64 \<Rightarrow> vranges \<Rightarrow> vrange list option" where
  "vr_query_span start sz s =
     (if start = 0 \<or> sz = 0 \<or> sz > U64_MAX - start then None
      else query_span_loop (add64 start sz) start []
             (om_iter_from (find_containing start s) (vr_map s)))"

text \<open>The loop of \<open>ClampRangeSize\<close>, over the nodes after the first.\<close>

fun clamp_loop :: "u64 \<Rightarrow> u64 \<Rightarrow> u64 \<Rightarrow> vrange omap \<Rightarrow> u64" where
  "clamp_loop sz clamped expected [] = clamped"
| "clamp_loop sz clamped expected ((k, r) # m) =
     (if r_start r = expected \<and> is_committed_type (r_type r) \<and> clamped < sz
      then (let chunk = min (sub64 sz clamped) (r_size r)
            in clamp_loop sz (add64 clamped chunk) (add64 expected chunk) m)
      else clamped)"

definition vr_clamp_range_size :: "u64 \<Rightarrow> u64 \<Rightarrow> vranges \<Rightarrow> u64" where
  "vr_clamp_range_size virtual_addr sz s =
     (if virtual_addr = 0 \<or> sz = 0 \<or> sz > U64_MAX - virtual_addr then 0
      else case find_containing virtual_addr s of
             None \<Rightarrow> 0
           | Some k \<Rightarrow>
               if \<not> is_committed_type (r_type (vr_node s k)) then 0
               else (let vma_end = r_end (vr_node s k);
                         clamped = min sz (sub64 vma_end virtual_addr);
                         expected = add64 virtual_addr clamped
                     in clamp_loop sz clamped expected
                          (om_iter_from (om_next k (vr_map s)) (vr_map s))))"

definition vr_count_page_table_entries :: "bool \<Rightarrow> vranges \<Rightarrow> u64" where
  "vr_count_page_table_entries gpu s = (if gpu then vr_gpu s else vr_cpu s)"

end
