(* ===== verification/VirtualRangesFacts.thy ===== *)
theory VirtualRangesFacts
  imports VirtualRanges
begin

text \<open>
  What the operations of the virtual range table do.  The first part describes every private
  step on a table that is cut into lists of nodes; the second part puts the loops together; the
  third part states the properties of the public methods against the view of the table as a
  function from addresses to attributes.
\<close>

subsection \<open>Statistics counters\<close>

definition cpu_pt :: "vrange \<Rightarrow> nat" where
  "cpu_pt r = (if is_committed_type (r_type r)
                 \<and> r_prot r AND (PROT_CPU_READ OR PROT_CPU_WRITE OR PROT_CPU_EXEC) \<noteq> 0
               then pt_entries r else 0)"

definition gpu_pt :: "vrange \<Rightarrow> nat" where
  "gpu_pt r = (if is_committed_type (r_type r)
                 \<and> r_prot r AND (PROT_GPU_READ OR PROT_GPU_WRITE) \<noteq> 0
               then pt_entries r else 0)"

definition vr_counts :: "nat \<Rightarrow> nat \<Rightarrow> vranges \<Rightarrow> bool" where
  "vr_counts x y s \<longleftrightarrow> vr_cpu s = x mod two64 \<and> vr_gpu s = y mod two64"

lemma pt_entries_le: "pt_entries r \<le> two64"
  using add64_less by (simp add: pt_entries_def less_imp_le)

lemma update_pt_map [simp]: "vr_map (update_pt r b s) = vr_map s"
  by (simp add: update_pt_def Let_def)

lemma vr_node_update_pt [simp]: "vr_node (update_pt r b s) k = vr_node s k"
  by (simp add: vr_node_def)

lemma update_pt_add:
  "vr_counts x y s \<Longrightarrow> vr_counts (x + cpu_pt r) (y + gpu_pt r) (update_pt r True s)"
  by (simp add: vr_counts_def update_pt_def cpu_pt_def gpu_pt_def Let_def add64_mod)

lemma update_pt_sub:
  "vr_counts (x + cpu_pt r) (y + gpu_pt r) s \<Longrightarrow> vr_counts x y (update_pt r False s)"
  by (simp add: vr_counts_def update_pt_def cpu_pt_def gpu_pt_def Let_def sub64_mod pt_entries_le)

lemma vr_counts_map [simp]: "vr_counts x y (s\<lparr>vr_map := m\<rparr>) = vr_counts x y s"
  by (simp add: vr_counts_def)

subsection \<open>Well-formed tables, and the private steps on lists of nodes\<close>

definition vm_ok :: "vrange omap \<Rightarrow> bool" where
  "vm_ok m \<longleftrightarrow> im_ok r_size m \<and> (\<forall>e\<in>set m. r_start (snd e) = fst e)"

definition vr_wf :: "vranges \<Rightarrow> bool" where
  "vr_wf s \<longleftrightarrow> vm_ok (vr_map s)
     \<and> vr_counts (om_sum cpu_pt (vr_map s)) (om_sum gpu_pt (vr_map s)) s"

lemma om_sum_simps [simp]:
  "om_sum f [] = 0" "om_sum f ((k, v) # m) = f v + om_sum f m"
  "om_sum f (xs @ ys) = om_sum f xs + om_sum f ys"
  by (simp_all add: om_sum_def)

lemma vm_ok_Nil [simp]: "vm_ok []"
  by (simp add: vm_ok_def)

lemma vm_ok_append:
  "vm_ok (xs @ ys) \<longleftrightarrow> vm_ok xs \<and> vm_ok ys
     \<and> (\<forall>x\<in>set xs. \<forall>y\<in>set ys. fst x + r_size (snd x) \<le> fst y)"
  by (auto simp: vm_ok_def im_ok_append)

lemma vm_ok_Cons:
  "vm_ok ((k, r) # m) \<longleftrightarrow> vm_ok m \<and> r_start r = k \<and> 0 < r_size r \<and> k + r_size r < two64
     \<and> (\<forall>e\<in>set m. k + r_size r \<le> fst e)"
  by (auto simp: vm_ok_def im_ok_Cons)

lemma vm_ok_om [simp]: "vm_ok m \<Longrightarrow> om_ok m"
  by (auto simp: vm_ok_def)

lemma vm_ok_node:
  assumes "vm_ok m" and "(k, r) \<in> set m"
  shows "r_start r = k" and "0 < r_size r" and "k + r_size r < two64" and "r_end r = k + r_size r"
proof -
  have "im_ok r_size m" using assms(1) by (simp add: vm_ok_def)
  then show "0 < r_size r" "k + r_size r < two64" and "r_start r = k"
    using assms by (auto simp: im_ok_sorted vm_ok_def)
  then show "r_end r = k + r_size r" by simp
qed

lemma vr_node_at: "\<lbrakk>vr_map s = xs @ (k, r) # ys; om_ok (vr_map s)\<rbrakk> \<Longrightarrow> vr_node s k = r"
  by (simp add: vr_node_def om_node_find del: map_of_append)

lemma erase_unlocked_node:
  assumes "vr_wf s" and "vr_map s = xs @ (k, r) # ys"
  shows "vr_map (erase_unlocked k s) = xs @ ys" and "vr_wf (erase_unlocked k s)"
proof -
  have ok: "vm_ok (xs @ (k, r) # ys)" using assms by (simp add: vr_wf_def)
  have node: "vr_node s k = r" using vr_node_at assms(2) ok by simp
  show map: "vr_map (erase_unlocked k s) = xs @ ys"
    using assms(2) ok by (simp add: erase_unlocked_def Let_def om_erase_node)
  have "vr_counts (om_sum cpu_pt (xs @ ys)) (om_sum gpu_pt (xs @ ys)) (update_pt r False s)"
    by (rule update_pt_sub) (use assms in \<open>simp add: vr_wf_def add_ac\<close>)
  moreover have "vm_ok (xs @ ys)" using ok by (simp add: vm_ok_append vm_ok_Cons)
  ultimately show "vr_wf (erase_unlocked k s)"
    unfolding vr_wf_def map by (simp add: erase_unlocked_def Let_def node)
qed

lemma set_node_step:
  assumes wf: "vr_wf s" and m: "vr_map s = xs @ (k, r) # ys"
    and ok: "vm_ok (xs @ (k, r') # ys)"
  defines "s1 \<equiv> update_pt r False s"
  defines "s2 \<equiv> s1\<lparr>vr_map := om_set k r' (vr_map s1)\<rparr>"
  shows "vr_map (update_pt r' True s2) = xs @ (k, r') # ys" and "vr_wf (update_pt r' True s2)"
proof -
  have "vm_ok (xs @ (k, r) # ys)" using wf m by (simp add: vr_wf_def)
  then show map: "vr_map (update_pt r' True s2) = xs @ (k, r') # ys"
    by (simp add: s2_def s1_def m om_set_node)
  have "vr_counts (om_sum cpu_pt (xs @ ys)) (om_sum gpu_pt (xs @ ys)) s1"
    unfolding s1_def by (rule update_pt_sub) (use wf m in \<open>simp add: vr_wf_def add_ac\<close>)
  then have "vr_counts (om_sum cpu_pt (xs @ ys)) (om_sum gpu_pt (xs @ ys)) s2"
    by (simp add: s2_def)
  then have "vr_counts (om_sum cpu_pt (xs @ ys) + cpu_pt r') (om_sum gpu_pt (xs @ ys) + gpu_pt r')
      (update_pt r' True s2)"
    by (rule update_pt_add)
  then show "vr_wf (update_pt r' True s2)"
    unfolding vr_wf_def map using ok by (simp add: add_ac)
qed

text \<open>Merging a node with the next one.\<close>

definition merged :: "vrange \<Rightarrow> vrange \<Rightarrow> vrange" where
  "merged l r = l\<lparr>r_size := r_size l + r_size r\<rparr>"

lemma merged_simps [simp]:
  "r_start (merged l r) = r_start l" "r_size (merged l r) = r_size l + r_size r"
  "r_prot (merged l r) = r_prot l" "r_type (merged l r) = r_type l"
  "r_memory_type (merged l r) = r_memory_type l" "r_name (merged l r) = r_name l"
  "r_disallow_merge (merged l r) = r_disallow_merge l" "r_offset (merged l r) = r_offset l"
  by (simp_all add: merged_def)

lemma can_merge_adjacent:
  assumes "vm_ok (xs @ (k, l) # (n, r) # ys)" and "can_merge l r"
  shows "n = k + r_size l" and "vm_ok (xs @ (k, merged l r) # ys)"
proof -
  have "r_end l = k + r_size l" using vm_ok_node(4) [OF assms(1), of k l] by simp
  then show "n = k + r_size l"
    using assms vm_ok_node(1) [OF assms(1), of n r] by (simp add: can_merge_def)
  then show "vm_ok (xs @ (k, merged l r) # ys)"
    using assms(1) by (auto simp: vm_ok_append vm_ok_Cons)
qed

lemma merge_next_node:
  assumes wf: "vr_wf s" and m: "vr_map s = xs @ (k, l) # (n, r) # ys" and "can_merge l r"
  shows "vr_map (merge_next k n s) = xs @ (k, merged l r) # ys" and "vr_wf (merge_next k n s)"
proof -
  have ok: "vm_ok (xs @ (k, l) # (n, r) # ys)" using wf m by (simp add: vr_wf_def)
  have kn: "n = k + r_size l" "k + r_size l + r_size r < two64"
    using can_merge_adjacent(1) [OF ok assms(3)] vm_ok_node(3) [OF ok, of n r] by auto
  have small: "r_size l + r_size r < two64" using kn(2) by simp
  have nodes: "vr_node s k = l" "vr_node s n = r"
    using vr_node_at [OF m] vr_node_at [of s "xs @ [(k, l)]" n r ys] m ok by simp_all
  define s1 where "s1 = update_pt l False s"
  define s2 where "s2 = s1\<lparr>vr_map := om_set k (merged l r) (vr_map s1)\<rparr>"
  have m2: "vr_map s2 = (xs @ [(k, merged l r)]) @ (n, r) # ys"
    using ok by (simp add: s2_def s1_def m om_set_node)
  have om2: "om_ok ((xs @ [(k, merged l r)]) @ (n, r) # ys)"
    using vm_ok_om [OF ok] om_set_ok [of k "merged l r" "xs @ (k, l) # (n, r) # ys"]
    by (simp add: om_set_node)
  have n2: "vr_node s2 n = r" using vr_node_at [OF m2] om2 m2 by simp
  define s3 where "s3 = erase_unlocked n s2"
  have m3: "vr_map s3 = xs @ (k, merged l r) # ys"
    using om_erase_node [OF om2] by (simp add: s3_def erase_unlocked_def Let_def m2)
  have ok3: "vm_ok (xs @ (k, merged l r) # ys)" by (rule can_merge_adjacent(2) [OF ok assms(3)])
  have n3: "vr_node s3 k = merged l r" using vr_node_at [OF m3] ok3 m3 by simp
  have "vr_counts (om_sum cpu_pt (xs @ ys) + cpu_pt r) (om_sum gpu_pt (xs @ ys) + gpu_pt r) s1"
    unfolding s1_def by (rule update_pt_sub) (use wf m in \<open>simp add: vr_wf_def add_ac\<close>)
  then have "vr_counts (om_sum cpu_pt (xs @ ys)) (om_sum gpu_pt (xs @ ys)) (update_pt r False s2)"
    by (intro update_pt_sub) (simp add: s2_def)
  then have "vr_counts (om_sum cpu_pt (xs @ ys)) (om_sum gpu_pt (xs @ ys)) s3"
    by (simp add: s3_def erase_unlocked_def Let_def n2)
  then have c: "vr_counts (om_sum cpu_pt (xs @ ys) + cpu_pt (merged l r))
      (om_sum gpu_pt (xs @ ys) + gpu_pt (merged l r)) (update_pt (merged l r) True s3)"
    by (rule update_pt_add)
  have eq: "merge_next k n s = update_pt (merged l r) True s3"
    using n3 small
    by (simp only: merge_next_def Let_def vr_node_update_pt nodes add64_exact merged_def s1_def s2_def s3_def)
  show map: "vr_map (merge_next k n s) = xs @ (k, merged l r) # ys" by (simp add: eq m3)
  show "vr_wf (merge_next k n s)"
    unfolding vr_wf_def map using ok3 c by (simp add: eq add_ac)
qed

subsection \<open>Coalescing\<close>

definition coalesced :: "vrange omap \<Rightarrow> bool" where
  "coalesced m \<longleftrightarrow> successively (\<lambda>x y. \<not> can_merge (snd x) (snd y)) m"

fun coalesce_fwd :: "u64 \<times> vrange \<Rightarrow> vrange omap \<Rightarrow> vrange omap" where
  "coalesce_fwd e [] = [e]"
| "coalesce_fwd e (n # ns) =
     (if can_merge (snd e) (snd n) then coalesce_fwd (fst e, merged (snd e) (snd n)) ns
      else e # n # ns)"

fun coalesce_span :: "u64 \<times> vrange \<Rightarrow> vrange omap \<Rightarrow> vrange omap" where
  "coalesce_span e [] = [e]"
| "coalesce_span e (n # ns) =
     (if can_merge (snd e) (snd n) then coalesce_span (fst e, merged (snd e) (snd n)) ns
      else e # coalesce_span n ns)"

lemma coalesced_simps [simp]:
  "coalesced []" "coalesced [e]"
  "coalesced (e # n # m) \<longleftrightarrow> \<not> can_merge (snd e) (snd n) \<and> coalesced (n # m)"
  by (simp_all add: coalesced_def)

lemma coalesced_append:
  "coalesced (xs @ ys) \<longleftrightarrow> coalesced xs \<and> coalesced ys
     \<and> (xs = [] \<or> ys = [] \<or> \<not> can_merge (snd (last xs)) (snd (hd ys)))"
  by (simp add: coalesced_def successively_append_iff)

lemma same_merge_key_merged [simp]:
  "same_merge_key (merged l r) n = same_merge_key l n"
  "same_merge_key n (merged l r) = same_merge_key n l"
  by (simp_all add: same_merge_key_def)

lemma same_merge_key_trans: "same_merge_key l r \<Longrightarrow> same_merge_key l n = same_merge_key r n"
  by (auto simp: same_merge_key_def split: if_splits)

lemma can_merge_merged_left [simp]: "can_merge n (merged l r) = can_merge n l"
  by (simp add: can_merge_def)

lemma can_merge_merged_right:
  "\<lbrakk>vm_ok (xs @ (k, l) # (n, r) # ys); can_merge l r\<rbrakk> \<Longrightarrow> can_merge (merged l r) z = can_merge r z"
  using can_merge_adjacent [of xs k l n r ys] vm_ok_node [of "xs @ (k, l) # (n, r) # ys" n r]
    vm_ok_node [of "xs @ (k, merged l r) # ys" k "merged l r"] same_merge_key_trans [of l r z]
  by (simp add: can_merge_def add.assoc)

lemma coalesce_fwd_hd:
  "\<exists>r' ms. coalesce_fwd (k, r) ns = (k, r') # ms \<and> (\<forall>n. can_merge n r' = can_merge n r)"
proof (induction ns arbitrary: r)
  case (Cons n ns)
  show ?case using Cons.IH [of "merged r (snd n)"] by (cases "can_merge r (snd n)") auto
qed auto

lemma coalesce_span_hd:
  "\<exists>r' ms. coalesce_span (k, r) ns = (k, r') # ms \<and> (\<forall>n. can_merge n r' = can_merge n r)"
proof (induction ns arbitrary: r)
  case (Cons n ns)
  show ?case using Cons.IH [of "merged r (snd n)"] by (cases "can_merge r (snd n)") auto
qed auto

lemma coalesce_fwd_coalesced: "coalesced ns \<Longrightarrow> coalesced (coalesce_fwd e ns)"
  by (induction e ns rule: coalesce_fwd.induct) (auto simp: coalesced_def successively_Cons)

lemma coalesce_span_coalesced: "coalesced (coalesce_span e ns)"
proof (induction e ns rule: coalesce_span.induct)
  case (2 e n ns)
  obtain r' ms where "coalesce_span n ns = (fst n, r') # ms" "can_merge (snd e) r' = can_merge (snd e) (snd n)"
    using coalesce_span_hd [of "fst n" "snd n" ns] by auto
  with 2 show ?case by auto
qed simp

lemma coalesce_span_last:
  "vm_ok (xs @ (k, r) # ns @ zs) \<Longrightarrow>
   can_merge (snd (last (coalesce_span (k, r) ns))) z = can_merge (snd (last ((k, r) # ns))) z"
proof (induction ns arbitrary: xs k r)
  case (Cons n ns)
  obtain j w where n: "n = (j, w)" by force
  have ne: "coalesce_span (j, w) ns \<noteq> []" using coalesce_span_hd [of j w ns] by auto
  show ?case
  proof (cases "can_merge r w")
    case True
    have "vm_ok (xs @ (k, merged r w) # ns @ zs)"
      using can_merge_adjacent(2) [OF _ True, of xs k j "ns @ zs"] Cons.prems n by simp
    from Cons.IH [OF this] show ?thesis
      using True n can_merge_merged_right [of xs k r j w "ns @ zs"] Cons.prems by auto
  next
    case False
    have "vm_ok ((xs @ [(k, r)]) @ (j, w) # ns @ zs)" using Cons.prems n by simp
    from Cons.IH [OF this] show ?thesis using False n ne by simp
  qed
qed simp

lemma merge_fwd_nodes:
  assumes "vr_wf s" and "vr_map s = xs @ (k, r) # ns"
  shows "vr_map (merge_fwd k (map fst ns) s) = xs @ coalesce_fwd (k, r) ns
    \<and> vr_wf (merge_fwd k (map fst ns) s)"
  using assms
proof (induction ns arbitrary: r s)
  case (Cons n ns)
  obtain j w where n: "n = (j, w)" by force
  have ok: "om_ok (vr_map s)" using Cons.prems(1) by (simp add: vr_wf_def)
  have nodes: "vr_node s k = r" "vr_node s j = w"
    using vr_node_at [OF Cons.prems(2) ok] vr_node_at [of s "xs @ [(k, r)]" j w ns] Cons.prems(2) ok n
    by simp_all
  have m: "vr_map s = xs @ (k, r) # (j, w) # ns" using Cons.prems n by simp
  show ?case
  proof (cases "can_merge r w")
    case True
    show ?thesis
      using Cons.IH [OF merge_next_node(2,1) [OF Cons.prems(1) m True]] True nodes n by simp
  qed (use Cons.prems nodes n in simp)
qed simp

lemma merge_span_loop_nodes:
  assumes "vr_wf s" and "vr_map s = xs @ (k, r) # ns @ zs"
  shows "vr_map (merge_span_loop k (map fst ns) s) = xs @ coalesce_span (k, r) ns @ zs
    \<and> vr_wf (merge_span_loop k (map fst ns) s)"
  using assms
proof (induction ns arbitrary: xs k r s)
  case (Cons n ns)
  obtain j w where n: "n = (j, w)" by force
  have ok: "om_ok (vr_map s)" using Cons.prems(1) by (simp add: vr_wf_def)
  have m: "vr_map s = xs @ (k, r) # (j, w) # ns @ zs" using Cons.prems n by simp
  have nodes: "vr_node s k = r" "vr_node s j = w"
    using vr_node_at [OF Cons.prems(2) ok] vr_node_at [of s "xs @ [(k, r)]" j w "ns @ zs"] m ok
    by simp_all
  show ?case
  proof (cases "can_merge r w")
    case True
    show ?thesis
      using Cons.IH [OF merge_next_node(2,1) [OF Cons.prems(1) m True]] True nodes n by simp
  next
    case False
    show ?thesis
      using Cons.IH [OF Cons.prems(1), of "xs @ [(k, r)]" j w] m False nodes n by simp
  qed
qed simp

subsection \<open>The table as a function of addresses\<close>

text \<open>
  The view of an address: type, protection, memory type, merge flag and name of the range that
  holds it and, for direct memory, the physical address it is backed by.
\<close>

record page_view =
  pv_type :: range_type
  pv_prot :: prot
  pv_memory_type :: int
  pv_disallow :: bool
  pv_name :: string
  pv_phys :: "u64 option"

definition vr_attr :: "u64 \<Rightarrow> vrange \<Rightarrow> u64 \<Rightarrow> page_view" where
  "vr_attr k r a = \<lparr>pv_type = r_type r, pv_prot = r_prot r, pv_memory_type = r_memory_type r,
     pv_disallow = r_disallow_merge r, pv_name = r_name r,
     pv_phys = (if r_type r = Direct then Some (add64 (r_offset r) (a - k)) else None)\<rparr>"

abbreviation view_of :: "vrange omap \<Rightarrow> u64 \<Rightarrow> page_view option" where
  "view_of \<equiv> im_view r_size vr_attr"

definition vr_view :: "vranges \<Rightarrow> u64 \<Rightarrow> page_view option" where
  "vr_view s = view_of (vr_map s)"

lemma view_of_merge:
  assumes "vm_ok (xs @ (k, l) # (n, r) # ys)" and "can_merge l r"
  shows "view_of ((k, l) # (n, r) # ys) = view_of ((k, merged l r) # ys)"
proof -
  have n: "n = k + r_size l" by (rule can_merge_adjacent(1) [OF assms])
  have "vr_attr k (merged l r) a = vr_attr n r a" "vr_attr k (merged l r) a = vr_attr k l a" for a
    using assms(2) by (auto simp: can_merge_def same_merge_key_def vr_attr_def split: if_splits)
  then show ?thesis by (auto simp: n fun_eq_iff)
qed

lemma view_of_cong: "view_of ys = view_of zs \<Longrightarrow> view_of (xs @ ys) = view_of (xs @ zs)"
  by (rule ext) (simp add: im_view_append split: option.split)

lemma view_of_coalesce_fwd:
  "vm_ok (xs @ (k, r) # ns) \<Longrightarrow>
   view_of (coalesce_fwd (k, r) ns) = view_of ((k, r) # ns) \<and> vm_ok (xs @ coalesce_fwd (k, r) ns)"
proof (induction ns arbitrary: r)
  case (Cons n ns)
  obtain j w where n: "n = (j, w)" by force
  show ?case
  proof (cases "can_merge r w")
    case True
    show ?thesis
      using can_merge_adjacent(2) [of xs k r j w ns] view_of_merge [of xs k r j w ns] True
        Cons.IH [of "merged r w"] Cons.prems by (simp add: n del: im_view.simps)
  qed (use Cons.prems n in simp)
qed simp

lemma view_of_coalesce_span:
  "vm_ok (xs @ (k, r) # ns @ zs) \<Longrightarrow>
   view_of (coalesce_span (k, r) ns @ zs) = view_of ((k, r) # ns @ zs)
   \<and> vm_ok (xs @ coalesce_span (k, r) ns @ zs)"
proof (induction ns arbitrary: xs k r)
  case (Cons n ns)
  obtain j w where n: "n = (j, w)" by force
  show ?case
  proof (cases "can_merge r w")
    case True
    show ?thesis
      using can_merge_adjacent(2) [of xs k r j w "ns @ zs"] view_of_merge [of xs k r j w "ns @ zs"] True
        Cons.IH [of xs k "merged r w"] Cons.prems by (simp add: n del: im_view.simps)
  next
    case False
    have "vm_ok ((xs @ [(k, r)]) @ (j, w) # ns @ zs)" using Cons.prems n by simp
    from Cons.IH [OF this] show ?thesis
      using False n view_of_cong [of "coalesce_span (j, w) ns @ zs" "(j, w) # ns @ zs" "[(k, r)]"]
      by (simp del: im_view.simps)
  qed
qed simp

lemma last_obtain:
  assumes "xs \<noteq> []"
  obtains ys k v where "xs = ys @ [(k, v)]"
  using assms by (metis rev_exhaust surj_pair)

lemma merge_around_nodes:
  assumes wf: "vr_wf s" and m: "vr_map s = xs @ (k, r) # ys"
  shows "vr_wf (merge_around k s)" and "vr_view (merge_around k s) = vr_view s"
    and "\<lbrakk>coalesced xs; coalesced ys\<rbrakk> \<Longrightarrow> coalesced (vr_map (merge_around k s))"
proof -
  have ok: "vm_ok (xs @ (k, r) # ys)" using wf m by (simp add: vr_wf_def)
  have *: "vr_wf (merge_around k s) \<and> vr_view (merge_around k s) = vr_view s
    \<and> (coalesced xs \<and> coalesced ys \<longrightarrow> coalesced (vr_map (merge_around k s)))"
  proof (cases "xs \<noteq> [] \<and> can_merge (snd (last xs)) r")
    case True
    then obtain us p l where xs: "xs = us @ [(p, l)]" using last_obtain by blast
    have mrg: "can_merge l r" using True xs by simp
    have m': "vr_map s = us @ (p, l) # (k, r) # ys" using m xs by simp
    have okm: "vm_ok (us @ (p, merged l r) # ys)"
      using can_merge_adjacent(2) [of us p l k r ys] ok xs mrg by simp
    have nodes: "vr_node s p = l" "vr_node s k = r"
      using vr_node_at [OF m'] vr_node_at [OF m] ok m by simp_all
    have prev: "om_prev (Some k) (vr_map s) = Some p"
      using om_node_prev [of xs k r ys] ok m xs by simp
    define s' where "s' = merge_next p k s"
    have s': "vr_map s' = us @ (p, merged l r) # ys" "vr_wf s'"
      unfolding s'_def using merge_next_node [OF wf m' mrg] by auto
    have iter: "om_iter_from (om_next p (vr_map s')) (vr_map s') = ys"
      using om_node_next [of us p "merged l r" ys] om_iter_from_append [of "us @ [(p, merged l r)]" ys]
        okm s'(1) by simp
    have eq: "merge_around k s = merge_fwd p (map fst ys) s'"
      by (simp add: merge_around_def prev nodes mrg iter flip: s'_def)
    have map: "vr_map (merge_around k s) = us @ coalesce_fwd (p, merged l r) ys"
      and "vr_wf (merge_around k s)"
      using merge_fwd_nodes [OF s'(2,1)] by (simp_all add: eq)
    moreover have "vr_view (merge_around k s) = vr_view s"
      using view_of_coalesce_fwd [OF okm] view_of_merge [of us p l k r ys] ok xs mrg
      by (simp add: vr_view_def map m' del: im_view.simps cong: view_of_cong)
         (rule view_of_cong, simp)
    moreover have "coalesced (us @ coalesce_fwd (p, merged l r) ys)" if "coalesced xs" "coalesced ys"
      using coalesce_fwd_hd [of p "merged l r" ys] that coalesce_fwd_coalesced [of ys "(p, merged l r)"]
      by (auto simp: xs coalesced_append)
    ultimately show ?thesis by simp
  next
    case False
    have iter: "om_iter_from (om_next k (vr_map s)) (vr_map s) = ys"
      using om_node_next [of xs k r ys] om_iter_from_append [of "xs @ [(k, r)]" ys] ok m by simp
    have node: "vr_node s k = r" using vr_node_at [OF m] ok m by simp
    have "merge_around k s = merge_fwd k (map fst ys) s"
    proof (cases "xs = []")
      case True
      then have "om_prev (Some k) (vr_map s) = None"
        using om_node_prev [of xs k r ys] ok m by simp
      then show ?thesis by (simp add: merge_around_def iter)
    next
      case ne: False
      then obtain us p l where xs: "xs = us @ [(p, l)]" using last_obtain by blast
      have "om_prev (Some k) (vr_map s) = Some p" "vr_node s p = l"
        using om_node_prev [of xs k r ys] vr_node_at [of s us p l "(k, r) # ys"] ok m xs by simp_all
      then show ?thesis using False ne by (simp add: merge_around_def iter node xs)
    qed
    then have map: "vr_map (merge_around k s) = xs @ coalesce_fwd (k, r) ys"
      and "vr_wf (merge_around k s)"
      using merge_fwd_nodes [OF wf m] by simp_all
    moreover have "vr_view (merge_around k s) = vr_view s"
      using view_of_coalesce_fwd [OF ok] unfolding vr_view_def map m by (intro view_of_cong) simp
    moreover have "coalesced (xs @ coalesce_fwd (k, r) ys)" if "coalesced xs" "coalesced ys"
      using coalesce_fwd_hd [of k r ys] that coalesce_fwd_coalesced [of ys "(k, r)"] False
      by (auto simp: coalesced_append)
    ultimately show ?thesis by simp
  qed
  then show "vr_wf (merge_around k s)" "vr_view (merge_around k s) = vr_view s"
    "\<lbrakk>coalesced xs; coalesced ys\<rbrakk> \<Longrightarrow> coalesced (vr_map (merge_around k s))" by simp_all
qed

subsection \<open>Splitting at an address\<close>

definition left_part :: "u64 \<Rightarrow> u64 \<times> vrange \<Rightarrow> vrange" where
  "left_part a e = (snd e)\<lparr>r_size := a - fst e\<rparr>"

definition right_part :: "u64 \<Rightarrow> u64 \<times> vrange \<Rightarrow> vrange" where
  "right_part a e = (snd e)\<lparr>r_start := a, r_size := fst e + r_size (snd e) - a,
     r_offset := if r_type (snd e) = Direct then add64 (r_offset (snd e)) (a - fst e)
                 else r_offset (snd e)\<rparr>"

fun vlower :: "u64 \<Rightarrow> vrange omap \<Rightarrow> vrange omap" where
  "vlower a [] = []"
| "vlower a (e # m) =
     (if fst e + r_size (snd e) \<le> a then e # vlower a m
      else if fst e < a then (fst e, left_part a e) # vlower a m else vlower a m)"

fun vupper :: "u64 \<Rightarrow> vrange omap \<Rightarrow> vrange omap" where
  "vupper a [] = []"
| "vupper a (e # m) =
     (if fst e + r_size (snd e) \<le> a then vupper a m
      else if fst e < a then (a, right_part a e) # vupper a m else e # vupper a m)"

lemma parts_simps [simp]:
  "r_start (left_part a e) = r_start (snd e)" "r_size (left_part a e) = a - fst e"
  "r_start (right_part a e) = a" "r_size (right_part a e) = fst e + r_size (snd e) - a"
  "r_type (left_part a e) = r_type (snd e)" "r_type (right_part a e) = r_type (snd e)"
  "same_merge_key (left_part a e) n = same_merge_key (snd e) n"
  "same_merge_key n (left_part a e) = same_merge_key n (snd e)"
  "same_merge_key (right_part a e) n = same_merge_key (snd e) n"
  by (simp_all add: left_part_def right_part_def same_merge_key_def)

lemma vlower_above: "\<forall>e\<in>set m. a \<le> fst e \<and> 0 < r_size (snd e) \<Longrightarrow> vlower a m = []"
  by (induction m) force+

lemma vupper_above: "\<forall>e\<in>set m. a \<le> fst e \<and> 0 < r_size (snd e) \<Longrightarrow> vupper a m = m"
  by (induction m) force+

lemma vlower_below: "\<forall>e\<in>set m. fst e + r_size (snd e) \<le> a \<Longrightarrow> vlower a m = m"
  by (induction m) auto

lemma vupper_below: "\<forall>e\<in>set m. fst e + r_size (snd e) \<le> a \<Longrightarrow> vupper a m = []"
  by (induction m) auto

lemma vlower_append [simp]: "vlower a (xs @ ys) = vlower a xs @ vlower a ys"
  by (induction xs) auto

lemma vupper_append [simp]: "vupper a (xs @ ys) = vupper a xs @ vupper a ys"
  by (induction xs) auto

lemma vm_ok_pos: "vm_ok m \<Longrightarrow> e \<in> set m \<Longrightarrow> 0 < r_size (snd e)"
  using vm_ok_node(2) [of m "fst e" "snd e"] by simp

text \<open>A table either has no range across \<open>a\<close>, or exactly one.\<close>

lemma straddle_cases [consumes 1, case_names none one]:
  assumes "vm_ok m"
  obtains (none) xs ys where "m = xs @ ys" "\<forall>e\<in>set xs. fst e + r_size (snd e) \<le> a"
      "\<forall>e\<in>set ys. a \<le> fst e"
  | (one) xs k r ys where "m = xs @ (k, r) # ys" "\<forall>e\<in>set xs. fst e + r_size (snd e) \<le> k"
      "k < a" "a < k + r_size r" "\<forall>e\<in>set ys. k + r_size r \<le> fst e"
proof -
  define xs ys where "xs = om_before a m" and "ys = om_from a m"
  have m: "m = xs @ ys" by (simp add: xs_def ys_def om_split_at)
  have ys: "\<forall>e\<in>set ys. a \<le> fst e" using assms by (simp add: ys_def om_from_set)
  have xs: "\<forall>e\<in>set xs. fst e < a" using assms by (simp add: xs_def om_before_set)
  show thesis
  proof (cases "xs = []")
    case True
    then show ?thesis using none [of "[]" ys] m ys by simp
  next
    case False
    then obtain us k r where u: "xs = us @ [(k, r)]" using last_obtain by blast
    have us: "\<forall>e\<in>set us. fst e + r_size (snd e) \<le> k"
      using assms by (simp add: m u vm_ok_append vm_ok_Cons)
    have ys': "\<forall>e\<in>set ys. k + r_size r \<le> fst e"
      using assms by (simp add: m u vm_ok_append vm_ok_Cons)
    show ?thesis
    proof (cases "a < k + r_size r")
      case True
      then show ?thesis using one [of us k r ys] m u us ys' xs by simp
    next
      case False
      then show ?thesis using none [of xs ys] m u us ys xs by fastforce
    qed
  qed
qed

lemma split_lists:
  assumes "vm_ok m"
  shows "vm_ok (vlower a m @ vupper a m)"
    and "im_cut r_size a (vlower a m) (vupper a m)"
    and "view_of (vlower a m @ vupper a m) = view_of m"
    and "coalesced m \<Longrightarrow> coalesced (vlower a m) \<and> coalesced (vupper a m)"
proof -
  have pos: "\<forall>e\<in>set m. 0 < r_size (snd e)" using vm_ok_pos [OF assms] by blast
  have "vm_ok (vlower a m @ vupper a m) \<and> im_cut r_size a (vlower a m) (vupper a m)
    \<and> view_of (vlower a m @ vupper a m) = view_of m
    \<and> (coalesced m \<longrightarrow> coalesced (vlower a m) \<and> coalesced (vupper a m))"
    using assms
  proof (cases rule: straddle_cases [where a = a])
    case (none xs ys)
    then have "vlower a m = xs" "vupper a m = ys"
      using pos vlower_below [of xs a] vlower_above [of ys a] vupper_below [of xs a] vupper_above [of ys a]
      by simp_all
    then show ?thesis using none assms by (simp add: im_cut_def coalesced_append)
  next
    case (one xs k r ys)
    have xs: "\<forall>e\<in>set xs. fst e + r_size (snd e) \<le> a" using one by fastforce
    have ys: "\<forall>e\<in>set ys. a \<le> fst e" using one by fastforce
    have lu: "vlower a m = xs @ [(k, left_part a (k, r))]" "vupper a m = (a, right_part a (k, r)) # ys"
      using pos xs ys one vlower_below [of xs a] vlower_above [of ys a] vupper_below [of xs a]
        vupper_above [of ys a] by simp_all
    have ok: "vm_ok (xs @ (k, r) # ys)" using assms one by simp
    have "vm_ok (vlower a m @ vupper a m)"
      using ok xs ys one(3,4) by (auto simp: lu vm_ok_append vm_ok_Cons)
    moreover have "im_cut r_size a (vlower a m) (vupper a m)"
      using xs ys one(3,4) by (simp add: im_cut_def lu)
    moreover have "vr_attr k (left_part a (k, r)) b = vr_attr k r b" for b
      by (simp add: vr_attr_def left_part_def)
    moreover have "vr_attr a (right_part a (k, r)) b = vr_attr k r b" if "a \<le> b" for b
      using that one(3) by (simp add: vr_attr_def right_part_def add64_add)
    moreover have "coalesced (vlower a m) \<and> coalesced (vupper a m)" if "coalesced m"
    proof -
      have "can_merge (right_part a (k, r)) n = can_merge r n" for n
        using one(3,4) ok vm_ok_node [OF ok, of k r] by (simp add: can_merge_def)
      moreover have "can_merge n (left_part a (k, r)) = can_merge n r" for n
        by (simp add: can_merge_def)
      moreover have "coalesced (xs @ (k, r) # ys)" using that by (simp add: one(1))
      ultimately show ?thesis unfolding lu by (cases ys) (simp_all add: coalesced_append)
    qed
    ultimately have c: "vm_ok (vlower a m @ vupper a m)" "im_cut r_size a (vlower a m) (vupper a m)"
      "coalesced m \<longrightarrow> coalesced (vlower a m) \<and> coalesced (vupper a m)"
      and "\<And>b. view_of [(k, left_part a (k, r)), (a, right_part a (k, r))] b = view_of [(k, r)] b"
      using one(3,4) by simp_all
    then have "view_of ([(k, left_part a (k, r)), (a, right_part a (k, r))] @ ys) = view_of ([(k, r)] @ ys)"
      by (intro ext) (simp only: im_view_append)
    from view_of_cong [OF this, of xs] have "view_of (vlower a m @ vupper a m) = view_of m"
      unfolding lu by (simp add: one(1) del: im_view.simps)
    with c show ?thesis by blast
  qed
  then show "vm_ok (vlower a m @ vupper a m)" "im_cut r_size a (vlower a m) (vupper a m)"
    "view_of (vlower a m @ vupper a m) = view_of m"
    "coalesced m \<Longrightarrow> coalesced (vlower a m) \<and> coalesced (vupper a m)" by blast+
qed

lemma split_at_lists:
  assumes wf: "vr_wf s"
  shows "vr_map (fst (split_at a s)) = vlower a (vr_map s) @ vupper a (vr_map s)
    \<and> snd (split_at a s) = om_begin (vupper a (vr_map s)) \<and> vr_wf (fst (split_at a s))"
proof -
  define m where "m = vr_map s"
  have ok: "vm_ok m" using wf by (simp add: vr_wf_def m_def)
  have pos: "\<forall>e\<in>set m. 0 < r_size (snd e)" using vm_ok_pos [OF ok] by blast
  show ?thesis using ok
  proof (cases rule: straddle_cases [where a = a])
    case (none xs ys)
    have lu: "vlower a m = xs" "vupper a m = ys"
      using none pos vlower_below [of xs a] vlower_above [of ys a] vupper_below [of xs a] vupper_above [of ys a]
      by simp_all
    have xs: "\<forall>e\<in>set xs. fst e < a"
    proof
      fix e assume "e \<in> set xs"
      then have "fst e + r_size (snd e) \<le> a" "0 < r_size (snd e)" using none pos by auto
      then show "fst e < a" by linarith
    qed
    have lb: "om_lower_bound a m = om_begin ys"
      using om_lower_bound_append [OF xs none(3)] none(1) by simp
    have pv: "om_prev (om_begin ys) m = (if xs = [] then None else Some (fst (last xs)))"
      using om_prev_append [of xs ys] ok none(1) by simp
    have "split_at a s = (s, om_begin ys)"
    proof (cases "xs = []")
      case False
      then obtain us p v where u: "xs = us @ [(p, v)]" using last_obtain by blast
      have "vr_node s p = v" using vr_node_at [of s us p v ys] ok none(1) u m_def by simp
      moreover have "r_end v \<le> a"
        using vm_ok_node(4) [OF ok, of p v] none u by simp
      ultimately show ?thesis using lb pv False u by (simp add: split_at_def Let_def flip: m_def)
    qed (use lb pv in \<open>simp add: split_at_def Let_def flip: m_def\<close>)
    then show ?thesis using lu none(1) wf by (simp add: m_def)
  next
    case (one xs k r ys)
    have xs: "\<forall>e\<in>set xs. fst e + r_size (snd e) \<le> a" using one by fastforce
    have ys: "\<forall>e\<in>set ys. a \<le> fst e" using one by fastforce
    define l w where "l = left_part a (k, r)" and "w = right_part a (k, r)"
    have lu: "vlower a m = xs @ [(k, l)]" "vupper a m = (a, w) # ys"
      using pos xs ys one vlower_below [of xs a] vlower_above [of ys a] vupper_below [of xs a]
        vupper_above [of ys a] by (simp_all add: l_def w_def)
    have ok1: "vm_ok (xs @ (k, r) # ys)" using ok one by simp
    note r = vm_ok_node [OF ok1, of k r, simplified]
    have ysl: "\<forall>e\<in>set ys. a < fst e" using one by fastforce
    have xsl: "\<forall>e\<in>set (xs @ [(k, r)]). fst e < a"
      using one(2,3) by (fastforce intro: order.strict_trans1 [OF add_leD1])
    have lb: "om_lower_bound a m = om_begin ys"
      using om_lower_bound_append [OF xsl ys] one(1) by simp
    have pv: "om_prev (om_begin ys) m = Some k"
      using om_prev_append [of "xs @ [(k, r)]" ys] ok1 one(1) by simp
    have node: "vr_node s k = r" using vr_node_at [of s xs k r ys] ok1 one(1) m_def by simp
    have wl: "r\<lparr>r_size := a - k\<rparr> = l"
      "r\<lparr>r_start := a, r_size := k + r_size r - a,
         r_offset := if r_type r = Direct then add64 (r_offset r) (a - k) else r_offset r\<rparr> = w"
      by (simp_all add: l_def w_def left_part_def right_part_def)
    define s1 where "s1 = s\<lparr>vr_map := om_emplace a w m\<rparr>"
    define s3 where "s3 = (update_pt r False s1)\<lparr>vr_map := om_set k l (vr_map s1)\<rparr>"
    have eq: "split_at a s = (update_pt w True (update_pt l True s3), Some a)"
    proof -
      have sub: "sub64 (k + r_size r) a = k + r_size r - a" "sub64 a k = a - k"
        using r(3) one(3,4) by simp_all
      show ?thesis
        unfolding split_at_def m_def [symmetric] lb option.case pv Let_def node
        unfolding r(4)
        unfolding r(1) sub wl
        using one(3,4) by (simp add: s3_def s1_def)
    qed
    have m1: "vr_map s1 = xs @ (k, r) # (a, w) # ys"
      using om_emplace_node [of "xs @ [(k, r)]" a ys w] xsl ysl one(1) by (simp add: s1_def)
    have okl: "vm_ok (xs @ (k, l) # (a, w) # ys)"
      using split_lists(1) [OF ok, of a] by (simp add: lu)
    then have m3: "vr_map s3 = xs @ (k, l) # (a, w) # ys"
      using om_set_node [of xs k r "(a, w) # ys" l] m1
        om_set_ok [of k l "xs @ (k, r) # (a, w) # ys"] om_emplace_ok [of m a w] ok
      by (simp add: s3_def s1_def)
    let ?x = "om_sum cpu_pt (xs @ ys)" and ?y = "om_sum gpu_pt (xs @ ys)"
    have "vr_counts ?x ?y (update_pt r False s1)"
      by (rule update_pt_sub) (use wf one(1) in \<open>simp add: vr_wf_def s1_def add_ac flip: m_def\<close>)
    then have "vr_counts ?x ?y s3" by (simp add: s3_def)
    then have "vr_counts (?x + cpu_pt l + cpu_pt w) (?y + gpu_pt l + gpu_pt w)
        (update_pt w True (update_pt l True s3))"
      by (intro update_pt_add)
    then show ?thesis using okl m3 lu by (simp add: eq vr_wf_def add_ac flip: m_def)
  qed
qed

subsection \<open>The loops over a span\<close>

lemma om_begin_split:
  assumes ok: "vm_ok m"
  shows "om_begin (vlower a m @ vupper a m) = om_begin m"
  using ok
proof (cases rule: straddle_cases [where a = a])
  case (none xs ys)
  then have "vlower a m = xs" "vupper a m = ys"
    using vm_ok_pos [OF ok] vlower_below [of xs a] vlower_above [of ys a] vupper_below [of xs a]
      vupper_above [of ys a] by simp_all
  then show ?thesis using none by simp
next
  case (one xs k r ys)
  moreover have "\<forall>e\<in>set xs. fst e + r_size (snd e) \<le> a" "\<forall>e\<in>set ys. a \<le> fst e"
    using one by fastforce+
  ultimately have "vlower a m = xs @ [(k, left_part a (k, r))]"
    using vm_ok_pos [OF ok] vlower_below [of xs a] vlower_above [of ys a] by simp
  then show ?thesis using one by (cases xs) simp_all
qed

lemma split_span:
  fixes s :: vranges and a e :: u64
  assumes wf: "vr_wf s" and ae: "a \<le> e"
  defines "s1 \<equiv> fst (split_at a s)"
  defines "s2 \<equiv> fst (split_at e s1)"
  obtains as bs cs where "vr_map s2 = as @ bs @ cs" "vr_wf s2" "vr_view s2 = vr_view s"
    "snd (split_at a s) = om_begin (bs @ cs)" "snd (split_at e s1) = om_begin cs"
    "im_cut r_size a as (bs @ cs)" "im_cut r_size e (as @ bs) cs"
    "coalesced (vr_map s) \<Longrightarrow> coalesced as \<and> coalesced bs \<and> coalesced cs"
proof -
  define m where "m = vr_map s"
  have ok: "vm_ok m" using wf by (simp add: vr_wf_def m_def)
  define as u where "as = vlower a m" and "u = vupper a m"
  define bs cs where "bs = vlower e u" and "cs = vupper e u"
  have s1: "vr_map s1 = as @ u" "vr_wf s1" "snd (split_at a s) = om_begin u"
    using split_at_lists [OF wf, of a] by (simp_all add: s1_def as_def u_def m_def)
  have cut: "im_cut r_size a as u"
    using split_lists(2) [OF ok, of a] by (simp add: as_def u_def)
  then have asl: "\<forall>x\<in>set as. fst x + r_size (snd x) \<le> e" using ae by (auto simp: im_cut_def)
  have oku: "vm_ok (as @ u)" using s1 by (simp add: vr_wf_def)
  have lu: "vlower e (as @ u) = as @ bs" "vupper e (as @ u) = cs"
    using vlower_below [OF asl] vupper_below [OF asl] by (simp_all add: bs_def cs_def)
  note s1' = split_at_lists [OF s1(2), of e, unfolded s1(1) lu]
  have s2: "vr_map s2 = as @ bs @ cs" "vr_wf s2" "snd (split_at e s1) = om_begin cs"
    using s1' by (simp_all add: s2_def)
  have vu: "vm_ok u" using oku by (simp add: vm_ok_append)
  have cut2: "im_cut r_size e (as @ bs) cs"
    using split_lists(2) [OF oku, of e, unfolded lu] .
  have "im_cut r_size a as (bs @ cs)"
  proof -
    have "a \<le> fst x" if xb: "x \<in> set bs" for x
    proof -
      have "vm_ok (as @ bs @ cs)" using s2 by (simp add: vr_wf_def)
      obtain y ys where bc: "bs @ cs = y # ys" using xb by (cases "bs @ cs") auto
      have "vm_ok (y # ys)" using \<open>vm_ok (as @ bs @ cs)\<close> unfolding bc by (simp add: vm_ok_append)
      moreover have "x \<in> set (y # ys)" using xb bc [symmetric] by simp
      ultimately have "fst y \<le> fst x"
        using vm_ok_Cons [of "fst y" "snd y" ys] by (auto dest: add_leD1)
      moreover have "om_begin u = Some (fst y)"
        using om_begin_split [OF vu, of e] bc by (simp add: bs_def cs_def)
      then have "a \<le> fst y" using cut by (cases u) (auto simp: im_cut_def)
      ultimately show ?thesis by simp
    qed
    moreover have "a \<le> fst x" if "x \<in> set cs" for x
      using cut2 ae that by (force simp: im_cut_def)
    ultimately show ?thesis using cut by (auto simp: im_cut_def)
  qed
  moreover have "vr_view s2 = vr_view s"
    using split_lists(3) [OF ok, of a] split_lists(3) [OF oku, of e, unfolded lu]
    unfolding lu vr_view_def s2(1) m_def [symmetric] by (simp add: as_def u_def)
  moreover have "coalesced as \<and> coalesced bs \<and> coalesced cs" if "coalesced (vr_map s)"
    using split_lists(4) [OF ok, of a] split_lists(4) [OF vu, of e] that
    by (simp add: as_def u_def bs_def cs_def m_def)
  ultimately show thesis
    using that [of as bs cs] s2 cut2 s1(3) om_begin_split [OF vu, of e]
    by (simp add: bs_def cs_def)
qed

lemma erase_loop_nodes:
  "\<lbrakk>vr_wf s; vr_map s = xs @ ys @ zs\<rbrakk> \<Longrightarrow>
   vr_map (erase_loop (map fst ys) s) = xs @ zs \<and> vr_wf (erase_loop (map fst ys) s)"
proof (induction ys arbitrary: s)
  case (Cons y ys)
  have m: "vr_map s = xs @ (fst y, snd y) # ys @ zs" using Cons.prems by simp
  show ?case using Cons.IH [OF erase_unlocked_node(2,1) [OF Cons.prems(1) m]] by simp
qed simp

lemma edit_loop_nodes:
  assumes "\<And>r. r_start (f r) = r_start r \<and> r_size (f r) = r_size r"
  shows "\<lbrakk>vr_wf s; vr_map s = xs @ ys @ zs\<rbrakk> \<Longrightarrow>
   vr_map (edit_loop f (map fst ys) s) = xs @ map (\<lambda>(k, r). (k, f r)) ys @ zs
   \<and> vr_wf (edit_loop f (map fst ys) s)"
proof (induction ys arbitrary: xs s)
  case (Cons y ys)
  obtain k r where y: "y = (k, r)" by force
  have m: "vr_map s = xs @ (k, r) # ys @ zs" using Cons.prems y by simp
  have ok: "vm_ok (xs @ (k, r) # ys @ zs)" using Cons.prems(1) m by (simp add: vr_wf_def)
  have ok': "vm_ok (xs @ (k, f r) # ys @ zs)"
    using ok assms [of r] by (simp add: vm_ok_append vm_ok_Cons)
  have node: "vr_node s k = r" using vr_node_at [OF m] ok m by simp
  define s2 where "s2 = (update_pt r False s)\<lparr>vr_map := om_set k (f r) (vr_map s)\<rparr>"
  have m2: "vr_map s2 = xs @ (k, f r) # ys @ zs" using ok by (simp add: s2_def m om_set_node)
  have node2: "vr_node s2 k = f r" using vr_node_at [OF m2] ok' m2 by simp
  define s3 where "s3 = update_pt (f r) True s2"
  have s3: "vr_map s3 = (xs @ [(k, f r)]) @ ys @ zs" "vr_wf s3"
    using set_node_step [OF Cons.prems(1) m ok'] by (simp_all add: s3_def s2_def)
  have "edit_loop f (map fst (y # ys)) s = edit_loop f (map fst ys) s3"
    by (simp add: Let_def y node node2 s3_def flip: s2_def)
  then show ?case using Cons.IH [OF s3(2,1)] by (simp add: y)
qed simp

lemma merge_span_nodes:
  assumes wf: "vr_wf s" and m: "vr_map s = xs @ ys @ zs"
  defines "s' \<equiv> merge_span (om_begin (ys @ zs)) (om_begin zs) s"
  shows "vr_wf s'" and "vr_view s' = vr_view s"
    and "\<lbrakk>coalesced xs; coalesced zs; ys = [] \<Longrightarrow> coalesced (xs @ zs)\<rbrakk> \<Longrightarrow> coalesced (vr_map s')"
proof -
  have ok: "vm_ok (xs @ ys @ zs)" using wf m by (simp add: vr_wf_def)
  have "vr_wf s' \<and> vr_view s' = vr_view s
    \<and> (coalesced xs \<and> coalesced zs \<and> (ys = [] \<longrightarrow> coalesced (xs @ zs)) \<longrightarrow> coalesced (vr_map s'))"
  proof (cases ys)
    case Nil
    then show ?thesis using wf m by (simp add: s'_def merge_span_def)
  next
    case (Cons y bs)
    obtain k r where y: "y = (k, r)" by force
    define z1 z2 where "z1 = take 1 zs" and "z2 = drop 1 zs"
    have zs: "zs = z1 @ z2" by (simp add: z1_def z2_def)
    have m1: "vr_map s = xs @ (k, r) # bs @ z1 @ z2" using m Cons y zs by simp
    have ok1: "vm_ok (xs @ (k, r) # bs @ z1 @ z2)" using ok Cons y zs by simp
    have stop: "(case om_begin zs of None \<Rightarrow> None | Some l \<Rightarrow> om_next l (vr_map s)) = om_begin z2"
    proof (cases zs)
      case z: (Cons e w)
      then have "om_next (fst e) (vr_map s) = om_begin w"
        using om_node_next [of "xs @ ys" "fst e" "snd e" w] ok m by simp
      then show ?thesis by (simp add: z z2_def)
    qed (simp add: z2_def)
    have ne: "om_begin (ys @ zs) \<noteq> om_begin zs"
    proof (cases zs)
      case z: (Cons e w)
      have "om_ok (xs @ (k, r) # (bs @ e # w))" using vm_ok_om [OF ok] Cons y z by simp
      then have "k < fst e" by (simp add: om_ok_node)
      then show ?thesis using Cons y z by simp
    qed (use Cons in simp)
    obtain us p l cs where nodes: "us @ (p, l) # cs @ z1 @ z2 = vr_map s"
      and f': "(case om_prev (Some k) (vr_map s) of None \<Rightarrow> k | Some p \<Rightarrow> p) = p"
      and col: "coalesced xs \<Longrightarrow> us = [] \<or> coalesced (us @ [(p, l)])"
      and last: "cs @ z1 = [] \<or> last (cs @ z1) = last ((k, r) # bs @ z1)"
      and csz: "(p, l) # cs @ z1 \<noteq> [] \<and> last ((p, l) # cs @ z1) = last ((k, r) # bs @ z1)"
    proof (cases "xs = []")
      case True
      then have "om_prev (Some k) (vr_map s) = None"
        using om_node_prev [of xs k r "bs @ z1 @ z2"] ok1 m1 by simp
      then show ?thesis using that [of "[]" k r bs] m1 True by auto
    next
      case False
      then obtain us p l where xs: "xs = us @ [(p, l)]" using last_obtain by blast
      then have "om_prev (Some k) (vr_map s) = Some p"
        using om_node_prev [of xs k r "bs @ z1 @ z2"] ok1 m1 by simp
      then show ?thesis using that [of us p l "(k, r) # bs"] m1 xs by auto
    qed
    have okn: "vm_ok (us @ (p, l) # (cs @ z1) @ z2)" using nodes ok m by simp
    have next_p: "om_next p (vr_map s) = om_begin (cs @ z1 @ z2)"
      using om_node_next [of us p l "cs @ z1 @ z2"] okn nodes by simp
    have range: "om_range (om_begin ((cs @ z1) @ z2)) (om_begin z2) (vr_map s) = cs @ z1"
      using om_range_append [of "us @ [(p, l)]" "cs @ z1" z2] okn nodes by simp
    have s': "s' = merge_span_loop p (map fst (cs @ z1)) s"
      using ne f' next_p range Cons y by (simp add: s'_def merge_span_def stop Let_def)
    have map': "vr_map s' = us @ coalesce_span (p, l) (cs @ z1) @ z2" and wf': "vr_wf s'"
      using merge_span_loop_nodes [OF wf, of us p l "cs @ z1" z2] nodes by (simp_all add: s')
    have "vr_view s' = vr_view s"
      using view_of_coalesce_span [OF okn] unfolding vr_view_def map' nodes [symmetric]
      by (intro view_of_cong) simp
    moreover have "coalesced (vr_map s')" if c: "coalesced xs" "coalesced zs"
    proof -
      obtain l' ms where hd: "coalesce_span (p, l) (cs @ z1) = (p, l') # ms"
        "can_merge n l' = can_merge n l" for n
        using coalesce_span_hd [of p l "cs @ z1"] by blast
      have 1: "us = [] \<or> \<not> can_merge (snd (last us)) l" "coalesced us"
        using col [OF c(1)] by (auto simp: coalesced_append)
      have 2: "z2 = [] \<or> \<not> can_merge (snd (last (coalesce_span (p, l) (cs @ z1)))) (snd (hd z2))"
      proof (cases zs)
        case z: (Cons e w)
        then have "last ((p, l) # cs @ z1) = e" using csz by (simp add: z1_def)
        then show ?thesis
          using coalesce_span_last [OF okn] c(2) z by (cases w) (auto simp: z2_def)
      qed (simp add: z2_def)
      have 3: "coalesced z2" using c(2) by (simp add: zs coalesced_append)
      have "List.hd (coalesce_span (p, l) (cs @ z1)) = (p, l')" "coalesce_span (p, l) (cs @ z1) \<noteq> []"
        by (simp_all add: hd(1))
      then show ?thesis
        using 1 2 3 coalesce_span_coalesced [of "(p, l)" "cs @ z1"] hd(2)
        unfolding map' coalesced_append by (auto simp: hd_append)
    qed
    ultimately show ?thesis using wf' by blast
  qed
  then show "vr_wf s'" "vr_view s' = vr_view s"
    "\<lbrakk>coalesced xs; coalesced zs; ys = [] \<Longrightarrow> coalesced (xs @ zs)\<rbrakk> \<Longrightarrow> coalesced (vr_map s')" by blast+
qed

text \<open>Well-formed and coalesced tables, and the view after an edit or a removal.\<close>

definition vr_ok :: "vranges \<Rightarrow> bool" where
  "vr_ok s \<longleftrightarrow> vr_wf s \<and> coalesced (vr_map s)"

lemma view_cut:
  assumes "im_cut r_size a as (bs @ cs)" and "im_cut r_size e (as @ bs) cs"
    and "view_of (as @ bs @ cs) = v" and "a \<le> e"
  shows "view_of as x = (if x < a then v x else None)"
    and "view_of bs x = (if a \<le> x \<and> x < e then v x else None)"
    and "view_of cs x = (if e \<le> x then v x else None)"
  using im_view_cut3 [OF assms(1,2), of vr_attr x] assms im_view_above [of as r_size a x vr_attr]
    im_view_below [of bs a x r_size vr_attr] im_view_above [of bs r_size e x vr_attr]
    im_view_below [of cs e x r_size vr_attr] by (auto simp: im_cut_def)

lemma view_of_map:
  assumes "\<And>r. r_size (f r) = r_size r" "\<And>k r a. vr_attr k (f r) a = g (vr_attr k r a)"
  shows "view_of (map (\<lambda>(k, r). (k, f r)) m) a = map_option g (view_of m a)"
  using assms by (induction m) auto

lemma range_end_ge: "a < two64 \<Longrightarrow> a \<le> range_end a n"
  by (simp add: range_end_def)

text \<open>Two ranges on both sides of a nonempty span cannot be merged.\<close>

lemma coalesced_gap:
  assumes ok: "vm_ok (as @ bs @ cs)" and cuts: "im_cut r_size a as (bs @ cs)" "im_cut r_size e (as @ bs) cs"
    and c: "coalesced as" "coalesced cs" and e: "e = range_end a n" "0 < n"
  shows "coalesced (as @ cs)"
proof (cases "as = [] \<or> cs = []")
  case False
  then obtain us p l where as: "as = us @ [(p, l)]" using last_obtain by blast
  obtain k r vs where cs: "cs = (k, r) # vs" using False by (metis list.exhaust surj_pair)
  have "p + r_size l \<le> a" "e \<le> k" using cuts by (simp_all add: im_cut_def as cs)
  moreover have "r_end l = p + r_size l" "r_start r = k" "k + r_size r < two64" "0 < r_size r"
    using vm_ok_node [OF ok, of p l] vm_ok_node [OF ok, of k r] by (simp_all add: as cs)
  moreover have "a < e \<or> e = U64_MAX" using e by (auto simp: range_end_def)
  ultimately have "\<not> can_merge l r" by (auto simp: can_merge_def)
  then show ?thesis using c by (simp add: coalesced_append as cs)
qed (use c in auto)

lemma edit_unlocked_ok:
  assumes ok: "vr_ok s" and a: "a < two64"
    and f: "\<And>r. r_start (f r) = r_start r \<and> r_size (f r) = r_size r"
    and g: "\<And>k r a. vr_attr k (f r) a = g (vr_attr k r a)"
  shows "vr_ok (edit_unlocked a n f s)"
    and "vr_view (edit_unlocked a n f s) =
      (\<lambda>x. if a \<le> x \<and> x < range_end a n then map_option g (vr_view s x) else vr_view s x)"
proof -
  define e where "e = range_end a n"
  have ae: "a \<le> e" using range_end_ge [OF a] by (simp add: e_def)
  have "vr_ok (edit_unlocked a n f s) \<and> vr_view (edit_unlocked a n f s) =
      (\<lambda>x. if a \<le> x \<and> x < e then map_option g (vr_view s x) else vr_view s x)"
  proof (cases "n = 0")
    case True
    then have "e = a" by (simp add: e_def range_end_def)
    then show ?thesis using ok True by (auto simp: edit_unlocked_def fun_eq_iff)
  next
    case False
    have wf: "vr_wf s" and c: "coalesced (vr_map s)" using ok by (simp_all add: vr_ok_def)
    define s1 where "s1 = fst (split_at a s)"
    define s2 where "s2 = fst (split_at e s1)"
    obtain as bs cs where s2: "vr_map s2 = as @ bs @ cs" "vr_wf s2" "vr_view s2 = vr_view s"
      "snd (split_at a s) = om_begin (bs @ cs)" "snd (split_at e s1) = om_begin cs"
      "im_cut r_size a as (bs @ cs)" "im_cut r_size e (as @ bs) cs"
      "coalesced as" "coalesced bs" "coalesced cs"
      using split_span [OF wf ae] c unfolding s1_def s2_def by blast
    define bs' where "bs' = map (\<lambda>(k, r). (k, f r)) bs"
    define s3 where "s3 = edit_loop f (map fst bs) s2"
    have s3: "vr_map s3 = as @ bs' @ cs" "vr_wf s3"
      using edit_loop_nodes [of f, OF f s2(2,1)] by (simp_all add: s3_def bs'_def)
    have bg: "om_begin (bs @ cs) = om_begin (bs' @ cs)"
      by (cases bs) (auto simp: bs'_def)
    have "om_ok (as @ bs @ cs)" using s2(1,2) by (simp add: vr_wf_def)
    from om_range_append [OF this] have eq: "edit_unlocked a n f s = merge_span (om_begin (bs' @ cs)) (om_begin cs) s3"
      using False s2(1,4,5) bg
      by (simp add: edit_unlocked_def Let_def case_prod_beta s3_def flip: e_def s1_def s2_def)
    have nil: "coalesced (as @ cs)"
      by (rule coalesced_gap [OF _ s2(6,7,8,10)]) (use s2(1,2) False in \<open>simp_all add: e_def vr_wf_def\<close>)
    have "vr_ok (edit_unlocked a n f s)"
      using merge_span_nodes(1,3) [OF s3(2,1)] s2(8,10) nil by (simp add: vr_ok_def eq)
    moreover have "vr_view (edit_unlocked a n f s) x =
        (if a \<le> x \<and> x < e then map_option g (vr_view s x) else vr_view s x)" for x
    proof -
      have v: "view_of (as @ bs @ cs) = vr_view s" using s2(1,3) by (simp add: vr_view_def)
      note vc = view_cut [OF s2(6,7) v ae, of x]
      have "view_of bs' x = map_option g (view_of bs x)"
        unfolding bs'_def by (rule view_of_map) (use f g in auto)
      then show ?thesis
        using merge_span_nodes(2) [OF s3(2,1)] vc ae
        by (auto simp: eq vr_view_def s3(1) im_view_append split: option.splits)
    qed
    ultimately show ?thesis by (simp add: fun_eq_iff)
  qed
  then show "vr_ok (edit_unlocked a n f s)" "vr_view (edit_unlocked a n f s) =
      (\<lambda>x. if a \<le> x \<and> x < range_end a n then map_option g (vr_view s x) else vr_view s x)"
    by (simp_all add: e_def)
qed

lemma om_begin_neq: "om_ok (ys @ zs) \<Longrightarrow> om_begin (ys @ zs) = om_begin zs \<longleftrightarrow> ys = []"
proof (cases ys; cases zs)
  fix y us z vs
  assume "om_ok (ys @ zs)" "ys = y # us" "zs = z # vs"
  then show ?thesis by (cases y) (auto simp: om_ok_Cons)
qed auto

lemma view_of_nonempty:
  assumes "vm_ok m" and "m \<noteq> []"
  shows "view_of m (fst (hd m)) \<noteq> None"
  using assms by (cases m) (auto simp: vm_ok_Cons)

lemma remove_unlocked_ok:
  assumes ok: "vr_ok s" and a: "a < two64"
  shows "vr_ok (fst (remove_unlocked a n s))"
    and "vr_view (fst (remove_unlocked a n s)) =
      (\<lambda>x. if a \<le> x \<and> x < range_end a n then None else vr_view s x)"
    and "snd (remove_unlocked a n s) \<longleftrightarrow> (\<exists>x. a \<le> x \<and> x < range_end a n \<and> vr_view s x \<noteq> None)"
proof -
  define e where "e = range_end a n"
  have ae: "a \<le> e" using range_end_ge [OF a] by (simp add: e_def)
  have "vr_ok (fst (remove_unlocked a n s))
    \<and> (\<forall>x. vr_view (fst (remove_unlocked a n s)) x = (if a \<le> x \<and> x < e then None else vr_view s x))
    \<and> (snd (remove_unlocked a n s) \<longleftrightarrow> (\<exists>x. a \<le> x \<and> x < e \<and> vr_view s x \<noteq> None))"
  proof (cases "n = 0")
    case True
    then have "e = a" by (simp add: e_def range_end_def)
    then show ?thesis using ok True by (auto simp: remove_unlocked_def)
  next
    case False
    have wf: "vr_wf s" and c: "coalesced (vr_map s)" using ok by (simp_all add: vr_ok_def)
    define s1 where "s1 = fst (split_at a s)"
    define s2 where "s2 = fst (split_at e s1)"
    obtain as bs cs where s2: "vr_map s2 = as @ bs @ cs" "vr_wf s2" "vr_view s2 = vr_view s"
      "snd (split_at a s) = om_begin (bs @ cs)" "snd (split_at e s1) = om_begin cs"
      "im_cut r_size a as (bs @ cs)" "im_cut r_size e (as @ bs) cs"
      "coalesced as" "coalesced bs" "coalesced cs"
      using split_span [OF wf ae] c unfolding s1_def s2_def by blast
    have okm: "vm_ok (as @ bs @ cs)" using s2(1,2) by (simp add: vr_wf_def)
    then have okbc: "om_ok (bs @ cs)" by (simp add: vm_ok_append om_ok_append [of as])
    define s3 where "s3 = erase_loop (map fst bs) s2"
    have s3: "vr_map s3 = as @ cs" "vr_wf s3"
      using erase_loop_nodes [OF s2(2,1)] by (simp_all add: s3_def)
    have eq: "remove_unlocked a n s = (s3, bs \<noteq> [])"
      using False s2(1,4,5) om_range_append [OF vm_ok_om [OF okm]] om_begin_neq [OF okbc]
      by (auto simp: remove_unlocked_def Let_def case_prod_beta s3_def simp flip: e_def s1_def s2_def)
    have "coalesced (as @ cs)"
      by (rule coalesced_gap [OF okm s2(6,7,8,10)]) (use False in \<open>simp_all add: e_def\<close>)
    then have "vr_ok s3" using s3 by (simp add: vr_ok_def)
    moreover have v: "view_of (as @ bs @ cs) = vr_view s" using s2(1,3) by (simp add: vr_view_def)
    note vc = view_cut [OF s2(6,7) v ae]
    have "vr_view s3 x = (if a \<le> x \<and> x < e then None else vr_view s x)" for x
      using vc [of x] ae by (auto simp: vr_view_def s3(1) im_view_append split: option.splits)
    moreover have "bs \<noteq> [] \<longleftrightarrow> (\<exists>x. a \<le> x \<and> x < e \<and> vr_view s x \<noteq> None)"
    proof
      assume "bs \<noteq> []"
      moreover have "vm_ok bs" using okm by (simp add: vm_ok_append)
      ultimately have "view_of bs (fst (hd bs)) \<noteq> None" using view_of_nonempty by blast
      then show "\<exists>x. a \<le> x \<and> x < e \<and> vr_view s x \<noteq> None"
        using vc(2) [of "fst (hd bs)"] by metis
    next
      assume "\<exists>x. a \<le> x \<and> x < e \<and> vr_view s x \<noteq> None"
      then obtain x where "view_of bs x \<noteq> None" using vc(2) by metis
      then show "bs \<noteq> []" by auto
    qed
    ultimately show ?thesis by (simp add: eq)
  qed
  then show "vr_ok (fst (remove_unlocked a n s))"
    "vr_view (fst (remove_unlocked a n s)) =
      (\<lambda>x. if a \<le> x \<and> x < range_end a n then None else vr_view s x)"
    "snd (remove_unlocked a n s) \<longleftrightarrow> (\<exists>x. a \<le> x \<and> x < range_end a n \<and> vr_view s x \<noteq> None)"
    by (simp_all add: e_def fun_eq_iff)
qed

text \<open>A node of the table, and what the view says about its addresses.\<close>

lemma node_view:
  assumes "vm_ok (xs @ (k, r) # ys)"
  shows "view_of (xs @ (k, r) # ys) x =
      (if k \<le> x \<and> x < k + r_size r then Some (vr_attr k r x) else view_of (xs @ ys) x)"
    and "\<lbrakk>k \<le> x; x < k + r_size r\<rbrakk> \<Longrightarrow> view_of (xs @ ys) x = None"
proof -
  have cut: "im_cut r_size k xs ((k, r) # ys)" "im_cut r_size (k + r_size r) (xs @ [(k, r)]) ys"
    using assms by (auto simp: im_cut_def vm_ok_append vm_ok_Cons)
  show *: "view_of (xs @ ys) x = None" if "k \<le> x" "x < k + r_size r"
    using cut that im_view_above [of xs r_size k x vr_attr]
      im_view_below [of ys "k + r_size r" x r_size vr_attr]
    by (simp add: im_view_append im_cut_def)
  show "view_of (xs @ (k, r) # ys) x =
      (if k \<le> x \<and> x < k + r_size r then Some (vr_attr k r x) else view_of (xs @ ys) x)"
    using * by (auto simp: im_view_append split: option.splits)
qed

lemma erase_unlocked_ok:
  assumes ok: "vr_ok s" and m: "map_of (vr_map s) k = Some r"
  shows "vr_ok (erase_unlocked k s)"
    and "vr_view (erase_unlocked k s) =
      (\<lambda>x. if k \<le> x \<and> x < k + r_size r then None else vr_view s x)"
    and "\<exists>x. k \<le> x \<and> x < k + r_size r \<and> vr_view s x \<noteq> None"
proof -
  have wf: "vr_wf s" and om: "om_ok (vr_map s)" using ok by (simp_all add: vr_ok_def vr_wf_def)
  obtain xs ys where xy: "vr_map s = xs @ (k, r) # ys" using om_node_obtain [OF om m] by blast
  have okm: "vm_ok (xs @ [(k, r)] @ ys)" using wf xy by (simp add: vr_wf_def)
  note e = erase_unlocked_node [OF wf xy]
  have cut: "im_cut r_size k xs ([(k, r)] @ ys)" "im_cut r_size (k + r_size r) (xs @ [(k, r)]) ys"
    using okm by (auto simp: im_cut_def vm_ok_append vm_ok_Cons)
  have c: "coalesced xs" "coalesced ys"
    using ok xy coalesced_append [of "[(k, r)]" ys] by (simp_all add: vr_ok_def coalesced_append)
  have "coalesced (xs @ ys)"
    using coalesced_gap [OF okm cut c, of "r_size r"] vm_ok_node [OF okm, of k r] by simp
  then show "vr_ok (erase_unlocked k s)" using e by (simp add: vr_ok_def)
  show "vr_view (erase_unlocked k s) =
      (\<lambda>x. if k \<le> x \<and> x < k + r_size r then None else vr_view s x)"
    using node_view [of xs k r ys] okm e(1) xy by (auto simp: vr_view_def fun_eq_iff)
  show "\<exists>x. k \<le> x \<and> x < k + r_size r \<and> vr_view s x \<noteq> None"
    using node_view(1) [of xs k r ys k] okm xy vm_ok_node(2) [OF okm, of k r]
    by (intro exI [of _ k]) (simp add: vr_view_def)
qed

lemma vr_remove_ok:
  assumes ok: "vr_ok s" and a: "a < two64"
  shows "vr_ok (fst (vr_remove a n s))"
    and "vr_view (fst (vr_remove a n s)) =
      (\<lambda>x. if a \<le> x \<and> x < range_end a n then None else vr_view s x)"
    and "snd (vr_remove a n s) \<longleftrightarrow> (\<exists>x. a \<le> x \<and> x < range_end a n \<and> vr_view s x \<noteq> None)"
proof -
  have "vr_ok (fst (vr_remove a n s)) \<and> vr_view (fst (vr_remove a n s)) =
      (\<lambda>x. if a \<le> x \<and> x < range_end a n then None else vr_view s x)
    \<and> (snd (vr_remove a n s) \<longleftrightarrow> (\<exists>x. a \<le> x \<and> x < range_end a n \<and> vr_view s x \<noteq> None))"
  proof (cases "\<exists>r. map_of (vr_map s) a = Some r \<and> r_size r = n")
    case True
    then obtain r where r: "map_of (vr_map s) a = Some r" "r_size r = n" by blast
    have "vm_ok (vr_map s)" using ok by (simp add: vr_ok_def vr_wf_def)
    then have "a + n < two64" using vm_ok_node(3) [of "vr_map s" a r] r om_in_set [of "vr_map s"] by simp
    then have "range_end a n = a + n" by simp
    then show ?thesis using erase_unlocked_ok [OF ok r(1)] r by (simp add: vr_remove_def)
  next
    case False
    then have "vr_remove a n s = remove_unlocked a n s"
      by (auto simp: vr_remove_def split: option.splits)
    then show ?thesis using remove_unlocked_ok [OF ok a] by simp
  qed
  then show "vr_ok (fst (vr_remove a n s))" "vr_view (fst (vr_remove a n s)) =
      (\<lambda>x. if a \<le> x \<and> x < range_end a n then None else vr_view s x)"
    "snd (vr_remove a n s) \<longleftrightarrow> (\<exists>x. a \<le> x \<and> x < range_end a n \<and> vr_view s x \<noteq> None)"
    by blast+
qed

subsection \<open>Overlap, insertion and replacement\<close>

lemma overlap_lists:
  assumes ok: "vm_ok m"
  obtains xs ys where "m = xs @ ys" "om_lower_bound a m = om_begin ys"
    "\<forall>e\<in>set xs. fst e < a" "\<forall>e\<in>set ys. a \<le> fst e"
    "om_prev (om_begin ys) m = (if xs = [] then None else Some (fst (last xs)))"
proof -
  have m: "m = om_before a m @ om_from a m" by (rule om_split_at)
  have om: "om_ok (om_before a m @ om_from a m)" using ok om_split_at [of m a] by simp
  have "om_prev (om_begin (om_from a m)) m =
      (if om_before a m = [] then None else Some (fst (last (om_before a m))))"
    using om_prev_append [OF om] om_split_at [of m a] by simp
  moreover have "\<forall>e\<in>set (om_before a m). fst e < a" "\<forall>e\<in>set (om_from a m). a \<le> fst e"
    using ok by (simp_all add: om_before_set om_from_set)
  ultimately show thesis using that [OF m] by (simp add: om_lower_bound_def)
qed

lemma find_overlap_lists:
  assumes wf: "vr_wf s" and n: "0 < n" "a + n < two64"
  obtains xs ys where "vr_map s = xs @ ys" "om_lower_bound a (vr_map s) = om_begin ys"
    "\<forall>e\<in>set xs. fst e < a" "\<forall>e\<in>set ys. a \<le> fst e"
    "find_overlap a n s =
       (if ys \<noteq> [] \<and> fst (hd ys) < a + n then Some (snd (hd ys))
        else if xs \<noteq> [] \<and> a < fst (last xs) + r_size (snd (last xs)) then Some (snd (last xs))
        else None)"
proof -
  have ok: "vm_ok (vr_map s)" using wf by (simp add: vr_wf_def)
  obtain xs ys where xy: "vr_map s = xs @ ys" "om_lower_bound a (vr_map s) = om_begin ys"
    "\<forall>e\<in>set xs. fst e < a" "\<forall>e\<in>set ys. a \<le> fst e"
    "om_prev (om_begin ys) (vr_map s) = (if xs = [] then None else Some (fst (last xs)))"
    by (rule overlap_lists [OF ok])
  have node: "vr_node s (fst e) = snd e" and ov: "virtual_ranges_overlap a n (r_start (snd e)) (r_size (snd e))
      = (fst e < a + n \<and> a < fst e + r_size (snd e))" if e: "e \<in> set (vr_map s)" for e
  proof -
    have "map_of (vr_map s) (fst e) = Some (snd e)" using ok e by (simp add: om_in_set)
    then show "vr_node s (fst e) = snd e" by (simp add: vr_node_def)
    have "r_start (snd e) = fst e" "0 < r_size (snd e)" "r_end (snd e) = fst e + r_size (snd e)"
      using vm_ok_node [OF ok, of "fst e" "snd e"] e by simp_all
    then show "virtual_ranges_overlap a n (r_start (snd e)) (r_size (snd e))
      = (fst e < a + n \<and> a < fst e + r_size (snd e))"
      using n by (auto simp: virtual_ranges_overlap_alt)
  qed
  have prev: "(case om_prev (om_begin ys) (vr_map s) of None \<Rightarrow> None
      | Some p \<Rightarrow> if virtual_ranges_overlap a n (r_start (vr_node s p)) (r_size (vr_node s p))
                  then Some (vr_node s p) else None) =
      (if xs \<noteq> [] \<and> a < fst (last xs) + r_size (snd (last xs)) then Some (snd (last xs)) else None)"
  proof (cases "xs = []")
    case False
    then have l: "last xs \<in> set (vr_map s)" "last xs \<in> set xs" using xy(1) by simp_all
    then have lt: "fst (last xs) < a + n" using xy(3) n(1) by (simp add: trans_less_add1)
    have p: "om_prev (om_begin ys) (vr_map s) = Some (fst (last xs))" using xy(5) False by simp
    show ?thesis
      unfolding p option.case node [OF l(1)] ov [OF l(1)] using lt False by simp
  qed (simp add: xy(5))
  have "find_overlap a n s =
       (if ys \<noteq> [] \<and> fst (hd ys) < a + n then Some (snd (hd ys))
        else if xs \<noteq> [] \<and> a < fst (last xs) + r_size (snd (last xs)) then Some (snd (last xs))
        else None)"
  proof (cases ys)
    case Nil
    then show ?thesis using prev by (simp add: find_overlap_def Let_def xy(2))
  next
    case (Cons y vs)
    have "y \<in> set (vr_map s)" using xy(1) Cons by simp
    moreover have "a < fst y + r_size (snd y)"
      using xy(4) Cons vm_ok_pos [OF ok \<open>y \<in> set (vr_map s)\<close>] by simp
    ultimately have "virtual_ranges_overlap a n (r_start (vr_node s (fst y))) (r_size (vr_node s (fst y)))
      = (fst y < a + n)" "vr_node s (fst y) = snd y"
      using node ov by simp_all
    then show ?thesis
      unfolding find_overlap_def Let_def xy(2) prev unfolding Cons om_begin_simps option.case
      by (simp only: list.sel list.distinct(2) simp_thms)
  qed
  then show thesis by (rule that [OF xy(1-4)])
qed

lemma find_overlap_ok:
  assumes wf: "vr_wf s" and n: "0 < n" "a + n < two64"
  shows "find_overlap a n s = None \<longleftrightarrow> (\<forall>x\<in>span a n. vr_view s x = None)"
    and "find_overlap a n s = Some r \<Longrightarrow>
      map_of (vr_map s) (r_start r) = Some r \<and> span a n \<inter> span (r_start r) (r_size r) \<noteq> {}"
proof -
  obtain xs ys where xy: "vr_map s = xs @ ys"
    "\<forall>e\<in>set xs. fst e < a" "\<forall>e\<in>set ys. a \<le> fst e"
    "find_overlap a n s =
       (if ys \<noteq> [] \<and> fst (hd ys) < a + n then Some (snd (hd ys))
        else if xs \<noteq> [] \<and> a < fst (last xs) + r_size (snd (last xs)) then Some (snd (last xs))
        else None)" by (rule find_overlap_lists [OF assms])
  have ok: "vm_ok (xs @ ys)" using wf xy(1) by (simp add: vr_wf_def)
  have some: "map_of (vr_map s) (r_start r) = Some r \<and> span a n \<inter> span (r_start r) (r_size r) \<noteq> {}"
    if r: "find_overlap a n s = Some r" for r
  proof -
    obtain e where e: "e \<in> set (xs @ ys)" "snd e = r" "fst e < a + n" "a < fst e + r_size r"
    proof (cases "ys \<noteq> [] \<and> fst (hd ys) < a + n")
      case True
      then have "hd ys \<in> set ys" by simp
      then have "a < fst (hd ys) + r_size (snd (hd ys))"
        using bspec [OF xy(3), of "hd ys"] vm_ok_pos [OF ok, of "hd ys"] by simp
      then show ?thesis using that [of "hd ys"] True r xy(4) \<open>hd ys \<in> set ys\<close> by simp
    next
      case False
      then have "xs \<noteq> []" "a < fst (last xs) + r_size (snd (last xs))" "snd (last xs) = r"
        using r unfolding xy(4) if_not_P [OF False] by (simp_all split: if_splits)
      moreover from this(1) have "last xs \<in> set xs" by simp
      ultimately show ?thesis using that [of "last xs"] xy(2) n(1) by (simp add: trans_less_add1)
    qed
    then have st: "r_start r = fst e"
      using vm_ok_node(1) [OF ok, of "fst e" r] by (metis prod.collapse)
    have "map_of (vr_map s) (fst e) = Some (snd e)"
      using ok e(1) om_in_set [of "xs @ ys"] xy(1) by simp
    moreover have "max a (fst e) \<in> span a n \<inter> span (fst e) (r_size r)"
      using e n(1) vm_ok_pos [OF ok e(1)] by (simp add: max_def)
    moreover from this have "span a n \<inter> span (fst e) (r_size r) \<noteq> {}" by blast
    ultimately show ?thesis using e(2) st by simp
  qed
  then show "find_overlap a n s = Some r \<Longrightarrow>
      map_of (vr_map s) (r_start r) = Some r \<and> span a n \<inter> span (r_start r) (r_size r) \<noteq> {}" .
  show "find_overlap a n s = None \<longleftrightarrow> (\<forall>x\<in>span a n. vr_view s x = None)"
  proof
    assume none: "find_overlap a n s = None"
    have x1: "\<forall>e\<in>set xs. fst e + r_size (snd e) \<le> a"
    proof (cases "xs = []")
      case False
      then obtain us p l where xs: "xs = us @ [(p, l)]" using last_obtain by blast
      moreover have "p + r_size l \<le> a" using none xs xy(4) by (auto split: if_splits)
      moreover have "\<forall>e\<in>set us. fst e + r_size (snd e) \<le> p" using ok xs by (auto simp: vm_ok_append)
      ultimately show ?thesis by fastforce
    qed simp
    have y1: "\<forall>e\<in>set ys. a + n \<le> fst e"
    proof (cases ys)
      case (Cons y vs)
      moreover have "a + n \<le> fst y" using none Cons xy(4) by (auto split: if_splits)
      moreover have "\<forall>e\<in>set vs. fst y \<le> fst e"
        using ok Cons vm_ok_Cons [of "fst y" "snd y" vs] by (auto simp: vm_ok_append dest: add_leD1)
      ultimately show ?thesis by fastforce
    qed simp
    show "\<forall>x\<in>span a n. vr_view s x = None"
      by (intro ballI) (simp add: vr_view_def xy(1) im_view_append im_view_above [OF x1] im_view_below [OF y1])
  next
    assume none: "\<forall>x\<in>span a n. vr_view s x = None"
    show "find_overlap a n s = None"
    proof (rule ccontr)
      assume "find_overlap a n s \<noteq> None"
      then obtain r x where r: "map_of (vr_map s) (r_start r) = Some r" "x \<in> span a n" "x \<in> span (r_start r) (r_size r)"
        using some by blast
      obtain us vs where "vr_map s = us @ (r_start r, r) # vs"
        using om_node_obtain [OF _ r(1)] ok xy(1) by auto
      then have "vr_view s x \<noteq> None"
        using node_view(1) [of us "r_start r" r vs x] r(3) ok xy(1) by (simp add: vr_view_def)
      then show False using bspec [OF none r(2)] by simp
    qed
  qed
qed

lemma add_check:
  "vr_add a n off p mt ty nm dm s =
     (if a = 0 \<or> n = 0 \<or> n > U64_MAX - a \<or> find_overlap a n s \<noteq> None then (s, False)
      else (let r = \<lparr>r_start = a, r_size = n, r_offset = off, r_prot = p, r_memory_type = mt,
                     r_type = ty, r_disallow_merge = dm, r_name = copy_virtual_range_name nm\<rparr>;
                s1 = s\<lparr>vr_map := om_emplace a r (vr_map s)\<rparr>
            in (merge_around a (update_pt (vr_node s1 a) True s1), True)))"
  by (auto simp: vr_add_def find_overlap_def Let_def split: option.splits)

text \<open>Writing a fresh range into a gap.\<close>

definition add_node :: "u64 \<Rightarrow> vrange \<Rightarrow> vranges \<Rightarrow> vranges" where
  "add_node a r s = (let s1 = s\<lparr>vr_map := om_emplace a r (vr_map s)\<rparr>
                     in merge_around a (update_pt (vr_node s1 a) True s1))"

lemma add_node_ok:
  assumes ok: "vr_ok s" and n: "0 < r_size r" "a + r_size r < two64" "r_start r = a"
    and free: "\<forall>x\<in>span a (r_size r). vr_view s x = None"
  shows "vr_ok (add_node a r s)"
    and "vr_view (add_node a r s) =
      (\<lambda>x. if x \<in> span a (r_size r) then Some (vr_attr a r x) else vr_view s x)"
proof -
  define n where "n = r_size r"
  have wf: "vr_wf s" and okm: "vm_ok (vr_map s)" and c: "coalesced (vr_map s)"
    using ok by (simp_all add: vr_ok_def vr_wf_def)
  define xs ys where "xs = om_before a (vr_map s)" and "ys = om_from a (vr_map s)"
  have m: "vr_map s = xs @ ys" by (simp add: xs_def ys_def om_split_at)
  have none: "find_overlap a n s = None"
    using find_overlap_ok(1) [OF wf, of n a] n free by (simp add: n_def)
  have oke: "im_ok r_size (om_emplace a r (vr_map s))"
  proof (rule im_ok_emplace)
    show "im_ok r_size (vr_map s)" using okm by (simp add: vm_ok_def)
    then show "im_at r_size (vr_map s) x = None" if "x \<in> span a (r_size r)" for x
      using bspec [OF free that] im_view_at [of r_size "vr_map s" vr_attr x]
      by (simp only: vr_view_def map_option_is_None)
  qed (use n in simp_all)
  have mem: "\<forall>e\<in>set xs. fst e < a" "\<forall>e\<in>set ys. a < fst e"
  proof -
    show "\<forall>e\<in>set xs. fst e < a" using okm by (simp add: xs_def om_before_set)
    have ge: "\<forall>e\<in>set ys. a \<le> fst e" using okm by (simp add: ys_def om_from_set)
    have "fst e \<noteq> a" if eys: "e \<in> set ys" for e
    proof
      assume "fst e = a"
      obtain us vs where ys: "ys = us @ (fst e, snd e) # vs"
        using split_list [OF eys] by auto
      have "e \<in> set (vr_map s)" using eys m by simp
      then have pos: "0 < r_size (snd e)" by (rule vm_ok_pos [OF okm])
      have "vr_view s a \<noteq> None"
        using node_view(1) [of "xs @ us" "fst e" "snd e" vs a] okm m \<open>fst e = a\<close> pos ys
        by (simp add: vr_view_def)
      then show False using bspec [OF free, of a] n(1) by simp
    qed
    then show "\<forall>e\<in>set ys. a < fst e" using ge by (simp add: order_less_le eq_commute)
  qed
  have e: "om_emplace a r (vr_map s) = xs @ (a, r) # ys"
    unfolding m by (rule om_emplace_node [OF mem])
  have okr: "vm_ok (xs @ (a, r) # ys)"
    using oke okm n(3) unfolding vm_ok_def e by (auto simp: m)
  define s1 where "s1 = s\<lparr>vr_map := om_emplace a r (vr_map s)\<rparr>"
  define s2 where "s2 = update_pt r True s1"
  have s1: "vr_map s1 = xs @ (a, r) # ys" by (simp add: s1_def e)
  have node: "vr_node s1 a = r" using vr_node_at [OF s1] okr s1 by simp
  have "vr_counts (om_sum cpu_pt (xs @ ys) + cpu_pt r) (om_sum gpu_pt (xs @ ys) + gpu_pt r) s2"
    unfolding s2_def by (rule update_pt_add) (use wf m in \<open>simp add: vr_wf_def s1_def\<close>)
  then have s2: "vr_map s2 = xs @ (a, r) # ys" "vr_wf s2"
    using okr s1 by (simp_all add: s2_def vr_wf_def add_ac)
  have eq: "add_node a r s = merge_around a s2"
    unfolding add_node_def Let_def s1_def [symmetric] node s2_def ..
  have "coalesced xs" "coalesced ys" using c by (simp_all add: m coalesced_append)
  then show "vr_ok (add_node a r s)"
    using merge_around_nodes(1,3) [OF s2(2,1)] by (simp add: vr_ok_def eq)
  show "vr_view (add_node a r s) =
      (\<lambda>x. if x \<in> span a (r_size r) then Some (vr_attr a r x) else vr_view s x)"
    unfolding eq merge_around_nodes(2) [OF s2(2,1)]
    using node_view(1) [OF okr] by (simp add: vr_view_def s2(1) m fun_eq_iff)
qed

text \<open>The validation loop of \<open>ReplaceSpan\<close> checks the view of the span.\<close>

lemma all_between_shift:
  fixes P Q :: "nat \<Rightarrow> bool"
  assumes "c < k" and "\<And>x. c \<le> x \<Longrightarrow> Q x \<longleftrightarrow> x < k \<or> P x"
  shows "(\<forall>x. c \<le> x \<and> x < e \<longrightarrow> Q x) \<longleftrightarrow> (\<forall>x. k \<le> x \<and> x < e \<longrightarrow> P x)"
  using assms by (meson leD leI less_imp_le order.trans)

lemma span_has_type_view:
  assumes "vm_ok m" and "\<forall>e\<in>set m. cur < fst e + r_size (snd e)" and "cur < e"
  shows "span_has_type T e cur m \<longleftrightarrow>
    (\<forall>x. cur \<le> x \<and> x < e \<longrightarrow> (\<exists>v. view_of m x = Some v \<and> pv_type v = T))"
  using assms
proof (induction m arbitrary: cur)
  case (Cons y m)
  obtain k r where y: "y = (k, r)" by force
  have st: "r_start r = k" "r_end r = k + r_size r" using vm_ok_node [OF Cons.prems(1), of k r] y by simp_all
  have okm: "vm_ok m" "\<forall>e\<in>set m. k + r_size r \<le> fst e" using Cons.prems(1) by (simp_all add: y vm_ok_Cons)
  have ty: "pv_type (vr_attr k r x) = r_type r" for x by (simp add: vr_attr_def)
  show ?case
  proof (cases "k > cur \<or> r_type r \<noteq> T")
    case True
    have "\<not> (\<exists>v. view_of (y # m) cur = Some v \<and> pv_type v = T)"
    proof (cases "k > cur")
      case gt: True
      then have "view_of m cur = None" using okm(2) by (intro im_view_below [of m "k + r_size r"]) simp_all
      then show ?thesis using gt by (simp add: y)
    next
      case False
      then show ?thesis using True Cons.prems(2) by (simp add: y ty)
    qed
    then show ?thesis using True Cons.prems(3) st by (auto simp: y)
  next
    case False
    have step: "span_has_type T e cur (y # m) = span_has_type T e (min e (k + r_size r)) m"
      using False Cons.prems(3) st by (simp add: y)
    show ?thesis
    proof (cases "e \<le> k + r_size r")
      case True
      have "span_has_type T e e m" by (cases m) auto
      then show ?thesis using step True False by (auto simp: y ty min_def)
    next
      case lt: False
      have "\<forall>x\<in>set m. k + r_size r < fst x + r_size (snd x)"
        using okm vm_ok_pos [OF okm(1)] by fastforce
      then have IH: "span_has_type T e (k + r_size r) m \<longleftrightarrow>
        (\<forall>x. k + r_size r \<le> x \<and> x < e \<longrightarrow> (\<exists>v. view_of m x = Some v \<and> pv_type v = T))"
        using Cons.IH [OF okm(1), of "k + r_size r"] lt by simp
      have "(\<exists>v. view_of (y # m) x = Some v \<and> pv_type v = T) \<longleftrightarrow>
        x < k + r_size r \<or> (\<exists>v. view_of m x = Some v \<and> pv_type v = T)" if "cur \<le> x" for x
        using that False by (simp add: y ty)
      moreover have "min e (k + r_size r) = k + r_size r" using lt by simp
      moreover have "cur < k + r_size r" using Cons.prems(2) by (simp add: y)
      ultimately show ?thesis unfolding step by (simp only: IH all_between_shift)
    qed
  qed
qed (auto simp del: split_paired_All)

lemma find_containing_cases:
  assumes wf: "vr_wf s"
  obtains (found) xs k r ys where "vr_map s = xs @ (k, r) # ys" "k \<le> a" "a < k + r_size r"
      "find_containing a s = Some k" "vr_node s k = r" "vr_view s a = Some (vr_attr k r a)"
  | (gap) "find_containing a s = None" "vr_view s a = None"
proof -
  have ok: "vm_ok (vr_map s)" using wf by (simp add: vr_wf_def)
  show thesis
  proof (cases "om_floor a (vr_map s)")
    case None
    have "find_containing a s = None"
      using None by (simp add: find_containing_def om_floor_def)
    moreover have "vr_view s a = None"
      unfolding vr_view_def
      using im_view_at [of r_size "vr_map s" vr_attr a] ok None by (simp add: vm_ok_def im_at_def)
    ultimately show ?thesis by (rule gap)
  next
    case (Some k)
    then obtain r where r: "map_of (vr_map s) k = Some r" "k \<le> a"
      using ok by (auto simp: om_floor_Some)
    obtain xs ys where m: "vr_map s = xs @ (k, r) # ys" using om_node_obtain [OF _ r(1)] ok by auto
    have node: "vr_node s k = r" by (simp add: vr_node_def r)
    have e: "r_end r = k + r_size r" using vm_ok_node(4) [OF ok, of k r] m by simp
    have at: "im_at r_size (vr_map s) a = (if a < k + r_size r then Some (k, r) else None)"
      using Some r by (simp add: im_at_def)
    have view: "vr_view s a = (if a < k + r_size r then Some (vr_attr k r a) else None)"
      unfolding vr_view_def
      using im_view_at [of r_size "vr_map s" vr_attr a] ok at by (simp add: vm_ok_def)
    show ?thesis
    proof (cases "a < k + r_size r")
      case True
      then show ?thesis
        using Some node e view by (intro found [OF m r(2)]) (simp_all add: find_containing_def om_floor_def)
    next
      case False
      then show ?thesis
        using Some node e view by (intro gap) (simp_all add: find_containing_def om_floor_def)
    qed
  qed
qed

lemma containing_suffix:
  assumes "vm_ok (xs @ (k, r) # ys)" and "a < k + r_size r" and "k \<le> a"
  shows "om_iter_from (Some k) (xs @ (k, r) # ys) = (k, r) # ys"
    and "\<forall>e\<in>set ((k, r) # ys). a < fst e + r_size (snd e)"
    and "vm_ok ((k, r) # ys)"
    and "a \<le> x \<Longrightarrow> view_of (xs @ (k, r) # ys) x = view_of ((k, r) # ys) x"
proof -
  show "om_iter_from (Some k) (xs @ (k, r) # ys) = (k, r) # ys"
    using assms(1) by (simp add: om_node_from)
  show ok: "vm_ok ((k, r) # ys)" using assms(1) by (simp add: vm_ok_append)
  have "a < fst e" if "e \<in> set ys" for e using ok assms(2) that by (fastforce simp: vm_ok_Cons)
  then show "\<forall>e\<in>set ((k, r) # ys). a < fst e + r_size (snd e)"
    using assms(2) by (auto intro: trans_less_add1)
  have "\<forall>e\<in>set xs. fst e + r_size (snd e) \<le> k" using assms(1) by (auto simp: vm_ok_append)
  then show "view_of (xs @ (k, r) # ys) x = view_of ((k, r) # ys) x" if "a \<le> x"
    using im_view_above [of xs r_size k x vr_attr] assms(3) that by (simp add: im_view_append)
qed

lemma span_check:
  assumes wf: "vr_wf s" and n: "0 < n"
  shows "span_has_type T (a + n) a (om_iter_from (find_containing a s) (vr_map s)) \<longleftrightarrow>
    (\<forall>x\<in>span a n. \<exists>v. vr_view s x = Some v \<and> pv_type v = T)"
  using wf
proof (cases rule: find_containing_cases [where a = a])
  case (found xs k r ys)
  have ok: "vm_ok (xs @ (k, r) # ys)" using wf found by (simp add: vr_wf_def)
  note c = containing_suffix [OF ok found(3,2)]
  have "span_has_type T (a + n) a ((k, r) # ys) \<longleftrightarrow>
    (\<forall>x. a \<le> x \<and> x < a + n \<longrightarrow> (\<exists>v. view_of ((k, r) # ys) x = Some v \<and> pv_type v = T))"
    by (rule span_has_type_view [OF c(3,2)]) (use n in simp)
  also have "\<dots> \<longleftrightarrow> (\<forall>x\<in>span a n. \<exists>v. vr_view s x = Some v \<and> pv_type v = T)"
    unfolding Ball_def in_span vr_view_def found(1) using c(4) by presburger
  finally show ?thesis using found(1,4) c(1) by simp
next
  case gap
  then show ?thesis using n by (auto intro!: bexI [of _ a])
qed

lemma replace_span_ok:
  fixes s :: vranges and a n off :: u64 and p :: prot and mt :: int and ty :: range_type
    and nm :: "string option" and dm :: bool
  assumes ok: "vr_ok s" and n: "0 < n" "a + n < two64" and a: "0 < a"
    and typed: "\<forall>x\<in>span a n. \<exists>v. vr_view s x = Some v \<and> pv_type v = T"
  defines "r \<equiv> \<lparr>r_start = a, r_size = n, r_offset = off, r_prot = p, r_memory_type = mt,
      r_type = ty, r_disallow_merge = dm, r_name = copy_virtual_range_name nm\<rparr>"
  defines "res \<equiv> vr_replace_span a n T off p mt ty nm dm s"
  shows "snd res" and "vr_ok (fst res)"
    and "vr_view (fst res) = (\<lambda>x. if x \<in> span a n then Some (vr_attr a r x) else vr_view s x)"
proof -
  have wf: "vr_wf s" and c: "coalesced (vr_map s)" using ok by (simp_all add: vr_ok_def)
  have rn: "r_size r = n" "r_start r = a" by (simp_all add: r_def)
  define s1 where "s1 = fst (split_at a s)"
  define s2 where "s2 = fst (split_at (a + n) s1)"
  obtain as bs cs where s2: "vr_map s2 = as @ bs @ cs" "vr_wf s2" "vr_view s2 = vr_view s"
    "snd (split_at a s) = om_begin (bs @ cs)" "snd (split_at (a + n) s1) = om_begin cs"
    "im_cut r_size a as (bs @ cs)" "im_cut r_size (a + n) (as @ bs) cs"
    "coalesced as" "coalesced bs" "coalesced cs"
    using split_span [OF wf le_add1 [of a n]] c unfolding s1_def s2_def by blast
  have v: "view_of (as @ bs @ cs) = vr_view s" using s2(1,3) by (simp add: vr_view_def)
  note vc = view_cut [OF s2(6,7) v le_add1 [of a n]]
  have okm: "vm_ok (as @ bs @ cs)" using s2(1,2) by (simp add: vr_wf_def)
  have "view_of bs a \<noteq> None" using vc(2) [of a] bspec [OF typed, of a] n by auto
  then obtain q bs' where bs: "bs = (a, q) # bs'"
  proof (cases bs)
    case (Cons b bs')
    obtain k q where b: "b = (k, q)" by force
    have "a \<le> k" using s2(6) by (simp add: Cons b im_cut_def)
    moreover have "k \<le> a"
    proof (rule ccontr)
      assume "\<not> k \<le> a"
      moreover have "\<forall>e\<in>set bs. k \<le> fst e"
        using okm by (auto simp: Cons b vm_ok_append vm_ok_Cons dest: add_leD1)
      ultimately have "view_of bs a = None" using im_view_below [of bs k a] by simp
      then show False using \<open>view_of bs a \<noteq> None\<close> by simp
    qed
    ultimately show thesis using that [of q bs'] Cons b by simp
  qed simp
  have okr: "vm_ok (as @ (a, r) # cs)"
    using okm s2(6,7) n(1) n(2) unfolding bs vm_ok_append vm_ok_Cons im_cut_def rn by auto
  have om: "om_ok (as @ (a, q) # bs' @ cs)" using vm_ok_om [OF okm] by (simp add: bs)
  have nxt: "om_next a (vr_map s2) = om_begin (bs' @ cs)"
    using om_node_next [OF om] by (simp add: s2(1) bs)
  have rng: "om_range (om_begin (bs' @ cs)) (om_begin cs) (vr_map s2) = bs'"
    using om_range_append [of "as @ [(a, q)]" bs' cs] om by (simp add: s2(1) bs)
  define s3 where "s3 = erase_loop (map fst bs') s2"
  have s3: "vr_map s3 = as @ (a, q) # cs" "vr_wf s3"
    using erase_loop_nodes [of s2 "as @ [(a, q)]" bs' cs] s2(1,2) bs by (simp_all add: s3_def)
  have q: "vr_node s3 a = q" using vr_node_at [OF s3(1)] s3(2) by (simp add: vr_wf_def)
  define s5 where "s5 = (update_pt q False s3)\<lparr>vr_map := om_set a r (vr_map s3)\<rparr>"
  define s6 where "s6 = update_pt r True s5"
  have s6: "vr_map s6 = as @ (a, r) # cs" "vr_wf s6"
    using set_node_step [OF s3(2,1) okr] by (simp_all add: s6_def s5_def)
  have q5: "vr_node s5 a = r"
    using vr_node_at [of s5 as a r cs] s6(1) okr by (simp add: s6_def)
  have chk: "span_has_type T (a + n) a (om_iter_from (find_containing a s) (vr_map s))"
    using span_check [OF wf n(1)] typed by simp
  have nn: "\<not> (a = 0 \<or> n = 0 \<or> n > U64_MAX - a)" using n a by simp
  have res: "res = (merge_around a s6, True)"
    unfolding res_def vr_replace_span_def if_not_P [OF nn]
    using chk n(2) s2(4,5) nxt rng q q5 bs unfolding r_def [symmetric]
    by (simp add: Let_def case_prod_beta s6_def s5_def s3_def flip: s1_def s2_def)
  show "snd res" by (simp add: res)
  show "vr_ok (fst res)"
    using merge_around_nodes(1,3) [OF s6(2,1)] s2(8,10) by (simp add: res vr_ok_def)
  have "vr_view (fst res) x = (if x \<in> span a n then Some (vr_attr a r x) else vr_view s x)" for x
  proof -
    have gap: "view_of (as @ cs) x = (if a \<le> x \<and> x < a + n then None else vr_view s x)"
      using vc(1,3) [of x] by (auto simp: im_view_append split: option.splits)
    have "vr_view (fst res) x = view_of (as @ (a, r) # cs) x"
      using merge_around_nodes(2) [OF s6(2,1)] by (simp add: res vr_view_def s6(1))
    then show ?thesis
      unfolding node_view(1) [OF okr] gap rn in_span by simp
  qed
  then show "vr_view (fst res) = (\<lambda>x. if x \<in> span a n then Some (vr_attr a r x) else vr_view s x)"
    by blast
qed

lemma replace_span_no:
  assumes ok: "vr_ok s" and "a < two64" and
    "\<not> (0 < a \<and> 0 < n \<and> a + n < two64 \<and> (\<forall>x\<in>span a n. \<exists>v. vr_view s x = Some v \<and> pv_type v = T))"
  shows "vr_replace_span a n T off p mt ty nm dm s = (s, False)"
proof (cases "a = 0 \<or> n = 0 \<or> n > U64_MAX - a")
  case False
  then have n: "0 < n" "a + n < two64" using assms(2) by auto
  have wf: "vr_wf s" using ok by (simp add: vr_ok_def)
  have "\<not> span_has_type T (add64 a n) a (om_iter_from (find_containing a s) (vr_map s))"
    using span_check [OF wf n(1), of T a] assms(3) n False by simp
  then show ?thesis using False by (simp add: vr_replace_span_def)
qed (auto simp: vr_replace_span_def)

lemma vr_add_ok:
  fixes s :: vranges and a n off :: u64 and p :: prot and mt :: int and ty :: range_type
    and nm :: "string option" and dm :: bool
  assumes ok: "vr_ok s" and a: "a < two64"
  defines "r \<equiv> \<lparr>r_start = a, r_size = n, r_offset = off, r_prot = p, r_memory_type = mt,
      r_type = ty, r_disallow_merge = dm, r_name = copy_virtual_range_name nm\<rparr>"
  defines "valid \<equiv> 0 < a \<and> 0 < n \<and> a + n < two64 \<and> (\<forall>x\<in>span a n. vr_view s x = None)"
  shows "\<not> valid \<Longrightarrow> vr_add a n off p mt ty nm dm s = (s, False)"
    and "valid \<Longrightarrow> snd (vr_add a n off p mt ty nm dm s)"
    and "valid \<Longrightarrow> vr_ok (fst (vr_add a n off p mt ty nm dm s))"
    and "valid \<Longrightarrow> vr_view (fst (vr_add a n off p mt ty nm dm s)) =
      (\<lambda>x. if x \<in> span a n then Some (vr_attr a r x) else vr_view s x)"
proof -
  have wf: "vr_wf s" using ok by (simp add: vr_ok_def)
  have iff: "a = 0 \<or> n = 0 \<or> n > U64_MAX - a \<or> find_overlap a n s \<noteq> None \<longleftrightarrow> \<not> valid"
  proof (cases "a = 0 \<or> n = 0 \<or> n > U64_MAX - a")
    case False
    then have n: "0 < n" "a + n < two64" "0 < a" using a by auto
    show ?thesis
      using False n find_overlap_ok(1) [OF wf n(1,2)] by (simp add: valid_def)
  next
    case True
    then have "\<not> (0 < a \<and> 0 < n \<and> a + n < two64)" by auto
    then show ?thesis using True by (auto simp: valid_def)
  qed
  then show "\<not> valid \<Longrightarrow> vr_add a n off p mt ty nm dm s = (s, False)"
    unfolding add_check by (simp only: not_False_eq_True if_True)
  have eq: "vr_add a n off p mt ty nm dm s = (add_node a r s, True)" if valid
    using iff that unfolding add_check by (simp add: add_node_def r_def Let_def)
  have "0 < r_size r" "a + r_size r < two64" "r_start r = a"
    "\<forall>x\<in>span a (r_size r). vr_view s x = None" if valid
    using that by (simp_all add: valid_def r_def)
  note node = add_node_ok [OF ok this]
  show "valid \<Longrightarrow> snd (vr_add a n off p mt ty nm dm s)"
    and "valid \<Longrightarrow> vr_ok (fst (vr_add a n off p mt ty nm dm s))"
    and "valid \<Longrightarrow> vr_view (fst (vr_add a n off p mt ty nm dm s)) =
      (\<lambda>x. if x \<in> span a n then Some (vr_attr a r x) else vr_view s x)"
    using eq node by (simp_all add: r_def)
qed

lemma rename_attr:
  "vr_attr k (r\<lparr>r_name := nm\<rparr>) a = (vr_attr k r a)\<lparr>pv_name := nm\<rparr>"
  by (simp add: vr_attr_def)

lemma protect_attr:
  "vr_attr k (r\<lparr>r_prot := p\<rparr>) a = (vr_attr k r a)\<lparr>pv_prot := p\<rparr>"
  by (simp add: vr_attr_def)

lemma vr_protect_ok:
  assumes "vr_ok s" and "a < two64"
  shows "vr_ok (vr_protect a n p s)"
    and "vr_view (vr_protect a n p s) =
      (\<lambda>x. if a \<le> x \<and> x < range_end a n then map_option (pv_prot_update (\<lambda>_. p)) (vr_view s x)
           else vr_view s x)"
  unfolding vr_protect_def
  by (rule edit_unlocked_ok [OF assms, where f = "\<lambda>r. r\<lparr>r_prot := p\<rparr>" and g = "pv_prot_update (\<lambda>_. p)"];
      simp add: protect_attr)+

lemma vr_rename_ok:
  assumes ok: "vr_ok s" and a: "a < two64"
  shows "vr_ok (vr_rename a n nm s)"
    and "vr_view (vr_rename a n nm s) =
      (\<lambda>x. if a \<le> x \<and> x < range_end a n
           then map_option (pv_name_update (\<lambda>_. copy_virtual_range_name nm)) (vr_view s x)
           else vr_view s x)"
proof -
  let ?f = "\<lambda>r. r\<lparr>r_name := copy_virtual_range_name nm\<rparr>"
  let ?g = "pv_name_update (\<lambda>_. copy_virtual_range_name nm)"
  have "vr_ok (vr_rename a n nm s) \<and> vr_view (vr_rename a n nm s) =
      (\<lambda>x. if a \<le> x \<and> x < range_end a n then map_option ?g (vr_view s x) else vr_view s x)"
  proof (cases "\<exists>r. map_of (vr_map s) a = Some r \<and> r_size r = n")
    case True
    then obtain r where r: "map_of (vr_map s) a = Some r" "r_size r = n" by blast
    have wf: "vr_wf s" and c: "coalesced (vr_map s)" using ok by (simp_all add: vr_ok_def)
    have okm: "vm_ok (vr_map s)" using wf by (simp add: vr_wf_def)
    obtain xs ys where m: "vr_map s = xs @ (a, r) # ys" using om_node_obtain [OF _ r(1)] okm by auto
    have okr: "vm_ok (xs @ (a, ?f r) # ys)" using okm by (simp add: m vm_ok_append vm_ok_Cons)
    define s1 where "s1 = s\<lparr>vr_map := om_set a (?f r) (vr_map s)\<rparr>"
    have s1: "vr_map s1 = xs @ (a, ?f r) # ys"
      using om_set_node [of xs a r ys] vm_ok_om [OF okm] by (simp add: s1_def m)
    have same: "cpu_pt (?f r) = cpu_pt r" "gpu_pt (?f r) = gpu_pt r"
      by (simp_all add: cpu_pt_def gpu_pt_def pt_entries_def)
    have wf1: "vr_wf s1" using okr wf same unfolding vr_wf_def s1 by (simp add: s1_def m)
    have eq: "vr_rename a n nm s = merge_around a s1" by (simp add: vr_rename_def r s1_def)
    have "coalesced xs" "coalesced ys"
      using c coalesced_append [of "[(a, r)]" ys] by (simp_all add: m coalesced_append)
    then have "vr_ok (vr_rename a n nm s)"
      using merge_around_nodes(1,3) [OF wf1 s1] by (simp add: eq vr_ok_def)
    moreover have "range_end a n = a + n" using vm_ok_node(3) [OF okm, of a r] m r(2) by simp
    moreover have "vr_view s1 x = (if a \<le> x \<and> x < a + n then map_option ?g (vr_view s x) else vr_view s x)" for x
      using node_view(1) [OF okr, of x] node_view(1) [of xs a r ys x] okm r(2)
      by (simp add: vr_view_def s1 m rename_attr)
    ultimately show ?thesis using merge_around_nodes(2) [OF wf1 s1] by (simp add: eq fun_eq_iff)
  next
    case False
    then have "vr_rename a n nm s = edit_unlocked a n ?f s"
      by (auto simp: vr_rename_def Let_def split: option.splits)
    then show ?thesis
      using edit_unlocked_ok [OF ok a, of ?f ?g n] by (simp add: rename_attr)
  qed
  then show "vr_ok (vr_rename a n nm s)" "vr_view (vr_rename a n nm s) =
      (\<lambda>x. if a \<le> x \<and> x < range_end a n then map_option ?g (vr_view s x) else vr_view s x)" by blast+
qed

subsection \<open>Queries\<close>

definition committed_at :: "page_view option \<Rightarrow> bool" where
  "committed_at v \<longleftrightarrow> (case v of None \<Rightarrow> False | Some w \<Rightarrow> is_committed_type (pv_type w))"

lemma committed_at_simps [simp]:
  "\<not> committed_at None" "committed_at (Some w) = is_committed_type (pv_type w)"
  by (simp_all add: committed_at_def)

lemma clamp_loop_view:
  assumes "vm_ok m" and "\<forall>e\<in>set m. cl < n \<longrightarrow> a + cl \<le> fst e" and "cl \<le> n" and "a + n < two64"
  defines "c \<equiv> clamp_loop n cl (a + cl) m"
  shows "cl \<le> c \<and> c \<le> n \<and> (\<forall>x. a + cl \<le> x \<and> x < a + c \<longrightarrow> committed_at (view_of m x))
    \<and> (c < n \<longrightarrow> \<not> committed_at (view_of m (a + c)))"
  using assms(1-4) unfolding c_def
proof (induction m arbitrary: cl)
  case (Cons e m)
  obtain k r where e: "e = (k, r)" by force
  have st: "r_start r = k" "0 < r_size r" using vm_ok_node [OF Cons.prems(1), of k r] e by simp_all
  have okm: "vm_ok m" "\<forall>f\<in>set m. k + r_size r \<le> fst f" using Cons.prems(1) by (simp_all add: e vm_ok_Cons)
  show ?case
  proof (cases "k = a + cl \<and> is_committed_type (r_type r) \<and> cl < n")
    case True
    define ch where "ch = min (n - cl) (r_size r)"
    have "ch \<le> n - cl" "ch \<le> r_size r" "0 < ch" using True st(2) by (simp_all add: ch_def)
    then have ch: "sub64 n cl = n - cl" "add64 cl ch = cl + ch" "add64 (a + cl) ch = a + (cl + ch)"
      "cl + ch \<le> n" "ch \<le> r_size r" "0 < ch"
      using Cons.prems(3,4) True by simp_all
    have nxt: "\<forall>f\<in>set m. cl + ch < n \<longrightarrow> a + (cl + ch) \<le> fst f"
    proof (intro ballI impI)
      fix f assume "f \<in> set m" "cl + ch < n"
      then have "ch = r_size r" "k + r_size r \<le> fst f" using okm by (auto simp: ch_def min_def)
      then show "a + (cl + ch) \<le> fst f" using True by simp
    qed
    have step: "clamp_loop n cl (a + cl) (e # m) = clamp_loop n (cl + ch) (a + (cl + ch)) m"
      using True st ch by (simp add: e Let_def flip: ch_def)
    note IH = Cons.IH [OF okm(1) nxt ch(4) Cons.prems(4)]
    define c' where "c' = clamp_loop n (cl + ch) (a + (cl + ch)) m"
    note IH' = IH [folded c'_def]
    have head: "committed_at (view_of (e # m) x)" if "a + cl \<le> x" "x < k + r_size r" for x
      using that True by (simp add: e vr_attr_def)
    have tail: "view_of (e # m) x = view_of m x" if "k + r_size r \<le> x" for x
      using that by (simp add: e)
    have "committed_at (view_of (e # m) x)" if "a + cl \<le> x" "x < a + c'" for x
    proof (cases "x < k + r_size r")
      case False
      then have "a + (cl + ch) \<le> x" using True ch(5) by simp
      then show ?thesis using IH' that tail False by simp
    qed (use head that in simp)
    moreover have "\<not> committed_at (view_of (e # m) (a + c'))" if "c' < n"
    proof -
      have "cl + ch < n" using IH' that by simp
      then have "ch = r_size r" by (auto simp: ch_def min_def)
      then have "k + r_size r \<le> a + c'" using IH' True by simp
      then show ?thesis using IH' that tail by simp
    qed
    ultimately show ?thesis using IH' unfolding step by (simp flip: c'_def)
  next
    case False
    then have step: "clamp_loop n cl (a + cl) (e # m) = cl" using st by (auto simp: e)
    have "\<not> committed_at (view_of (e # m) (a + cl))" if "cl < n"
    proof (cases "k = a + cl")
      case True
      then show ?thesis using False that st(2) by (auto simp: e vr_attr_def)
    next
      case ne: False
      then have "a + cl < k" using Cons.prems(2) that by (simp add: e)
      then have "view_of (e # m) (a + cl) = None"
        using okm(2) by (intro im_view_below [of _ k]) (auto simp: e dest: add_leD1)
      then show ?thesis by simp
    qed
    then show ?thesis unfolding step using Cons.prems(3) by auto
  qed
qed simp

lemma vr_clamp_ok:
  assumes wf: "vr_wf s" and a: "0 < a" "a + n < two64"
  defines "c \<equiv> vr_clamp_range_size a n s"
  shows "c \<le> n" and "\<forall>x\<in>span a c. committed_at (vr_view s x)"
    and "c < n \<Longrightarrow> \<not> committed_at (vr_view s (a + c))"
proof -
  have "c \<le> n \<and> (\<forall>x\<in>span a c. committed_at (vr_view s x))
    \<and> (c < n \<longrightarrow> \<not> committed_at (vr_view s (a + c)))"
  proof (cases "n = 0")
    case True
    then show ?thesis by (simp add: c_def vr_clamp_range_size_def span_def)
  next
    case n0: False
    then have nn: "\<not> (a = 0 \<or> n = 0 \<or> n > U64_MAX - a)" using a by simp
    show ?thesis using wf
    proof (cases rule: find_containing_cases [where a = a])
      case gap
      then show ?thesis using n0 unfolding c_def vr_clamp_range_size_def if_not_P [OF nn] by (simp add: span_def)
    next
      case (found xs k r ys)
      have ok: "vm_ok (xs @ (k, r) # ys)" using wf found by (simp add: vr_wf_def)
      note r = vm_ok_node [OF ok, of k r, simplified]
      show ?thesis
      proof (cases "is_committed_type (r_type r)")
        case False
        then have "c = 0" unfolding c_def vr_clamp_range_size_def if_not_P [OF nn] using found by simp
        then show ?thesis using False found by (simp add: vr_attr_def span_def)
      next
        case True
        define cl where "cl = min n (k + r_size r - a)"
        have cl: "sub64 (k + r_size r) a = k + r_size r - a" "add64 a cl = a + cl" "cl \<le> n"
          using r a found(2,3) by (simp_all add: cl_def)
        have iter: "om_iter_from (om_next k (vr_map s)) (vr_map s) = ys"
          using om_node_next [of xs k r ys] om_iter_from_append [of "xs @ [(k, r)]" ys] ok found(1)
          by simp
        have c: "c = clamp_loop n cl (a + cl) ys"
          unfolding c_def vr_clamp_range_size_def if_not_P [OF nn] found(4,5) option.case iter r(4) cl
          using True by (simp only: Let_def cl_def [symmetric] cl not_not not_True_eq_False if_False)
        have okys: "vm_ok ys" and ys: "\<forall>e\<in>set ys. k + r_size r \<le> fst e"
          using ok by (simp_all add: vm_ok_append vm_ok_Cons)
        have "\<forall>e\<in>set ys. cl < n \<longrightarrow> a + cl \<le> fst e" using ys found(3) by (auto simp: cl_def min_def)
        from clamp_loop_view [OF okys this cl(3) a(2), folded c]
        have L: "cl \<le> c \<and> c \<le> n \<and> (\<forall>x. a + cl \<le> x \<and> x < a + c \<longrightarrow> committed_at (view_of ys x))
          \<and> (c < n \<longrightarrow> \<not> committed_at (view_of ys (a + c)))" .
        have "view_of (xs @ (k, r) # ys) x = view_of ((k, r) # ys) x" if "a \<le> x" for x
          using containing_suffix(4) [OF ok found(3,2) that] .
        then have v: "vr_view s x = (if x < k + r_size r then Some (vr_attr k r x) else view_of ys x)"
          if "a \<le> x" for x using that found(1,2) by (simp add: vr_view_def)
        have "committed_at (vr_view s x)" if "a \<le> x" "x < a + c" for x
        proof (cases "x < k + r_size r")
          case False
          then have "a + cl \<le> x" using found(3) by (simp add: cl_def)
          then show ?thesis using L that v False by simp
        qed (use v that True in \<open>simp add: vr_attr_def\<close>)
        moreover have "\<not> committed_at (vr_view s (a + c))" if "c < n"
        proof -
          have "cl < n" using L that by simp
          then have "cl = k + r_size r - a" by (auto simp: cl_def min_def)
          moreover have "cl \<le> c" using L by simp
          ultimately have "k + r_size r \<le> a + c" by linarith
          then show ?thesis using L that v by simp
        qed
        ultimately show ?thesis using L by simp
      qed
    qed
  qed
  then show "c \<le> n" "\<forall>x\<in>span a c. committed_at (vr_view s x)"
    "c < n \<Longrightarrow> \<not> committed_at (vr_view s (a + c))" by blast+
qed

text \<open>\<open>QuerySpan\<close> returns pieces that tile the span and agree with the view.\<close>

fun tiles :: "u64 \<Rightarrow> vrange list \<Rightarrow> u64 \<Rightarrow> bool" where
  "tiles a [] e \<longleftrightarrow> a = e"
| "tiles a (p # ps) e \<longleftrightarrow> r_start p = a \<and> 0 < r_size p \<and> tiles (a + r_size p) ps e"

lemma tiles_append: "tiles a (ps @ qs) e \<longleftrightarrow> (\<exists>b. tiles a ps b \<and> tiles b qs e)"
  by (induction ps arbitrary: a) auto

definition agrees :: "(u64 \<Rightarrow> page_view option) \<Rightarrow> vrange list \<Rightarrow> bool" where
  "agrees v ps \<longleftrightarrow> (\<forall>p\<in>set ps. \<forall>x\<in>span (r_start p) (r_size p). v x = Some (vr_attr (r_start p) p x))"

lemma query_span_loop_view:
  assumes "vm_ok m" and "\<forall>e\<in>set m. cur < fst e + r_size (snd e)" and "cur < e" and "e < two64"
    and "tiles a out cur" and "agrees v out" and "\<And>x. cur \<le> x \<Longrightarrow> view_of m x = v x"
  shows "case query_span_loop e cur out m of
      None \<Rightarrow> (\<exists>x. cur \<le> x \<and> x < e \<and> v x = None)
    | Some ps \<Rightarrow> tiles a ps e \<and> agrees v ps"
  using assms
proof (induction m arbitrary: cur out)
  case Nil
  then show ?case by (auto intro!: exI [of _ cur])
next
  case (Cons y m)
  obtain k r where y: "y = (k, r)" by force
  note r = vm_ok_node [OF Cons.prems(1), of k r, simplified y list.set_intros, simplified]
  have okm: "vm_ok m" "\<forall>f\<in>set m. k + r_size r \<le> fst f" using Cons.prems(1) by (simp_all add: y vm_ok_Cons)
  show ?case
  proof (cases "k > cur")
    case True
    then have "view_of (y # m) cur = None"
      using okm(2) by (intro im_view_below [of _ k]) (auto simp: y dest: add_leD1)
    then have "v cur = None" using Cons.prems(7) [of cur] by simp
    then show ?thesis using True r Cons.prems(3) by (auto simp: y)
  next
    case False
    define ps where "ps = min e (k + r_size r) - cur"
    define part where "part = r\<lparr>r_start := cur, r_size := ps,
      r_offset := if r_type r = Direct then add64 (r_offset r) (cur - k) else r_offset r\<rparr>"
    have lt: "cur < k + r_size r" using Cons.prems(2) by (simp add: y)
    have arith: "sub64 (min e (k + r_size r)) cur = ps" "add64 cur ps = cur + ps" "sub64 cur k = cur - k"
      "0 < ps" "cur + ps = min e (k + r_size r)"
      using lt False Cons.prems(3,4) r(3) by (simp_all add: ps_def)
    have part: "r_start part = cur" "r_size part = ps" by (simp_all add: part_def)
    have "vr_attr cur part x = vr_attr k r x" if "cur \<le> x" for x
      using that False by (simp add: vr_attr_def part_def add64_add)
    moreover have "v x = Some (vr_attr k r x)" if "cur \<le> x" "x < cur + ps" for x
      using Cons.prems(7) [of x] that arith(5) False by (simp add: y)
    ultimately have "agrees v [part]" by (simp add: agrees_def part)
    then have ag: "agrees v (out @ [part])" using Cons.prems(6) by (auto simp: agrees_def)
    have ti: "tiles a (out @ [part]) (cur + ps)"
      using Cons.prems(5) arith(4) by (simp add: tiles_append part)
    have step: "query_span_loop e cur out (y # m) =
        (if cur + ps = e then Some (out @ [part]) else query_span_loop e (cur + ps) (out @ [part]) m)"
      using False r arith by (simp add: y Let_def part_def)
    show ?thesis
    proof (cases "cur + ps = e")
      case True
      then show ?thesis using ti ag by (simp only: step if_True option.case) simp
    next
      case ne: False
      then have c: "cur + ps = k + r_size r" "cur + ps < e" using arith(5) by (auto simp: min_def split: if_splits)
      have m2: "\<forall>f\<in>set m. cur + ps < fst f + r_size (snd f)"
        using okm vm_ok_pos [OF okm(1)] c(1) by fastforce
      have v2: "view_of m x = v x" if "cur + ps \<le> x" for x
        using Cons.prems(7) [of x] that c(1) by (simp add: y)
      note IH = Cons.IH [OF okm(1) m2 c(2) Cons.prems(4) ti ag v2]
      show ?thesis
      proof (cases "query_span_loop e (cur + ps) (out @ [part]) m")
        case None
        then obtain x where "cur + ps \<le> x" "x < e" "v x = None" using IH by auto
        then have "cur \<le> x" by simp
        then show ?thesis using None ne \<open>x < e\<close> \<open>v x = None\<close> unfolding step by auto
      next
        case (Some qs)
        then show ?thesis using IH ne unfolding step by simp
      qed
    qed
  qed
qed

lemma agrees_tiles_total:
  "\<lbrakk>tiles a ps e; agrees v ps; a \<le> x; x < e\<rbrakk> \<Longrightarrow> v x \<noteq> None"
proof (induction ps arbitrary: a)
  case (Cons p ps)
  then show ?case
    by (cases "x < a + r_size p") (auto simp: agrees_def)
qed simp

lemma vr_query_span_ok:
  assumes wf: "vr_wf s" and n: "0 < a" "0 < n" "a + n < two64"
  shows "case vr_query_span a n s of
      None \<Rightarrow> (\<exists>x\<in>span a n. vr_view s x = None)
    | Some ps \<Rightarrow> tiles a ps (a + n) \<and> agrees (vr_view s) ps"
proof -
  have nn: "\<not> (a = 0 \<or> n = 0 \<or> n > U64_MAX - a)" using n by simp
  have q: "vr_query_span a n s = query_span_loop (a + n) a [] (om_iter_from (find_containing a s) (vr_map s))"
    using n unfolding vr_query_span_def if_not_P [OF nn] by simp
  show ?thesis using wf
  proof (cases rule: find_containing_cases [where a = a])
    case gap
    then show ?thesis using n(2) by (auto simp: q intro!: bexI [of _ a])
  next
    case (found xs k r ys)
    have ok: "vm_ok (xs @ (k, r) # ys)" using wf found by (simp add: vr_wf_def)
    note c = containing_suffix [OF ok found(3,2)]
    have "case query_span_loop (a + n) a [] ((k, r) # ys) of
      None \<Rightarrow> (\<exists>x. a \<le> x \<and> x < a + n \<and> vr_view s x = None)
    | Some ps \<Rightarrow> tiles a ps (a + n) \<and> agrees (vr_view s) ps"
      by (rule query_span_loop_view [OF c(3,2)])
        (use n c(4) in \<open>simp_all add: agrees_def vr_view_def found(1)\<close>)
    moreover have "(\<exists>x\<in>span a n. vr_view s x = None) \<longleftrightarrow> (\<exists>x. a \<le> x \<and> x < a + n \<and> vr_view s x = None)"
      by auto
    ultimately show ?thesis unfolding q found(4) unfolding found(1) c(1) by (simp only:)
  qed
qed

subsection \<open>Properties of the public methods\<close>

datatype vr_op =
    OpAdd u64 u64 u64 prot int range_type "string option" bool
  | OpRemove u64 u64
  | OpReleaseReserved u64 u64
  | OpReplaceSpan u64 u64 range_type u64 prot int range_type "string option" bool
  | OpRename u64 u64 "string option"
  | OpProtect u64 u64 prot

fun vr_step :: "vr_op \<Rightarrow> vranges \<Rightarrow> vranges \<times> bool" where
  "vr_step (OpAdd a n off p mt ty nm dm) s = vr_add a n off p mt ty nm dm s"
| "vr_step (OpRemove a n) s = vr_remove a n s"
| "vr_step (OpReleaseReserved a n) s = vr_release_reserved a n s"
| "vr_step (OpReplaceSpan a n ex off p mt ty nm dm) s = vr_replace_span a n ex off p mt ty nm dm s"
| "vr_step (OpRename a n nm) s = (vr_rename a n nm s, True)"
| "vr_step (OpProtect a n p) s = (vr_protect a n p s, True)"

fun vr_op_start :: "vr_op \<Rightarrow> u64" where
  "vr_op_start (OpAdd a n off p mt ty nm dm) = a"
| "vr_op_start (OpRemove a n) = a"
| "vr_op_start (OpReleaseReserved a n) = a"
| "vr_op_start (OpReplaceSpan a n ex off p mt ty nm dm) = a"
| "vr_op_start (OpRename a n nm) = a"
| "vr_op_start (OpProtect a n p) = a"

text \<open>The tables the kernel can build, with operations in any order.\<close>

inductive vr_reachable :: "vranges \<Rightarrow> bool" where
  start: "vr_reachable vr_empty"
| step: "\<lbrakk>vr_reachable s; vr_op_start op < two64\<rbrakk> \<Longrightarrow> vr_reachable (fst (vr_step op s))"

text \<open>
  The contract of the table: a function from addresses to page views, and what each operation
  does to it.  Nothing of the ordered map, the splitting and merging of ranges or the counters is
  visible here.  \<open>ReleaseReserved\<close> may leave a reservation alone (it only removes one that is
  exactly one range of the table), but never removes anything else.
\<close>

type_synonym vspec = "u64 \<Rightarrow> page_view option"

definition fresh_page ::
    "u64 \<Rightarrow> prot \<Rightarrow> int \<Rightarrow> range_type \<Rightarrow> string option \<Rightarrow> bool \<Rightarrow> u64 \<Rightarrow> page_view" where
  "fresh_page off p mt ty nm dm d = \<lparr>pv_type = ty, pv_prot = p, pv_memory_type = mt,
     pv_disallow = dm, pv_name = copy_virtual_range_name nm,
     pv_phys = (if ty = Direct then Some (add64 off d) else None)\<rparr>"

definition over :: "u64 \<Rightarrow> u64 \<Rightarrow> (u64 \<Rightarrow> page_view option \<Rightarrow> page_view option) \<Rightarrow> vspec \<Rightarrow> vspec" where
  "over a n f v = (\<lambda>x. if a \<le> x \<and> x < range_end a n then f x (v x) else v x)"

definition real_span :: "u64 \<Rightarrow> u64 \<Rightarrow> bool" where
  "real_span a n \<longleftrightarrow> 0 < a \<and> 0 < n \<and> a + n < two64"

definition all_type :: "range_type set \<Rightarrow> u64 \<Rightarrow> u64 \<Rightarrow> vspec \<Rightarrow> bool" where
  "all_type T a n v \<longleftrightarrow> (\<forall>x\<in>span a n. \<exists>w. v x = Some w \<and> pv_type w \<in> T)"

inductive vspec_step :: "vr_op \<Rightarrow> vspec \<Rightarrow> vspec \<Rightarrow> bool \<Rightarrow> bool" where
  add_yes: "\<lbrakk>real_span a n; \<forall>x\<in>span a n. v x = None\<rbrakk> \<Longrightarrow>
    vspec_step (OpAdd a n off p mt ty nm dm) v
      (over a n (\<lambda>x _. Some (fresh_page off p mt ty nm dm (x - a))) v) True"
| add_no: "\<not> (real_span a n \<and> (\<forall>x\<in>span a n. v x = None)) \<Longrightarrow>
    vspec_step (OpAdd a n off p mt ty nm dm) v v False"
| remove: "vspec_step (OpRemove a n) v (over a n (\<lambda>_ _. None) v)
    (\<exists>x. a \<le> x \<and> x < range_end a n \<and> v x \<noteq> None)"
| release_range: "\<lbrakk>0 < n; all_type {Reserved, PoolReserved} a n v\<rbrakk> \<Longrightarrow>
    vspec_step (OpReleaseReserved a n) v (over a n (\<lambda>_ _. None) v) True"
| release_none: "vspec_step (OpReleaseReserved a n) v v True"
| replace_yes: "\<lbrakk>real_span a n; all_type {ex} a n v\<rbrakk> \<Longrightarrow>
    vspec_step (OpReplaceSpan a n ex off p mt ty nm dm) v
      (over a n (\<lambda>x _. Some (fresh_page off p mt ty nm dm (x - a))) v) True"
| replace_no: "\<not> (real_span a n \<and> all_type {ex} a n v) \<Longrightarrow>
    vspec_step (OpReplaceSpan a n ex off p mt ty nm dm) v v False"
| rename: "vspec_step (OpRename a n nm) v
    (over a n (\<lambda>_. map_option (pv_name_update (\<lambda>_. copy_virtual_range_name nm))) v) True"
| protect: "vspec_step (OpProtect a n p) v
    (over a n (\<lambda>_. map_option (pv_prot_update (\<lambda>_. p))) v) True"

lemma over_span:
  "a + n < two64 \<Longrightarrow> over a n f v = (\<lambda>x. if x \<in> span a n then f x (v x) else v x)"
  by (simp add: over_def)

lemma fresh_attr: "vr_attr a \<lparr>r_start = a, r_size = n, r_offset = off, r_prot = p,
    r_memory_type = mt, r_type = ty, r_disallow_merge = dm, r_name = copy_virtual_range_name nm\<rparr> x
  = fresh_page off p mt ty nm dm (x - a)"
  by (simp add: vr_attr_def fresh_page_def)

lemma release_reserved_ok:
  assumes ok: "vr_ok s"
  shows "vr_ok (fst (vr_release_reserved a n s))
    \<and> vspec_step (OpReleaseReserved a n) (vr_view s) (vr_view (fst (vr_release_reserved a n s)))
        (snd (vr_release_reserved a n s))"
proof (cases "\<exists>r. map_of (vr_map s) a = Some r \<and> r_size r = n \<and> is_reserved_type (r_type r)")
  case True
  then obtain r where r: "map_of (vr_map s) a = Some r" "r_size r = n" "is_reserved_type (r_type r)"
    by blast
  have okm: "vm_ok (vr_map s)" using ok by (simp add: vr_ok_def vr_wf_def)
  obtain xs ys where m: "vr_map s = xs @ (a, r) # ys" using om_node_obtain [OF _ r(1)] okm by auto
  note v = vm_ok_node [OF okm, of a r]
  have "all_type {Reserved, PoolReserved} a n (vr_view s)"
    using node_view(1) [of xs a r ys] okm m r
    by (auto simp: all_type_def vr_view_def vr_attr_def is_reserved_type_def)
  moreover have "vr_view (erase_unlocked a s) = over a n (\<lambda>_ _. None) (vr_view s)"
    using erase_unlocked_ok(2) [OF ok r(1)] v m r(2) by (simp add: over_def)
  ultimately have "vspec_step (OpReleaseReserved a n) (vr_view s) (vr_view (erase_unlocked a s)) True"
    using vspec_step.release_range [of n a "vr_view s"] v(2) m r(2) by simp
  then show ?thesis using erase_unlocked_ok(1) [OF ok r(1)] r by (simp add: vr_release_reserved_def)
next
  case False
  then have "vr_release_reserved a n s = (s, True)"
    by (auto simp: vr_release_reserved_def split: option.splits)
  then show ?thesis using ok vspec_step.release_none by simp
qed

lemma vr_step_ok:
  assumes ok: "vr_ok s" and a: "vr_op_start op < two64"
  shows "vr_ok (fst (vr_step op s))
    \<and> vspec_step op (vr_view s) (vr_view (fst (vr_step op s))) (snd (vr_step op s))"
proof (cases op)
  case (OpAdd a n off p mt ty nm dm)
  show ?thesis
  proof (cases "real_span a n \<and> (\<forall>x\<in>span a n. vr_view s x = None)")
    case True
    then show ?thesis
      using vr_add_ok(2-4) [OF ok, of a n off p mt ty nm dm] a OpAdd
        vspec_step.add_yes [of a n "vr_view s" off p mt ty nm dm]
      by (auto simp: real_span_def over_span fresh_attr cong: if_cong)
  next
    case False
    then show ?thesis
      using vr_add_ok(1) [OF ok, of a n off p mt ty nm dm] a OpAdd ok
        vspec_step.add_no [of a n "vr_view s" off p mt ty nm dm]
      by (auto simp: real_span_def)
  qed
next
  case (OpRemove a n)
  then show ?thesis
    using vr_remove_ok [OF ok, of a n] a vspec_step.remove [of a n "vr_view s"] by (simp add: over_def)
next
  case (OpReleaseReserved a n)
  then show ?thesis using release_reserved_ok [OF ok] by simp
next
  case (OpReplaceSpan a n ex off p mt ty nm dm)
  show ?thesis
  proof (cases "real_span a n \<and> all_type {ex} a n (vr_view s)")
    case True
    then show ?thesis
      using replace_span_ok [OF ok, of n a ex off p mt ty nm dm] a OpReplaceSpan
        vspec_step.replace_yes [of a n ex "vr_view s" off p mt ty nm dm]
      by (auto simp: real_span_def over_span fresh_attr all_type_def cong: if_cong)
  next
    case False
    then show ?thesis
      using replace_span_no [OF ok, of a n ex off p mt ty nm dm] a OpReplaceSpan ok
        vspec_step.replace_no [of a n ex "vr_view s" off p mt ty nm dm]
      by (auto simp: real_span_def all_type_def)
  qed
next
  case (OpRename a n nm)
  then show ?thesis
    using vr_rename_ok [OF ok, of a n nm] a vspec_step.rename [of a n nm "vr_view s"] by (simp add: over_def)
next
  case (OpProtect a n p)
  then show ?thesis
    using vr_protect_ok [OF ok, of a n p] a vspec_step.protect [of a n p "vr_view s"] by (simp add: over_def)
qed

lemma vr_empty_ok: "vr_ok vr_empty"
  by (simp add: vr_ok_def vr_wf_def vr_empty_def vr_counts_def)

lemma vr_reachable_ok: "vr_reachable s \<Longrightarrow> vr_ok s"
  by (induction rule: vr_reachable.induct) (simp_all add: vr_step_ok vr_empty_ok)

text \<open>A small table, for the examples: two pages of flexible memory, one of them read-only.\<close>

lemmas vr_evals = vr_add_def vr_empty_def Let_def om_lower_bound_def om_from_def om_begin_def
  om_prev.simps vr_node_def update_pt_def pt_entries_def is_committed_type_def is_reserved_type_def
  merge_around_def om_next_def om_upper_bound_def om_after_def om_before_def range_end_def
  can_merge_def same_merge_key_def vr_protect_def edit_unlocked_def split_at_def merge_span_def
  om_range_def add64_def sub64_def copy_virtual_range_name_def find_containing_def

definition vr_example :: vranges where
  "vr_example = fst (vr_step (OpProtect 20480 4096 0x01)
     (fst (vr_step (OpAdd 16384 8192 0 0x33 0 Flexible (Some ''heap'') False) vr_empty)))"

lemma vr_example_value:
  "vr_example = \<lparr>vr_map =
     [(16384, \<lparr>r_start = 16384, r_size = 4096, r_offset = 0, r_prot = 0x33, r_memory_type = 0,
        r_type = Flexible, r_disallow_merge = False, r_name = ''heap''\<rparr>),
      (20480, \<lparr>r_start = 20480, r_size = 4096, r_offset = 0, r_prot = 0x01, r_memory_type = 0,
        r_type = Flexible, r_disallow_merge = False, r_name = ''heap''\<rparr>)],
     vr_cpu = 2, vr_gpu = 1\<rparr>"
  by (simp add: vr_example_def vr_evals)

lemma vr_example_reachable: "vr_reachable vr_example"
  unfolding vr_example_def by (intro vr_reachable.intros) simp_all

text \<open>
  C1. In every table the kernel can build, the ranges are nonempty, do not overlap and are keyed
  by their starts, no two neighbours could still be merged, and each statistics counter is the
  number of page-table entries of the ranges, recounted.
\<close>

theorem vr_reachable_invariant:
  assumes "vr_reachable s"
  shows "im_ok r_size (vr_map s) \<and> (\<forall>(k, r) \<in> set (vr_map s). r_start r = k)
    \<and> successively (\<lambda>x y. \<not> can_merge (snd x) (snd y)) (vr_map s)
    \<and> vr_count_page_table_entries False s = om_sum cpu_pt (vr_map s) mod two64
    \<and> vr_count_page_table_entries True s = om_sum gpu_pt (vr_map s) mod two64"
  using vr_reachable_ok [OF assms]
  by (auto simp: vr_ok_def vr_wf_def vm_ok_def coalesced_def vr_counts_def vr_count_page_table_entries_def)

theorem vr_reachable_invariant_witness:
  "vr_count_page_table_entries False vr_example = om_sum cpu_pt (vr_map vr_example) mod two64
   \<and> length (vr_map vr_example) = 2"
  using vr_reachable_invariant [OF vr_example_reachable] by (simp add: vr_example_value)

text \<open>
  C2. Refinement: every mutating method of the table, whatever splitting and merging it does,
  changes the view of each address and returns exactly as the contract of the table says.
\<close>

theorem vr_step_refines:
  assumes "vr_reachable s" and "vr_op_start op < two64"
  shows "vspec_step op (vr_view s) (vr_view (fst (vr_step op s))) (snd (vr_step op s))"
  using vr_step_ok [OF vr_reachable_ok] assms by simp

theorem vr_step_refines_witness:
  "vspec_step (OpRemove 18432 4096) (vr_view vr_example)
     (vr_view (fst (vr_remove 18432 4096 vr_example))) (snd (vr_remove 18432 4096 vr_example))"
  using vr_step_refines [OF vr_example_reachable, of "OpRemove 18432 4096"] by simp

text \<open>
  C3. \<open>ClampRangeSize\<close> returns the longest prefix of the requested span that is committed: all of
  the prefix is committed, and unless the whole span was granted the next address is not.
\<close>

theorem vr_clamp_range_size_maximal:
  assumes "vr_reachable s" and "0 < a" and "a + n < two64"
  shows "vr_clamp_range_size a n s \<le> n
    \<and> (\<forall>x\<in>span a (vr_clamp_range_size a n s). committed_at (vr_view s x))
    \<and> (vr_clamp_range_size a n s < n \<longrightarrow>
         \<not> committed_at (vr_view s (a + vr_clamp_range_size a n s)))"
  using vr_clamp_ok [OF _ assms(2,3)] vr_reachable_ok [OF assms(1)] by (simp add: vr_ok_def)

theorem vr_clamp_range_size_maximal_witness:
  "vr_clamp_range_size 18432 65536 vr_example = 6144
   \<and> \<not> committed_at (vr_view vr_example (18432 + 6144))"
proof -
  have "vr_clamp_range_size 18432 65536 vr_example = 6144"
    by (simp add: vr_example_value vr_evals vr_clamp_range_size_def)
  then show ?thesis
    using vr_clamp_range_size_maximal [OF vr_example_reachable, of 18432 65536] by simp
qed

text \<open>
  C4. \<open>QuerySpan\<close> succeeds exactly where every address of the span belongs to a range; its pieces
  then tile the span in order, and each says of its addresses what the table says (for direct
  memory, with the physical offset advanced to the piece).
\<close>

theorem vr_query_span_tiles:
  assumes "vr_reachable s" and "real_span a n"
  shows "case vr_query_span a n s of
      None \<Rightarrow> (\<exists>x\<in>span a n. vr_view s x = None)
    | Some ps \<Rightarrow> tiles a ps (a + n) \<and> agrees (vr_view s) ps
        \<and> (\<forall>x\<in>span a n. vr_view s x \<noteq> None)"
proof -
  have q: "case vr_query_span a n s of
      None \<Rightarrow> (\<exists>x\<in>span a n. vr_view s x = None)
    | Some ps \<Rightarrow> tiles a ps (a + n) \<and> agrees (vr_view s) ps"
    using vr_query_span_ok [of s a n] vr_reachable_ok [OF assms(1)] assms(2)
    by (simp add: vr_ok_def real_span_def)
  then show ?thesis
    using agrees_tiles_total [of a _ "a + n" "vr_view s"] by (auto split: option.splits)
qed

theorem vr_query_span_tiles_witness:
  "map (\<lambda>p. (r_start p, r_size p)) (the (vr_query_span 18432 4096 vr_example)) = [(18432, 2048), (20480, 2048)]
   \<and> agrees (vr_view vr_example) (the (vr_query_span 18432 4096 vr_example))"
proof -
  have v: "vr_query_span 18432 4096 vr_example = Some
      [\<lparr>r_start = 18432, r_size = 2048, r_offset = 0, r_prot = 0x33, r_memory_type = 0,
        r_type = Flexible, r_disallow_merge = False, r_name = ''heap''\<rparr>,
       \<lparr>r_start = 20480, r_size = 2048, r_offset = 0, r_prot = 0x01, r_memory_type = 0,
        r_type = Flexible, r_disallow_merge = False, r_name = ''heap''\<rparr>]"
    by (simp add: vr_example_value vr_evals vr_query_span_def)
  show ?thesis
    using vr_query_span_tiles [OF vr_example_reachable, of 18432 4096] unfolding v
    by (simp add: real_span_def)
qed

lemma vr_query_ok:
  assumes wf: "vr_wf s"
  shows "case vr_query a fl s of
      Some r \<Rightarrow> map_of (vr_map s) (r_start r) = Some r
        \<and> (if vr_view s a \<noteq> None then a \<in> span (r_start r) (r_size r)
           else fl = 1 \<and> a < r_start r \<and> (\<forall>x. a \<le> x \<and> x < r_start r \<longrightarrow> vr_view s x = None))
    | None \<Rightarrow> vr_view s a = None \<and> (fl = 1 \<longrightarrow> (\<forall>x\<ge>a. vr_view s x = None))"
proof -
  have ok: "vm_ok (vr_map s)" using wf by (simp add: vr_wf_def)
  define nxt where "nxt = om_upper_bound a (vr_map s)"
  have q: "vr_query a fl s = (case find_containing a s of Some k \<Rightarrow> Some (vr_node s k)
      | None \<Rightarrow> if fl \<noteq> 1 then None else map_option (vr_node s) nxt)"
    by (simp add: vr_query_def find_containing_def Let_def nxt_def split: option.splits)
  show ?thesis using wf
  proof (cases rule: find_containing_cases [where a = a])
    case (found xs k r ys)
    have "r_start r = k" "map_of (vr_map s) k = Some r"
      using vm_ok_node(1) [OF ok, of k r] om_in_set [of "vr_map s" k r] ok found(1) by simp_all
    then show ?thesis using found by (simp add: q)
  next
    case gap
    define xs ys where "xs = takeWhile (\<lambda>e. fst e \<le> a) (vr_map s)" and "ys = om_after a (vr_map s)"
    have m: "vr_map s = xs @ ys" by (simp add: xs_def ys_def om_after_def)
    have keys: "\<forall>e\<in>set xs. fst e \<le> a" "\<forall>e\<in>set ys. a < fst e"
      using ok om_after_set [of "vr_map s" a] by (auto simp: xs_def ys_def dest: set_takeWhileD)
    have nxt: "nxt = om_begin ys" by (simp add: nxt_def om_upper_bound_def ys_def)
    have okm: "vm_ok (xs @ ys)" using ok m by simp
    have low: "vr_view s x = view_of ys x" if "a \<le> x" for x
    proof (cases "xs = []")
      case False
      then obtain us p l where xs: "xs = us @ [(p, l)]" using last_obtain by blast
      have "p + r_size l \<le> a"
      proof (rule ccontr)
        assume "\<not> p + r_size l \<le> a"
        moreover have "p \<le> a" using keys(1) xs by simp
        ultimately have "vr_view s a \<noteq> None"
          using node_view(1) [of us p l ys a] okm m xs by (simp add: vr_view_def)
        then show False using gap by simp
      qed
      then have "\<forall>e\<in>set xs. fst e + r_size (snd e) \<le> a"
        using okm xs by (auto simp: vm_ok_append vm_ok_Cons dest!: bspec)
      then have "view_of xs x = None" using im_view_above that by blast
      then show ?thesis by (simp add: vr_view_def m im_view_append)
    qed (simp add: vr_view_def m)
    show ?thesis
    proof (cases ys)
      case Nil
      then show ?thesis using gap low by (auto simp: q nxt)
    next
      case (Cons e zs)
      obtain k r where e: "e = (k, r)" by force
      have r: "r_start r = k" "map_of (vr_map s) k = Some r" "0 < r_size r"
        using vm_ok_node [OF ok, of k r] om_in_set [of "vr_map s" k r] ok m Cons e by simp_all
      have node: "vr_node s k = r" by (simp add: vr_node_def r)
      have ge: "\<forall>f\<in>set ys. k \<le> fst f"
        using okm Cons e by (auto simp: vm_ok_append vm_ok_Cons dest: add_leD1)
      have "\<forall>x. a \<le> x \<and> x < k \<longrightarrow> vr_view s x = None"
        by (simp add: low im_view_below [OF ge])
      then show ?thesis using gap r keys(2) Cons e node by (auto simp: q nxt)
    qed
  qed
qed

text \<open>
  C5. \<open>Query\<close> returns the range that holds the address or, if there is none and the find-next flag
  is set, the first range above it; it fails only where there is nothing to return.  \<open>HasOverlap\<close>
  and \<open>QueryOverlap\<close> report an overlap exactly where some address of the span is in a range, and
  the range they return is in the table and meets the span.
\<close>

theorem vr_queries_correct:
  assumes "vr_reachable s" and "real_span b n"
  shows "(case vr_query a fl s of
      Some r \<Rightarrow> map_of (vr_map s) (r_start r) = Some r
        \<and> (if vr_view s a \<noteq> None then a \<in> span (r_start r) (r_size r)
           else fl = 1 \<and> a < r_start r \<and> (\<forall>x. a \<le> x \<and> x < r_start r \<longrightarrow> vr_view s x = None))
    | None \<Rightarrow> vr_view s a = None \<and> (fl = 1 \<longrightarrow> (\<forall>x\<ge>a. vr_view s x = None)))
    \<and> vr_has_overlap b n s = (\<exists>x\<in>span b n. vr_view s x \<noteq> None)
    \<and> (case vr_query_overlap b n s of None \<Rightarrow> \<not> vr_has_overlap b n s
       | Some r \<Rightarrow> map_of (vr_map s) (r_start r) = Some r
                   \<and> span b n \<inter> span (r_start r) (r_size r) \<noteq> {})"
proof -
  have wf: "vr_wf s" using vr_reachable_ok [OF assms(1)] by (simp add: vr_ok_def)
  have n: "0 < n" "b + n < two64" using assms(2) by (simp_all add: real_span_def)
  have has: "vr_has_overlap b n s = (\<exists>x\<in>span b n. vr_view s x \<noteq> None)"
    unfolding vr_has_overlap_def find_overlap_ok(1) [OF wf n] by simp
  have "case vr_query_overlap b n s of None \<Rightarrow> \<not> vr_has_overlap b n s
       | Some r \<Rightarrow> map_of (vr_map s) (r_start r) = Some r
                   \<and> span b n \<inter> span (r_start r) (r_size r) \<noteq> {}"
  proof (cases "find_overlap b n s")
    case (Some r)
    then show ?thesis using find_overlap_ok(2) [OF wf n Some] by (simp add: vr_query_overlap_def)
  qed (simp add: vr_query_overlap_def vr_has_overlap_def)
  with vr_query_ok [OF wf, of a fl] has show ?thesis by blast
qed

theorem vr_queries_correct_witness:
  "map_option r_start (vr_query 100 1 vr_example) = Some 16384 \<and> vr_has_overlap 24575 2 vr_example"
proof -
  have "vr_query 100 1 vr_example = Some \<lparr>r_start = 16384, r_size = 4096, r_offset = 0, r_prot = 0x33,
      r_memory_type = 0, r_type = Flexible, r_disallow_merge = False, r_name = ''heap''\<rparr>"
    by (simp add: vr_example_value vr_evals vr_query_def)
  moreover have "vr_view vr_example 24575 \<noteq> None" by (simp add: vr_view_def vr_example_value)
  moreover have "(24575 :: u64) \<in> span 24575 2" by simp
  moreover have "vr_has_overlap 24575 2 vr_example = (\<exists>x\<in>span 24575 2. vr_view vr_example x \<noteq> None)"
    using vr_queries_correct [OF vr_example_reachable, of 24575 2 100 1] by (simp add: real_span_def)
  ultimately show ?thesis by (simp only: option.map vrange.simps) blast
qed

end
