(* ===== verification/FreeRanges.thy ===== *)
theory FreeRanges
  imports IntervalMap
begin

text \<open>
  Sets of free addresses kept as ordered maps from range starts to sizes: \<open>RemoveFreeRange\<close> and
  \<open>AddFreeRange\<close> of \<open>PhysicalMemory\<close> (src/kernel/memory.cpp), and the interface the memory
  classes rely on.  A loop that erases and inserts nodes behind its iterator is a recursion over
  the nodes from where it starts.
\<close>

fun remove_free_loop :: "u64 \<Rightarrow> u64 \<Rightarrow> u64 omap \<Rightarrow> u64 omap \<Rightarrow> u64 omap" where
  "remove_free_loop start end [] m = m"
| "remove_free_loop start end ((k, n) # rest) m =
     (if \<not> k < end then m
      else let range_end = add64 k n in
           if range_end \<le> start then remove_free_loop start end rest m
           else (let m1 = om_erase k m;
                     m2 = (if k < start then om_emplace k (sub64 start k) m1 else m1);
                     m3 = (if end < range_end then om_emplace end (sub64 range_end end) m2 else m2)
                 in remove_free_loop start end rest m3))"

definition remove_free_range :: "u64 \<Rightarrow> u64 \<Rightarrow> u64 omap \<Rightarrow> u64 omap" where
  "remove_free_range start sz ranges =
     (let end = add64 start sz;
          range = (case om_prev (om_upper_bound start ranges) ranges of
                     None \<Rightarrow> om_upper_bound start ranges | Some p \<Rightarrow> Some p)
      in remove_free_loop start end (om_iter_from range ranges) ranges)"

fun add_free_loop :: "u64 \<Rightarrow> u64 omap \<Rightarrow> u64 omap \<Rightarrow> u64 \<times> u64 omap" where
  "add_free_loop end [] m = (end, m)"
| "add_free_loop end ((k, n) # rest) m =
     (if k \<le> end then add_free_loop (max end (add64 k n)) rest (om_erase k m) else (end, m))"

definition add_free_range :: "u64 \<Rightarrow> u64 \<Rightarrow> u64 omap \<Rightarrow> u64 omap" where
  "add_free_range start sz ranges =
     (let end = add64 start sz;
          next = om_lower_bound start ranges;
          (start', end', next', ranges') =
            (case om_prev next ranges of
               None \<Rightarrow> (start, end, next, ranges)
             | Some p \<Rightarrow>
                 let previous_end = add64 p (the (map_of ranges p)) in
                 if previous_end \<ge> start
                 then (p, max end previous_end, om_next p ranges, om_erase p ranges)
                 else (start, end, next, ranges));
          (end'', ranges'') = add_free_loop end' (om_iter_from next' ranges') ranges'
      in om_emplace start' (sub64 end'' start') ranges'')"

subsection \<open>Well-formed free ranges: nonempty, ordered, with a gap between any two\<close>

definition fr_ok :: "u64 omap \<Rightarrow> bool" where
  "fr_ok m \<longleftrightarrow> sorted_wrt (\<lambda>x y. fst x + snd x < fst y) m
     \<and> (\<forall>e\<in>set m. 0 < snd e \<and> fst e + snd e < two64)"

abbreviation fr_cover :: "u64 omap \<Rightarrow> u64 set" where
  "fr_cover \<equiv> im_cover (\<lambda>n. n)"

lemma fr_ok_im: "fr_ok m \<Longrightarrow> im_ok (\<lambda>n. n) m"
  unfolding fr_ok_def im_ok_sorted by (auto elim: sorted_wrt_mono_rel [rotated])

lemma fr_ok_om [simp]: "fr_ok m \<Longrightarrow> om_ok m"
  using fr_ok_im by auto

lemma fr_ok_simps:
  "fr_ok []"
  "fr_ok ((k, n) # m) \<longleftrightarrow> fr_ok m \<and> 0 < n \<and> k + n < two64 \<and> (\<forall>e\<in>set m. k + n < fst e)"
  "fr_ok (xs @ ys) \<longleftrightarrow> fr_ok xs \<and> fr_ok ys \<and> (\<forall>x\<in>set xs. \<forall>y\<in>set ys. fst x + snd x < fst y)"
  by (auto simp: fr_ok_def sorted_wrt_append)

subsection \<open>Removing\<close>

definition pieces :: "u64 \<Rightarrow> u64 \<Rightarrow> u64 \<times> u64 \<Rightarrow> u64 omap" where
  "pieces s e = (\<lambda>(k, n). if k + n \<le> s \<or> e \<le> k then [(k, n)]
     else (if k < s then [(k, s - k)] else []) @ (if e < k + n then [(e, k + n - e)] else []))"

lemma pieces_cover: "s \<le> e \<Longrightarrow> im_cover (\<lambda>n. n) (pieces s e (k, n)) = span k n - span s (e - s)"
  by (auto simp: pieces_def)

lemma pieces_in: "x \<in> set (pieces s e (k, n)) \<Longrightarrow> k \<le> fst x \<and> fst x + snd x \<le> k + n"
  by (auto simp: pieces_def split: if_splits)

lemma pieces_ok: "\<lbrakk>fr_ok [(k, n)]; s < e\<rbrakk> \<Longrightarrow> fr_ok (pieces s e (k, n))"
  by (auto simp: pieces_def fr_ok_simps)

lemma concat_pieces_in:
  assumes "x \<in> set (concat (map (pieces s e) m))"
  obtains y where "y \<in> set m" "fst y \<le> fst x" "fst x + snd x \<le> fst y + snd y"
proof -
  from assms obtain k n where "(k, n) \<in> set m" "x \<in> set (pieces s e (k, n))" by auto
  then show thesis using that [of "(k, n)"] pieces_in [of x s e k n] by simp
qed

lemma concat_pieces_cover:
  "s \<le> e \<Longrightarrow> fr_cover (concat (map (pieces s e) m)) = fr_cover m - span s (e - s)"
proof (induction m)
  case (Cons y m)
  then show ?case using pieces_cover [OF Cons.prems, of "fst y" "snd y"] by (cases y) (simp add: Un_Diff)
qed simp

lemma concat_pieces_ok: "\<lbrakk>fr_ok m; s < e\<rbrakk> \<Longrightarrow> fr_ok (concat (map (pieces s e) m))"
proof (induction m)
  case (Cons y m)
  obtain k n where y: "y = (k, n)" by force
  have ok: "fr_ok m" "fr_ok [(k, n)]" "\<forall>z\<in>set m. k + n < fst z"
    using Cons.prems(1) by (simp_all add: y fr_ok_simps)
  have "fst x + snd x < fst z"
    if x: "x \<in> set (pieces s e (k, n))" and z: "z \<in> set (concat (map (pieces s e) m))" for x z
  proof -
    obtain w where "w \<in> set m" "fst w \<le> fst z" using concat_pieces_in [OF z] by blast
    then show ?thesis using pieces_in [OF x] ok(3) by fastforce
  qed
  then show ?case
    using Cons.IH [OF ok(1) Cons.prems(2)] pieces_ok [OF ok(2) Cons.prems(2)]
    by (simp add: y fr_ok_simps)
qed (simp add: fr_ok_simps)

lemma pieces_outside: "\<forall>y\<in>set m. fst y + snd y \<le> s \<or> e \<le> fst y \<Longrightarrow> concat (map (pieces s e) m) = m"
  by (induction m) (auto simp: pieces_def)

lemma remove_free_loop_lists:
  assumes "om_ok (pre @ rest)" and "fr_ok rest" and "s < e" and "e < two64"
  shows "remove_free_loop s e rest (pre @ rest) = pre @ concat (map (pieces s e) rest)"
  using assms
proof (induction rest arbitrary: pre)
  case (Cons y rest)
  obtain k n where y: "y = (k, n)" by force
  have n: "0 < n" "k + n < two64" "\<forall>z\<in>set rest. k + n < fst z" "fr_ok rest"
    using Cons.prems(2) by (simp_all add: y fr_ok_simps)
  have om: "om_ok (pre @ (k, n) # rest)" using Cons.prems(1) y by simp
  have prek: "\<forall>x\<in>set pre. fst x < k" using om by (simp add: om_ok_node)
  show ?case
  proof (cases "k < e")
    case False
    then have "\<forall>x\<in>set (y # rest). fst x + snd x \<le> s \<or> e \<le> fst x" using n(3) y by fastforce
    then show ?thesis using False pieces_outside [of "y # rest" s e] by (simp only: y remove_free_loop.simps if_True not_False_eq_True)
  next
    case lt: True
    show ?thesis
    proof (cases "k + n \<le> s")
      case True
      then have "remove_free_loop s e (y # rest) (pre @ y # rest)
          = remove_free_loop s e rest ((pre @ [y]) @ rest)" using lt n by (simp add: y)
      also have "\<dots> = (pre @ [y]) @ concat (map (pieces s e) rest)"
        by (rule Cons.IH) (use Cons.prems n in simp_all)
      finally show ?thesis using True by (simp add: y pieces_def)
    next
      case False
      define p where "p = pieces s e (k, n)"
      define l where "l = (if k < s then [(k, s - k)] else [])"
      define u where "u = (if e < k + n then [(e, k + n - e)] else [])"
      have p: "p = l @ u" using lt False by (simp add: p_def pieces_def l_def u_def)
      define m1 where "m1 = om_erase k (pre @ y # rest)"
      define m2 where "m2 = (if k < s then om_emplace k (sub64 s k) m1 else m1)"
      define m3 where "m3 = (if e < k + n then om_emplace e (sub64 (k + n) e) m2 else m2)"
      have m1: "m1 = pre @ rest" unfolding m1_def y by (rule om_erase_node [OF om])
      have restk: "\<forall>z\<in>set rest. k < fst z" using n(3) by fastforce
      have m2: "m2 = (pre @ l) @ rest"
        using om_emplace_node [OF prek restk, of "s - k"] Cons.prems(3,4)
        by (auto simp: m2_def m1 l_def)
      have "\<forall>x\<in>set (pre @ l). fst x < e" using prek lt by (auto simp: l_def)
      moreover have "\<forall>z\<in>set rest. e < fst z" if "e < k + n" using n(3) that by fastforce
      ultimately have m3: "m3 = (pre @ p) @ rest"
        using om_emplace_node [of "pre @ l" e rest "k + n - e"] n
        by (auto simp: m3_def m2 u_def p)
      have "om_ok ((pre @ p) @ rest)"
        using om lt False n(3) by (auto simp: p l_def u_def om_ok_append om_ok_node om_ok_Cons)
      then have "remove_free_loop s e rest ((pre @ p) @ rest) = (pre @ p) @ concat (map (pieces s e) rest)"
        using Cons.IH [of "pre @ p"] Cons.prems(3,4) n(4) by simp
      moreover have "remove_free_loop s e (y # rest) (pre @ y # rest) = remove_free_loop s e rest m3"
        using lt False n by (simp add: y Let_def m3_def m2_def m1_def)
      ultimately show ?thesis by (simp add: m3 y p_def)
    qed
  qed
qed simp

lemma remove_free_range_eq:
  assumes ok: "fr_ok m" and n: "0 < n" "s + n < two64"
  shows "remove_free_range s n m = concat (map (pieces s (s + n)) m)"
proof -
  define xs ys where "xs = takeWhile (\<lambda>e. fst e \<le> s) m" and "ys = om_after s m"
  have m: "m = xs @ ys" by (simp add: xs_def ys_def om_after_def)
  have ub: "om_upper_bound s m = om_begin ys" by (simp add: om_upper_bound_def ys_def)
  have om: "om_ok (xs @ ys)" using ok m by simp
  have xs: "\<forall>x\<in>set xs. fst x \<le> s" by (auto simp: xs_def dest: set_takeWhileD)
  note pv = om_prev_append [OF om, folded m]
  show ?thesis
  proof (cases xs rule: rev_cases)
    case Nil
    then have "remove_free_range s n m = remove_free_loop s (s + n) m ([] @ m)"
      using pv om_iter_from_append [of "[]" ys] om n m ub by (simp add: remove_free_range_def Let_def)
    then show ?thesis using remove_free_loop_lists [of "[]" m] ok n by simp
  next
    case (snoc us e)
    obtain k v where e: "e = (k, v)" by force
    have m': "m = us @ (k, v) # ys" using m snoc e by simp
    have "\<forall>x\<in>set us. fst x + snd x \<le> s \<or> s + n \<le> fst x"
      using ok xs snoc e by (fastforce simp: m' fr_ok_simps)
    then have us: "concat (map (pieces s (s + n)) us) = us" by (rule pieces_outside)
    have "remove_free_range s n m = remove_free_loop s (s + n) ((k, v) # ys) (us @ (k, v) # ys)"
    proof -
      have "om_ok m" using ok by simp
      then have "om_iter_from (Some k) m = (k, v) # ys"
        unfolding m' by (simp add: om_node_from)
      moreover have "om_prev (om_begin ys) m = Some k" using pv snoc e m by simp
      ultimately show ?thesis
        unfolding remove_free_range_def Let_def ub using n by (simp only: option.case add64_exact m')
    qed
    also have "\<dots> = us @ concat (map (pieces s (s + n)) ((k, v) # ys))"
      by (rule remove_free_loop_lists) (use ok n m' in \<open>simp_all add: fr_ok_simps\<close>)
    finally show ?thesis using us by (simp add: m')
  qed
qed

lemma remove_free_range_ok:
  assumes "fr_ok m" and "0 < n" and "s + n < two64"
  shows "fr_ok (remove_free_range s n m)"
    and "fr_cover (remove_free_range s n m) = fr_cover m - span s n"
  using concat_pieces_ok [of m s "s + n"] concat_pieces_cover [of s "s + n" m] assms
  by (simp_all add: remove_free_range_eq)

subsection \<open>Adding\<close>

lemma add_free_loop_lists:
  assumes "om_ok (pre @ rest)" and "fr_ok rest" and "e < two64" and "\<forall>z\<in>set rest. s \<le> fst z" and "s \<le> e"
  shows "\<exists>us vs e'. rest = us @ vs \<and> add_free_loop e rest (pre @ rest) = (e', pre @ vs)
    \<and> e \<le> e' \<and> e' < two64 \<and> (\<forall>z\<in>set vs. e' < fst z)
    \<and> span s (e' - s) = span s (e - s) \<union> fr_cover us"
  using assms
proof (induction rest arbitrary: e)
  case (Cons y rest)
  obtain k n where y: "y = (k, n)" by force
  have n: "0 < n" "k + n < two64" "\<forall>z\<in>set rest. k + n < fst z" "fr_ok rest"
    using Cons.prems(2) by (simp_all add: y fr_ok_simps)
  have om: "om_ok (pre @ (k, n) # rest)" using Cons.prems(1) y by simp
  show ?case
  proof (cases "k \<le> e")
    case True
    have "om_ok (pre @ rest)" using om by (auto simp: om_ok_append om_ok_Cons)
    moreover have "max e (k + n) < two64" "s \<le> max e (k + n)" using Cons.prems(3,5) n by simp_all
    ultimately obtain us vs e' where IH: "rest = us @ vs"
      "add_free_loop (max e (k + n)) rest (pre @ rest) = (e', pre @ vs)" "max e (k + n) \<le> e'"
      "e' < two64" "\<forall>z\<in>set vs. e' < fst z"
      "span s (e' - s) = span s (max e (k + n) - s) \<union> fr_cover us"
      using Cons.IH [of "max e (k + n)"] n(4) Cons.prems(4) by auto
    have "span s (max e (k + n) - s) = span s (e - s) \<union> span k n"
      using True Cons.prems(4,5) y by (auto simp: max_def)
    moreover have "add_free_loop e (y # rest) (pre @ y # rest) = (e', pre @ vs)"
      using True IH(2) n om_erase_node [OF om] by (simp add: y)
    ultimately show ?thesis
      using IH by (intro exI [of _ "y # us"] exI [of _ vs] exI [of _ e']) (simp add: y Un_assoc)
  next
    case False
    then have "\<forall>z\<in>set (y # rest). e < fst z" using n(3) y by fastforce
    then show ?thesis
      using False Cons.prems(3) by (intro exI [of _ "[]"] exI [of _ "y # rest"] exI [of _ e]) (simp add: y)
  qed
qed simp

lemma add_free_tail:
  assumes "fr_ok (pre @ rest)" and "\<forall>x\<in>set pre. fst x + snd x < s" and "\<forall>z\<in>set rest. s \<le> fst z"
    and "s < e" and "e < two64"
  defines "r \<equiv> add_free_loop e rest (pre @ rest)"
  shows "fr_ok (om_emplace s (sub64 (fst r) s) (snd r))
    \<and> fr_cover (om_emplace s (sub64 (fst r) s) (snd r)) = fr_cover (pre @ rest) \<union> span s (e - s)"
proof -
  have ok: "fr_ok pre" "fr_ok rest" using assms(1) by (simp_all add: fr_ok_simps)
  obtain us vs e' where L: "rest = us @ vs" "r = (e', pre @ vs)" "e \<le> e'" "e' < two64"
    "\<forall>z\<in>set vs. e' < fst z" "span s (e' - s) = span s (e - s) \<union> fr_cover us"
    using add_free_loop_lists [of pre rest e s] assms ok(2) by auto
  have k1: "\<forall>x\<in>set pre. fst x < s" using assms(2) by fastforce
  have k2: "\<forall>z\<in>set vs. s < fst z" using L(3,5) assms(4) by fastforce
  have em: "om_emplace s (sub64 (fst r) s) (snd r) = pre @ (s, e' - s) # vs"
    using om_emplace_node [OF k1 k2] L assms(4) by simp
  have "fr_ok vs" using ok(2) L(1) by (simp add: fr_ok_simps)
  moreover have "fst x + snd x < fst z" if "x \<in> set pre" "z \<in> set vs" for x z
    using assms(2) k2 that by fastforce
  ultimately have "fr_ok (pre @ (s, e' - s) # vs)"
    using ok(1) assms(2,4) L(3,4,5) by (simp add: fr_ok_simps)
  moreover have "fr_cover (pre @ (s, e' - s) # vs) = fr_cover (pre @ rest) \<union> span s (e - s)"
    using L(6) by (auto simp: L(1) simp del: in_span)
  ultimately show ?thesis by (simp add: em)
qed

lemma add_free_range_ok:
  assumes ok: "fr_ok m" and n: "0 < n" "s + n < two64"
  shows "fr_ok (add_free_range s n m)"
    and "fr_cover (add_free_range s n m) = fr_cover m \<union> span s n"
proof -
  define xs ys where "xs = om_before s m" and "ys = om_from s m"
  have m: "m = xs @ ys" by (simp add: xs_def ys_def om_split_at)
  have lb: "om_lower_bound s m = om_begin ys" by (simp add: om_lower_bound_def ys_def)
  have om: "om_ok (xs @ ys)" using ok m by simp
  have xs: "\<forall>x\<in>set xs. fst x < s" and ys: "\<forall>z\<in>set ys. s \<le> fst z"
    using ok by (simp_all add: xs_def ys_def om_before_set om_from_set)
  note pv = om_prev_append [OF om, folded m]
  note add = add_free_range_def [of s n m, unfolded Let_def lb]
  have "fr_ok (add_free_range s n m) \<and> fr_cover (add_free_range s n m) = fr_cover m \<union> span s n"
  proof (cases "xs \<noteq> [] \<and> s \<le> fst (last xs) + snd (last xs)")
    case False
    have below: "\<forall>x\<in>set xs. fst x + snd x < s"
    proof (cases xs rule: rev_cases)
      case (snoc us e)
      then have "\<forall>x\<in>set us. fst x + snd x < fst e" "fst e + snd e < s" "fst e < s"
        using ok False xs by (auto simp: m fr_ok_simps)
      then show ?thesis using snoc by fastforce
    qed simp
    have it: "om_iter_from (om_begin ys) m = ys" using om_iter_from_append [OF om] m by simp
    have "add_free_range s n m =
        (let r = add_free_loop (s + n) ys m in om_emplace s (sub64 (fst r) s) (snd r))"
    proof (cases xs rule: rev_cases)
      case Nil
      then show ?thesis using add pv it n by (simp add: case_prod_beta Let_def)
    next
      case (snoc us e)
      obtain p v where e: "e = (p, v)" by force
      have m': "m = us @ (p, v) # ys" using m snoc e by simp
      have "om_ok (us @ (p, v) # ys)" using om snoc e by simp
      then have "map_of m p = Some v" unfolding m' by (rule om_node_find)
      moreover have "p + v < two64" "p + v < s" using ok below m' snoc e by (simp_all add: fr_ok_simps)
      ultimately show ?thesis using add pv it n snoc e by (simp add: case_prod_beta Let_def)
    qed
    then show ?thesis using add_free_tail [of xs ys s "s + n"] ok below ys n m by (simp add: Let_def)
  next
    case True
    then obtain us p v where u: "xs = us @ [(p, v)]" by (metis rev_exhaust surj_pair)
    have m': "m = us @ (p, v) # ys" using m u by simp
    have okp: "fr_ok us" "fr_ok ys" "0 < v" "p + v < two64" "\<forall>x\<in>set us. fst x + snd x < p"
      "\<forall>z\<in>set ys. p + v < fst z" "\<forall>x\<in>set us. \<forall>z\<in>set ys. fst x + snd x < fst z"
      using ok by (auto simp: m' fr_ok_simps)
    have ps: "p < s" "s \<le> p + v" using xs u True by simp_all
    have omp: "om_ok (us @ (p, v) # ys)" using om u by simp
    have f: "map_of m p = Some v" unfolding m' by (rule om_node_find [OF omp])
    have nx: "om_next p m = om_begin ys" using om_node_next [OF omp] m' by simp
    have er: "om_erase p m = us @ ys" using om_erase_node [OF omp] m' by simp
    have oku: "fr_ok (us @ ys)" using okp by (simp add: fr_ok_simps)
    then have it: "om_iter_from (om_begin ys) (us @ ys) = ys" by (simp add: om_iter_from_append)
    have eq: "add_free_range s n m = (let r = add_free_loop (max (s + n) (p + v)) ys (us @ ys)
        in om_emplace p (sub64 (fst r) p) (snd r))"
      using add pv f nx er it n u okp(4) ps by (simp add: case_prod_beta Let_def)
    have ge: "\<forall>z\<in>set ys. p \<le> fst z" using okp(6) by fastforce
    have sp: "span p (max (s + n) (p + v) - p) = span p v \<union> span s n"
      using ps n by (auto simp: max_def)
    have "p < max (s + n) (p + v)" "max (s + n) (p + v) < two64" using okp n by simp_all
    note tail = add_free_tail [OF oku okp(5) ge this]
    have "fr_cover m = fr_cover (us @ ys) \<union> span p v" by (simp add: m' Un_ac)
    then show ?thesis using tail unfolding eq Let_def sp by (simp only: Un_assoc simp_thms)
  qed
  then show "fr_ok (add_free_range s n m)" "fr_cover (add_free_range s n m) = fr_cover m \<union> span s n"
    by blast+
qed

text \<open>A span that is covered by free ranges lies inside a single one.\<close>

lemma fr_contained:
  assumes "fr_ok m" and "0 < n"
  shows "span q n \<subseteq> fr_cover m \<longleftrightarrow> (\<exists>(k, l)\<in>set m. k \<le> q \<and> q + n \<le> k + l)"
proof
  assume sub: "span q n \<subseteq> fr_cover m"
  have "q \<in> fr_cover m" using sub assms(2) by auto
  then obtain k l where kl: "(k, l) \<in> set m" "k \<le> q" "q < k + l" by (auto simp: im_cover_def)
  have "q + n \<le> k + l"
  proof (rule ccontr)
    assume "\<not> q + n \<le> k + l"
    then have "k + l \<in> span q n" using kl(3) by simp
    then have "k + l \<in> fr_cover m" by (rule subsetD [OF sub])
    then obtain j i where ji: "(j, i) \<in> set m" "j \<le> k + l" "k + l < j + i" by (auto simp: im_cover_def)
    obtain xs ys where m: "m = xs @ (k, l) # ys" using split_list [OF kl(1)] by blast
    have "j + i < k \<or> j = k \<and> i = l \<or> k + l < j"
      using assms(1) ji(1) by (auto simp: m fr_ok_simps)
    then show False using ji(2,3) by auto
  qed
  then show "\<exists>(k, l)\<in>set m. k \<le> q \<and> q + n \<le> k + l" using kl by blast
next
  assume "\<exists>(k, l)\<in>set m. k \<le> q \<and> q + n \<le> k + l"
  then obtain k l where kl: "(k, l) \<in> set m" "k \<le> q" "q + n \<le> k + l" by blast
  then have "span q n \<subseteq> span k l" by auto
  also have "\<dots> \<subseteq> fr_cover m" unfolding im_cover_def using kl(1) by blast
  finally show "span q n \<subseteq> fr_cover m" .
qed

subsection \<open>The interface the memory classes rely on\<close>

text \<open>Pairwise disjoint ranges.\<close>

definition separate :: "(u64 \<times> u64) list \<Rightarrow> bool" where
  "separate rs \<longleftrightarrow> (\<forall>(a, n)\<in>set rs. 0 < n \<and> a + n < two64)
     \<and> sorted_wrt (\<lambda>(a, n) (b, m). span a n \<inter> span b m = {}) rs"

text \<open>
  A set of free addresses: what removing and adding a range does to the set, with the conditions
  under which the client may call them.  The laws about taking a range and giving it back are
  proved once, here.
\<close>

locale free_set =
  fixes inv :: "'s \<Rightarrow> bool" and cover :: "'s \<Rightarrow> u64 set"
    and take_range :: "u64 \<Rightarrow> u64 \<Rightarrow> 's \<Rightarrow> 's" and give_range :: "u64 \<Rightarrow> u64 \<Rightarrow> 's \<Rightarrow> 's"
    and may_take :: "u64 \<Rightarrow> u64 \<Rightarrow> 's \<Rightarrow> bool"
  assumes take_inv: "\<lbrakk>inv s; may_take a n s\<rbrakk> \<Longrightarrow> inv (take_range a n s)"
    and take_cover: "\<lbrakk>inv s; may_take a n s\<rbrakk> \<Longrightarrow> cover (take_range a n s) = cover s - span a n"
    and give_inv: "\<lbrakk>inv s; 0 < n; a + n < two64; span a n \<inter> cover s = {}\<rbrakk> \<Longrightarrow> inv (give_range a n s)"
    and give_cover: "\<lbrakk>inv s; 0 < n; a + n < two64; span a n \<inter> cover s = {}\<rbrakk> \<Longrightarrow>
      cover (give_range a n s) = cover s \<union> span a n"
    and may_take_real: "may_take a n s \<Longrightarrow> 0 < n \<and> a + n < two64"
begin

lemma take_disjoint: "\<lbrakk>inv s; may_take a n s\<rbrakk> \<Longrightarrow> span a n \<inter> cover (take_range a n s) = {}"
  by (simp add: take_cover)

lemma take_give:
  assumes "inv s" and "may_take a n s" and "span a n \<subseteq> cover s"
  shows "inv (give_range a n (take_range a n s))"
    and "cover (give_range a n (take_range a n s)) = cover s"
proof -
  note r = may_take_real [OF assms(2)] and t = take_inv [OF assms(1,2)] take_disjoint [OF assms(1,2)]
  show "inv (give_range a n (take_range a n s))" using give_inv [OF t(1) _ _ t(2)] r by simp
  have "cover (give_range a n (take_range a n s)) = cover (take_range a n s) \<union> span a n"
    using give_cover [OF t(1) _ _ t(2)] r by simp
  then show "cover (give_range a n (take_range a n s)) = cover s"
    using assms(3) by (auto simp: take_cover [OF assms(1,2)] simp del: in_span)
qed

text \<open>Giving back a list of pairwise disjoint ranges.\<close>

lemma give_all:
  assumes "inv s" and "separate rs" and "\<forall>(a, n)\<in>set rs. span a n \<inter> cover s = {}"
  shows "inv (fold (\<lambda>(a, n). give_range a n) rs s)
    \<and> cover (fold (\<lambda>(a, n). give_range a n) rs s) = cover s \<union> (\<Union>(a, n)\<in>set rs. span a n)"
  using assms
proof (induction rs arbitrary: s)
  case (Cons r rs)
  obtain a n where r: "r = (a, n)" by force
  have real: "0 < n" "a + n < two64" "span a n \<inter> cover s = {}" and sep: "separate rs"
    and dis: "\<forall>(b, m)\<in>set rs. span a n \<inter> span b m = {}"
    using Cons.prems by (auto simp: r separate_def)
  note g = give_inv [OF Cons.prems(1) real] give_cover [OF Cons.prems(1) real]
  have "\<forall>(b, m)\<in>set rs. span b m \<inter> cover (give_range a n s) = {}"
    using Cons.prems(3) dis unfolding g(2) by fastforce
  from Cons.IH [OF g(1) sep this] show ?case by (simp add: r g(2) Un_ac)
qed simp

end

text \<open>The ordered map of \<open>PhysicalMemory\<close> provides the interface.\<close>

interpretation fr: free_set fr_ok fr_cover remove_free_range add_free_range
    "\<lambda>a n m. 0 < n \<and> a + n < two64"
  by unfold_locales (simp_all add: remove_free_range_ok add_free_range_ok)

end
