(* ===== verification/PhysicalMemory.thy ===== *)
theory PhysicalMemory
  imports MemBase FreeRanges
begin

text \<open>
  The class \<open>PhysicalMemory\<close> (src/kernel/memory.cpp): the guest's direct memory as a set of
  allocated blocks keyed by physical address, the free ranges between them, the part of the
  automatic blocks that is not mapped, and the list of virtual mappings.  Each method holds the
  class mutex throughout.  The size of the physical memory is a parameter.
\<close>

datatype allocation_kind = KDirect | KPooled | KAutomatic

record ablock =
  b_start :: u64
  b_size :: u64
  b_map_vaddr :: u64
  b_map_size :: u64
  b_host_vaddr :: u64
  b_host_size :: u64
  b_prot :: prot
  b_mode :: vm_mode
  b_gpu :: gpu_mode
  b_memory_type :: int
  b_kind :: allocation_kind
  b_name :: string

record pmem =
  pm_physical :: "ablock omap"
  pm_free :: "u64 omap"
  pm_auto :: "u64 omap"
  pm_mappings :: "ablock list"

definition pm_init :: "u64 \<Rightarrow> pmem" where
  "pm_init psize = \<lparr>pm_physical = [], pm_free = [(0, psize)], pm_auto = [], pm_mappings = []\<rparr>"

definition b_end :: "ablock \<Rightarrow> u64" where
  "b_end b = add64 (b_start b) (b_size b)"

definition b_map_end :: "ablock \<Rightarrow> u64" where
  "b_map_end b = add64 (b_map_vaddr b) (b_map_size b)"

text \<open>The search loop of \<open>Alloc\<close>, over the free ranges from where it starts.\<close>

fun alloc_search :: "u64 \<Rightarrow> u64 \<Rightarrow> u64 \<Rightarrow> u64 \<Rightarrow> u64 omap \<Rightarrow> u64 option" where
  "alloc_search search_start search_end len alignment [] = None"
| "alloc_search search_start search_end len alignment ((k, n) # rest) =
     (if \<not> k < search_end then None
      else let range_end = min (add64 k n) search_end;
               lower_bound = max k search_start;
               (free_pos, valid) = get_aligned_pos lower_bound alignment
           in if \<not> valid \<or> free_pos < lower_bound \<or> free_pos > range_end
                 \<or> len > sub64 range_end free_pos
              then alloc_search search_start search_end len alignment rest
              else Some free_pos)"

text \<open>Both \<open>Alloc\<close> and \<open>ReclaimAutomatic\<close> start at the node before \<open>upper_bound\<close>, if there is one.\<close>

definition nodes_around :: "u64 \<Rightarrow> 'v omap \<Rightarrow> 'v omap" where
  "nodes_around a m =
     (let it = om_upper_bound a m
      in om_iter_from (case om_prev it m of None \<Rightarrow> it | Some p \<Rightarrow> Some p) m)"

text \<open>\<open>Alloc\<close>; the result \<open>None\<close> is the failed \<open>EXIT_IF\<close>.\<close>

definition pm_alloc :: "u64 \<Rightarrow> u64 \<Rightarrow> u64 \<Rightarrow> u64 \<Rightarrow> u64 \<Rightarrow> int \<Rightarrow> allocation_kind \<Rightarrow> pmem
    \<Rightarrow> (pmem \<times> u64 option) option" where
  "pm_alloc psize search_start search_end0 len alignment memory_type kind s =
     (let search_end = min search_end0 psize in
      if search_start \<ge> search_end then Some (s, None)
      else case alloc_search search_start search_end len alignment (nodes_around search_start (pm_free s)) of
             None \<Rightarrow> Some (s, None)
           | Some free_pos \<Rightarrow>
               (let b = \<lparr>b_start = free_pos, b_size = len, b_map_vaddr = 0, b_map_size = 0,
                         b_host_vaddr = 0, b_host_size = 0, b_prot = 0, b_mode = NoAccess,
                         b_gpu = GpuNoAccess, b_memory_type = memory_type, b_kind = kind, b_name = []\<rparr>;
                    s1 = s\<lparr>pm_free := remove_free_range free_pos len (pm_free s)\<rparr>
                in if map_of (pm_physical s1) free_pos \<noteq> None then None
                   else (let s2 = s1\<lparr>pm_physical := om_emplace free_pos b (pm_physical s1)\<rparr>;
                             s3 = (if kind = KAutomatic
                                   then s2\<lparr>pm_auto := add_free_range free_pos len (pm_auto s2)\<rparr> else s2)
                         in Some (s3, Some free_pos))))"

text \<open>The loop of \<open>Available\<close>: the best address and size so far.\<close>

fun available_loop :: "u64 \<Rightarrow> u64 \<Rightarrow> u64 \<Rightarrow> u64 \<times> u64 \<Rightarrow> u64 omap \<Rightarrow> u64 \<times> u64" where
  "available_loop search_start search_end alignment best [] = best"
| "available_loop search_start search_end alignment best ((k, n) # rest) =
     (if k \<ge> search_end then best
      else let range_end = min (add64 k n) search_end;
               lower_bound = max k search_start;
               (free_pos, valid) = get_aligned_pos lower_bound alignment
           in available_loop search_start search_end alignment
                (if valid \<and> free_pos \<ge> lower_bound \<and> free_pos < range_end
                    \<and> sub64 range_end free_pos > snd best
                 then (free_pos, sub64 range_end free_pos) else best) rest)"

definition pm_available :: "u64 \<Rightarrow> u64 \<Rightarrow> u64 \<Rightarrow> u64 \<Rightarrow> pmem \<Rightarrow> (u64 \<times> u64) option" where
  "pm_available psize search_start search_end0 alignment s =
     (let search_end = min search_end0 psize in
      if search_start \<ge> search_end then None
      else let best = available_loop search_start search_end alignment (0, 0) (pm_free s)
           in if snd best = 0 then None else Some best)"

text \<open>\<open>ReserveAutomatic\<close>: the ranges collected so far and the size still missing.\<close>

fun reserve_loop :: "u64 \<Rightarrow> (u64 \<times> u64) list \<Rightarrow> u64 omap \<Rightarrow> (u64 \<times> u64) list option" where
  "reserve_loop sz ranges [] = None"
| "reserve_loop sz ranges ((k, available) # rest) =
     (let length = min sz available;
          ranges' = ranges @ [(k, length)];
          sz' = sub64 sz length
      in if sz' = 0 then Some ranges' else reserve_loop sz' ranges' rest)"

definition pm_reserve_automatic :: "u64 \<Rightarrow> (u64 \<times> u64) list \<Rightarrow> pmem
    \<Rightarrow> pmem \<times> (u64 \<times> u64) list \<times> bool" where
  "pm_reserve_automatic sz ranges s =
     (case reserve_loop sz ranges (pm_auto s) of
        None \<Rightarrow> (s, [], False)
      | Some rs \<Rightarrow>
          (s\<lparr>pm_auto := fold (\<lambda>(k, n). remove_free_range k n) rs (pm_auto s)\<rparr>, rs, True))"

definition pm_restore_automatic :: "(u64 \<times> u64) list \<Rightarrow> pmem \<Rightarrow> pmem" where
  "pm_restore_automatic ranges s =
     s\<lparr>pm_auto := fold (\<lambda>(k, n). add_free_range k n) ranges (pm_auto s)\<rparr>"

fun reclaim_owners :: "u64 \<Rightarrow> u64 \<Rightarrow> ablock omap \<Rightarrow> u64 omap \<Rightarrow> bool \<Rightarrow> u64 omap \<times> bool" where
  "reclaim_owners start end [] auto automatic = (auto, automatic)"
| "reclaim_owners start end ((k, b) # rest) auto automatic =
     (if \<not> k < end then (auto, automatic)
      else if b_kind b \<noteq> KAutomatic \<or> b_end b \<le> start
           then reclaim_owners start end rest auto automatic
           else (let first = max start (b_start b); fin = min end (b_end b)
                 in reclaim_owners start end rest
                      (add_free_range first (sub64 fin first) auto) True))"

fun reclaim_mapped :: "u64 \<Rightarrow> u64 \<Rightarrow> ablock list \<Rightarrow> u64 omap \<Rightarrow> u64 omap" where
  "reclaim_mapped start end [] auto = auto"
| "reclaim_mapped start end (m # rest) auto =
     (let first = max start (b_start m); fin = min end (b_end m)
      in reclaim_mapped start end rest
           (if first < fin then remove_free_range first (sub64 fin first) auto else auto))"

definition pm_reclaim_automatic :: "u64 \<Rightarrow> u64 \<Rightarrow> pmem \<Rightarrow> pmem" where
  "pm_reclaim_automatic start sz s =
     (let end = add64 start sz;
          (auto, automatic) =
            reclaim_owners start end (nodes_around start (pm_physical s)) (pm_auto s) False
      in s\<lparr>pm_auto := if automatic then reclaim_mapped start end (pm_mappings s) auto else auto\<rparr>)"

text \<open>
  \<open>Release\<close>: \<open>None\<close> for the result \<open>false\<close>, otherwise the old mapping's address, size and GPU mode.
\<close>

definition pm_release :: "u64 \<Rightarrow> u64 \<Rightarrow> pmem \<Rightarrow> pmem \<times> (u64 \<times> u64 \<times> gpu_mode) option" where
  "pm_release start len s =
     (case om_prev (om_upper_bound start (pm_physical s)) (pm_physical s) of
        None \<Rightarrow> (s, None)
      | Some it \<Rightarrow>
          (let b = the (map_of (pm_physical s) it) in
           if b_kind b = KPooled \<or> start < b_start b \<or> start \<ge> b_end b \<or> len > sub64 (b_end b) start
           then (s, None)
           else
             (let s1 = (if b_kind b = KAutomatic
                        then s\<lparr>pm_auto := remove_free_range start len (pm_auto s)\<rparr> else s)
              in if start = b_start b \<and> len = b_size b
                 then (s1\<lparr>pm_physical := om_erase it (pm_physical s1),
                          pm_free := add_free_range start len (pm_free s1)\<rparr>,
                       Some (b_map_vaddr b, b_map_size b, b_gpu b))
                 else if start > b_start b \<and> add64 start len < b_end b
                 then (let right_start = add64 start len;
                           right_size = sub64 (b_end b) right_start;
                           right = b\<lparr>b_start := right_start, b_size := right_size\<rparr>;
                           right' = (if b_map_vaddr right \<noteq> 0
                                     then right\<lparr>b_map_vaddr := add64 (b_map_vaddr right) (sub64 right_start (b_start b)),
                                                b_map_size := right_size\<rparr>
                                     else right);
                           left = b\<lparr>b_size := sub64 start (b_start b)\<rparr>;
                           left' = (if b_map_vaddr left \<noteq> 0 then left\<lparr>b_map_size := b_size left\<rparr> else left)
                       in (s1\<lparr>pm_physical := om_emplace right_start right' (om_set it left' (pm_physical s1)),
                              pm_free := add_free_range start len (pm_free s1)\<rparr>,
                           Some (if b_map_vaddr b \<noteq> 0 then add64 (b_map_vaddr b) (sub64 start (b_start b)) else 0,
                                 if b_map_vaddr b \<noteq> 0 then len else 0, b_gpu b)))
                 else if start = b_start b \<and> len < b_size b
                 then (let r = b\<lparr>b_start := add64 (b_start b) len, b_size := sub64 (b_size b) len\<rparr>;
                           remaining = (if b_map_vaddr r \<noteq> 0
                                        then r\<lparr>b_map_vaddr := add64 (b_map_vaddr r) len,
                                               b_map_size := sub64 (b_map_size r) len\<rparr>
                                        else r)
                       in (s1\<lparr>pm_physical := om_emplace (b_start remaining) remaining (om_erase it (pm_physical s1)),
                              pm_free := add_free_range start len (pm_free s1)\<rparr>,
                           Some (b_map_vaddr b, if b_map_vaddr b \<noteq> 0 then len else 0, b_gpu b)))
                 else if start > b_start b \<and> add64 start len = b_end b
                 then (let left = b\<lparr>b_size := sub64 start (b_start b)\<rparr>;
                           left' = (if b_map_vaddr left \<noteq> 0 then left\<lparr>b_map_size := b_size left\<rparr> else left)
                       in (s1\<lparr>pm_physical := om_set it left' (pm_physical s1),
                              pm_free := add_free_range start len (pm_free s1)\<rparr>,
                           Some (if b_map_vaddr b \<noteq> 0 then add64 (b_map_vaddr b) (sub64 start (b_start b)) else 0,
                                 if b_map_vaddr b \<noteq> 0 then len else 0, b_gpu b)))
                 else (s1, None))))"

text \<open>
  The loop shared by \<open>Map\<close>, \<open>CanMapDirect\<close> and \<open>GetAllocatedSpan\<close>: the blocks from \<open>current\<close> to
  \<open>end\<close>, each with the address where the loop entered it; \<open>None\<close> where there is a gap or a pooled
  block.
\<close>

function block_walk :: "ablock omap \<Rightarrow> u64 \<Rightarrow> u64 \<Rightarrow> (u64 \<times> ablock) list option" where
  "block_walk m end current =
     (if \<not> current < end then Some []
      else case om_prev (om_upper_bound current m) m of
             None \<Rightarrow> None
           | Some k \<Rightarrow>
               (let b = the (map_of m k); block_end = b_end b in
                if b_kind b = KPooled \<or> current < b_start b \<or> current \<ge> block_end then None
                else (let current' = min end block_end in
                      if current' < end
                         \<and> (case om_next k m of None \<Rightarrow> True
                            | Some f \<Rightarrow> b_start (the (map_of m f)) \<noteq> current')
                      then None
                      else map_option ((#) (current, b)) (block_walk m end current'))))"
  by pat_completeness auto
termination by (relation "measure (\<lambda>(m, end, current). end - current)") auto

declare block_walk.simps [simp del]

definition pm_map :: "u64 \<Rightarrow> u64 \<Rightarrow> u64 \<Rightarrow> prot \<Rightarrow> vm_mode \<Rightarrow> gpu_mode \<Rightarrow> string option \<Rightarrow> int
    \<Rightarrow> pmem \<Rightarrow> pmem \<times> bool" where
  "pm_map vaddr phys_addr len prot mode gmode name memory_type s =
     (if len = 0 \<or> U64_MAX - phys_addr < len then (s, False)
      else case om_prev (om_upper_bound phys_addr (pm_physical s)) (pm_physical s) of
             None \<Rightarrow> (s, False)
           | Some head_k \<Rightarrow>
               (case block_walk (pm_physical s) (add64 phys_addr len) phys_addr of
                  None \<Rightarrow> (s, False)
                | Some blocks \<Rightarrow>
                    (let has_automatic = list_ex (\<lambda>(_, b). b_kind b = KAutomatic) blocks;
                         mapping = (the (map_of (pm_physical s) head_k))
                           \<lparr>b_start := phys_addr, b_size := len, b_map_vaddr := vaddr, b_map_size := len,
                            b_host_vaddr := vaddr, b_host_size := len, b_prot := prot, b_mode := mode,
                            b_gpu := gmode, b_memory_type := memory_type,
                            b_name := copy_virtual_range_name name\<rparr>;
                         s1 = s\<lparr>pm_mappings := pm_mappings s @ [mapping]\<rparr>
                     in (if has_automatic
                         then s1\<lparr>pm_auto := remove_free_range phys_addr len (pm_auto s1)\<rparr> else s1, True))))"

definition pm_can_map_direct :: "u64 \<Rightarrow> u64 \<Rightarrow> pmem \<Rightarrow> bool" where
  "pm_can_map_direct phys_addr len s =
     (if len = 0 \<or> U64_MAX - phys_addr < len then False
      else block_walk (pm_physical s) (add64 phys_addr len) phys_addr \<noteq> None)"

definition pm_get_allocated_span :: "u64 \<Rightarrow> u64 \<Rightarrow> pmem \<Rightarrow> ablock list option" where
  "pm_get_allocated_span phys_addr len s =
     (if len = 0 \<or> U64_MAX - phys_addr < len then None
      else (let end = add64 phys_addr len in
            map_option (map (\<lambda>(current, b).
                b\<lparr>b_start := current, b_size := sub64 (min end (b_end b)) current\<rparr>))
              (block_walk (pm_physical s) end phys_addr)))"

definition pm_release_pool_expansion :: "u64 \<Rightarrow> u64 \<Rightarrow> pmem \<Rightarrow> pmem \<times> bool" where
  "pm_release_pool_expansion phys_addr len s =
     (case map_of (pm_physical s) phys_addr of
        None \<Rightarrow> (s, False)
      | Some b \<Rightarrow>
          if b_kind b \<noteq> KPooled \<or> b_size b \<noteq> len then (s, False)
          else (s\<lparr>pm_physical := om_erase phys_addr (pm_physical s),
                  pm_free := add_free_range phys_addr len (pm_free s)\<rparr>, True))"

text \<open>
  \<open>Unmap\<close>: \<open>None\<close> for \<open>false\<close>, otherwise the GPU mode and the host address to release (0 for none),
  which is reported only if the caller asked for it.
\<close>

definition contains_mapping :: "u64 \<Rightarrow> u64 \<Rightarrow> ablock \<Rightarrow> bool" where
  "contains_mapping vaddr sz b \<longleftrightarrow>
     \<not> (vaddr < b_map_vaddr b \<or> vaddr \<ge> b_map_end b \<or> sz > sub64 (b_map_end b) vaddr)"

definition host_release_if_last :: "bool \<Rightarrow> u64 \<Rightarrow> u64 \<Rightarrow> ablock list \<Rightarrow> u64" where
  "host_release_if_last want host_vaddr host_size mappings =
     (if \<not> want \<or> host_vaddr = 0 \<or> host_size = 0 then 0
      else if list_ex (\<lambda>b. b_host_vaddr b = host_vaddr \<and> b_host_size b = host_size) mappings then 0
      else host_vaddr)"

definition pm_unmap :: "u64 \<Rightarrow> u64 \<Rightarrow> bool \<Rightarrow> pmem \<Rightarrow> pmem \<times> (gpu_mode \<times> u64) option" where
  "pm_unmap vaddr sz want s =
     (let before = takeWhile (\<lambda>b. \<not> contains_mapping vaddr sz b) (pm_mappings s) in
      case dropWhile (\<lambda>b. \<not> contains_mapping vaddr sz b) (pm_mappings s) of
        [] \<Rightarrow> (s, None)
      | b # after \<Rightarrow>
          (let phys_addr = sub64 (add64 (b_start b) vaddr) (b_map_vaddr b);
               unmap_end = add64 vaddr sz;
               (mappings, release) =
                 (if vaddr = b_map_vaddr b \<and> sz = b_map_size b
                  then (before @ after,
                        host_release_if_last want (b_host_vaddr b) (b_host_size b) (before @ after))
                  else if vaddr > b_map_vaddr b \<and> unmap_end < b_map_end b
                  then (let right_size = sub64 (b_map_end b) unmap_end;
                            right = b\<lparr>b_start := add64 (b_start b) (sub64 unmap_end (b_map_vaddr b)),
                                      b_size := right_size, b_map_size := right_size,
                                      b_map_vaddr := unmap_end\<rparr>;
                            left = b\<lparr>b_size := sub64 vaddr (b_map_vaddr b),
                                     b_map_size := sub64 vaddr (b_map_vaddr b)\<rparr>
                        in (before @ left # after @ [right], 0))
                  else if vaddr = b_map_vaddr b
                  then (before @ b\<lparr>b_start := add64 (b_start b) sz, b_size := sub64 (b_size b) sz,
                                   b_map_vaddr := add64 (b_map_vaddr b) sz,
                                   b_map_size := sub64 (b_map_size b) sz\<rparr> # after, 0)
                  else (before @ b\<lparr>b_size := sub64 vaddr (b_map_vaddr b),
                                   b_map_size := sub64 vaddr (b_map_vaddr b)\<rparr> # after, 0))
           in (pm_reclaim_automatic phys_addr sz (s\<lparr>pm_mappings := mappings\<rparr>), Some (b_gpu b, release))))"

definition protect_block :: "u64 \<Rightarrow> u64 \<Rightarrow> prot \<Rightarrow> vm_mode \<Rightarrow> gpu_mode \<Rightarrow> ablock \<Rightarrow> ablock list" where
  "protect_block vaddr sz prot mode gmode b =
     (let end = add64 vaddr sz; block_end = b_map_end b in
      if \<not> virtual_ranges_overlap vaddr sz (b_map_vaddr b) (b_map_size b) then [b]
      else (let overlap_start = max vaddr (b_map_vaddr b);
                overlap_end = min end block_end;
                left = b\<lparr>b_size := sub64 overlap_start (b_map_vaddr b),
                         b_map_size := sub64 overlap_start (b_map_vaddr b)\<rparr>;
                middle = b\<lparr>b_start := sub64 (add64 (b_start b) overlap_start) (b_map_vaddr b),
                           b_size := sub64 overlap_end overlap_start, b_map_vaddr := overlap_start,
                           b_map_size := sub64 overlap_end overlap_start,
                           b_prot := prot, b_mode := mode, b_gpu := gmode\<rparr>;
                right = b\<lparr>b_start := sub64 (add64 (b_start b) overlap_end) (b_map_vaddr b),
                          b_size := sub64 block_end overlap_end, b_map_vaddr := overlap_end,
                          b_map_size := sub64 block_end overlap_end\<rparr>
            in (if b_map_vaddr b < overlap_start then [left] else []) @ [middle]
               @ (if overlap_end < block_end then [right] else [])))"

definition pm_protect_mapping :: "u64 \<Rightarrow> u64 \<Rightarrow> prot \<Rightarrow> vm_mode \<Rightarrow> gpu_mode \<Rightarrow> pmem \<Rightarrow> pmem" where
  "pm_protect_mapping vaddr sz prot mode gmode s =
     (if sz = 0 \<or> U64_MAX - vaddr < sz then s
      else s\<lparr>pm_mappings := concat (map (protect_block vaddr sz prot mode gmode) (pm_mappings s))\<rparr>)"

definition pm_find_block :: "u64 \<Rightarrow> bool \<Rightarrow> pmem \<Rightarrow> ablock option" where
  "pm_find_block phys_addr want_next s =
     (let following = om_upper_bound phys_addr (pm_physical s);
          node = (\<lambda>k. the (map_of (pm_physical s) k));
          after = (if want_next then map_option node following else None)
      in case om_prev following (pm_physical s) of
           None \<Rightarrow> after
         | Some k \<Rightarrow> if phys_addr < b_end (node k) then Some (node k) else after)"

definition pm_find_mappings :: "u64 \<Rightarrow> u64 \<Rightarrow> pmem \<Rightarrow> ablock list" where
  "pm_find_mappings phys_addr len s =
     sort_key b_map_vaddr
       (map (\<lambda>m. let overlap_start = max phys_addr (b_start m);
                     overlap_end = min (add64 phys_addr len) (b_end m);
                     part_size = sub64 overlap_end overlap_start
                 in m\<lparr>b_start := overlap_start, b_size := part_size,
                      b_map_vaddr := add64 (b_map_vaddr m) (sub64 overlap_start (b_start m)),
                      b_map_size := part_size\<rparr>)
         (filter (\<lambda>m. virtual_ranges_overlap phys_addr len (b_start m) (b_size m)) (pm_mappings s)))"

definition pm_find_mapping :: "u64 \<Rightarrow> pmem \<Rightarrow> (u64 \<times> u64 \<times> prot \<times> vm_mode \<times> gpu_mode) option" where
  "pm_find_mapping vaddr s =
     map_option (\<lambda>b. (b_map_vaddr b, b_map_size b, b_prot b, b_mode b, b_gpu b))
       (find (\<lambda>b. vaddr \<ge> b_map_vaddr b \<and> vaddr < b_map_end b) (pm_mappings s))"

definition pm_set_virtual_range_name :: "u64 \<Rightarrow> u64 \<Rightarrow> string option \<Rightarrow> pmem \<Rightarrow> pmem" where
  "pm_set_virtual_range_name vaddr len name s =
     s\<lparr>pm_mappings := map (\<lambda>b. if virtual_ranges_overlap vaddr len (b_map_vaddr b) (b_map_size b)
                               then b\<lparr>b_name := copy_virtual_range_name name\<rparr> else b) (pm_mappings s)\<rparr>"

end
