(* ===== verification/PhysicalMemoryFacts.thy ===== *)
theory PhysicalMemoryFacts
  imports PhysicalMemory
begin

text \<open>
  What the methods of the physical memory do, and the invariant that every one of them keeps:
  free ranges and blocks partition the memory, and the automatic free list holds only unmapped
  bytes of automatic blocks.
\<close>

subsection \<open>Free ranges and where the searches start\<close>

lemma nodes_around_split:
  assumes ok: "im_ok sz m"
  obtains pre where "m = pre @ nodes_around a m" "\<forall>x\<in>set pre. fst x + sz (snd x) \<le> a"
proof -
  define xs ys where "xs = takeWhile (\<lambda>e. fst e \<le> a) m" and "ys = om_after a m"
  have m: "m = xs @ ys" by (simp add: xs_def ys_def om_after_def)
  have om: "om_ok (xs @ ys)" using ok m by auto
  have xs: "\<forall>x\<in>set xs. fst x \<le> a" by (auto simp: xs_def dest: set_takeWhileD)
  have ub: "om_upper_bound a m = om_begin ys" by (simp add: om_upper_bound_def ys_def)
  note pv = om_prev_append [OF om, folded m]
  show thesis
  proof (cases xs rule: rev_cases)
    case Nil
    then have "nodes_around a m = m"
      using pv om_iter_from_append [of "[]" ys] om ub m by (simp add: nodes_around_def Let_def)
    then show ?thesis using that [of "[]"] by simp
  next
    case (snoc us e)
    obtain k v where e: "e = (k, v)" by force
    have m': "m = us @ (k, v) # ys" using m snoc e by simp
    have "om_ok m" using om m by simp
    then have "om_iter_from (Some k) m = (k, v) # ys" unfolding m' by (simp add: om_node_from)
    moreover have "om_prev (om_begin ys) m = Some k" using pv snoc e by simp
    ultimately have n: "nodes_around a m = (k, v) # ys" by (simp add: nodes_around_def Let_def ub)
    have "fst x + sz (snd x) \<le> a" if "x \<in> set us" for x
    proof -
      have "fst x + sz (snd x) \<le> k" using ok that unfolding m' im_ok_append by auto
      moreover have "k \<le> a" using xs snoc e by simp
      ultimately show ?thesis by simp
    qed
    then show ?thesis using that [of us] m' n by simp
  qed
qed

definition aligned :: "u64 \<Rightarrow> u64 \<Rightarrow> bool" where
  "aligned al p \<longleftrightarrow> al = 0 \<or> al dvd p"

text \<open>The places where an allocation fits into a list of free ranges.\<close>

definition fits :: "u64 \<Rightarrow> u64 \<Rightarrow> u64 \<Rightarrow> u64 \<Rightarrow> u64 omap \<Rightarrow> u64 \<Rightarrow> bool" where
  "fits ss se len al m q \<longleftrightarrow> aligned al q \<and> ss \<le> q \<and> q + len \<le> se
     \<and> (\<exists>(k, n)\<in>set m. k \<le> q \<and> q + len \<le> k + n)"

lemma get_aligned_pos_spec:
  assumes "lo < two64"
  shows "case get_aligned_pos lo al of (p, v) \<Rightarrow>
    (v \<longrightarrow> lo \<le> p \<and> p < two64 \<and> aligned al p) \<and> (\<forall>q. aligned al q \<and> lo \<le> q \<and> q < two64 \<longrightarrow> v \<and> p \<le> q)"
proof (cases "al = 0")
  case True
  then show ?thesis using assms by (simp add: get_aligned_pos_def aligned_def)
next
  case False
  show ?thesis
  proof -
    have least: "round_up lo al \<le> q" if "aligned al q" "lo \<le> q" for q
      using round_up_least [of al q lo] that False by (simp add: aligned_def)
    have "get_aligned_pos lo al = (if round_up lo al < two64 then (round_up lo al, True) else (0, False))"
      using get_aligned_pos_round [of al lo] assms False by simp
    moreover have "\<not> (aligned al q \<and> lo \<le> q \<and> q < two64)" if "\<not> round_up lo al < two64" for q
      using least [of q] that by auto
    ultimately show ?thesis
      using round_up_ge [of lo al] round_up_dvd [of al lo] False least
      by (cases "round_up lo al < two64") (auto simp: aligned_def)
  qed
qed

lemma alloc_search_spec:
  assumes "fr_ok m" and "0 < len" and "se < two64"
  shows "case alloc_search ss se len al m of
      None \<Rightarrow> \<forall>q. \<not> fits ss se len al m q
    | Some p \<Rightarrow> fits ss se len al m p \<and> (\<forall>q. fits ss se len al m q \<longrightarrow> p \<le> q)"
  using assms(1)
proof (induction m)
  case (Cons y m)
  obtain k n where y: "y = (k, n)" by force
  have kn: "0 < n" "k + n < two64" "\<forall>e\<in>set m. k + n < fst e" "fr_ok m"
    using Cons.prems by (simp_all add: y fr_ok_simps)
  show ?case
  proof (cases "k < se")
    case False
    have "\<not> fits ss se len al (y # m) q" for q
    proof
      assume "fits ss se len al (y # m) q"
      then obtain j i where "(j, i) \<in> set (y # m)" "j \<le> q" "q + len \<le> se" by (auto simp: fits_def)
      moreover from this(1) have "k \<le> j" using kn(3) by (fastforce simp: y)
      ultimately show False using False assms(2) by simp
    qed
    then show ?thesis using False by (simp add: y)
  next
    case True
    define lo where "lo = max k ss"
    define e where "e = min (k + n) se"
    obtain p v where pv: "get_aligned_pos lo al = (p, v)" by force
    define bad where "bad \<longleftrightarrow> \<not> v \<or> p < lo \<or> p > e \<or> len > sub64 e p"
    have step: "alloc_search ss se len al (y # m) =
        (if bad then alloc_search ss se len al m else Some p)"
      using True kn pv by (simp add: y Let_def lo_def e_def bad_def)
    define H where "H q \<longleftrightarrow> aligned al q \<and> lo \<le> q \<and> q + len \<le> e" for q
    note here = H_def
    have split: "fits ss se len al (y # m) q \<longleftrightarrow> H q \<or> fits ss se len al m q" for q
      by (auto simp: fits_def H_def y lo_def e_def)
    have el: "e < two64" using assms(3) by (simp add: e_def)
    show ?thesis
    proof (cases "lo < two64")
      case lo: True
      note g = get_aligned_pos_spec [OF lo, of al, unfolded pv prod.case]
      show ?thesis
      proof (cases bad)
        case True
        have "\<not> H q" for q
        proof
          assume "H q"
          then have q: "aligned al q" "lo \<le> q" "q + len \<le> e" using here by simp_all
          then have "v" "p \<le> q" using g el assms(2) by auto
          moreover from this g have "lo \<le> p" "p < two64" by auto
          ultimately show False using True q el assms(2) by (auto simp: bad_def)
        qed
        then show ?thesis
          using Cons.IH [OF kn(4)] unfolding step split using True
          by (cases "alloc_search ss se len al m") simp_all
      next
        case False
        then have v: "v" "lo \<le> p" "p \<le> e" "p + len \<le> e" using el by (auto simp: bad_def)
        have "H p" using here v g by simp
        moreover have "p \<le> q" if "fits ss se len al (y # m) q" for q
          using that unfolding split
        proof
          assume "H q"
          then show ?thesis using here g el assms(2) by auto
        next
          assume "fits ss se len al m q"
          then obtain j i where "(j, i) \<in> set m" "j \<le> q" by (auto simp: fits_def)
          then have "k + n \<le> q" using kn(3) by fastforce
          then show ?thesis using v(3) by (simp add: e_def)
        qed
        ultimately show ?thesis unfolding step using False split by simp
      qed
    next
      case lo: False
      have big: "two64 \<le> ss" using lo kn(2) by (simp add: lo_def)
      then have none: "\<not> fits ss se len al w q" for w q using assms(2,3) by (auto simp: fits_def)
      have "e < lo" using lo el by simp
      have "bad"
      proof (rule ccontr)
        assume "\<not> bad"
        then show False using \<open>e < lo\<close> by (auto simp: bad_def)
      qed
      then show ?thesis
        using Cons.IH [OF kn(4)] none unfolding step
        by (cases "alloc_search ss se len al m") simp_all
    qed
  qed
qed (simp add: fits_def)

lemma available_loop_spec:
  fixes ss se al :: u64 and best :: "u64 \<times> u64"
  assumes "fr_ok m" and "se < two64" and "ss < two64"
  defines "ok \<equiv> \<lambda>q n. 0 < n \<and> fits ss se n al m q"
  defines "r \<equiv> available_loop ss se al best m"
  shows "(r = best \<or> ok (fst r) (snd r) \<and> snd best < snd r)
    \<and> snd best \<le> snd r \<and> (\<forall>q n. ok q n \<longrightarrow> n \<le> snd r)"
  using assms(1) unfolding r_def ok_def
proof (induction m arbitrary: best)
  case (Cons y m)
  obtain k n where y: "y = (k, n)" by force
  have kn: "0 < n" "k + n < two64" "\<forall>e\<in>set m. k + n < fst e" "fr_ok m"
    using Cons.prems by (simp_all add: y fr_ok_simps)
  show ?case
  proof (cases "k \<ge> se")
    case True
    have "\<not> (0 < l \<and> fits ss se l al (y # m) q)" for l q
    proof
      assume *: "0 < l \<and> fits ss se l al (y # m) q"
      then obtain j i where "(j, i) \<in> set (y # m)" "j \<le> q" "q + l \<le> se" by (auto simp: fits_def)
      moreover from this(1) have "k \<le> j" using kn(3) by (fastforce simp: y)
      ultimately show False using True * by simp
    qed
    moreover have st: "available_loop ss se al best (y # m) = best" using True by (simp add: y)
    ultimately show ?thesis unfolding st by blast
  next
    case False
    define lo where "lo = max k ss"
    define e where "e = min (k + n) se"
    obtain p v where pv: "get_aligned_pos lo al = (p, v)" by force
    define better where "better \<longleftrightarrow> v \<and> p \<ge> lo \<and> p < e \<and> sub64 e p > snd best"
    define best' where "best' = (if better then (p, sub64 e p) else best)"
    have step: "available_loop ss se al best (y # m) = available_loop ss se al best' m"
      using False kn pv by (simp add: y Let_def lo_def e_def better_def best'_def del: sub64_exact)
    define H where "H l q \<longleftrightarrow> aligned al q \<and> lo \<le> q \<and> q + l \<le> e" for l q
    note here = H_def
    have split: "fits ss se l al (y # m) q \<longleftrightarrow> H l q \<or> fits ss se l al m q" for l q
      by (auto simp: fits_def H_def y lo_def e_def)
    have lo: "lo < two64" using kn assms(3) by (simp add: lo_def)
    have el: "e < two64" using assms(2) by (simp add: e_def)
    note g = get_aligned_pos_spec [OF lo, of al, unfolded pv prod.case]
    have b1: "better \<Longrightarrow> 0 < snd best' \<and> H (snd best') (fst best') \<and> snd best < snd best'"
      using g el here by (auto simp: better_def best'_def)
    have b2: "l \<le> snd best'" if "0 < l" "H l q" for l q
    proof -
      have q: "aligned al q" "lo \<le> q" "q + l \<le> e" using that here by simp_all
      then have v: "v" "p \<le> q" using g el that by auto
      then have "p < e" "l \<le> e - p" "lo \<le> p" using q that(1) g by auto
      then show ?thesis using v el by (auto simp: best'_def better_def)
    qed
    have mono: "snd best \<le> snd best'" using b1 by (auto simp: best'_def)
    show ?thesis
      using Cons.IH [OF kn(4), of best'] b1 b2 mono unfolding step split
      by (cases better) (auto simp: best'_def intro: order.trans less_le_trans)
  qed
qed (simp add: fits_def)

subsection \<open>The state of the physical memory\<close>

text \<open>Who owns a physical address: the kind and memory type of the block that holds it.\<close>

abbreviation owner_of :: "ablock omap \<Rightarrow> u64 \<Rightarrow> (allocation_kind \<times> int) option" where
  "owner_of \<equiv> im_view b_size (\<lambda>k b x. (b_kind b, b_memory_type b))"

definition pm_owner :: "pmem \<Rightarrow> u64 \<Rightarrow> (allocation_kind \<times> int) option" where
  "pm_owner s = owner_of (pm_physical s)"

definition pm_mapped :: "pmem \<Rightarrow> u64 set" where
  "pm_mapped s = (\<Union>m\<in>set (pm_mappings s). span (b_start m) (b_size m))"

definition mapping_ok :: "ablock \<Rightarrow> bool" where
  "mapping_ok m \<longleftrightarrow> 0 < b_size m \<and> b_map_size m = b_size m \<and> b_start m + b_size m < two64
     \<and> b_map_vaddr m + b_size m < two64"

definition mappable :: "(allocation_kind \<times> int) option \<Rightarrow> bool" where
  "mappable w \<longleftrightarrow> (case w of None \<Rightarrow> False | Some (k, t) \<Rightarrow> k \<noteq> KPooled)"

definition automatic :: "(allocation_kind \<times> int) option \<Rightarrow> bool" where
  "automatic w \<longleftrightarrow> (case w of None \<Rightarrow> False | Some (k, t) \<Rightarrow> k = KAutomatic)"

lemma mappable_simps [simp]: "\<not> mappable None" "mappable (Some (k, t)) = (k \<noteq> KPooled)"
  "\<not> automatic None" "automatic (Some (k, t)) = (k = KAutomatic)"
  by (simp_all add: mappable_def automatic_def)

definition blocks_ok :: "ablock omap \<Rightarrow> bool" where
  "blocks_ok m \<longleftrightarrow> im_ok b_size m \<and> (\<forall>e\<in>set m. b_start (snd e) = fst e \<and> b_map_vaddr (snd e) = 0
      \<and> b_map_size (snd e) = 0 \<and> b_gpu (snd e) = GpuNoAccess)"

text \<open>
  Well-formed physical memory of the given size: the free ranges are exactly the bytes that no block
  owns, the automatic free ranges are unmapped bytes of automatic blocks, and every mapping lies
  over mappable blocks.
\<close>

definition pm_ok :: "u64 \<Rightarrow> pmem \<Rightarrow> bool" where
  "pm_ok psz s \<longleftrightarrow> psz < two64 \<and> blocks_ok (pm_physical s)
     \<and> fr_ok (pm_free s) \<and> fr_cover (pm_free s) = {x. x < psz \<and> pm_owner s x = None}
     \<and> (\<forall>x. pm_owner s x \<noteq> None \<longrightarrow> x < psz)
     \<and> fr_ok (pm_auto s) \<and> (\<forall>x\<in>fr_cover (pm_auto s). automatic (pm_owner s x) \<and> x \<notin> pm_mapped s)
     \<and> (\<forall>m\<in>set (pm_mappings s). mapping_ok m)
     \<and> (\<forall>x\<in>pm_mapped s. mappable (pm_owner s x))"

lemma pm_okD:
  assumes "pm_ok psz s"
  shows "psz < two64" "blocks_ok (pm_physical s)" "fr_ok (pm_free s)"
    "fr_cover (pm_free s) = {x. x < psz \<and> pm_owner s x = None}"
    "pm_owner s x \<noteq> None \<Longrightarrow> x < psz" "fr_ok (pm_auto s)"
    "x \<in> fr_cover (pm_auto s) \<Longrightarrow> automatic (pm_owner s x)"
    "x \<in> fr_cover (pm_auto s) \<Longrightarrow> x \<notin> pm_mapped s"
    "m \<in> set (pm_mappings s) \<Longrightarrow> mapping_ok m"
    "x \<in> pm_mapped s \<Longrightarrow> mappable (pm_owner s x)"
  using assms by (auto simp: pm_ok_def)

lemma pm_okI:
  assumes "psz < two64" "blocks_ok (pm_physical s)" "fr_ok (pm_free s)"
    "fr_cover (pm_free s) = {x. x < psz \<and> pm_owner s x = None}"
    "\<And>x. pm_owner s x \<noteq> None \<Longrightarrow> x < psz" "fr_ok (pm_auto s)"
    "\<And>x. x \<in> fr_cover (pm_auto s) \<Longrightarrow> automatic (pm_owner s x) \<and> x \<notin> pm_mapped s"
    "\<And>m. m \<in> set (pm_mappings s) \<Longrightarrow> mapping_ok m"
    "\<And>x. x \<in> pm_mapped s \<Longrightarrow> mappable (pm_owner s x)"
  shows "pm_ok psz s"
  unfolding pm_ok_def using assms by blast

lemma blocks_ok_om [simp]: "blocks_ok m \<Longrightarrow> om_ok m"
  by (auto simp: blocks_ok_def)

lemma blocks_ok_im: "blocks_ok m \<Longrightarrow> im_ok b_size m"
  by (simp add: blocks_ok_def)

lemma blocks_ok_node:
  assumes "blocks_ok m" and "(k, b) \<in> set m"
  shows "b_start b = k" "0 < b_size b" "k + b_size b < two64" "b_end b = k + b_size b"
    "b_map_vaddr b = 0" "b_map_size b = 0" "b_gpu b = GpuNoAccess"
proof -
  have "im_ok b_size m" using assms(1) by (rule blocks_ok_im)
  then show "0 < b_size b" "k + b_size b < two64" using assms(2) by (auto simp: im_ok_sorted)
  moreover show "b_start b = k" "b_map_vaddr b = 0" "b_map_size b = 0" "b_gpu b = GpuNoAccess"
    using assms by (auto simp: blocks_ok_def)
  ultimately show "b_end b = k + b_size b" by (simp add: b_end_def)
qed

text \<open>The view of an interval map at a node.\<close>

lemma im_view_node:
  assumes "im_ok sz (xs @ (k, v) # ys)"
  shows "im_view sz f (xs @ (k, v) # ys) x =
      (if k \<le> x \<and> x < k + sz v then Some (f k v x) else im_view sz f (xs @ ys) x)"
    and "\<lbrakk>k \<le> x; x < k + sz v\<rbrakk> \<Longrightarrow> im_view sz f (xs @ ys) x = None"
proof -
  have xs: "\<forall>e\<in>set xs. fst e + sz (snd e) \<le> k" and ys: "\<forall>e\<in>set ys. k + sz v \<le> fst e"
    using assms by (auto simp: im_ok_append im_ok_Cons)
  show *: "im_view sz f (xs @ ys) x = None" if "k \<le> x" "x < k + sz v"
    using that im_view_above [OF xs, of x f] im_view_below [OF ys, of x sz f] by (simp add: im_view_append)
  show "im_view sz f (xs @ (k, v) # ys) x =
      (if k \<le> x \<and> x < k + sz v then Some (f k v x) else im_view sz f (xs @ ys) x)"
    using * by (auto simp: im_view_append split: option.splits)
qed

lemma im_view_emplace:
  assumes ok: "im_ok sz m" and v: "0 < sz v" "k + sz v < two64"
    and free: "\<And>x. x \<in> span k (sz v) \<Longrightarrow> x \<notin> im_cover sz m"
  shows "im_ok sz (om_emplace k v m)" and "map_of m k = None"
    and "im_view sz f (om_emplace k v m) x =
      (if x \<in> span k (sz v) then Some (f k v x) else im_view sz f m x)"
    and "set (om_emplace k v m) = insert (k, v) (set m)"
proof -
  have none_at: "im_at sz m x = None" if "x \<in> span k (sz v)" for x
    using free [OF that] im_cover_at [OF ok, of x] by blast
  show ok': "im_ok sz (om_emplace k v m)"
    by (rule im_ok_emplace [OF ok v none_at])
  show none: "map_of m k = None"
  proof (cases "map_of m k")
    case (Some w)
    then have "im_at sz m k = Some (k, w)" using im_okD(2) [OF ok Some] im_at_eqI [OF ok Some] by simp
    then show ?thesis using none_at [of k] v by simp
  qed
  define xs ys where "xs = om_before k m" and "ys = om_from k m"
  have m: "m = xs @ ys" by (simp add: xs_def ys_def om_split_at)
  have om: "om_ok m" using ok by auto
  have xs: "\<forall>e\<in>set xs. fst e < k" and ge: "\<forall>e\<in>set ys. k \<le> fst e"
    using om by (simp_all add: xs_def ys_def om_before_set om_from_set)
  have "fst e \<noteq> k" if "e \<in> set ys" for e
  proof
    assume "fst e = k"
    then have "(k, snd e) \<in> set m" using that m by auto
    then show False using none om_in_set [OF om, of k "snd e"] by simp
  qed
  then have ys: "\<forall>e\<in>set ys. k < fst e" using ge by (metis le_neq_implies_less)
  have e: "om_emplace k v m = xs @ (k, v) # ys" unfolding m by (rule om_emplace_node [OF xs ys])
  show "im_view sz f (om_emplace k v m) x =
      (if x \<in> span k (sz v) then Some (f k v x) else im_view sz f m x)"
    using im_view_node(1) [OF ok' [unfolded e], of f x] unfolding e by (simp add: m)
  show "set (om_emplace k v m) = insert (k, v) (set m)" by (simp add: e) (simp add: m)
qed

lemma owner_node:
  assumes "pm_owner s x = Some w" and "blocks_ok (pm_physical s)"
  obtains xs k b ys where "pm_physical s = xs @ (k, b) # ys" "k \<le> x" "x < k + b_size b"
    "w = (b_kind b, b_memory_type b)" "im_at b_size (pm_physical s) x = Some (k, b)"
proof -
  note ok = blocks_ok_im [OF assms(2)]
  obtain k b where at: "im_at b_size (pm_physical s) x = Some (k, b)" "w = (b_kind b, b_memory_type b)"
    using assms(1) by (auto simp: pm_owner_def im_view_at [OF ok])
  moreover from this have "map_of (pm_physical s) k = Some b" "k \<le> x" "x < k + b_size b"
    by (simp_all add: im_at_Some [OF ok])
  moreover from this obtain xs ys where "pm_physical s = xs @ (k, b) # ys"
    using om_node_obtain [of "pm_physical s" k b] assms(2) by auto
  ultimately show thesis using that by blast
qed

lemma owner_in_cover: "pm_owner s x = None \<longleftrightarrow> x \<notin> im_cover b_size (pm_physical s)"
  by (simp add: pm_owner_def im_view_None)

subsection \<open>Allocation\<close>

text \<open>Where \<open>len\<close> bytes of physical memory are free between \<open>ss\<close> and \<open>se\<close> at the alignment.\<close>

definition pm_fits :: "u64 \<Rightarrow> u64 \<Rightarrow> u64 \<Rightarrow> u64 \<Rightarrow> u64 \<Rightarrow> pmem \<Rightarrow> u64 \<Rightarrow> bool" where
  "pm_fits psz ss se len al s q \<longleftrightarrow> aligned al q \<and> ss \<le> q \<and> q + len \<le> min se psz
     \<and> (\<forall>x\<in>span q len. pm_owner s x = None)"

lemma fits_nodes_around:
  assumes ok: "fr_ok m" and len: "0 < len"
  shows "fits ss se len al (nodes_around ss m) q \<longleftrightarrow>
    aligned al q \<and> ss \<le> q \<and> q + len \<le> se \<and> span q len \<subseteq> fr_cover m"
proof -
  obtain pre where m: "m = pre @ nodes_around ss m" "\<forall>x\<in>set pre. fst x + snd x \<le> ss"
    using nodes_around_split [OF fr_ok_im [OF ok], of ss] by blast
  have "(\<exists>(k, n)\<in>set (nodes_around ss m). k \<le> q \<and> q + len \<le> k + n) \<longleftrightarrow>
      (\<exists>(k, n)\<in>set m. k \<le> q \<and> q + len \<le> k + n)" if "ss \<le> q"
  proof -
    have "\<not> q + len \<le> k + n" if "(k, n) \<in> set pre" for k n
      using m(2) that \<open>ss \<le> q\<close> len by fastforce
    moreover have "set m = set pre \<union> set (nodes_around ss m)" using m(1) by (metis set_append)
    ultimately show ?thesis by blast
  qed
  then show ?thesis by (auto simp: fits_def fr_contained [OF ok len])
qed

lemma fr_ok_suffix: "fr_ok m \<Longrightarrow> fr_ok (nodes_around a m)"
proof -
  assume "fr_ok m"
  then obtain pre where "m = pre @ nodes_around a m"
    using nodes_around_split [OF fr_ok_im, of m a] by blast
  then show ?thesis using \<open>fr_ok m\<close> fr_ok_simps(3) [of pre "nodes_around a m"] by simp
qed

lemma pm_fits_search:
  assumes ok: "pm_ok psz s" and len: "0 < len"
  shows "fits ss (min se psz) len al (nodes_around ss (pm_free s)) q = pm_fits psz ss se len al s q"
proof -
  have "span q len \<subseteq> fr_cover (pm_free s) \<longleftrightarrow> (\<forall>x\<in>span q len. pm_owner s x = None)"
    if "q + len \<le> psz" using that by (auto simp: pm_okD(4) [OF ok])
  then show ?thesis
    unfolding fits_nodes_around [OF pm_okD(3) [OF ok] len] pm_fits_def by auto
qed

lemma pm_alloc_ok:
  assumes ok: "pm_ok psz s" and len: "0 < len"
  shows "case pm_alloc psz ss se len al mt kind s of
      None \<Rightarrow> False
    | Some (s', None) \<Rightarrow> s' = s \<and> (\<forall>q. \<not> pm_fits psz ss se len al s q)
    | Some (s', Some p) \<Rightarrow> pm_fits psz ss se len al s p \<and> (\<forall>q. pm_fits psz ss se len al s q \<longrightarrow> p \<le> q)
        \<and> pm_ok psz s' \<and> pm_mappings s' = pm_mappings s
        \<and> pm_owner s' = (\<lambda>x. if x \<in> span p len then Some (kind, mt) else pm_owner s x)"
proof (cases "ss \<ge> min se psz")
  case True
  then have "\<not> pm_fits psz ss se len al s q" for q using len by (auto simp: pm_fits_def)
  then show ?thesis using True by (simp add: pm_alloc_def)
next
  case False
  define e where "e = min se psz"
  have el: "e < two64" using pm_okD(1) [OF ok] by (simp add: e_def)
  have suf: "fr_ok (nodes_around ss (pm_free s))" by (rule fr_ok_suffix [OF pm_okD(3) [OF ok]])
  note S = alloc_search_spec [OF suf len el, of ss al, unfolded e_def pm_fits_search [OF ok len]]
  show ?thesis
  proof (cases "alloc_search ss (min se psz) len al (nodes_around ss (pm_free s))")
    case None
    then show ?thesis using S False by (simp add: pm_alloc_def Let_def)
  next
    case (Some p)
    then have p: "pm_fits psz ss se len al s p" "\<forall>q. pm_fits psz ss se len al s q \<longrightarrow> p \<le> q"
      using S by simp_all
    have pl: "p + len \<le> psz" "p + len < two64" and free: "\<forall>x\<in>span p len. pm_owner s x = None"
      using p(1) pm_okD(1) [OF ok] by (auto simp: pm_fits_def)
    define b where "b = \<lparr>b_start = p, b_size = len, b_map_vaddr = 0, b_map_size = 0,
      b_host_vaddr = 0, b_host_size = 0, b_prot = 0, b_mode = NoAccess,
      b_gpu = GpuNoAccess, b_memory_type = mt, b_kind = kind, b_name = []\<rparr>"
    note im = blocks_ok_im [OF pm_okD(2) [OF ok]]
    have nc: "x \<notin> im_cover b_size (pm_physical s)" if "x \<in> span p (b_size b)" for x
      using free that owner_in_cover by (simp add: b_def)
    have bl: "0 < b_size b" "p + b_size b < two64" using len pl by (simp_all add: b_def)
    note em = im_view_emplace [OF im bl nc]
    define ph where "ph = om_emplace p b (pm_physical s)"
    define s' where "s' = s\<lparr>pm_free := remove_free_range p len (pm_free s), pm_physical := ph,
      pm_auto := if kind = KAutomatic then add_free_range p len (pm_auto s) else pm_auto s\<rparr>"
    have eq: "pm_alloc psz ss se len al mt kind s = Some (s', Some p)"
      using False Some em(2) by (simp add: pm_alloc_def Let_def s'_def ph_def b_def)
    have own: "pm_owner s' = (\<lambda>x. if x \<in> span p len then Some (kind, mt) else pm_owner s x)"
    proof
      fix x
      have "pm_owner s' x = owner_of ph x" by (simp add: pm_owner_def s'_def)
      also have "\<dots> = (if x \<in> span p (b_size b) then Some (b_kind b, b_memory_type b) else pm_owner s x)"
        unfolding ph_def pm_owner_def by (rule em(3))
      finally show "pm_owner s' x = (if x \<in> span p len then Some (kind, mt) else pm_owner s x)"
        by (simp add: b_def)
    qed
    have bok: "blocks_ok ph"
      using em(1,4) pm_okD(2) [OF ok] by (simp add: blocks_ok_def ph_def b_def)
    note rem = remove_free_range_ok [OF pm_okD(3) [OF ok] len pl(2)]
    note add = add_free_range_ok [OF pm_okD(6) [OF ok] len pl(2)]
    have auto: "automatic (pm_owner s' x) \<and> x \<notin> pm_mapped s'" if x: "x \<in> fr_cover (pm_auto s')" for x
    proof (cases "x \<in> span p len")
      case True
      have own0: "pm_owner s x = None" using True free by blast
      then have "x \<notin> fr_cover (pm_auto s)" "x \<notin> pm_mapped s"
        using pm_okD(7) [OF ok, of x] pm_okD(10) [OF ok, of x] by auto
      then have "kind = KAutomatic" using x by (auto simp: s'_def split: if_splits)
      then show ?thesis using True own \<open>x \<notin> pm_mapped s\<close> by (simp add: pm_mapped_def s'_def)
    next
      case False
      then have "x \<in> fr_cover (pm_auto s)" using x add by (auto simp: s'_def split: if_splits)
      then show ?thesis
        using False own pm_okD(7,8) [OF ok] by (auto simp: pm_mapped_def s'_def)
    qed
    have mapd: "mappable (pm_owner s' x)" if "x \<in> pm_mapped s'" for x
    proof -
      have "mappable (pm_owner s x)" using pm_okD(10) [OF ok, of x] that by (simp add: pm_mapped_def s'_def)
      moreover from this have "x \<notin> span p len" using free by auto
      ultimately show ?thesis using own by auto
    qed
    have cov: "fr_cover (pm_free s') = {x. x < psz \<and> pm_owner s' x = None}"
    proof -
      have "fr_cover (pm_free s') = fr_cover (pm_free s) - span p len" by (simp add: s'_def rem(2))
      also have "\<dots> = {x. x < psz \<and> pm_owner s' x = None}"
        unfolding pm_okD(4) [OF ok] by (rule set_eqI) (simp add: own)
      finally show ?thesis .
    qed
    have "pm_ok psz s'"
    proof (rule pm_okI)
      show "x < psz" if "pm_owner s' x \<noteq> None" for x
        using that own pl(1) pm_okD(5) [OF ok, of x] by (auto split: if_splits)
      show "fr_ok (pm_auto s')" using add(1) pm_okD(6) [OF ok] by (simp add: s'_def)
      show "mapping_ok m" if "m \<in> set (pm_mappings s')" for m
        using pm_okD(9) [OF ok, of m] that by (simp add: s'_def)
      show "blocks_ok (pm_physical s')" using bok by (simp add: s'_def)
      show "fr_ok (pm_free s')" using rem(1) by (simp add: s'_def)
    qed (fact pm_okD(1) [OF ok] cov auto mapd)+
    then show ?thesis using eq p own by (simp add: s'_def)
  qed
qed

lemma pm_available_ok:
  fixes ss se al :: u64
  assumes ok: "pm_ok psz s" and "ss < two64"
  shows "case pm_available psz ss se al s of
      None \<Rightarrow> \<forall>q n. 0 < n \<longrightarrow> \<not> pm_fits psz ss se n al s q
    | Some (p, n) \<Rightarrow> 0 < n \<and> pm_fits psz ss se n al s p
        \<and> (\<forall>q k. 0 < k \<and> pm_fits psz ss se k al s q \<longrightarrow> k \<le> n)"
proof (cases "ss \<ge> min se psz")
  case True
  then have "\<not> pm_fits psz ss se n al s q" if "0 < n" for q n using that by (auto simp: pm_fits_def)
  then show ?thesis using True by (auto simp: pm_available_def)
next
  case False
  define e where "e = min se psz"
  define r where "r = available_loop ss e al (0, 0) (pm_free s)"
  have el: "e < two64" using pm_okD(1) [OF ok] by (simp add: e_def)
  have f: "fits ss e n al (pm_free s) q \<longleftrightarrow> pm_fits psz ss se n al s q" if "0 < n" for n q
  proof -
    have "span q n \<subseteq> fr_cover (pm_free s) \<longleftrightarrow> (\<forall>x\<in>span q n. pm_owner s x = None)"
      if "q + n \<le> psz" using that by (auto simp: pm_okD(4) [OF ok])
    then show ?thesis
      unfolding fits_def pm_fits_def e_def fr_contained [OF pm_okD(3) [OF ok] that, symmetric] by auto
  qed
  have S: "(r = (0, 0) \<or> 0 < snd r \<and> fits ss e (snd r) al (pm_free s) (fst r) \<and> 0 < snd r)
    \<and> (\<forall>q n. 0 < n \<and> fits ss e n al (pm_free s) q \<longrightarrow> n \<le> snd r)"
    using available_loop_spec [OF pm_okD(3) [OF ok] el assms(2), of al "(0, 0)"]
    unfolding r_def [symmetric] snd_conv by blast
  have eq: "pm_available psz ss se al s = (if snd r = 0 then None else Some r)"
    using False by (simp add: pm_available_def Let_def r_def e_def)
  show ?thesis
  proof (cases "snd r = 0")
    case True
    have "\<not> pm_fits psz ss se n al s q" if "0 < n" for q n
      using spec [OF spec [OF conjunct2 [OF S], of q], of n] f [OF that, of q] True that by simp
    then show ?thesis using True eq by simp
  next
    case nz: False
    then have "pm_fits psz ss se (snd r) al s (fst r)" using S f by auto
    then show ?thesis using nz S f eq by (auto split: prod.splits)
  qed
qed

subsection \<open>Release\<close>

definition rest_left :: "u64 \<Rightarrow> u64 \<times> ablock \<Rightarrow> ablock omap" where
  "rest_left start e = (if fst e < start then [(fst e, (snd e)\<lparr>b_size := start - fst e\<rparr>)] else [])"

definition rest_right :: "u64 \<Rightarrow> u64 \<times> ablock \<Rightarrow> ablock omap" where
  "rest_right stop e = (if stop < fst e + b_size (snd e)
     then [(stop, (snd e)\<lparr>b_start := stop, b_size := fst e + b_size (snd e) - stop\<rparr>)] else [])"

lemma pm_release_cases:
  assumes bok: "blocks_ok (pm_physical s)" and len: "0 < len"
    and m: "pm_physical s = xs @ (k, b) # ys" and in_b: "k \<le> start" "start + len \<le> k + b_size b"
    and kind: "b_kind b \<noteq> KPooled"
  defines "s' \<equiv> s\<lparr>pm_auto := if b_kind b = KAutomatic then remove_free_range start len (pm_auto s) else pm_auto s,
      pm_physical := xs @ rest_left start (k, b) @ rest_right (start + len) (k, b) @ ys,
      pm_free := add_free_range start len (pm_free s)\<rparr>"
  shows "pm_release start len s = (s', Some (0, 0, GpuNoAccess))"
proof -
  have ok: "im_ok b_size (xs @ (k, b) # ys)" using bok m by (simp add: blocks_ok_def)
  then have om: "om_ok (xs @ (k, b) # ys)" by auto
  note b = blocks_ok_node [OF bok, of k b, unfolded m, simplified]
  have xs: "\<forall>e\<in>set xs. fst e < k" "\<forall>e\<in>set ys. k + b_size b \<le> fst e"
    using ok om by (auto simp: im_ok_append im_ok_Cons om_ok_node)
  have f: "map_of (pm_physical s) k = Some b" unfolding m by (rule om_node_find [OF om])
  have "om_floor start (pm_physical s) = Some k"
    using im_at_eqI [of b_size "pm_physical s" k b start] ok f in_b len m om_floor_Some [OF om, of start k]
  proof -
    have "im_at b_size (pm_physical s) start = Some (k, b)"
      using im_at_eqI [of b_size "pm_physical s" k b start] ok f in_b len m by simp
    then show ?thesis by (simp add: im_at_def split: option.splits if_splits)
  qed
  then have prev: "om_prev (om_upper_bound start (pm_physical s)) (pm_physical s) = Some k"
    by (simp add: om_floor_def)
  have arith: "sub64 (k + b_size b) start = k + b_size b - start" "add64 start len = start + len"
    "sub64 start k = start - k" "sub64 (k + b_size b) (start + len) = k + b_size b - (start + len)"
    "sub64 (b_size b) len = b_size b - len" "add64 k len = k + len"
    using b in_b len by simp_all
  have nk: "\<not> (b_kind b = KPooled \<or> start < b_start b \<or> start \<ge> b_end b \<or> len > sub64 (b_end b) start)"
    using kind b in_b len arith(1) by auto
  define s1 where "s1 = (if b_kind b = KAutomatic
      then s\<lparr>pm_auto := remove_free_range start len (pm_auto s)\<rparr> else s)"
  have s1: "pm_physical s1 = pm_physical s" "pm_free s1 = pm_free s" by (simp_all add: s1_def)
  have s': "s' = s1\<lparr>pm_physical := xs @ rest_left start (k, b) @ rest_right (start + len) (k, b) @ ys,
      pm_free := add_free_range start len (pm_free s)\<rparr>"
    by (simp add: s'_def s1_def)
  have er: "om_erase k (pm_physical s) = xs @ ys" unfolding m by (rule om_erase_node [OF om])
  have st: "om_set k w (pm_physical s) = xs @ (k, w) # ys" for w unfolding m by (rule om_set_node [OF om])
  note unf = pm_release_def [of start len s, unfolded prev option.case f option.sel Let_def if_not_P [OF nk],
    folded s1_def]
  consider (all) "start = k" "len = b_size b" | (mid) "k < start" "start + len < k + b_size b"
    | (low) "start = k" "len < b_size b" | (high) "k < start" "start + len = k + b_size b"
    using in_b by linarith
  then show ?thesis
  proof cases
    case all
    then show ?thesis unfolding s' using b er s1 unf
      by (simp add: rest_left_def rest_right_def)
  next
    case mid
    have em: "om_emplace (start + len) r (xs @ (k, w) # ys) = xs @ (k, w) # (start + len, r) # ys" for r w
      using om_emplace_node [of "xs @ [(k, w)]" "start + len" ys r] xs mid by fastforce
    show ?thesis unfolding s' using mid b st s1 arith em unf
      by (simp add: rest_left_def rest_right_def)
  next
    case low
    have em: "om_emplace (k + len) r (xs @ ys) = xs @ (k + len, r) # ys" for r
      using om_emplace_node [of xs "k + len" ys r] xs low by fastforce
    show ?thesis unfolding s' using low b er s1 arith em unf
      by (simp add: rest_left_def rest_right_def)
  next
    case high
    show ?thesis unfolding s' using high b st s1 arith unf len
      by (simp add: rest_left_def rest_right_def)
  qed
qed

lemma release_owner:
  assumes bok: "blocks_ok (xs @ (k, b) # ys)" and len: "0 < len"
    and in_b: "k \<le> start" "start + len \<le> k + b_size b"
  defines "m' \<equiv> xs @ rest_left start (k, b) @ rest_right (start + len) (k, b) @ ys"
  shows "blocks_ok m'"
    and "owner_of m' x = (if x \<in> span start len then None else owner_of (xs @ (k, b) # ys) x)"
proof -
  have ok: "im_ok b_size (xs @ (k, b) # ys)" using bok by (simp add: blocks_ok_def)
  have nodes: "im_ok b_size xs" "im_ok b_size ys" "0 < b_size b" "k + b_size b < two64"
    "\<forall>e\<in>set xs. fst e + b_size (snd e) \<le> k" "\<forall>e\<in>set ys. k + b_size b \<le> fst e"
    "\<forall>x\<in>set xs. \<forall>y\<in>set ys. fst x + b_size (snd x) \<le> fst y"
    using ok by (auto simp: im_ok_append im_ok_Cons)
  have im: "im_ok b_size m'"
    using nodes in_b len
    by (auto simp: m'_def rest_left_def rest_right_def im_ok_append im_ok_Cons)
  moreover have "\<forall>e\<in>set m'. b_start (snd e) = fst e \<and> b_map_vaddr (snd e) = 0
      \<and> b_map_size (snd e) = 0 \<and> b_gpu (snd e) = GpuNoAccess"
    using bok by (auto simp: m'_def rest_left_def rest_right_def blocks_ok_def)
  ultimately show "blocks_ok m'" by (simp add: blocks_ok_def)
  have out: "owner_of xs x = None" "owner_of ys x = None" if "k \<le> x" "x < k + b_size b"
    using that nodes(5,6) im_view_above [of xs b_size k x] im_view_below [of ys "k + b_size b" x]
    by simp_all
  show "owner_of m' x = (if x \<in> span start len then None else owner_of (xs @ (k, b) # ys) x)"
  proof (cases "k \<le> x \<and> x < k + b_size b")
    case True
    then show ?thesis using out in_b len
      by (simp add: m'_def rest_left_def rest_right_def im_view_append)
  next
    case False
    then show ?thesis using in_b len
      by (auto simp: m'_def rest_left_def rest_right_def im_view_append split: option.splits)
  qed
qed

text \<open>The span lies in one block that may be released.\<close>

definition releasable :: "pmem \<Rightarrow> u64 \<Rightarrow> u64 \<Rightarrow> bool" where
  "releasable s start len \<longleftrightarrow> (\<exists>k b. map_of (pm_physical s) k = Some b \<and> b_kind b \<noteq> KPooled
     \<and> k \<le> start \<and> start + len \<le> k + b_size b)"

lemma pm_release_no:
  assumes bok: "blocks_ok (pm_physical s)" and len: "0 < len" "start + len < two64"
    and no: "\<not> releasable s start len"
  shows "pm_release start len s = (s, None)"
proof (cases "om_prev (om_upper_bound start (pm_physical s)) (pm_physical s)")
  case None
  then show ?thesis by (simp add: pm_release_def)
next
  case (Some k)
  then have "om_floor start (pm_physical s) = Some k" by (simp add: om_floor_def)
  then obtain b where b: "map_of (pm_physical s) k = Some b" "k \<le> start"
    using om_floor_Some [of "pm_physical s" start k] bok by auto
  then have "(k, b) \<in> set (pm_physical s)" using om_in_set [of "pm_physical s"] bok by simp
  note n = blocks_ok_node [OF bok this]
  have "b_kind b = KPooled \<or> \<not> start + len \<le> k + b_size b"
    using no b by (auto simp: releasable_def)
  then have "b_kind b = KPooled \<or> start < b_start b \<or> start \<ge> b_end b \<or> len > sub64 (b_end b) start"
    using n b(2) by (cases "start \<ge> b_end b") auto
  then show ?thesis using Some b(1) by (simp add: pm_release_def Let_def)
qed

lemma pm_release_ok:
  assumes ok: "pm_ok psz s" and len: "0 < len" and rel: "releasable s start len"
    and unmapped: "span start len \<inter> pm_mapped s = {}"
  obtains s' where "pm_release start len s = (s', Some (0, 0, GpuNoAccess))" "pm_ok psz s'"
    "pm_mappings s' = pm_mappings s"
    "pm_owner s' = (\<lambda>x. if x \<in> span start len then None else pm_owner s x)"
proof -
  note bok = pm_okD(2) [OF ok]
  obtain k b where kb: "map_of (pm_physical s) k = Some b" "b_kind b \<noteq> KPooled" "k \<le> start"
    "start + len \<le> k + b_size b" using rel by (auto simp: releasable_def)
  obtain xs ys where m: "pm_physical s = xs @ (k, b) # ys"
    using om_node_obtain [OF _ kb(1)] bok by auto
  define s' where "s' = s\<lparr>pm_auto := if b_kind b = KAutomatic then remove_free_range start len (pm_auto s) else pm_auto s,
      pm_physical := xs @ rest_left start (k, b) @ rest_right (start + len) (k, b) @ ys,
      pm_free := add_free_range start len (pm_free s)\<rparr>"
  have rel: "pm_release start len s = (s', Some (0, 0, GpuNoAccess))"
    unfolding s'_def by (rule pm_release_cases [OF bok len m kb(3,4,2)])
  note R = release_owner [OF bok [unfolded m] len kb(3,4)]
  have fields: "pm_physical s' = xs @ rest_left start (k, b) @ rest_right (start + len) (k, b) @ ys"
    "pm_mappings s' = pm_mappings s" "pm_free s' = add_free_range start len (pm_free s)"
    by (simp_all add: s'_def)
  have own: "pm_owner s' x = (if x \<in> span start len then None else pm_owner s x)" for x
    unfolding pm_owner_def fields m by (rule R(2))
  have own_in: "pm_owner s x = Some (b_kind b, b_memory_type b)" if "x \<in> span start len" for x
    unfolding pm_owner_def m
    using im_view_node(1) [OF blocks_ok_im [OF bok, unfolded m], of "\<lambda>k b x. (b_kind b, b_memory_type b)" x]
      that kb(3,4) by simp
  have "(k, b) \<in> set (pm_physical s)" by (simp add: m)
  note bn = blocks_ok_node [OF bok this]
  have sl: "start + len < two64" using bn kb(4) by simp
  have "span start len \<inter> fr_cover (pm_free s) = {}"
    using own_in pm_okD(4) [OF ok] by auto
  note add = add_free_range_ok [OF pm_okD(3) [OF ok] len sl]
  note rem = remove_free_range_ok [OF pm_okD(6) [OF ok] len sl]
  have auto_in: "x \<in> fr_cover (pm_auto s) \<and> x \<notin> span start len" if "x \<in> fr_cover (pm_auto s')" for x
  proof (cases "b_kind b = KAutomatic")
    case True
    then show ?thesis using that rem(2) by (simp add: s'_def)
  next
    case False
    then have "x \<in> fr_cover (pm_auto s)" using that by (simp add: s'_def)
    then show ?thesis using False own_in [of x] pm_okD(7) [OF ok, of x] by auto
  qed
  have small: "x < psz" if "x \<in> span start len" for x
    using pm_okD(5) [OF ok, of x] own_in [OF that] by simp
  have "pm_ok psz s'"
  proof (rule pm_okI)
    show "psz < two64" by (rule pm_okD(1) [OF ok])
    show "blocks_ok (pm_physical s')" unfolding fields by (rule R(1))
    show "fr_ok (pm_free s')" unfolding fields by (rule add(1))
    show "fr_cover (pm_free s') = {x. x < psz \<and> pm_owner s' x = None}"
      unfolding fields add(2) pm_okD(4) [OF ok] by (rule set_eqI) (use own small in auto)
    show "x < psz" if "pm_owner s' x \<noteq> None" for x
      using that own [of x] pm_okD(5) [OF ok, of x] by (simp split: if_splits)
    show "fr_ok (pm_auto s')" using rem(1) pm_okD(6) [OF ok] by (simp add: s'_def)
    show "automatic (pm_owner s' x) \<and> x \<notin> pm_mapped s'" if "x \<in> fr_cover (pm_auto s')" for x
      using auto_in [OF that] own [of x] pm_okD(7,8) [OF ok, of x] by (simp add: pm_mapped_def fields)
    show "mapping_ok w" if "w \<in> set (pm_mappings s')" for w
      using that pm_okD(9) [OF ok] by (simp add: fields)
    show "mappable (pm_owner s' x)" if "x \<in> pm_mapped s'" for x
    proof -
      have "x \<in> pm_mapped s" using that by (simp add: pm_mapped_def fields)
      moreover from this have "x \<notin> span start len" using unmapped by blast
      ultimately show ?thesis using own [of x] pm_okD(10) [OF ok, of x] by simp
    qed
  qed
  then show thesis using that rel fields(2) own by blast
qed

subsection \<open>Walking over the blocks of a span\<close>

text \<open>The pieces of a walk: consecutive, inside the blocks they name, none of them pooled.\<close>

fun walked :: "ablock omap \<Rightarrow> u64 \<Rightarrow> (u64 \<times> ablock) list \<Rightarrow> u64 \<Rightarrow> bool" where
  "walked m cur [] e \<longleftrightarrow> \<not> cur < e"
| "walked m cur ((c, b) # bs) e \<longleftrightarrow> c = cur \<and> cur < e \<and> map_of m (b_start b) = Some b
     \<and> b_kind b \<noteq> KPooled \<and> b_start b \<le> cur \<and> cur < b_start b + b_size b
     \<and> walked m (min e (b_start b + b_size b)) bs e"

lemma block_walk_spec:
  assumes bok: "blocks_ok m" and e: "e < two64"
  shows "case block_walk m e cur of
      None \<Rightarrow> \<exists>x. cur \<le> x \<and> x < e \<and> \<not> mappable (owner_of m x)
    | Some bs \<Rightarrow> walked m cur bs e \<and> (\<forall>x. cur \<le> x \<and> x < e \<longrightarrow> mappable (owner_of m x))"
proof (induction "e - cur" arbitrary: cur rule: less_induct)
  case (less cur)
  note im = blocks_ok_im [OF bok]
  have om: "om_ok m" using bok by simp
  have view: "owner_of m x = map_option (\<lambda>(k, b). (b_kind b, b_memory_type b)) (im_at b_size m x)" for x
    by (rule im_view_at [OF im])
  show ?case
  proof (cases "cur < e")
    case False
    then show ?thesis by (auto simp: block_walk.simps [of m e cur])
  next
    case lt: True
    show ?thesis
    proof (cases "om_prev (om_upper_bound cur m) m")
      case None
      then have "om_floor cur m = None" by (simp add: om_floor_def)
      then have "owner_of m cur = None" by (simp add: view im_at_def)
      moreover have "block_walk m e cur = None"
        using None lt by (simp add: block_walk.simps [of m e cur])
      ultimately show ?thesis using lt by (auto intro!: exI [of _ cur])
    next
      case (Some k)
      then have fl: "om_floor cur m = Some k" by (simp add: om_floor_def)
      then obtain b where b: "map_of m k = Some b" "k \<le> cur" using om_floor_Some [OF om] by blast
      have kb: "(k, b) \<in> set m" using om_in_set [OF om] b(1) by simp
      note n = blocks_ok_node [OF bok kb]
      have at: "im_at b_size m cur = (if cur < k + b_size b then Some (k, b) else None)"
        using fl b by (simp add: im_at_def)
      show ?thesis
      proof (cases "b_kind b = KPooled \<or> cur \<ge> k + b_size b")
        case True
        then have "block_walk m e cur = None"
          using Some b lt n by (auto simp: block_walk.simps [of m e cur] Let_def)
        moreover have "\<not> mappable (owner_of m cur)" using True at by (auto simp: view)
        ultimately show ?thesis using lt by (auto intro!: exI [of _ cur])
      next
        case False
        define cur' where "cur' = min e (k + b_size b)"
        define adj where "adj c \<longleftrightarrow> (case om_next k m of None \<Rightarrow> True
            | Some f \<Rightarrow> b_start (the (map_of m f)) \<noteq> c)" for c
        define stop where "stop \<longleftrightarrow> cur' < e \<and> adj cur'"
        have raw: "block_walk m e cur =
            (if b_kind b = KPooled \<or> cur < b_start b \<or> cur \<ge> b_end b then None
             else if min e (b_end b) < e \<and> adj (min e (b_end b)) then None
             else map_option ((#) (cur, b)) (block_walk m e (min e (b_end b))))"
          unfolding block_walk.simps [of m e cur] Some option.case b(1) option.sel Let_def adj_def
          using lt by simp
        have step: "block_walk m e cur =
            (if stop then None else map_option ((#) (cur, b)) (block_walk m e cur'))"
        proof -
          have "min e (b_end b) = cur'" by (simp add: cur'_def n)
          then show ?thesis unfolding raw stop_def using b(2) n(1,4) False by simp
        qed
        have here: "mappable (owner_of m x)" if "cur \<le> x" "x < k + b_size b" for x
        proof -
          have "im_at b_size m x = Some (k, b)"
            using im_at_eqI [OF im b(1), of x] that b(2) by simp
          then show ?thesis using False by (simp add: view)
        qed
        show ?thesis
        proof (cases stop)
          case True
          have "im_at b_size m cur' = None"
          proof (rule ccontr)
            assume "im_at b_size m cur' \<noteq> None"
            then obtain j c where jc: "map_of m j = Some c" "j \<le> cur'" "cur' < j + b_size c"
              using im_at_Some [OF im] by (metis not_None_eq surj_pair)
            have cur': "cur' = k + b_size b" using True by (auto simp: stop_def cur'_def)
            have "k < j"
            proof (rule ccontr)
              assume "\<not> k < j"
              then have "j + b_size c \<le> k \<or> j = k \<and> c = b"
                using im_okD(4) [OF im jc(1) b(1)] jc(1) b(1) by (cases "j = k") auto
              then show False using jc(3) cur' by auto
            qed
            then have "k + b_size b \<le> j" by (rule im_okD(4) [OF im b(1) jc(1)])
            then have j: "j = cur'" using jc(2) cur' by simp
            have "om_next k m = Some j"
              unfolding om_next_def om_upper_bound_Some [OF om]
            proof (intro conjI ballI impI)
              show "j \<in> dom (map_of m)" using jc(1) by blast
              show "k < j" by fact
              fix i assume "i \<in> dom (map_of m)" "k < i"
              then have "k + b_size b \<le> i" using im_okD(4) [OF im b(1)] by blast
              then show "j \<le> i" using j cur' by simp
            qed
            moreover have "b_start c = j"
              using blocks_ok_node(1) [OF bok, of j c] om_in_set [OF om] jc(1) by simp
            ultimately show False using True j jc(1) by (simp add: stop_def adj_def)
          qed
          then have "\<not> mappable (owner_of m cur')" by (simp add: view)
          moreover have "cur \<le> cur'" "cur' < e" using True lt False b(2) by (auto simp: stop_def cur'_def)
          ultimately show ?thesis using True unfolding step by (auto intro!: exI [of _ cur'])
        next
          case ns: False
          have IH: "case block_walk m e cur' of
              None \<Rightarrow> \<exists>x. cur' \<le> x \<and> x < e \<and> \<not> mappable (owner_of m x)
            | Some bs \<Rightarrow> walked m cur' bs e \<and> (\<forall>x. cur' \<le> x \<and> x < e \<longrightarrow> mappable (owner_of m x))"
            by (rule less) (use lt False in \<open>auto simp: cur'_def min_def\<close>)
          have le: "cur \<le> cur'" using lt False by (simp add: cur'_def)
          show ?thesis
          proof (cases "block_walk m e cur'")
            case None
            then show ?thesis using IH le ns unfolding step by (auto intro: order.trans)
          next
            case (Some bs)
            have "mappable (owner_of m x)" if "cur \<le> x" "x < e" for x
              using IH Some here [of x] that by (cases "x < k + b_size b") (auto simp: cur'_def)
            then show ?thesis
              using IH Some ns lt b n False unfolding step by (simp add: cur'_def)
          qed
        qed
      qed
    qed
  qed
qed

lemma pm_walk:
  assumes ok: "pm_ok psz s" and len: "0 < len" "a + len < two64"
  shows "case block_walk (pm_physical s) (a + len) a of
      None \<Rightarrow> \<not> (\<forall>x\<in>span a len. mappable (pm_owner s x))
    | Some bs \<Rightarrow> walked (pm_physical s) a bs (a + len) \<and> (\<forall>x\<in>span a len. mappable (pm_owner s x))"
  using block_walk_spec [OF pm_okD(2) [OF ok] len(2), of a]
  by (auto simp: pm_owner_def split: option.splits)

lemma walked_automatic:
  assumes bok: "blocks_ok m"
  shows "\<lbrakk>walked m cur bs e; \<not> list_ex (\<lambda>(_, b). b_kind b = KAutomatic) bs; cur \<le> x; x < e\<rbrakk>
    \<Longrightarrow> \<not> automatic (owner_of m x)"
proof (induction bs arbitrary: cur)
  case (Cons y bs)
  obtain c b where y: "y = (c, b)" by force
  show ?case
  proof (cases "x < b_start b + b_size b")
    case True
    have "im_at b_size m x = Some (b_start b, b)"
      by (rule im_at_eqI [OF blocks_ok_im [OF bok]]) (use Cons.prems True y in simp_all)
    then show ?thesis
      using Cons.prems(2) y by (simp add: im_view_at [OF blocks_ok_im [OF bok]])
  next
    case False
    then show ?thesis using Cons.IH [of "b_start b + b_size b"] Cons.prems y by (simp add: min_def split: if_splits)
  qed
qed simp

lemma can_map_direct_ok:
  assumes ok: "pm_ok psz s" and a: "a < two64"
  shows "pm_can_map_direct a len s \<longleftrightarrow>
    0 < len \<and> a + len < two64 \<and> (\<forall>x\<in>span a len. mappable (pm_owner s x))"
proof (cases "len = 0 \<or> U64_MAX - a < len")
  case False
  then have l: "0 < len" "a + len < two64" using a by auto
  then show ?thesis
    using pm_walk [OF ok l] False by (auto simp: pm_can_map_direct_def split: option.splits)
qed (use a in \<open>auto simp: pm_can_map_direct_def\<close>)

lemma pm_map_no:
  assumes ok: "pm_ok psz s" and a: "a < two64" and no: "\<not> pm_can_map_direct a len s"
  shows "pm_map v a len p md g nm mt s = (s, False)"
proof (cases "len = 0 \<or> U64_MAX - a < len")
  case False
  then show ?thesis using no
    by (simp add: pm_map_def pm_can_map_direct_def split: option.split)
qed (simp add: pm_map_def)

lemma pm_map_ok:
  assumes ok: "pm_ok psz s" and a: "a < two64" and v: "v + len < two64"
    and can: "pm_can_map_direct a len s"
  obtains s' b where "pm_map v a len p md g nm mt s = (s', True)" "pm_ok psz s'"
    "pm_owner s' = pm_owner s" "pm_mappings s' = pm_mappings s @
      [b\<lparr>b_start := a, b_size := len, b_map_vaddr := v, b_map_size := len, b_host_vaddr := v,
         b_host_size := len, b_prot := p, b_mode := md, b_gpu := g, b_memory_type := mt,
         b_name := copy_virtual_range_name nm\<rparr>]"
proof -
  have l: "0 < len" "a + len < two64" and own: "\<forall>x\<in>span a len. mappable (pm_owner s x)"
    using can can_map_direct_ok [OF ok a] by simp_all
  note bok = pm_okD(2) [OF ok]
  obtain bs where bs: "block_walk (pm_physical s) (a + len) a = Some bs" "walked (pm_physical s) a bs (a + len)"
    using pm_walk [OF ok l] own by (auto split: option.splits)
  obtain k where k: "om_prev (om_upper_bound a (pm_physical s)) (pm_physical s) = Some k"
    using bs(1) l(1) by (auto simp: block_walk.simps [of _ "a + len" a] split: option.splits)
  define au where "au \<longleftrightarrow> list_ex (\<lambda>(_, b). b_kind b = KAutomatic) bs"
  define b where "b = the (map_of (pm_physical s) k)"
  define w where "w = b\<lparr>b_start := a, b_size := len, b_map_vaddr := v, b_map_size := len, b_host_vaddr := v,
         b_host_size := len, b_prot := p, b_mode := md, b_gpu := g, b_memory_type := mt,
         b_name := copy_virtual_range_name nm\<rparr>"
  define s' where "s' = s\<lparr>pm_mappings := pm_mappings s @ [w],
      pm_auto := if au then remove_free_range a len (pm_auto s) else pm_auto s\<rparr>"
  have nn: "\<not> (len = 0 \<or> U64_MAX - a < len)" using l by simp
  have eq: "pm_map v a len p md g nm mt s = (s', True)"
    unfolding pm_map_def if_not_P [OF nn] k option.case using bs(1) l(2)
    by (simp add: Let_def s'_def w_def b_def au_def)
  have own': "pm_owner s' = pm_owner s" by (simp add: pm_owner_def s'_def)
  have wspan: "span (b_start w) (b_size w) = span a len" by (simp add: w_def)
  have mapped: "pm_mapped s' = pm_mapped s \<union> span a len"
    by (simp add: pm_mapped_def s'_def wspan Un_commute)
  note rem = remove_free_range_ok [OF pm_okD(6) [OF ok] l]
  have auto_in: "x \<in> fr_cover (pm_auto s) \<and> x \<notin> span a len" if "x \<in> fr_cover (pm_auto s')" for x
  proof (cases au)
    case True
    then show ?thesis using that rem(2) by (simp add: s'_def)
  next
    case False
    then have "x \<in> fr_cover (pm_auto s)" using that by (simp add: s'_def)
    moreover have "x \<notin> span a len"
    proof
      assume "x \<in> span a len"
      then have "\<not> automatic (pm_owner s x)"
        using walked_automatic [OF bok bs(2), of x] False by (simp add: au_def pm_owner_def)
      then show False using pm_okD(7) [OF ok] \<open>x \<in> fr_cover (pm_auto s)\<close> by simp
    qed
    ultimately show ?thesis by simp
  qed
  have "pm_ok psz s'"
  proof (rule pm_okI)
    show "fr_ok (pm_auto s')" using rem(1) pm_okD(6) [OF ok] by (simp add: s'_def)
    show "automatic (pm_owner s' x) \<and> x \<notin> pm_mapped s'" if "x \<in> fr_cover (pm_auto s')" for x
      using auto_in [OF that] pm_okD(7,8) [OF ok, of x] by (simp only: own' mapped Un_iff simp_thms)
    show "mapping_ok m" if "m \<in> set (pm_mappings s')" for m
    proof -
      have "mapping_ok w" using l v by (simp add: mapping_ok_def w_def)
      then show ?thesis using that pm_okD(9) [OF ok, of m] by (auto simp: s'_def)
    qed
    show "mappable (pm_owner s' x)" if "x \<in> pm_mapped s'" for x
    proof -
      have "x \<in> pm_mapped s \<or> x \<in> span a len" using that mapped by blast
      then show ?thesis unfolding own' using pm_okD(10) [OF ok, of x] own by blast
    qed
    show "psz < two64" "fr_ok (pm_free s')" "blocks_ok (pm_physical s')"
      using pm_okD(1,2,3) [OF ok] by (simp_all add: s'_def)
    show "fr_cover (pm_free s') = {x. x < psz \<and> pm_owner s' x = None}"
      unfolding own' using pm_okD(4) [OF ok] by (simp add: s'_def)
    show "x < psz" if "pm_owner s' x \<noteq> None" for x
      using that pm_okD(5) [OF ok, of x] unfolding own' by blast
  qed
  then show thesis using that eq own' by (simp add: s'_def w_def)
qed

subsection \<open>Returning automatic memory\<close>

lemma reclaim_owners_spec:
  fixes fl :: bool
  assumes "im_ok b_size m" and "\<forall>e\<in>set m. b_start (snd e) = fst e" and "fr_ok au" and "s < e" "e < two64"
  defines "r \<equiv> reclaim_owners s e m au fl"
  shows "fr_ok (fst r) \<and> fr_cover (fst r) = fr_cover au \<union> {x. s \<le> x \<and> x < e \<and> automatic (owner_of m x)}
    \<and> (snd r \<longleftrightarrow> fl \<or> (\<exists>x. s \<le> x \<and> x < e \<and> automatic (owner_of m x)))"
  using assms(1-5) unfolding r_def
proof (induction s e m au fl rule: reclaim_owners.induct)
  case (2 s e k b rest au fl)
  have b: "b_start b = k" "0 < b_size b" "k + b_size b < two64" "im_ok b_size rest"
    "\<forall>y\<in>set rest. k + b_size b \<le> fst y" "\<forall>y\<in>set rest. b_start (snd y) = fst y"
    "b_end b = k + b_size b"
    using "2.prems"(1,2) by (auto simp: im_ok_Cons b_end_def)
  have own: "owner_of ((k, b) # rest) x =
      (if k \<le> x \<and> x < k + b_size b then Some (b_kind b, b_memory_type b) else owner_of rest x)" for x
    by simp
  have rest_low: "owner_of rest x = None" if "x < k + b_size b" for x
    using b(5) that by (rule im_view_below)
  show ?case
  proof (cases "k < e")
    case False
    then have none: "owner_of ((k, b) # rest) x = None" if "x < e" for x
      using that rest_low [of x] b(2) by simp
    then show ?thesis using False "2.prems"(3) by auto
  next
    case lt: True
    show ?thesis
    proof (cases "b_kind b \<noteq> KAutomatic \<or> k + b_size b \<le> s")
      case True
      have same: "s \<le> x \<and> x < e \<and> automatic (owner_of ((k, b) # rest) x) \<longleftrightarrow>
          s \<le> x \<and> x < e \<and> automatic (owner_of rest x)" for x
        unfolding own using True rest_low [of x] by auto
      have "reclaim_owners s e ((k, b) # rest) au fl = reclaim_owners s e rest au fl"
        using lt True b by simp
      moreover note "2.IH"(1) [OF _ _ b(4,6) "2.prems"(3-5)]
      ultimately show ?thesis unfolding same using lt True b by simp
    next
      case False
      define f where "f = max s k"
      define n where "n = min e (k + b_size b) - f"
      have fn: "0 < n" "f + n < two64" "f + n = min e (k + b_size b)"
        using lt False b "2.prems"(4,5) by (auto simp: f_def n_def)
      have sub: "sub64 (min e (k + b_size b)) f = n"
        using fn by (simp add: n_def)
      note add = add_free_range_ok [OF "2.prems"(3) fn(1,2)]
      have step: "reclaim_owners s e ((k, b) # rest) au fl = reclaim_owners s e rest (add_free_range f n au) True"
        using lt False b sub by (simp add: Let_def f_def)
      have IH: "fr_ok (fst (reclaim_owners s e rest (add_free_range f n au) True))
        \<and> fr_cover (fst (reclaim_owners s e rest (add_free_range f n au) True))
          = fr_cover (add_free_range f n au) \<union> {x. s \<le> x \<and> x < e \<and> automatic (owner_of rest x)}
        \<and> snd (reclaim_owners s e rest (add_free_range f n au) True)"
        using "2.IH"(2) [of f "min e (b_end b)"] lt False b sub add(1) "2.prems"(4,5)
        by (simp add: f_def)
      have "x \<in> span f n \<longleftrightarrow> s \<le> x \<and> x < e \<and> k \<le> x \<and> x < k + b_size b" for x
        using fn(3) by (auto simp: f_def)
      then have mem: "s \<le> x \<and> x < e \<and> automatic (owner_of ((k, b) # rest) x) \<longleftrightarrow>
          x \<in> span f n \<or> s \<le> x \<and> x < e \<and> automatic (owner_of rest x)" for x
        unfolding own using False rest_low [of x] by (cases "k \<le> x \<and> x < k + b_size b") auto
      then have "{x. s \<le> x \<and> x < e \<and> automatic (owner_of ((k, b) # rest) x)} =
          span f n \<union> {x. s \<le> x \<and> x < e \<and> automatic (owner_of rest x)}" by blast
      moreover have "\<exists>x. s \<le> x \<and> x < e \<and> automatic (owner_of ((k, b) # rest) x)"
        unfolding mem using fn(1) by (intro exI [of _ f]) simp
      ultimately show ?thesis using IH unfolding step add(2) by (simp only: Un_assoc simp_thms)
    qed
  qed
qed simp

lemma reclaim_mapped_spec:
  assumes "fr_ok au" and "s < e" "e < two64" and "\<forall>m\<in>set ms. mapping_ok m"
  shows "fr_ok (reclaim_mapped s e ms au) \<and> fr_cover (reclaim_mapped s e ms au) =
    fr_cover au - ({s..<e} \<inter> (\<Union>m\<in>set ms. span (b_start m) (b_size m)))"
  using assms
proof (induction s e ms au rule: reclaim_mapped.induct)
  case (2 s e m ms au)
  have me: "b_end m = b_start m + b_size m" "b_start m + b_size m < two64"
    using "2.prems"(4) by (simp_all add: mapping_ok_def b_end_def)
  define f where "f = max s (b_start m)"
  define n where "n = min e (b_end m) - f"
  define au' where "au' = (if f < min e (b_end m) then remove_free_range f n au else au)"
  have step: "reclaim_mapped s e (m # ms) au = reclaim_mapped s e ms au'"
    using me "2.prems"(3) by (auto simp: Let_def f_def n_def au'_def)
  have "fr_ok au' \<and> fr_cover au' = fr_cover au - ({s..<e} \<inter> span (b_start m) (b_size m))"
  proof (cases "f < min e (b_end m)")
    case True
    then have fn: "0 < n" "f + n < two64" using "2.prems"(3) by (simp_all add: n_def)
    have "span f n = {s..<e} \<inter> span (b_start m) (b_size m)"
      using True me by (auto simp: f_def n_def)
    then show ?thesis
      using True remove_free_range_ok [OF "2.prems"(1) fn] by (simp add: au'_def)
  next
    case False
    then have "{s..<e} \<inter> span (b_start m) (b_size m) = {}" using me by (auto simp: f_def)
    then show ?thesis using False "2.prems"(1) by (auto simp: au'_def)
  qed
  then show ?case
    using "2.IH" [of f "min e (b_end m)"] "2.prems" me unfolding step
    by (auto simp: f_def n_def au'_def simp del: in_span split: if_splits)
qed simp

subsection \<open>Mappings as translates of virtual addresses\<close>

abbreviation v_span :: "ablock \<Rightarrow> u64 set" where
  "v_span m \<equiv> span (b_map_vaddr m) (b_size m)"

definition map_target :: "ablock \<Rightarrow> u64 \<Rightarrow> u64 \<times> prot \<times> vm_mode \<times> gpu_mode" where
  "map_target m v = (b_start m + (v - b_map_vaddr m), b_prot m, b_mode m, b_gpu m)"

definition translates :: "ablock list \<Rightarrow> u64 \<Rightarrow> (u64 \<times> prot \<times> vm_mode \<times> gpu_mode) set" where
  "translates ms v = (\<lambda>m. map_target m v) ` {m \<in> set ms. v \<in> v_span m}"

definition map_count :: "ablock list \<Rightarrow> u64 \<Rightarrow> nat" where
  "map_count ms v = length (filter (\<lambda>m. v \<in> v_span m) ms)"

text \<open>No virtual address is mapped twice.\<close>

definition single_mapped :: "ablock list \<Rightarrow> bool" where
  "single_mapped ms \<longleftrightarrow> (\<forall>v. map_count ms v \<le> 1)"

lemma map_count_simps [simp]:
  "map_count [] v = 0" "map_count (m # ms) v = (if v \<in> v_span m then 1 else 0) + map_count ms v"
  "map_count (ms @ ns) v = map_count ms v + map_count ns v"
  by (simp_all add: map_count_def del: in_span)

lemma map_count_zero: "map_count ms v = 0 \<longleftrightarrow> (\<forall>m\<in>set ms. v \<notin> v_span m)"
  by (simp add: map_count_def filter_empty_conv del: in_span)

lemma translates_simps [simp]:
  "translates [] v = {}"
  "translates (m # ms) v = (if v \<in> v_span m then {map_target m v} else {}) \<union> translates ms v"
  "translates (ms @ ns) v = translates ms v \<union> translates ns v"
  by (auto simp: translates_def simp del: in_span)

lemma translates_empty: "map_count ms v = 0 \<Longrightarrow> translates ms v = {}"
  by (auto simp: map_count_zero translates_def simp del: in_span)

text \<open>What is left of a mapping when a span is taken out of it.\<close>

definition map_left :: "u64 \<Rightarrow> ablock \<Rightarrow> ablock" where
  "map_left v b = b\<lparr>b_size := v - b_map_vaddr b, b_map_size := v - b_map_vaddr b\<rparr>"

definition map_right :: "u64 \<Rightarrow> ablock \<Rightarrow> ablock" where
  "map_right e b = b\<lparr>b_start := b_start b + (e - b_map_vaddr b), b_size := b_map_vaddr b + b_size b - e,
     b_map_size := b_map_vaddr b + b_size b - e, b_map_vaddr := e\<rparr>"

definition map_rest :: "u64 \<Rightarrow> u64 \<Rightarrow> ablock \<Rightarrow> ablock list" where
  "map_rest v e b = (if b_map_vaddr b < v then [map_left v b] else [])
     @ (if e < b_map_vaddr b + b_size b then [map_right e b] else [])"

lemma map_parts_simps [simp]:
  "b_start (map_left v b) = b_start b" "b_size (map_left v b) = v - b_map_vaddr b"
  "b_map_vaddr (map_left v b) = b_map_vaddr b" "b_map_size (map_left v b) = v - b_map_vaddr b"
  "b_start (map_right v b) = b_start b + (v - b_map_vaddr b)"
  "b_size (map_right v b) = b_map_vaddr b + b_size b - v" "b_map_vaddr (map_right v b) = v"
  "b_map_size (map_right v b) = b_map_vaddr b + b_size b - v"
  by (simp_all add: map_left_def map_right_def)

lemma map_rest_count:
  assumes "b_map_vaddr b \<le> v" "v \<le> e" "e \<le> b_map_vaddr b + b_size b"
  shows "map_count (map_rest v e b) x = (if x \<in> v_span b \<and> \<not> (v \<le> x \<and> x < e) then 1 else 0)"
  using assms by (auto simp: map_rest_def)

lemma map_rest_translates:
  assumes "b_map_vaddr b \<le> v" "v \<le> e" "e \<le> b_map_vaddr b + b_size b"
  shows "translates (map_rest v e b) x = (if x \<in> v_span b \<and> \<not> (v \<le> x \<and> x < e) then {map_target b x} else {})"
  using assms by (auto simp: map_rest_def map_target_def map_left_def map_right_def)

lemma map_rest_ok:
  assumes "mapping_ok b" "b_map_vaddr b \<le> v" "v \<le> e" "e \<le> b_map_vaddr b + b_size b" "m \<in> set (map_rest v e b)"
  shows "mapping_ok m" and "span (b_start m) (b_size m) \<subseteq> span (b_start b) (b_size b)"
  using assms by (auto simp: map_rest_def mapping_ok_def)

lemma contains_mapping_iff:
  assumes "mapping_ok b"
  shows "contains_mapping v n b \<longleftrightarrow> b_map_vaddr b \<le> v \<and> v < b_map_vaddr b + b_size b
    \<and> v + n \<le> b_map_vaddr b + b_size b"
  using assms by (auto simp: contains_mapping_def b_map_end_def mapping_ok_def)

lemma pm_reclaim_ok:
  assumes ok: "pm_ok psz s0" and s: "pm_physical s = pm_physical s0" "pm_free s = pm_free s0"
    "pm_auto s = pm_auto s0" and sub: "pm_mapped s \<subseteq> pm_mapped s0"
    and maps: "\<And>m. m \<in> set (pm_mappings s) \<Longrightarrow> mapping_ok m" and n: "0 < n" "a + n < two64"
  shows "pm_ok psz (pm_reclaim_automatic a n s)"
    and "pm_owner (pm_reclaim_automatic a n s) = pm_owner s0"
    and "pm_mappings (pm_reclaim_automatic a n s) = pm_mappings s"
    and "\<And>x. \<lbrakk>x \<in> span a n; automatic (pm_owner s0 x); x \<notin> pm_mapped s\<rbrakk> \<Longrightarrow>
      x \<in> fr_cover (pm_auto (pm_reclaim_automatic a n s))"
proof -
  define nd where "nd = nodes_around a (pm_physical s)"
  define r where "r = reclaim_owners a (a + n) nd (pm_auto s) False"
  define au where "au = (if snd r then reclaim_mapped a (a + n) (pm_mappings s) (fst r) else fst r)"
  have eq: "pm_reclaim_automatic a n s = s\<lparr>pm_auto := au\<rparr>"
    using n by (simp add: pm_reclaim_automatic_def Let_def case_prod_beta r_def nd_def au_def)
  note bok = pm_okD(2) [OF ok]
  have im: "im_ok b_size (pm_physical s)" using bok s(1) by (simp add: blocks_ok_def)
  obtain pre where pre: "pm_physical s = pre @ nd" "\<forall>x\<in>set pre. fst x + b_size (snd x) \<le> a"
    using nodes_around_split [OF im, of a] unfolding nd_def by blast
  have imn: "im_ok b_size nd" and st: "\<forall>e\<in>set nd. b_start (snd e) = fst e"
    using im bok pre(1) s(1) by (auto simp: im_ok_append blocks_ok_def)
  have own: "owner_of nd x = pm_owner s0 x" if "a \<le> x" for x
    using im_view_above [OF pre(2) that, of "\<lambda>k b x. (b_kind b, b_memory_type b)"]
    by (simp add: pm_owner_def s(1) [symmetric] pre(1) im_view_append)
  have R: "fr_ok (fst r)" "fr_cover (fst r) = fr_cover (pm_auto s0) \<union> {x. a \<le> x \<and> x < a + n \<and> automatic (pm_owner s0 x)}"
    "snd r \<longleftrightarrow> (\<exists>x. a \<le> x \<and> x < a + n \<and> automatic (pm_owner s0 x))"
    using reclaim_owners_spec [OF imn st, of "pm_auto s" a "a + n" False] pm_okD(6) [OF ok] n own
    by (auto simp: r_def s(3) cong: conj_cong)
  have mp: "(\<Union>m\<in>set (pm_mappings s). span (b_start m) (b_size m)) = pm_mapped s"
    by (simp add: pm_mapped_def)
  have M: "fr_ok (reclaim_mapped a (a + n) (pm_mappings s) (fst r))
    \<and> fr_cover (reclaim_mapped a (a + n) (pm_mappings s) (fst r)) = fr_cover (fst r) - ({a..<a + n} \<inter> pm_mapped s)"
    using reclaim_mapped_spec [OF R(1), of a "a + n" "pm_mappings s"] maps n mp by simp
  have auok: "fr_ok au" using M R(1) by (simp add: au_def)
  have au_iff: "x \<in> fr_cover au \<longleftrightarrow> (x \<in> fr_cover (pm_auto s0) \<or>
      x \<in> span a n \<and> automatic (pm_owner s0 x)) \<and> x \<notin> pm_mapped s" for x
  proof (cases "snd r")
    case True
    have "x \<notin> pm_mapped s" if "x \<in> fr_cover (pm_auto s0)" using pm_okD(8) [OF ok that] sub by blast
    then show ?thesis using True M R(2) by (auto simp: au_def)
  next
    case False
    have "x \<notin> pm_mapped s" if "x \<in> fr_cover (pm_auto s0)" using pm_okD(8) [OF ok that] sub by blast
    then show ?thesis using False R(2,3) by (auto simp: au_def)
  qed
  show own': "pm_owner (pm_reclaim_automatic a n s) = pm_owner s0"
    by (simp add: eq pm_owner_def s(1))
  show "pm_mappings (pm_reclaim_automatic a n s) = pm_mappings s" by (simp add: eq)
  show "x \<in> fr_cover (pm_auto (pm_reclaim_automatic a n s))"
    if "x \<in> span a n" "automatic (pm_owner s0 x)" "x \<notin> pm_mapped s" for x
    using au_iff [of x] that by (simp add: eq)
  have mapped: "pm_mapped (pm_reclaim_automatic a n s) = pm_mapped s" by (simp add: eq pm_mapped_def)
  show "pm_ok psz (pm_reclaim_automatic a n s)"
  proof (rule pm_okI, unfold own' mapped)
    show "psz < two64" by (rule pm_okD(1) [OF ok])
    show "blocks_ok (pm_physical (pm_reclaim_automatic a n s))" using bok by (simp add: eq s)
    show "fr_ok (pm_free (pm_reclaim_automatic a n s))" using pm_okD(3) [OF ok] by (simp add: eq s)
    show "fr_cover (pm_free (pm_reclaim_automatic a n s)) = {x. x < psz \<and> pm_owner s0 x = None}"
      using pm_okD(4) [OF ok] by (simp add: eq s)
    show "x < psz" if "pm_owner s0 x \<noteq> None" for x using pm_okD(5) [OF ok that] .
    show "fr_ok (pm_auto (pm_reclaim_automatic a n s))" using auok by (simp add: eq)
    show "automatic (pm_owner s0 x) \<and> x \<notin> pm_mapped s"
      if "x \<in> fr_cover (pm_auto (pm_reclaim_automatic a n s))" for x
      using that au_iff [of x] pm_okD(7) [OF ok, of x] by (auto simp: eq)
    show "mapping_ok m" if "m \<in> set (pm_mappings (pm_reclaim_automatic a n s))" for m
      using that maps by (simp add: eq)
    show "mappable (pm_owner s0 x)" if "x \<in> pm_mapped s" for x
      using that sub pm_okD(10) [OF ok] by blast
  qed
qed

lemma map_size_vaddr: "b\<lparr>b_map_vaddr := x, b_map_size := y\<rparr> = b\<lparr>b_map_size := y, b_map_vaddr := x\<rparr>"
  by simp

lemma pm_unmap_ok:
  assumes ok: "pm_ok psz s" and single: "single_mapped (pm_mappings s)" and n: "0 < n" "v + n < two64"
  shows "case pm_unmap v n want s of
      (s', None) \<Rightarrow> s' = s \<and> (\<forall>m\<in>set (pm_mappings s). \<not> span v n \<subseteq> v_span m)
    | (s', Some (g, host)) \<Rightarrow> pm_ok psz s' \<and> single_mapped (pm_mappings s') \<and> pm_owner s' = pm_owner s
        \<and> (\<exists>m\<in>set (pm_mappings s). span v n \<subseteq> v_span m \<and> g = b_gpu m)
        \<and> (\<forall>x. translates (pm_mappings s') x = (if x \<in> span v n then {} else translates (pm_mappings s) x))
        \<and> (\<forall>x\<in>span v n. \<forall>(p, w)\<in>translates (pm_mappings s) x.
             automatic (pm_owner s p) \<and> p \<notin> pm_mapped s' \<longrightarrow> p \<in> fr_cover (pm_auto s'))"
proof -
  have sub: "contains_mapping v n m \<longleftrightarrow> span v n \<subseteq> v_span m" if "m \<in> set (pm_mappings s)" for m
  proof -
    have "span v n \<subseteq> v_span m \<longleftrightarrow> v \<in> v_span m \<and> v + n - 1 \<in> v_span m"
      using n by (auto simp: subset_iff)
    then show ?thesis using contains_mapping_iff [OF pm_okD(9) [OF ok that], of v n] n by auto
  qed
  show ?thesis
  proof (cases "dropWhile (\<lambda>b. \<not> contains_mapping v n b) (pm_mappings s)")
    case Nil
    have eq: "pm_unmap v n want s = (s, None)" by (simp add: pm_unmap_def Let_def Nil)
    have "\<forall>m\<in>set (pm_mappings s). \<not> span v n \<subseteq> v_span m"
      using Nil sub by (metis dropWhile_eq_Nil_conv)
    then show ?thesis unfolding eq by simp
  next
    case (Cons b after)
    define before where "before = takeWhile (\<lambda>b. \<not> contains_mapping v n b) (pm_mappings s)"
    have ms: "pm_mappings s = before @ b # after"
      unfolding before_def Cons [symmetric] by simp
    have cb: "contains_mapping v n b" using Cons by (simp add: dropWhile_eq_Cons_conv)
    have bin: "b \<in> set (pm_mappings s)" by (simp add: ms)
    note bok = pm_okD(9) [OF ok bin]
    have b: "b_map_vaddr b \<le> v" "v + n \<le> b_map_vaddr b + b_size b" "b_map_size b = b_size b"
      "b_start b + b_size b < two64" "b_map_vaddr b + b_size b < two64"
      using cb contains_mapping_iff [OF bok] bok by (simp_all add: mapping_ok_def)
    define ph where "ph = b_start b + (v - b_map_vaddr b)"
    have ph: "sub64 (add64 (b_start b) v) (b_map_vaddr b) = ph" "ph + n < two64"
    proof -
      have "sub64 (add64 (b_start b) v) (b_map_vaddr b) = (b_start b + v - b_map_vaddr b) mod two64"
      proof -
        have "sub64 ((ph + b_map_vaddr b) mod two64) (b_map_vaddr b) = ph mod two64"
          by (rule sub64_mod) (use b in simp)
        then show ?thesis using b(1) by (simp add: ph_def add64_def)
      qed
      then show "sub64 (add64 (b_start b) v) (b_map_vaddr b) = ph" "ph + n < two64"
        using b by (simp_all add: ph_def)
    qed
    define new where "new = (if b_map_vaddr b < v \<and> v + n < b_map_vaddr b + b_size b
      then before @ map_left v b # after @ [map_right (v + n) b]
      else before @ map_rest v (v + n) b @ after)"
    define rel where "rel = (if v = b_map_vaddr b \<and> n = b_map_size b
      then host_release_if_last want (b_host_vaddr b) (b_host_size b) (before @ after) else 0)"
    have mend: "b_map_end b = b_map_vaddr b + b_size b" using b by (simp add: b_map_end_def)
    have arith: "add64 v n = v + n" "sub64 (b_map_vaddr b + b_size b) (v + n) = b_map_vaddr b + b_size b - (v + n)"
      "sub64 v (b_map_vaddr b) = v - b_map_vaddr b" "sub64 (v + n) (b_map_vaddr b) = v + n - b_map_vaddr b"
      "add64 (b_start b) (v + n - b_map_vaddr b) = b_start b + (v + n - b_map_vaddr b)"
      using b n by simp_all
    have low: "add64 (b_start b) n = b_start b + n" "sub64 (b_size b) n = b_size b - n"
      "add64 (b_map_vaddr b) n = b_map_vaddr b + n" if "v = b_map_vaddr b"
      using b n that by simp_all
    have eq: "pm_unmap v n want s = (pm_reclaim_automatic ph n (s\<lparr>pm_mappings := new\<rparr>), Some (b_gpu b, rel))"
    proof -
      consider (all) "v = b_map_vaddr b" "n = b_size b"
        | (mid) "b_map_vaddr b < v" "v + n < b_map_vaddr b + b_size b"
        | (low) "v = b_map_vaddr b" "n < b_size b"
        | (high) "b_map_vaddr b < v" "v + n = b_map_vaddr b + b_size b"
        using b by linarith
      then show ?thesis
      proof cases
        case all
        then show ?thesis unfolding pm_unmap_def Let_def Cons list.case before_def [symmetric]
          using ph b(3) by (simp add: new_def rel_def map_rest_def)
      next
        case mid
        then show ?thesis unfolding pm_unmap_def Let_def Cons list.case before_def [symmetric]
          using ph b(3) arith mend by (simp add: new_def rel_def map_left_def map_right_def)
      next
        case low': low
        then show ?thesis unfolding pm_unmap_def Let_def Cons list.case before_def [symmetric]
          using ph b(3) arith mend low by (simp add: new_def rel_def map_rest_def map_right_def map_size_vaddr)
      next
        case high
        then show ?thesis unfolding pm_unmap_def Let_def Cons list.case before_def [symmetric]
          using ph b(3) arith mend n by (simp add: new_def rel_def map_rest_def map_left_def)
      qed
    qed
    have setn: "set new = set before \<union> set after \<union> set (map_rest v (v + n) b)"
      by (auto simp: new_def map_rest_def)
    have cnt: "map_count new x = map_count before x + map_count after x + map_count (map_rest v (v + n) b) x" for x
      by (simp add: new_def map_rest_def del: in_span)
    have tr: "translates new x = translates before x \<union> translates after x \<union> translates (map_rest v (v + n) b) x" for x
      by (auto simp: new_def map_rest_def simp del: in_span)
    note rc = map_rest_count [OF b(1) le_add1 b(2)] and rt = map_rest_translates [OF b(1) le_add1 b(2)]
      and ro = map_rest_ok [OF bok b(1) le_add1 b(2)]
    have one: "map_count before x + map_count after x = 0" if "x \<in> v_span b" for x
      using single that by (auto simp: single_mapped_def ms simp del: in_span dest: spec [of _ x])
    have mapok: "mapping_ok m" if "m \<in> set new" for m
      using that pm_okD(9) [OF ok, of m] ro(1) [of m] by (auto simp: setn ms)
    have msub: "pm_mapped (s\<lparr>pm_mappings := new\<rparr>) \<subseteq> pm_mapped s"
      using ro(2) by (fastforce simp: pm_mapped_def setn ms simp del: in_span)
    note rec = pm_reclaim_ok [OF ok _ _ _ msub _ n(1) ph(2), simplified, OF mapok]
    define s' where "s' = pm_reclaim_automatic ph n (s\<lparr>pm_mappings := new\<rparr>)"
    note rec' = rec [folded s'_def]
    have vin: "v + n \<noteq> v" "x \<in> span v n \<Longrightarrow> x \<in> v_span b" for x using b n by auto
    have t: "translates new x = (if x \<in> span v n then {} else translates (pm_mappings s) x)" for x
    proof (cases "x \<in> v_span b")
      case True
      have z: "translates before x = {}" "translates after x = {}"
        using one [OF True] translates_empty [of before x] translates_empty [of after x] by simp_all
      have "translates new x = (if v \<le> x \<and> x < v + n then {} else {map_target b x})"
        unfolding tr rt z using True by simp
      then show ?thesis using True z by (simp add: ms)
    next
      case False
      then have "x \<notin> span v n" using vin(2) by blast
      then show ?thesis using False by (auto simp: tr rt ms simp del: in_span)
    qed
    have s1: "single_mapped new"
      unfolding single_mapped_def cnt rc
    proof
      fix x
      have "map_count (pm_mappings s) x \<le> 1" using single by (simp add: single_mapped_def)
      then show "map_count before x + map_count after x
          + (if x \<in> v_span b \<and> \<not> (v \<le> x \<and> x < v + n) then 1 else 0) \<le> 1"
        by (simp add: ms del: in_span split: if_splits)
    qed
    have auto_back: "p \<in> fr_cover (pm_auto s')"
      if "x \<in> span v n" "(p, w) \<in> translates (pm_mappings s) x" "automatic (pm_owner s p)"
        "p \<notin> pm_mapped s'" for x p w
    proof -
      have xb: "x \<in> v_span b" using that(1) vin by blast
      then have "translates (pm_mappings s) x = {map_target b x}"
        using one [OF xb] translates_empty [of before x] translates_empty [of after x] by (simp add: ms)
      then have "p = b_start b + (x - b_map_vaddr b)" using that(2) by (simp add: map_target_def)
      then have "p \<in> span ph n" using that(1) b(1) by (auto simp: ph_def)
      moreover have "pm_mapped s' = pm_mapped (s\<lparr>pm_mappings := new\<rparr>)"
        using rec'(3) by (simp add: pm_mapped_def)
      ultimately show ?thesis using rec'(4) [of p] that(3,4) by simp
    qed
    show ?thesis
      unfolding eq prod.case option.case s'_def [symmetric]
    proof (intro conjI)
      show "pm_ok psz s'" "pm_owner s' = pm_owner s" by (rule rec'(1), simp, rule rec'(2), simp)
      show "single_mapped (pm_mappings s')" using s1 rec'(3) by simp
      show "\<exists>m\<in>set (pm_mappings s). span v n \<subseteq> v_span m \<and> b_gpu b = b_gpu m"
        using bin cb sub [OF bin] by blast
      show "\<forall>x. translates (pm_mappings s') x = (if x \<in> span v n then {} else translates (pm_mappings s) x)"
        using t rec'(3) by simp
      show "\<forall>x\<in>span v n. \<forall>(p, w)\<in>translates (pm_mappings s) x.
             automatic (pm_owner s p) \<and> p \<notin> pm_mapped s' \<longrightarrow> p \<in> fr_cover (pm_auto s')"
        using auto_back by blast
    qed
  qed
qed

subsection \<open>Protecting a span\<close>

lemma concat_map_facts:
  assumes "\<And>m. m \<in> set ms \<Longrightarrow> map_count (f m) x = map_count [m] x"
    and "\<And>m. m \<in> set ms \<Longrightarrow> translates (f m) x = g ` translates [m] x"
  shows "map_count (concat (map f ms)) x = map_count ms x"
    and "translates (concat (map f ms)) x = g ` translates ms x"
  using assms by (induction ms) (simp_all del: in_span add: image_Un)

lemma protect_block_cases:
  assumes b: "mapping_ok b" and n: "0 < n" "v + n < two64"
  defines "os \<equiv> max v (b_map_vaddr b)"
  defines "oe \<equiv> min (v + n) (b_map_vaddr b + b_size b)"
  shows "protect_block v n p md g b =
    (if span v n \<inter> v_span b = {} then [b]
     else (if b_map_vaddr b < os then [map_left os b] else [])
       @ [b\<lparr>b_start := b_start b + (os - b_map_vaddr b), b_size := oe - os, b_map_vaddr := os,
            b_map_size := oe - os, b_prot := p, b_mode := md, b_gpu := g\<rparr>]
       @ (if oe < b_map_vaddr b + b_size b then [map_right oe b] else []))"
proof -
  have m: "0 < b_size b" "b_map_size b = b_size b" "b_start b + b_size b < two64"
    "b_map_vaddr b + b_size b < two64" using b by (simp_all add: mapping_ok_def)
  have ov: "virtual_ranges_overlap v n (b_map_vaddr b) (b_map_size b) \<longleftrightarrow> span v n \<inter> v_span b \<noteq> {}"
    using virtual_ranges_overlap_iff [of v n "b_map_vaddr b" "b_size b"] n m by simp
  show ?thesis
  proof (cases "span v n \<inter> v_span b = {}")
    case True
    then show ?thesis using ov by (simp add: protect_block_def Let_def)
  next
    case False
    then obtain x where "x \<in> span v n" "x \<in> v_span b" by blast
    then have o: "os < oe" "b_map_vaddr b \<le> os" "oe \<le> b_map_vaddr b + b_size b"
      by (auto simp: os_def oe_def)
    have me: "b_map_end b = b_map_vaddr b + b_size b" "add64 v n = v + n"
      using m n by (simp_all add: b_map_end_def)
    have sub: "sub64 (add64 (b_start b) y) (b_map_vaddr b) = b_start b + (y - b_map_vaddr b)"
      if "b_map_vaddr b \<le> y" "y \<le> b_map_vaddr b + b_size b" for y
    proof -
      have "sub64 ((b_start b + (y - b_map_vaddr b) + b_map_vaddr b) mod two64) (b_map_vaddr b)
          = (b_start b + (y - b_map_vaddr b)) mod two64"
        by (rule sub64_mod) (use m in simp)
      then show ?thesis using that m by (simp add: add64_def)
    qed
    have arith: "sub64 os (b_map_vaddr b) = os - b_map_vaddr b" "sub64 oe os = oe - os"
      "sub64 (b_map_vaddr b + b_size b) oe = b_map_vaddr b + b_size b - oe"
      using o m by simp_all
    have ss: "sub64 (add64 (b_start b) os) (b_map_vaddr b) = b_start b + (os - b_map_vaddr b)"
      "sub64 (add64 (b_start b) oe) (b_map_vaddr b) = b_start b + (oe - b_map_vaddr b)"
      using sub [of os] sub [of oe] o by simp_all
    have "protect_block v n p md g b =
      (if b_map_vaddr b < os then [map_left os b] else [])
       @ [b\<lparr>b_start := b_start b + (os - b_map_vaddr b), b_size := oe - os, b_map_vaddr := os,
            b_map_size := oe - os, b_prot := p, b_mode := md, b_gpu := g\<rparr>]
       @ (if oe < b_map_vaddr b + b_size b then [map_right oe b] else [])"
      unfolding protect_block_def Let_def me os_def [symmetric] oe_def [symmetric] arith ss
      using False ov by (simp add: map_left_def map_right_def map_size_vaddr)
    then show ?thesis using False by simp
  qed
qed

lemma protect_block_ok:
  fixes p :: prot and md :: vm_mode and g :: gpu_mode
  assumes b: "mapping_ok b" and n: "0 < n" "v + n < two64"
  defines "bs \<equiv> protect_block v n p md g b"
  shows "m \<in> set bs \<Longrightarrow> mapping_ok m"
    and "(\<Union>m\<in>set bs. span (b_start m) (b_size m)) = span (b_start b) (b_size b)"
    and "map_count bs x = map_count [b] x"
    and "translates bs x = (\<lambda>(a, w). (a, if x \<in> span v n then (p, md, g) else w)) ` translates [b] x"
proof -
  have m: "0 < b_size b" "b_map_size b = b_size b" "b_start b + b_size b < two64"
    "b_map_vaddr b + b_size b < two64" using b by (simp_all add: mapping_ok_def)
  note pc = protect_block_cases [OF b n, of p md g, folded bs_def]
  show "m \<in> set bs \<Longrightarrow> mapping_ok m"
    unfolding pc using b m by (auto simp: mapping_ok_def split: if_splits)
  show "(\<Union>m\<in>set bs. span (b_start m) (b_size m)) = span (b_start b) (b_size b)"
  proof (cases "span v n \<inter> v_span b = {}")
    case False
    then obtain y where "y \<in> span v n" "y \<in> v_span b" by blast
    then show ?thesis unfolding pc using False m by auto
  qed (simp add: pc)
  show "map_count bs x = map_count [b] x"
  proof (cases "span v n \<inter> v_span b = {}")
    case False
    then obtain y where "y \<in> span v n" "y \<in> v_span b" by blast
    then show ?thesis unfolding pc using False m by auto
  qed (simp add: pc)
  show "translates bs x = (\<lambda>(a, w). (a, if x \<in> span v n then (p, md, g) else w)) ` translates [b] x"
  proof (cases "span v n \<inter> v_span b = {}")
    case False
    then obtain y where "y \<in> span v n" "y \<in> v_span b" by blast
    then show ?thesis unfolding pc using False m
      by (auto simp: map_target_def map_left_def map_right_def)
  next
    case True
    then have "x \<in> span v n \<Longrightarrow> x \<notin> v_span b" by blast
    then show ?thesis using True by (simp add: pc del: in_span split: prod.split)
  qed
qed

lemma pm_protect_ok:
  fixes p :: prot and md :: vm_mode and g :: gpu_mode
  assumes ok: "pm_ok psz s" and n: "0 < n" "v + n < two64"
  defines "s' \<equiv> pm_protect_mapping v n p md g s"
  shows "pm_ok psz s'" and "pm_owner s' = pm_owner s" and "pm_mapped s' = pm_mapped s"
    and "map_count (pm_mappings s') x = map_count (pm_mappings s) x"
    and "translates (pm_mappings s') x =
      (\<lambda>(a, w). (a, if x \<in> span v n then (p, md, g) else w)) ` translates (pm_mappings s) x"
proof -
  define ms where "ms = concat (map (protect_block v n p md g) (pm_mappings s))"
  have s': "s' = s\<lparr>pm_mappings := ms\<rparr>" using n by (auto simp: s'_def pm_protect_mapping_def ms_def)
  note pb = protect_block_ok [OF pm_okD(9) [OF ok] n]
  show own: "pm_owner s' = pm_owner s" by (simp add: s' pm_owner_def)
  show mapped: "pm_mapped s' = pm_mapped s"
    using pb(2) by (simp add: s' pm_mapped_def ms_def)
  show "pm_ok psz s'"
  proof (rule pm_okI, unfold own mapped)
    show "mapping_ok m" if "m \<in> set (pm_mappings s')" for m using that pb(1) by (auto simp: s' ms_def)
  qed (use pm_okD [OF ok] in \<open>simp_all add: s'\<close>)
  show "map_count (pm_mappings s') x = map_count (pm_mappings s) x"
    and "translates (pm_mappings s') x =
      (\<lambda>(a, w). (a, if x \<in> span v n then (p, md, g) else w)) ` translates (pm_mappings s) x"
    using concat_map_facts [of "pm_mappings s" "protect_block v n p md g" x
        "\<lambda>(a, w). (a, if x \<in> span v n then (p, md, g) else w)", OF pb(3,4)]
    by (simp_all add: s' ms_def)
qed

subsection \<open>Reserving bytes of the automatic blocks\<close>

lemma fr_cover_Cons [simp]: "fr_cover ((k, n) # m) = span k n \<union> fr_cover m"
  by (simp add: im_cover_def)

lemma fr_size: "fr_ok m \<Longrightarrow> sum_list (map snd m) = card (fr_cover m) \<and> finite (fr_cover m)"
proof (induction m)
  case (Cons y m)
  obtain k n where y: "y = (k, n)" by force
  have "fr_ok m" "\<forall>e\<in>set m. k + n < fst e" using Cons.prems by (simp_all add: y fr_ok_simps)
  moreover from this(2) have "span k n \<inter> fr_cover m = {}" by (fastforce simp: im_cover_def)
  ultimately show ?case using Cons.IH by (simp add: y card_Un_disjoint)
qed (simp add: im_cover_def)

lemma separate_simps [simp]:
  "separate []"
  "separate ((a, n) # rs) \<longleftrightarrow> 0 < n \<and> a + n < two64 \<and> (\<forall>(b, m)\<in>set rs. span a n \<inter> span b m = {}) \<and> separate rs"
  by (auto simp: separate_def)

abbreviation ranges_bytes :: "(u64 \<times> u64) list \<Rightarrow> u64 set" where
  "ranges_bytes rs \<equiv> (\<Union>(a, n)\<in>set rs. span a n)"

lemma reserve_loop_spec:
  assumes "fr_ok m" and "0 < n" and "n < two64"
  shows "case reserve_loop n acc m of
      None \<Rightarrow> card (fr_cover m) < n
    | Some rs \<Rightarrow> \<exists>new. rs = acc @ new \<and> separate new \<and> ranges_bytes new \<subseteq> fr_cover m
        \<and> sum_list (map snd new) = n"
  using assms
proof (induction n acc m rule: reserve_loop.induct)
  case (2 n acc k av rest)
  have k: "fr_ok rest" "0 < av" "k + av < two64" "\<forall>e\<in>set rest. k + av < fst e"
    using "2.prems" by (simp_all add: fr_ok_simps)
  have dis: "span k av \<inter> fr_cover rest = {}" using k(4) by (fastforce simp: im_cover_def)
  have card: "card (fr_cover ((k, av) # rest)) = av + card (fr_cover rest)"
    using fr_size [OF k(1)] dis by (simp add: card_Un_disjoint)
  show ?case
  proof (cases "n \<le> av")
    case True
    then show ?thesis using "2.prems" k
      by (auto intro!: exI [of _ "[(k, n)]"] simp: Let_def)
  next
    case False
    then have n: "sub64 n (min n av) = n - av" "0 < n - av" "n - av < two64" using "2.prems" by simp_all
    have step: "reserve_loop n acc ((k, av) # rest) = reserve_loop (n - av) (acc @ [(k, av)]) rest"
      using False n by (simp add: Let_def min_def)
    have IH: "case reserve_loop (n - av) (acc @ [(k, av)]) rest of
        None \<Rightarrow> card (fr_cover rest) < n - av
      | Some rs \<Rightarrow> \<exists>new. rs = (acc @ [(k, av)]) @ new \<and> separate new \<and> ranges_bytes new \<subseteq> fr_cover rest
          \<and> sum_list (map snd new) = n - av"
      using "2.IH" [of "min n av" "acc @ [(k, av)]" "n - av"] n False k by simp
    show ?thesis
    proof (cases "reserve_loop (n - av) (acc @ [(k, av)]) rest")
      case None
      then show ?thesis using IH card step by simp
    next
      case (Some rs)
      then obtain new where new: "rs = (acc @ [(k, av)]) @ new" "separate new"
        "ranges_bytes new \<subseteq> fr_cover rest" "sum_list (map snd new) = n - av" using IH by auto
      have d: "\<forall>(b, m)\<in>set new. span k av \<inter> span b m = {}" using new(3) dis by fastforce
      have "rs = acc @ ((k, av) # new)" "separate ((k, av) # new)"
        "ranges_bytes ((k, av) # new) \<subseteq> fr_cover ((k, av) # rest)" "sum_list (map snd ((k, av) # new)) = n"
        using new k d False by (simp_all add: le_supI2)
      then show ?thesis unfolding step Some option.case by blast
    qed
  qed
qed (simp add: im_cover_def)

lemma take_all:
  assumes "fr_ok m" and "separate rs"
  shows "fr_ok (fold (\<lambda>(k, n). remove_free_range k n) rs m)
    \<and> fr_cover (fold (\<lambda>(k, n). remove_free_range k n) rs m) = fr_cover m - ranges_bytes rs"
  using assms
proof (induction rs arbitrary: m)
  case (Cons r rs)
  obtain a n where r: "r = (a, n)" by force
  then have s: "0 < n" "a + n < two64" "separate rs" using Cons.prems by simp_all
  show ?case
    using Cons.IH [OF remove_free_range_ok(1) [OF Cons.prems(1) s(1,2)] s(3)]
      remove_free_range_ok(2) [OF Cons.prems(1) s(1,2)] by (auto simp: r)
qed simp

lemma pm_auto_ok:
  assumes ok: "pm_ok psz s" and "fr_ok au"
    and "\<And>x. x \<in> fr_cover au \<Longrightarrow> automatic (pm_owner s x) \<and> x \<notin> pm_mapped s"
  shows "pm_ok psz (s\<lparr>pm_auto := au\<rparr>)"
proof -
  have o: "pm_owner (s\<lparr>pm_auto := au\<rparr>) = pm_owner s" "pm_mapped (s\<lparr>pm_auto := au\<rparr>) = pm_mapped s"
    by (simp_all add: pm_owner_def pm_mapped_def)
  show ?thesis by (rule pm_okI, unfold o) (use pm_okD [OF ok] assms(2,3) in simp_all)
qed

lemma pm_reserve_ok:
  assumes ok: "pm_ok psz s" and n: "0 < n" "n < two64"
  shows "case pm_reserve_automatic n [] s of
      (s', rs, False) \<Rightarrow> s' = s \<and> rs = [] \<and> card (fr_cover (pm_auto s)) < n
    | (s', rs, True) \<Rightarrow> (\<exists>au. s' = s\<lparr>pm_auto := au\<rparr>) \<and> pm_ok psz s' \<and> separate rs
        \<and> ranges_bytes rs \<subseteq> fr_cover (pm_auto s) \<and> sum_list (map snd rs) = n
        \<and> fr_cover (pm_auto s') = fr_cover (pm_auto s) - ranges_bytes rs"
proof (cases "reserve_loop n [] (pm_auto s)")
  case None
  then show ?thesis using reserve_loop_spec [OF pm_okD(6) [OF ok] n, of "[]"]
    by (simp add: pm_reserve_automatic_def)
next
  case (Some rs)
  then have rs: "separate rs" "ranges_bytes rs \<subseteq> fr_cover (pm_auto s)" "sum_list (map snd rs) = n"
    using reserve_loop_spec [OF pm_okD(6) [OF ok] n, of "[]"] by auto
  define au where "au = fold (\<lambda>(k, n). remove_free_range k n) rs (pm_auto s)"
  have T: "fr_ok au" "fr_cover au = fr_cover (pm_auto s) - ranges_bytes rs"
    using take_all [OF pm_okD(6) [OF ok] rs(1)] by (simp_all add: au_def)
  have "pm_ok psz (s\<lparr>pm_auto := au\<rparr>)"
    by (rule pm_auto_ok [OF ok T(1)]) (use T(2) pm_okD(7,8) [OF ok] in auto)
  moreover have "pm_reserve_automatic n [] s = (s\<lparr>pm_auto := au\<rparr>, rs, True)"
    by (simp add: pm_reserve_automatic_def Some au_def)
  ultimately show ?thesis using rs T(2) by auto
qed

lemma pm_restore_ok:
  assumes ok: "pm_ok psz s" and rs: "separate rs" "ranges_bytes rs \<inter> fr_cover (pm_auto s) = {}"
    and auto: "\<And>x. x \<in> ranges_bytes rs \<Longrightarrow> automatic (pm_owner s x) \<and> x \<notin> pm_mapped s"
  shows "(\<exists>au. pm_restore_automatic rs s = s\<lparr>pm_auto := au\<rparr>) \<and> pm_ok psz (pm_restore_automatic rs s)
    \<and> fr_cover (pm_auto (pm_restore_automatic rs s)) = fr_cover (pm_auto s) \<union> ranges_bytes rs"
proof -
  define au where "au = fold (\<lambda>(k, n). add_free_range k n) rs (pm_auto s)"
  have "\<forall>(a, n)\<in>set rs. span a n \<inter> fr_cover (pm_auto s) = {}" using rs(2) by (simp add: disjoint_iff split_beta) blast
  from fr.give_all [OF pm_okD(6) [OF ok] rs(1) this]
  have T: "fr_ok au" "fr_cover au = fr_cover (pm_auto s) \<union> ranges_bytes rs"
    by (simp_all add: au_def case_prod_unfold)
  have "pm_ok psz (s\<lparr>pm_auto := au\<rparr>)"
  proof (rule pm_auto_ok [OF ok T(1)])
    show "automatic (pm_owner s x) \<and> x \<notin> pm_mapped s" if "x \<in> fr_cover au" for x
      using that pm_okD(7,8) [OF ok, of x] auto [of x] unfolding T(2) by blast
  qed
  then show ?thesis using T(2) by (auto simp: pm_restore_automatic_def au_def)
qed

subsection \<open>Giving a pool's block back\<close>

lemma pm_release_pool_ok:
  assumes ok: "pm_ok psz s"
  shows "case pm_release_pool_expansion a len s of
      (s', False) \<Rightarrow> s' = s
    | (s', True) \<Rightarrow> pm_ok psz s' \<and> pm_mappings s' = pm_mappings s \<and> 0 < len \<and> a + len < two64
        \<and> (\<forall>x\<in>span a len. \<exists>t. pm_owner s x = Some (KPooled, t))
        \<and> (\<forall>x. pm_owner s' x = (if x \<in> span a len then None else pm_owner s x))"
proof (cases "map_of (pm_physical s) a")
  case (Some b)
  show ?thesis
  proof (cases "b_kind b \<noteq> KPooled \<or> b_size b \<noteq> len")
    case False
    note bok = pm_okD(2) [OF ok]
    obtain xs ys where m: "pm_physical s = xs @ (a, b) # ys"
      using om_node_obtain [OF _ Some] bok by auto
    have "(a, b) \<in> set (pm_physical s)" by (simp add: m)
    note nd = blocks_ok_node [OF bok this]
    have len: "b_size b = len" "b_kind b = KPooled" using False by simp_all
    have n: "0 < len" "a + len < two64" using nd(2,3) unfolding len by simp_all
    define s' where "s' = s\<lparr>pm_physical := om_erase a (pm_physical s), pm_free := add_free_range a len (pm_free s)\<rparr>"
    have eq: "pm_release_pool_expansion a len s = (s', True)"
      using Some False by (simp add: pm_release_pool_expansion_def s'_def)
    note im = blocks_ok_im [OF bok]
    have er: "om_erase a (pm_physical s) = xs @ ys"
      using om_erase_node [of xs a b ys] bok by (simp add: m)
    have bok': "blocks_ok (xs @ ys)"
      using bok unfolding m blocks_ok_def by (auto simp: im_ok_append im_ok_Cons)
    have view: "pm_owner s x = (if x \<in> span a len then Some (KPooled, b_memory_type b) else owner_of (xs @ ys) x)" for x
      using im_view_node(1) [OF im [unfolded m], of "\<lambda>k b x. (b_kind b, b_memory_type b)" x]
      by (simp add: pm_owner_def m len)
    have in_none: "owner_of (xs @ ys) x = None" if "x \<in> span a len" for x
      by (rule im_view_node(2) [OF im [unfolded m]]) (use that len in simp_all)
    have own: "pm_owner s' x = (if x \<in> span a len then None else pm_owner s x)" for x
      using view [of x] in_none [of x] by (simp add: s'_def pm_owner_def er del: in_span)
    note add = add_free_range_ok [OF pm_okD(3) [OF ok] n]
    have mapped: "pm_mapped s' = pm_mapped s" by (simp add: s'_def pm_mapped_def)
    have notin: "\<not> mappable (pm_owner s x)" if "x \<in> span a len" for x using view [of x] that by simp
    have notauto: "\<not> automatic (pm_owner s x)" if "x \<in> span a len" for x using view [of x] that by simp
    have "pm_ok psz s'"
    proof (rule pm_okI, unfold mapped)
      show "fr_cover (pm_free s') = {x. x < psz \<and> pm_owner s' x = None}"
        using pm_okD(4,5) [OF ok] view unfolding own by (auto simp: s'_def add(2))
      show "x < psz" if "pm_owner s' x \<noteq> None" for x
        using that pm_okD(5) [OF ok, of x] by (simp add: own split: if_splits)
      show "automatic (pm_owner s' x) \<and> x \<notin> pm_mapped s" if "x \<in> fr_cover (pm_auto s')" for x
      proof -
        have "x \<in> fr_cover (pm_auto s)" using that by (simp add: s'_def)
        then show ?thesis using pm_okD(7,8) [OF ok, of x] notauto [of x] own [of x] by presburger
      qed
      show "mappable (pm_owner s' x)" if "x \<in> pm_mapped s" for x
        using that pm_okD(10) [OF ok, of x] notin [of x] own [of x] by presburger
      show "psz < two64" by (rule pm_okD(1) [OF ok])
    qed (use pm_okD [OF ok] add bok' in \<open>simp_all add: s'_def er\<close>)
    then show ?thesis unfolding eq using n own view by (simp add: s'_def)
  qed (use Some in \<open>auto simp: pm_release_pool_expansion_def\<close>)
qed (simp add: pm_release_pool_expansion_def)

end
