(* ===== verification/PhysicalMemoryTheorems.thy ===== *)
theory PhysicalMemoryTheorems
  imports PhysicalMemoryFacts
begin

text \<open>
  The properties of the class \<open>PhysicalMemory\<close>: the states the kernel can reach through its
  methods, the invariant of these states, and what allocation, release, mapping, protection and the
  queries do to who owns a physical address and to what a virtual address translates to.
\<close>

subsection \<open>Looking up blocks and mappings\<close>

lemma UN_filtered:
  assumes "\<And>m. h m \<Longrightarrow> f m = g m" and "\<And>m. \<not> h m \<Longrightarrow> g m = {}"
  shows "(\<Union>m\<in>{m \<in> A. h m}. f m) = (\<Union>m\<in>A. g m)"
proof -
  have "h m" if "x \<in> g m" for x m using that assms(2) [of m] by (cases "h m") simp_all
  then show ?thesis using assms(1) by fastforce
qed

lemma pm_find_mappings_translates:
  assumes maps: "\<And>m. m \<in> set ms \<Longrightarrow> mapping_ok m" and n: "a + n < two64"
  shows "translates (pm_find_mappings a n (s\<lparr>pm_mappings := ms\<rparr>)) x
    = {w \<in> translates ms x. fst w \<in> span a n}"
proof -
  define part where "part m = m\<lparr>b_start := max a (b_start m), b_size := min (a + n) (b_start m + b_size m) - max a (b_start m),
    b_map_vaddr := b_map_vaddr m + (max a (b_start m) - b_start m),
    b_map_size := min (a + n) (b_start m + b_size m) - max a (b_start m)\<rparr>" for m :: ablock
  define F where "F m = (let overlap_start = max a (b_start m);
                     overlap_end = min (add64 a n) (b_end m);
                     part_size = sub64 overlap_end overlap_start
                 in m\<lparr>b_start := overlap_start, b_size := part_size,
                      b_map_vaddr := add64 (b_map_vaddr m) (sub64 overlap_start (b_start m)),
                      b_map_size := part_size\<rparr>)" for m :: ablock
  define hit where "hit m \<longleftrightarrow> span a n \<inter> span (b_start m) (b_size m) \<noteq> {}" for m :: ablock
  have hit: "virtual_ranges_overlap a n (b_start m) (b_size m) = hit m"
    and part: "hit m \<Longrightarrow> F m = part m"
    if mem: "m \<in> set ms" for m
  proof -
    have m: "b_start m + b_size m < two64" "b_map_vaddr m + b_size m < two64"
      using maps [OF mem] by (simp_all add: mapping_ok_def)
    show "virtual_ranges_overlap a n (b_start m) (b_size m) = hit m"
      unfolding hit_def by (rule virtual_ranges_overlap_iff) (use m n in simp_all)
    assume "hit m"
    then obtain x where "x \<in> span a n" "x \<in> span (b_start m) (b_size m)" unfolding hit_def by blast
    then have "max a (b_start m) < min (a + n) (b_start m + b_size m)"
      "b_map_vaddr m + (max a (b_start m) - b_start m) < two64" using m by auto
    then show "F m = part m"
      using m n by (simp add: F_def Let_def part_def b_end_def)
  qed
  have "set (pm_find_mappings a n (s\<lparr>pm_mappings := ms\<rparr>)) = part ` {m \<in> set ms. hit m}"
  proof -
    have "filter (\<lambda>m. virtual_ranges_overlap a n (b_start m) (b_size m)) ms = filter hit ms"
      by (rule filter_cong) (simp_all add: hit)
    moreover have "map F (filter hit ms) = map part (filter hit ms)" by (simp add: part)
    ultimately show ?thesis by (simp add: pm_find_mappings_def F_def [abs_def] cong del: if_cong)
  qed
  then have "translates (pm_find_mappings a n (s\<lparr>pm_mappings := ms\<rparr>)) x
      = (\<Union>m\<in>{m \<in> set ms. hit m}. translates [part m] x)"
    unfolding translates_def by auto
  also have "\<dots> = (\<Union>m\<in>set ms. {w \<in> translates [m] x. fst w \<in> span a n})"
  proof (rule UN_filtered)
    show "translates [part m] x = {w \<in> translates [m] x. fst w \<in> span a n}" if "hit m" for m
      using that by (auto simp: part_def map_target_def hit_def)
    show "{w \<in> translates [m] x. fst w \<in> span a n} = {}" if "\<not> hit m" for m
    proof -
      have "\<not> (b_start m + (x - b_map_vaddr m) \<in> span a n \<and> x \<in> v_span m)"
        using that by (fastforce simp: hit_def)
      then show ?thesis by (auto simp: map_target_def)
    qed
  qed
  also have "\<dots> = {w \<in> translates ms x. fst w \<in> span a n}" by (auto simp: translates_def)
  finally show ?thesis .
qed

lemma pm_find_mapping_ok:
  assumes ok: "pm_ok psz s"
  shows "case pm_find_mapping v s of
      None \<Rightarrow> translates (pm_mappings s) v = {}
    | Some (va, n, p, md, g) \<Rightarrow> v \<in> span va n
        \<and> (\<exists>m\<in>set (pm_mappings s). va = b_map_vaddr m \<and> n = b_size m
            \<and> (b_start m + (v - va), p, md, g) \<in> translates (pm_mappings s) v)"
proof -
  have iff: "v \<ge> b_map_vaddr b \<and> v < b_map_end b \<longleftrightarrow> v \<in> v_span b" if "b \<in> set (pm_mappings s)" for b
    using pm_okD(9) [OF ok that] by (auto simp: mapping_ok_def b_map_end_def)
  show ?thesis
  proof (cases "find (\<lambda>b. v \<ge> b_map_vaddr b \<and> v < b_map_end b) (pm_mappings s)")
    case None
    then have "\<forall>b\<in>set (pm_mappings s). v \<notin> v_span b" using iff unfolding find_None_iff by blast
    then have "translates (pm_mappings s) v = {}" by (auto simp: translates_def simp del: in_span)
    then show ?thesis using None by (simp add: pm_find_mapping_def)
  next
    case (Some b)
    then have b: "b \<in> set (pm_mappings s)" "v \<ge> b_map_vaddr b \<and> v < b_map_end b"
      by (auto simp: find_Some_iff in_set_conv_nth)
    then have vb: "v \<in> v_span b" using iff by blast
    have sz: "b_map_size b = b_size b" using pm_okD(9) [OF ok b(1)] by (simp add: mapping_ok_def)
    have "map_target b v \<in> translates (pm_mappings s) v"
      unfolding translates_def using b vb by (simp del: in_span)
    then have "v \<in> span (b_map_vaddr b) (b_size b)
      \<and> (\<exists>m\<in>set (pm_mappings s). b_map_vaddr b = b_map_vaddr m \<and> b_size b = b_size m
            \<and> (b_start m + (v - b_map_vaddr b), b_prot b, b_mode b, b_gpu b) \<in> translates (pm_mappings s) v)"
      using b vb by (auto simp: map_target_def)
    then show ?thesis unfolding pm_find_mapping_def Some option.map option.case prod.case sz .
  qed
qed

lemma pm_find_block_ok:
  assumes ok: "pm_ok psz s"
  shows "case pm_find_block a False s of
      None \<Rightarrow> pm_owner s a = None
    | Some b \<Rightarrow> a \<in> span (b_start b) (b_size b) \<and> pm_owner s a = Some (b_kind b, b_memory_type b)"
proof -
  note bok = pm_okD(2) [OF ok]
  note im = blocks_ok_im [OF bok]
  have view: "pm_owner s a = map_option (\<lambda>(k, b). (b_kind b, b_memory_type b)) (im_at b_size (pm_physical s) a)"
    unfolding pm_owner_def by (rule im_view_at [OF im])
  show ?thesis
  proof (cases "om_prev (om_upper_bound a (pm_physical s)) (pm_physical s)")
    case None
    then have "om_floor a (pm_physical s) = None" by (simp add: om_floor_def)
    then show ?thesis using None view by (simp add: pm_find_block_def im_at_def)
  next
    case (Some k)
    then have fl: "om_floor a (pm_physical s) = Some k" by (simp add: om_floor_def)
    then obtain b where b: "map_of (pm_physical s) k = Some b" "k \<le> a"
      using om_floor_Some [of "pm_physical s" a k] bok by auto
    then have "(k, b) \<in> set (pm_physical s)" using om_in_set [of "pm_physical s"] bok by simp
    note n = blocks_ok_node [OF bok this]
    show ?thesis using Some fl b n view by (simp add: pm_find_block_def im_at_def Let_def)
  qed
qed


subsection \<open>The reachable states\<close>

text \<open>
  One call of a method, with what its callers in the kernel make sure of: lengths are positive,
  spans of virtual addresses do not wrap around, a span is unmapped before it is released or mapped,
  and the ranges of an automatic block given back are bytes of it that are neither mapped nor free.
\<close>

inductive pm_step :: "u64 \<Rightarrow> pmem \<Rightarrow> pmem \<Rightarrow> bool" for psz where
  step_alloc: "\<lbrakk>pm_alloc psz ss se len al mt kind s = Some (s', r); 0 < len\<rbrakk> \<Longrightarrow> pm_step psz s s'"
| step_release: "\<lbrakk>pm_release a len s = (s', r); 0 < len; a + len < two64; span a len \<inter> pm_mapped s = {}\<rbrakk>
    \<Longrightarrow> pm_step psz s s'"
| step_map: "\<lbrakk>pm_map v a len p md g nm mt s = (s', r); a < two64; v + len < two64;
    \<forall>x\<in>span v len. map_count (pm_mappings s) x = 0\<rbrakk> \<Longrightarrow> pm_step psz s s'"
| step_unmap: "\<lbrakk>pm_unmap v n want s = (s', r); 0 < n; v + n < two64\<rbrakk> \<Longrightarrow> pm_step psz s s'"
| step_protect: "\<lbrakk>pm_protect_mapping v n p md g s = s'; v < two64\<rbrakk> \<Longrightarrow> pm_step psz s s'"
| step_reserve: "\<lbrakk>pm_reserve_automatic n [] s = (s', rs, r); 0 < n; n < two64\<rbrakk> \<Longrightarrow> pm_step psz s s'"
| step_restore: "\<lbrakk>pm_restore_automatic rs s = s'; separate rs; ranges_bytes rs \<inter> fr_cover (pm_auto s) = {};
    \<forall>x\<in>ranges_bytes rs. automatic (pm_owner s x) \<and> x \<notin> pm_mapped s\<rbrakk> \<Longrightarrow> pm_step psz s s'"
| step_release_pool: "pm_release_pool_expansion a len s = (s', r) \<Longrightarrow> pm_step psz s s'"
| step_name: "pm_set_virtual_range_name v n nm s = s' \<Longrightarrow> pm_step psz s s'"

inductive pm_reach :: "u64 \<Rightarrow> pmem \<Rightarrow> bool" for psz where
  reach_init: "\<lbrakk>0 < psz; psz < two64\<rbrakk> \<Longrightarrow> pm_reach psz (pm_init psz)"
| reach_step: "\<lbrakk>pm_reach psz s; pm_step psz s s'\<rbrakk> \<Longrightarrow> pm_reach psz s'"

lemma pm_init_ok: "\<lbrakk>0 < psz; psz < two64\<rbrakk> \<Longrightarrow> pm_ok psz (pm_init psz) \<and> single_mapped (pm_mappings (pm_init psz))"
  by (auto simp: pm_ok_def pm_init_def blocks_ok_def im_ok_def om_ok_def fr_ok_simps pm_owner_def
      pm_mapped_def single_mapped_def im_cover_def im_view_None)

lemma pm_name_ok:
  fixes v n :: u64 and nm :: "string option"
  assumes ok: "pm_ok psz s"
  defines "s' \<equiv> pm_set_virtual_range_name v n nm s"
  shows "pm_ok psz s'" and "map_count (pm_mappings s') x = map_count (pm_mappings s) x"
proof -
  define f where "f b = (if virtual_ranges_overlap v n (b_map_vaddr b) (b_map_size b)
    then b\<lparr>b_name := copy_virtual_range_name nm\<rparr> else b)" for b :: ablock
  have f: "b_start (f b) = b_start b" "b_size (f b) = b_size b" "b_map_size (f b) = b_map_size b"
    "b_map_vaddr (f b) = b_map_vaddr b" for b by (simp_all add: f_def)
  have s': "s' = s\<lparr>pm_mappings := map f (pm_mappings s)\<rparr>"
    by (simp add: s'_def pm_set_virtual_range_name_def f_def [abs_def])
  have o: "pm_owner s' = pm_owner s" "pm_mapped s' = pm_mapped s"
    by (simp_all add: s' pm_owner_def pm_mapped_def f)
  show "pm_ok psz s'"
    by (rule pm_okI, unfold o) (use pm_okD [OF ok] in \<open>auto simp: s' mapping_ok_def f\<close>)
  have "map_count (map f ms) x = map_count ms x" for ms by (induction ms) (simp_all add: f del: in_span)
  then show "map_count (pm_mappings s') x = map_count (pm_mappings s) x" by (simp add: s')
qed

lemma pm_step_ok:
  assumes "pm_step psz s s'" and ok: "pm_ok psz s" and one: "single_mapped (pm_mappings s)"
  shows "pm_ok psz s' \<and> single_mapped (pm_mappings s')"
  using assms(1)
proof cases
  case (step_alloc ss se len al mt kind r)
  then show ?thesis using pm_alloc_ok [OF ok step_alloc(2), where ss = ss and se = se and al = al and mt = mt and kind = kind] one ok by (auto split: option.splits)
next
  case (step_release a len r)
  show ?thesis
  proof (cases "releasable s a len")
    case True
    obtain s1 where s1: "pm_release a len s = (s1, Some (0, 0, GpuNoAccess))" "pm_ok psz s1"
      "pm_mappings s1 = pm_mappings s"
      by (rule pm_release_ok [OF ok step_release(2) True step_release(4)])
    then show ?thesis using step_release(1) one by simp
  next
    case False
    from pm_release_no [OF pm_okD(2) [OF ok] step_release(2,3) False] step_release(1) ok one
    show ?thesis by simp
  qed
next
  case (step_map v a len p md g nm mt r)
  show ?thesis
  proof (cases "pm_can_map_direct a len s")
    case True
    obtain s1 b where s1: "pm_map v a len p md g nm mt s = (s1, True)" "pm_ok psz s1"
      "pm_mappings s1 = pm_mappings s @ [b\<lparr>b_start := a, b_size := len, b_map_vaddr := v, b_map_size := len,
         b_host_vaddr := v, b_host_size := len, b_prot := p, b_mode := md, b_gpu := g, b_memory_type := mt,
         b_name := copy_virtual_range_name nm\<rparr>]"
      by (rule pm_map_ok [OF ok step_map(2,3) True])
    then obtain c where b: "pm_ok psz s'" "pm_mappings s' = pm_mappings s @ [c]" "v_span c = span v len"
      using step_map(1) by simp
    have "map_count (pm_mappings s') x \<le> 1" for x
      using one step_map(4) by (auto simp: b single_mapped_def simp del: in_span)
    then show ?thesis using b(1) by (simp add: single_mapped_def)
  next
    case False
    from pm_map_no [OF ok step_map(2) False] step_map(1) ok one show ?thesis by simp
  qed
next
  case (step_unmap v n want r)
  then show ?thesis using pm_unmap_ok [OF ok one step_unmap(2,3), where want = want] ok one
    by (cases r) auto
next
  case (step_protect v n p md g)
  show ?thesis
  proof (cases "n = 0 \<or> U64_MAX - v < n")
    case False
    then have n: "0 < n" "v + n < two64" using step_protect(2) by auto
    show ?thesis using pm_protect_ok(1,4) [OF ok n, of p md g] one step_protect(1)
      by (auto simp: single_mapped_def)
  next
    case True
    then show ?thesis using step_protect ok one by (simp add: pm_protect_mapping_def)
  qed
next
  case (step_reserve n rs r)
  then show ?thesis using pm_reserve_ok [OF ok step_reserve(2,3)] ok one by (cases r) auto
next
  case (step_restore rs)
  then show ?thesis using pm_restore_ok [OF ok step_restore(2,3)] one by fastforce
next
  case (step_release_pool a len r)
  then show ?thesis using pm_release_pool_ok [OF ok, where a = a and len = len] ok one by (cases r) auto
next
  case (step_name v n nm)
  then show ?thesis using pm_name_ok [OF ok, of v n nm] one by (simp add: single_mapped_def)
qed

lemma pm_reach_ok: "pm_reach psz s \<Longrightarrow> pm_ok psz s \<and> single_mapped (pm_mappings s)"
proof (induction rule: pm_reach.induct)
  case (reach_step s s')
  then show ?case using pm_step_ok by blast
qed (rule pm_init_ok)


subsection \<open>Properties\<close>


text \<open>
  A physical memory of sixteen pages: one direct page mapped at \<open>0x200000\<close>, two automatic pages,
  one page of a pool.
\<close>

lemmas pm_evals = pm_alloc_def pm_init_def Let_def nodes_around_def om_upper_bound_def om_after_def
  om_before_def om_from_def om_begin_def om_prev.simps get_aligned_pos_def remove_free_range_def
  add_free_range_def add64_def sub64_def om_lower_bound_def pm_map_def block_walk.simps b_end_def
  b_map_end_def om_next_def copy_virtual_range_name_def

definition pm_example1 :: pmem where
  "pm_example1 = fst (the (pm_alloc 65536 0 65536 4096 4096 3 KDirect (pm_init 65536)))"

definition pm_example2 :: pmem where
  "pm_example2 = fst (the (pm_alloc 65536 4096 65536 8192 0 10 KAutomatic pm_example1))"

definition pm_example3 :: pmem where
  "pm_example3 = fst (the (pm_alloc 65536 0 65536 4096 16384 3 KPooled pm_example2))"

definition pm_example :: pmem where
  "pm_example = fst (pm_map 0x200000 0 4096 0x33 ReadWrite GpuReadWrite (Some ''tex'') 3 pm_example3)"

definition example_block :: "u64 \<Rightarrow> u64 \<Rightarrow> int \<Rightarrow> allocation_kind \<Rightarrow> ablock" where
  "example_block a n t k = \<lparr>b_start = a, b_size = n, b_map_vaddr = 0, b_map_size = 0, b_host_vaddr = 0,
     b_host_size = 0, b_prot = 0, b_mode = NoAccess, b_gpu = GpuNoAccess, b_memory_type = t, b_kind = k,
     b_name = []\<rparr>"

lemma pm_example1_step: "pm_alloc 65536 0 65536 4096 4096 3 KDirect (pm_init 65536)
    = Some (pm_example1, Some 0)"
  and pm_example1_value: "pm_example1 = \<lparr>pm_physical = [(0, example_block 0 4096 3 KDirect)],
    pm_free = [(4096, 61440)], pm_auto = [], pm_mappings = []\<rparr>"
  by (simp_all add: pm_example1_def example_block_def pm_evals)

lemma pm_example2_step: "pm_alloc 65536 4096 65536 8192 0 10 KAutomatic pm_example1
    = Some (pm_example2, Some 4096)"
  and pm_example2_value: "pm_example2 = \<lparr>pm_physical = [(0, example_block 0 4096 3 KDirect),
    (4096, example_block 4096 8192 10 KAutomatic)], pm_free = [(12288, 53248)], pm_auto = [(4096, 8192)],
    pm_mappings = []\<rparr>"
  by (simp_all add: pm_example2_def pm_example1_value example_block_def pm_evals)

lemma pm_example3_step: "pm_alloc 65536 0 65536 4096 16384 3 KPooled pm_example2
    = Some (pm_example3, Some 16384)"
  and pm_example3_value: "pm_example3 = \<lparr>pm_physical = [(0, example_block 0 4096 3 KDirect),
    (4096, example_block 4096 8192 10 KAutomatic), (16384, example_block 16384 4096 3 KPooled)],
    pm_free = [(12288, 4096), (20480, 45056)], pm_auto = [(4096, 8192)], pm_mappings = []\<rparr>"
  by (simp_all add: pm_example3_def pm_example2_value example_block_def pm_evals)

lemma pm_example_step: "pm_map 0x200000 0 4096 0x33 ReadWrite GpuReadWrite (Some ''tex'') 3 pm_example3
    = (pm_example, True)"
  and pm_example_value: "pm_example = \<lparr>pm_physical = [(0, example_block 0 4096 3 KDirect),
    (4096, example_block 4096 8192 10 KAutomatic), (16384, example_block 16384 4096 3 KPooled)],
    pm_free = [(12288, 4096), (20480, 45056)], pm_auto = [(4096, 8192)],
    pm_mappings = [\<lparr>b_start = 0, b_size = 4096, b_map_vaddr = 0x200000, b_map_size = 4096,
      b_host_vaddr = 0x200000, b_host_size = 4096, b_prot = 0x33, b_mode = ReadWrite,
      b_gpu = GpuReadWrite, b_memory_type = 3, b_kind = KDirect, b_name = ''tex''\<rparr>]\<rparr>"
  by (simp_all add: pm_example_def pm_example3_value example_block_def pm_evals)

lemma pm_example_reach: "pm_reach 65536 pm_example"
proof -
  have "pm_reach 65536 pm_example1"
    using reach_step [OF reach_init step_alloc [OF pm_example1_step]] by simp
  then have "pm_reach 65536 pm_example2"
    using reach_step [OF _ step_alloc [OF pm_example2_step]] by simp
  then have "pm_reach 65536 pm_example3"
    using reach_step [OF _ step_alloc [OF pm_example3_step]] by simp
  then show ?thesis
    by (rule reach_step [OF _ step_map [OF pm_example_step]]) (simp_all add: pm_example3_value)
qed


text \<open>
  C6. In every physical memory the kernel can build, the free ranges are exactly the bytes below
  the memory's size that no block owns, the automatic free ranges are unmapped bytes of automatic
  blocks, every mapping lies over blocks that may be mapped, and no virtual address is mapped twice.
\<close>

theorem pm_reach_invariant:
  assumes "pm_reach psz s"
  shows "fr_ok (pm_free s) \<and> fr_cover (pm_free s) = {x. x < psz \<and> pm_owner s x = None}
    \<and> (\<forall>x\<in>fr_cover (pm_auto s). automatic (pm_owner s x) \<and> x \<notin> pm_mapped s)
    \<and> (\<forall>x\<in>pm_mapped s. mappable (pm_owner s x)) \<and> (\<forall>v. map_count (pm_mappings s) v \<le> 1)"
proof -
  from pm_reach_ok [OF assms] have ok: "pm_ok psz s" and "single_mapped (pm_mappings s)" by simp_all
  then show ?thesis using pm_okD(3,4,7,8,10) [OF ok] unfolding single_mapped_def by blast
qed

theorem pm_reach_invariant_witness:
  "fr_cover (pm_free pm_example) = {x. x < 65536 \<and> pm_owner pm_example x = None}"
  using pm_reach_invariant [OF pm_example_reach] by blast

text \<open>
  C7. \<open>Alloc\<close> is first fit and complete: it returns the least address in the search window, at the
  alignment, where the length is free, gives exactly these bytes to the new block, and fails only
  where the length fits nowhere; its \<open>EXIT_IF\<close> is never reached.
\<close>

theorem pm_alloc_first_fit:
  assumes "pm_reach psz s" and "0 < len"
  shows "case pm_alloc psz ss se len al mt kind s of
      None \<Rightarrow> False
    | Some (s', None) \<Rightarrow> s' = s \<and> \<not> (\<exists>q. pm_fits psz ss se len al s q)
    | Some (s', Some p) \<Rightarrow> pm_fits psz ss se len al s p \<and> \<not> (\<exists>q<p. pm_fits psz ss se len al s q)
        \<and> pm_mappings s' = pm_mappings s
        \<and> pm_owner s' = (\<lambda>x. if x \<in> span p len then Some (kind, mt) else pm_owner s x)"
  using pm_alloc_ok [OF conjunct1 [OF pm_reach_ok [OF assms(1)]] assms(2),
      where ss = ss and se = se and al = al and mt = mt and kind = kind]
  by (auto split: option.splits simp: not_less)

theorem pm_alloc_first_fit_witness:
  "pm_fits 65536 0 65536 4096 16384 pm_example 32768
   \<and> \<not> (\<exists>q<32768. pm_fits 65536 0 65536 4096 16384 pm_example q)"
proof -
  have "pm_alloc 65536 0 65536 4096 16384 0 KDirect pm_example =
      Some (pm_example\<lparr>pm_physical := pm_physical pm_example @ [(32768, example_block 32768 4096 0 KDirect)],
        pm_free := [(12288, 4096), (20480, 12288), (36864, 28672)]\<rparr>, Some 32768)"
    by (simp add: pm_example_value pm_evals example_block_def)
  then show ?thesis
    using pm_alloc_first_fit [OF pm_example_reach, where ss = 0 and se = 65536 and len = 4096 and al = 16384 and mt = 0 and kind = KDirect] by simp
qed

text \<open>
  C8. \<open>Available\<close> reports a largest free range of the search window that starts at the alignment,
  and nothing only where not a single byte is available.
\<close>

theorem pm_available_maximal:
  assumes "pm_reach psz s" and "ss < two64"
  shows "case pm_available psz ss se al s of
      None \<Rightarrow> \<not> (\<exists>q n. 0 < n \<and> pm_fits psz ss se n al s q)
    | Some (p, n) \<Rightarrow> 0 < n \<and> pm_fits psz ss se n al s p \<and> \<not> (\<exists>q k. n < k \<and> pm_fits psz ss se k al s q)"
proof -
  note A = pm_available_ok [OF conjunct1 [OF pm_reach_ok [OF assms(1)]] assms(2), where se = se and al = al]
  show ?thesis
  proof (cases "pm_available psz ss se al s")
    case None
    then show ?thesis using A unfolding None option.case by blast
  next
    case (Some r)
    obtain p n where r: "r = (p, n)" by force
    have A': "0 < n" "pm_fits psz ss se n al s p" "\<forall>q k. 0 < k \<and> pm_fits psz ss se k al s q \<longrightarrow> k \<le> n"
      using A unfolding Some r option.case prod.case by blast+
    have "\<not> (\<exists>q k. n < k \<and> pm_fits psz ss se k al s q)"
      using A'(3) by (metis gr_implies_not0 leD neq0_conv)
    then show ?thesis unfolding Some r option.case prod.case using A'(1,2) by blast
  qed
qed

theorem pm_available_maximal_witness:
  "pm_fits 65536 0 65536 32768 32768 pm_example 32768
   \<and> \<not> (\<exists>q k. 32768 < k \<and> pm_fits 65536 0 65536 k 32768 pm_example q)"
proof -
  have "pm_available 65536 0 65536 32768 pm_example = Some (32768, 32768)"
    by (simp add: pm_available_def pm_example_value pm_evals)
  then show ?thesis using pm_available_maximal [OF pm_example_reach, where ss = 0 and se = 65536 and al = 32768] by simp
qed

text \<open>
  C9. \<open>Release\<close> succeeds exactly on a span inside one block that is not a pool's; then exactly the
  bytes of the span lose their owner and become free, whichever of the four ways the block is cut.
  On every other span it changes nothing.
\<close>

theorem pm_release_exact:
  assumes "pm_reach psz s" and "0 < len" and "a + len < two64" and "span a len \<inter> pm_mapped s = {}"
  shows "case pm_release a len s of
      (s', None) \<Rightarrow> s' = s \<and> \<not> releasable s a len
    | (s', Some r) \<Rightarrow> releasable s a len \<and> pm_mappings s' = pm_mappings s
        \<and> pm_owner s' = (\<lambda>x. if x \<in> span a len then None else pm_owner s x)
        \<and> fr_cover (pm_free s') = fr_cover (pm_free s) \<union> span a len"
proof (cases "releasable s a len")
  case False
  have ok: "pm_ok psz s" using pm_reach_ok [OF assms(1)] by simp
  show ?thesis using pm_release_no [OF pm_okD(2) [OF ok] assms(2,3) False] False by simp
next
  case True
  have ok: "pm_ok psz s" using pm_reach_ok [OF assms(1)] by simp
  obtain s' where s': "pm_release a len s = (s', Some (0, 0, GpuNoAccess))" "pm_ok psz s'"
    "pm_mappings s' = pm_mappings s" "pm_owner s' = (\<lambda>x. if x \<in> span a len then None else pm_owner s x)"
    by (rule pm_release_ok [OF ok assms(2) True assms(4)])
  have "x < psz" if "x \<in> span a len" for x
  proof -
    obtain k b where b: "map_of (pm_physical s) k = Some b" "k \<le> a" "a + len \<le> k + b_size b"
      using True by (auto simp: releasable_def)
    have bok: "blocks_ok (pm_physical s)" by (rule pm_okD(2) [OF ok])
    have "im_at b_size (pm_physical s) x = Some (k, b)"
      by (rule im_at_eqI [OF blocks_ok_im [OF bok]]) (use b that in simp_all)
    then have "pm_owner s x \<noteq> None"
      by (simp add: pm_owner_def im_view_at [OF blocks_ok_im [OF bok]])
    then show ?thesis by (rule pm_okD(5) [OF ok])
  qed
  then have "fr_cover (pm_free s') = fr_cover (pm_free s) \<union> span a len"
    unfolding pm_okD(4) [OF ok] pm_okD(4) [OF s'(2)] s'(4) by auto
  then show ?thesis using s' True by simp
qed

theorem pm_release_exact_witness:
  "fr_cover (pm_free (fst (pm_release 8192 4096 pm_example)))
   = fr_cover [(12288, 4096), (20480, 45056)] \<union> span 8192 4096"
proof -
  have "snd (pm_release 8192 4096 pm_example) = Some (0, 0, GpuNoAccess)"
    by (simp add: pm_release_def pm_example_value pm_evals example_block_def)
  moreover have "span 8192 4096 \<inter> pm_mapped pm_example = {}"
    by (auto simp: pm_mapped_def pm_example_value)
  ultimately show ?thesis
    using pm_release_exact [OF pm_example_reach, where len = 4096 and a = 8192]
    by (cases "pm_release 8192 4096 pm_example") (simp add: pm_example_value)
qed


text \<open>
  C10. \<open>Map\<close> succeeds exactly where every physical byte has an owner that may be mapped
  (\<open>CanMapDirect\<close>); then every address of the span translates to its physical byte with the given
  protection and nothing else changes, and unmapping the span gives back the old translations.
\<close>

theorem pm_map_then_unmap:
  fixes p :: prot and md :: vm_mode and g :: gpu_mode and nm :: "string option" and mt :: int
  assumes "pm_reach psz s" and "a < two64" and "v + len < two64"
    and "\<forall>x\<in>span v len. map_count (pm_mappings s) x = 0"
  shows "case pm_map v a len p md g nm mt s of (s1, r) \<Rightarrow>
    r = pm_can_map_direct a len s \<and> r = (0 < len \<and> a + len < two64 \<and> \<not> (\<exists>x\<in>span a len. \<not> mappable (pm_owner s x)))
    \<and> (\<forall>x. translates (pm_mappings s1) x =
         (if r \<and> x \<in> span v len then {(a + (x - v), p, md, g)} else translates (pm_mappings s) x))
    \<and> (if r then (\<exists>host. snd (pm_unmap v len want s1) = Some (g, host))
         \<and> (\<forall>x. translates (pm_mappings (fst (pm_unmap v len want s1))) x = translates (pm_mappings s) x)
       else s1 = s)"
proof -
  obtain s1 r where s1_r: "pm_map v a len p md g nm mt s = (s1, r)" by force
  from pm_reach_ok [OF assms(1)] have ok: "pm_ok psz s" and one: "single_mapped (pm_mappings s)" by simp_all
  note can = can_map_direct_ok [OF ok assms(2), of len]
  have empty: "translates (pm_mappings s) x = {}" if "x \<in> span v len" for x
    using that assms(4) by (intro translates_empty) blast
  show ?thesis
  proof (cases "pm_can_map_direct a len s")
    case False
    have "s1 = s \<and> \<not> r" using pm_map_no [OF ok assms(2) False, where v = v and p = p and md = md and g = g
        and nm = nm and mt = mt] by (simp add: s1_r)
    then show ?thesis using False can by (simp add: s1_r)
  next
    case True
    obtain s' b where m: "pm_map v a len p md g nm mt s = (s', True)" "pm_ok psz s'"
      "pm_mappings s' = pm_mappings s @ [b\<lparr>b_start := a, b_size := len, b_map_vaddr := v, b_map_size := len,
         b_host_vaddr := v, b_host_size := len, b_prot := p, b_mode := md, b_gpu := g, b_memory_type := mt,
         b_name := copy_virtual_range_name nm\<rparr>]" (is "_ = _ @ [?m]")
      by (rule pm_map_ok [OF ok assms(2,3) True])
    have s1: "s1 = s'" "r" using m(1) by (simp_all add: s1_r)
    have l: "0 < len" using True can by simp
    have tr: "translates (pm_mappings s1) x =
        (if x \<in> span v len then {(a + (x - v), p, md, g)} else translates (pm_mappings s) x)" for x
      using empty [of x] by (simp add: s1 m(3) map_target_def)
    have one1: "single_mapped (pm_mappings s1)"
      using one assms(4) by (simp add: single_mapped_def s1 m(3) del: in_span)
    have gm: "b_gpu m = g" if "m \<in> set (pm_mappings s1)" "span v len \<subseteq> v_span m" for m
    proof -
      have "v \<in> span v len" using l by simp
      then have "map_count (pm_mappings s) v = 0" "v \<in> v_span m" using assms(4) that(2) by blast+
      then have "m \<notin> set (pm_mappings s)" unfolding map_count_zero by blast
      then show ?thesis using that(1) by (auto simp: s1 m(3))
    qed
    have last: "?m \<in> set (pm_mappings s1)" "span v len \<subseteq> v_span ?m" by (simp_all add: s1 m(3))
    obtain s2 q where q: "pm_unmap v len want s1 = (s2, q)" by force
    note U = pm_unmap_ok [OF m(2) [folded s1(1)] one1 l assms(3), where want = want, unfolded q prod.case]
    have "q \<noteq> None" using U last by (auto split: option.splits)
    then obtain g' host where q': "q = Some (g', host)" by force
    have g': "g' = g" using U gm unfolding q' option.case prod.case by blast
    have "translates (pm_mappings s2) x = translates (pm_mappings s) x" for x
    proof -
      have "translates (pm_mappings s2) x = (if x \<in> span v len then {} else translates (pm_mappings s1) x)"
        using U unfolding q' option.case prod.case by blast
      then show ?thesis using tr [of x] empty [of x] by simp
    qed
    then show ?thesis using tr g' True can s1(2) by (simp add: q q' s1_r del: in_span)
  qed
qed

theorem pm_map_then_unmap_witness:
  "translates (pm_mappings (fst (pm_map 0x300000 4096 8192 0x03 ReadWrite GpuNoAccess None 10 pm_example))) 0x301000
   = {(8192, 0x03, ReadWrite, GpuNoAccess)}"
proof -
  have "snd (pm_map 0x300000 4096 8192 0x03 ReadWrite GpuNoAccess None 10 pm_example)"
    by (simp add: pm_example_value pm_evals example_block_def)
  moreover have "\<forall>x\<in>span 0x300000 8192. map_count (pm_mappings pm_example) x = 0"
    by (simp add: pm_example_value)
  ultimately show ?thesis
    using pm_map_then_unmap [OF pm_example_reach, where a = 4096 and v = "0x300000" and len = 8192
        and p = "0x03" and md = ReadWrite and g = GpuNoAccess and nm = None and mt = 10]
    by (cases "pm_map 0x300000 4096 8192 0x03 ReadWrite GpuNoAccess None 10 pm_example") simp
qed

text \<open>
  C11. \<open>Unmap\<close> succeeds exactly on a span inside one mapping; then exactly the span loses its
  translations, and the bytes of an automatic block that nothing maps any more are free for the next
  automatic mapping.
\<close>

theorem pm_unmap_exact:
  assumes "pm_reach psz s" and "0 < n" and "v + n < two64"
  shows "case pm_unmap v n want s of
      (s', None) \<Rightarrow> s' = s \<and> \<not> (\<exists>m\<in>set (pm_mappings s). span v n \<subseteq> v_span m)
    | (s', Some (g, host)) \<Rightarrow> pm_owner s' = pm_owner s
        \<and> (\<exists>m\<in>set (pm_mappings s). span v n \<subseteq> v_span m \<and> g = b_gpu m)
        \<and> (\<forall>x. translates (pm_mappings s') x = (if x \<in> span v n then {} else translates (pm_mappings s) x))
        \<and> (\<forall>x\<in>span v n. \<forall>(p, w)\<in>translates (pm_mappings s) x.
             automatic (pm_owner s p) \<and> p \<notin> pm_mapped s' \<longrightarrow> p \<in> fr_cover (pm_auto s'))"
proof -
  from pm_reach_ok [OF assms(1)] have ok: "pm_ok psz s" and one: "single_mapped (pm_mappings s)" by simp_all
  obtain s' q where q: "pm_unmap v n want s = (s', q)" by force
  note U = pm_unmap_ok [OF ok one assms(2,3), where want = want, unfolded q prod.case]
  show ?thesis
  proof (cases q)
    case None
    then show ?thesis using U unfolding q prod.case None option.case by blast
  next
    case (Some w)
    obtain g host where "w = (g, host)" by force
    then show ?thesis using U unfolding q prod.case Some option.case by blast
  qed
qed

theorem pm_unmap_exact_witness:
  "translates (pm_mappings (fst (pm_unmap 0x200000 4096 True pm_example))) 0x200000 = {}
   \<and> snd (pm_unmap 0x200000 4096 True pm_example) = Some (GpuReadWrite, 0x200000)"
proof -
  have "snd (pm_unmap 0x200000 4096 True pm_example) = Some (GpuReadWrite, 0x200000)"
    by (simp add: pm_unmap_def pm_example_value pm_evals contains_mapping_def host_release_if_last_def)
  then show ?thesis
    using pm_unmap_exact [OF pm_example_reach, where v = "0x200000" and n = 4096 and want = True]
    by (cases "pm_unmap 0x200000 4096 True pm_example") simp
qed

text \<open>
  C12. \<open>ProtectMapping\<close> keeps every translated address and which addresses are mapped, sets the
  protection and access modes inside the span and keeps them outside, however the mappings are cut.
\<close>

theorem pm_protect_exact:
  assumes "pm_reach psz s" and "0 < n" and "v + n < two64"
  shows "pm_owner (pm_protect_mapping v n p md g s) = pm_owner s
    \<and> map_count (pm_mappings (pm_protect_mapping v n p md g s)) x = map_count (pm_mappings s) x
    \<and> translates (pm_mappings (pm_protect_mapping v n p md g s)) x =
      (\<lambda>(a, w). (a, if x \<in> span v n then (p, md, g) else w)) ` translates (pm_mappings s) x"
  using pm_protect_ok [OF conjunct1 [OF pm_reach_ok [OF assms(1)]] assms(2,3)] by blast

theorem pm_protect_exact_witness:
  "translates (pm_mappings (pm_protect_mapping 0x200800 0x400 0x01 MRead GpuRead pm_example)) 0x200900
   = {(0x900, 0x01, MRead, GpuRead)}"
  using pm_protect_exact [OF pm_example_reach, where v = "0x200800" and n = "0x400" and p = "0x01" and md = MRead
      and g = GpuRead and x = "0x200900"]
  by (simp add: pm_example_value map_target_def)

text \<open>
  C13. \<open>ReserveAutomatic\<close> takes exactly the requested number of free automatic bytes, in disjoint
  ranges, or fails where there are fewer; \<open>RestoreAutomatic\<close> of these ranges undoes it.
\<close>

theorem pm_reserve_restore:
  assumes "pm_reach psz s" and "0 < n" and "n < two64"
  shows "case pm_reserve_automatic n [] s of
      (s', rs, False) \<Rightarrow> s' = s \<and> card (fr_cover (pm_auto s)) < n
    | (s', rs, True) \<Rightarrow> separate rs \<and> sum_list (map snd rs) = n \<and> ranges_bytes rs \<subseteq> fr_cover (pm_auto s)
        \<and> fr_cover (pm_auto s') = fr_cover (pm_auto s) - ranges_bytes rs
        \<and> fr_cover (pm_auto (pm_restore_automatic rs s')) = fr_cover (pm_auto s)"
proof -
  have ok: "pm_ok psz s" using pm_reach_ok [OF assms(1)] by simp
  obtain s' rs b where r: "pm_reserve_automatic n [] s = (s', rs, b)" by (metis prod_cases3)
  note R = pm_reserve_ok [OF ok assms(2,3), unfolded r prod.case]
  show ?thesis
  proof (cases b)
    case True
    have "(\<exists>au. s' = s\<lparr>pm_auto := au\<rparr>) \<and> pm_ok psz s' \<and> separate rs
        \<and> ranges_bytes rs \<subseteq> fr_cover (pm_auto s) \<and> sum_list (map snd rs) = n
        \<and> fr_cover (pm_auto s') = fr_cover (pm_auto s) - ranges_bytes rs"
      using R True by simp
    then obtain au where R': "s' = s\<lparr>pm_auto := au\<rparr>" "pm_ok psz s'" "separate rs"
      "ranges_bytes rs \<subseteq> fr_cover (pm_auto s)" "sum_list (map snd rs) = n"
      "fr_cover (pm_auto s') = fr_cover (pm_auto s) - ranges_bytes rs" by blast
    have o: "pm_owner s' = pm_owner s" "pm_mapped s' = pm_mapped s"
      by (simp_all add: R'(1) pm_owner_def pm_mapped_def)
    have "ranges_bytes rs \<inter> fr_cover (pm_auto s') = {}" unfolding R'(6) by blast
    moreover have "automatic (pm_owner s' x) \<and> x \<notin> pm_mapped s'" if "x \<in> ranges_bytes rs" for x
      using that R'(4) pm_okD(7,8) [OF ok, of x] unfolding o by blast
    ultimately have "fr_cover (pm_auto (pm_restore_automatic rs s')) = fr_cover (pm_auto s') \<union> ranges_bytes rs"
      using pm_restore_ok [OF R'(2,3)] by blast
    then have "fr_cover (pm_auto (pm_restore_automatic rs s')) = fr_cover (pm_auto s)"
      using Diff_partition [OF R'(4)] unfolding R'(6) by (simp only: Un_commute)
    then show ?thesis unfolding r prod.case using True R'(3-6) by (simp only: bool.case)
  next
    case False
    then show ?thesis unfolding r prod.case using R by simp
  qed
qed

theorem pm_reserve_restore_witness:
  "fr_cover (pm_auto (fst (pm_reserve_automatic 4096 [] pm_example))) = span 4096 8192 - span 4096 4096"
proof -
  have "snd (pm_reserve_automatic 4096 [] pm_example) = ([(4096, 4096)], True)"
    by (simp add: pm_reserve_automatic_def pm_example_value pm_evals)
  then show ?thesis
    using pm_reserve_restore [OF pm_example_reach, where n = 4096]
    by (cases "pm_reserve_automatic 4096 [] pm_example") (simp add: pm_example_value im_cover_def)
qed

text \<open>
  C14. The lookups agree with the state: \<open>Find\<close> of a physical address returns the block that owns it,
  \<open>Find\<close> of a virtual address the mapping that translates it, and \<open>FindMappings\<close> the mappings cut to
  the physical span, in the order of their virtual addresses.
\<close>

theorem pm_lookups_correct:
  assumes "pm_reach psz s" and "a + n < two64"
  shows "(case pm_find_block a False s of
      None \<Rightarrow> pm_owner s a = None
    | Some b \<Rightarrow> a \<in> span (b_start b) (b_size b) \<and> pm_owner s a = Some (b_kind b, b_memory_type b))
    \<and> (case pm_find_mapping v s of
      None \<Rightarrow> translates (pm_mappings s) v = {}
    | Some (va, k, p, md, g) \<Rightarrow> v \<in> span va k
        \<and> (\<exists>m\<in>set (pm_mappings s). va = b_map_vaddr m \<and> k = b_size m
            \<and> (b_start m + (v - va), p, md, g) \<in> translates (pm_mappings s) v))
    \<and> translates (pm_find_mappings a n s) v = {w \<in> translates (pm_mappings s) v. fst w \<in> span a n}
    \<and> sorted (map b_map_vaddr (pm_find_mappings a n s))"
proof -
  have ok: "pm_ok psz s" using pm_reach_ok [OF assms(1)] by simp
  have "translates (pm_find_mappings a n (s\<lparr>pm_mappings := pm_mappings s\<rparr>)) v
      = {w \<in> translates (pm_mappings s) v. fst w \<in> span a n}"
    by (rule pm_find_mappings_translates [OF pm_okD(9) [OF ok] assms(2)])
  then have "translates (pm_find_mappings a n s) v = {w \<in> translates (pm_mappings s) v. fst w \<in> span a n}"
    by simp
  moreover have "sorted (map b_map_vaddr (pm_find_mappings a n s))" by (simp add: pm_find_mappings_def)
  ultimately show ?thesis using pm_find_block_ok [OF ok] pm_find_mapping_ok [OF ok] by blast
qed

theorem pm_lookups_correct_witness:
  "translates (pm_find_mappings 0x100 0x200 pm_example) 0x200180
   = {w \<in> translates (pm_mappings pm_example) 0x200180. fst w \<in> span 0x100 0x200}
   \<and> (0x180, 0x33, ReadWrite, GpuReadWrite) \<in> translates (pm_mappings pm_example) 0x200180"
proof
  show "translates (pm_find_mappings 0x100 0x200 pm_example) 0x200180
      = {w \<in> translates (pm_mappings pm_example) 0x200180. fst w \<in> span 0x100 0x200}"
    by (rule conjunct1 [OF conjunct2 [OF conjunct2 [OF pm_lookups_correct [OF pm_example_reach]]]]) simp
qed (simp add: pm_example_value map_target_def)

end
