(* ===== verification/StringUtils.thy ===== *)
theory StringUtils
  imports Prelude
begin

text \<open>
  The string helpers of src/common/stringUtils.h.  A string is a list of characters; a position that
  \<open>find\<close> does not return (\<open>npos\<close>) is \<open>None\<close>.  The character classes are those of the C locale.
\<close>

subsection \<open>The searches of the standard library\<close>

fun find_prefix :: "'a list \<Rightarrow> 'a list \<Rightarrow> nat option" where
  "find_prefix sep [] = (if sep = [] then Some 0 else None)"
| "find_prefix sep (c # str) =
     (if take (length sep) (c # str) = sep then Some 0
      else map_option Suc (find_prefix sep str))"

definition str_find :: "'a list \<Rightarrow> 'a list \<Rightarrow> nat \<Rightarrow> nat option" where
  "str_find str sep start =
     (if start > length str then None else map_option ((+) start) (find_prefix sep (drop start str)))"

fun find_last_of :: "'a \<Rightarrow> 'a list \<Rightarrow> nat option" where
  "find_last_of c [] = None"
| "find_last_of c (d # str) =
     (case find_last_of c str of
        Some p \<Rightarrow> Some (Suc p)
      | None \<Rightarrow> if d = c then Some 0 else None)"

lemma find_prefix_Some:
  "find_prefix sep str = Some p \<Longrightarrow>
     p + length sep \<le> length str \<and> take (length sep) (drop p str) = sep"
proof (induction str arbitrary: p)
  case (Cons c str)
  show ?case
  proof (cases "take (length sep) (c # str) = sep")
    case True
    then have "length sep \<le> length (c # str)" by (metis length_take min.cobounded1)
    then show ?thesis using True Cons.prems by simp
  next
    case False
    then show ?thesis using Cons by auto
  qed
qed (simp split: if_splits)

lemma find_prefix_None:
  "find_prefix sep str = None \<Longrightarrow> q \<le> length str \<Longrightarrow> take (length sep) (drop q str) \<noteq> sep"
proof (induction str arbitrary: q)
  case (Cons c str)
  then show ?case by (cases q) (auto split: if_splits)
qed (auto split: if_splits)

lemma find_prefix_least:
  "\<lbrakk>find_prefix sep str = Some p; q < p\<rbrakk> \<Longrightarrow> take (length sep) (drop q str) \<noteq> sep"
proof (induction str arbitrary: p q)
  case (Cons c str)
  then show ?case by (cases q) (auto split: if_splits)
qed (simp split: if_splits)

lemma str_find_Some:
  assumes "str_find str sep start = Some p"
  shows "start \<le> p" "p + length sep \<le> length str" "take (length sep) (drop p str) = sep"
    "\<lbrakk>start \<le> q; q < p\<rbrakk> \<Longrightarrow> take (length sep) (drop q str) \<noteq> sep"
proof -
  obtain r where r: "find_prefix sep (drop start str) = Some r" "p = start + r" "start \<le> length str"
    using assms by (auto simp: str_find_def split: if_splits)
  show "start \<le> p" "p + length sep \<le> length str" "take (length sep) (drop p str) = sep"
    using find_prefix_Some [OF r(1)] r by (auto simp: add.commute)
  show "take (length sep) (drop q str) \<noteq> sep" if "start \<le> q" "q < p"
    using find_prefix_least [OF r(1), of "q - start"] that r by simp
qed

lemma str_find_None:
  "\<lbrakk>str_find str sep start = None; start \<le> q; q \<le> length str\<rbrakk> \<Longrightarrow> take (length sep) (drop q str) \<noteq> sep"
  using find_prefix_None [of sep "drop start str" "q - start"]
  by (auto simp: str_find_def split: if_splits)

lemma find_last_of_None: "find_last_of c str = None \<longleftrightarrow> c \<notin> set str" for c
proof (induction str)
  case (Cons d str)
  then show ?case by (cases "find_last_of c str") auto
qed simp

lemma find_last_of_Some:
  "find_last_of c str = Some p \<Longrightarrow> p < length str \<and> str ! p = c \<and> c \<notin> set (drop (Suc p) str)"
proof (induction str arbitrary: p)
  case (Cons d str)
  show ?case
  proof (cases "find_last_of c str")
    case None
    then show ?thesis using Cons.prems find_last_of_None [of c str] by (simp split: if_splits)
  next
    case (Some q)
    then show ?thesis using Cons by auto
  qed
qed simp

subsection \<open>The helpers\<close>

definition is_space :: "char \<Rightarrow> bool" where
  "is_space c = (let n = (of_char c :: nat) in n = 32 \<or> 9 \<le> n \<and> n \<le> 13)"

definition tolower :: "char \<Rightarrow> char" where
  "tolower c = (let n = (of_char c :: nat) in if 65 \<le> n \<and> n \<le> 90 then char_of (n + 32) else c)"

fun equal_no_case_loop :: "string \<Rightarrow> string \<Rightarrow> bool" where
  "equal_no_case_loop (l # lhs) (r # rhs) =
     (if tolower l \<noteq> tolower r then False else equal_no_case_loop lhs rhs)"
| "equal_no_case_loop _ _ = True"

definition equal_no_case :: "string \<Rightarrow> string \<Rightarrow> bool" where
  "equal_no_case lhs rhs = (if length lhs \<noteq> length rhs then False else equal_no_case_loop lhs rhs)"

definition to_lower :: "string \<Rightarrow> string" where
  "to_lower str = map tolower str"

text \<open>\<open>None\<close> for the count \<open>npos\<close>.\<close>

definition mid :: "string \<Rightarrow> nat \<Rightarrow> nat option \<Rightarrow> string" where
  "mid str first count =
     (if first \<ge> length str then []
      else case count of None \<Rightarrow> drop first str | Some n \<Rightarrow> take n (drop first str))"

definition remove_last :: "string \<Rightarrow> nat \<Rightarrow> string" where
  "remove_last str count = (if count \<ge> length str then [] else take (length str - count) str)"

definition remove_first :: "string \<Rightarrow> nat \<Rightarrow> string" where
  "remove_first str count = (if count \<ge> length str then [] else drop count str)"

definition replace_char :: "string \<Rightarrow> char \<Rightarrow> char \<Rightarrow> string" where
  "replace_char str old_char new_char = map (\<lambda>c. if c = old_char then new_char else c) str"

text \<open>The loop of \<open>ReplaceStr\<close>, which edits the text in place.\<close>

function replace_loop :: "string \<Rightarrow> string \<Rightarrow> string \<Rightarrow> nat \<Rightarrow> string" where
  "replace_loop str old_str new_str pos =
     (if old_str = [] then str
      else case str_find str old_str pos of
             None \<Rightarrow> str
           | Some p \<Rightarrow> replace_loop (take p str @ new_str @ drop (p + length old_str) str) old_str new_str
                        (p + length new_str))"
  by pat_completeness auto
termination
proof (relation "measure (\<lambda>(str, old_str, new_str, pos). length str - pos)", goal_cases)
  case (2 str old_str new_str pos p)
  have "0 < length old_str" "p + length old_str \<le> length str" "pos \<le> p"
    using 2 str_find_Some [of str old_str pos p] by auto
  then have "length str - (p + length old_str) < length str - pos" by linarith
  then show ?case by (simp add: add.commute)
qed simp

declare replace_loop.simps [simp del]

definition replace_str :: "string \<Rightarrow> string \<Rightarrow> string \<Rightarrow> string" where
  "replace_str str old_str new_str =
     (if old_str = [] then str else replace_loop str old_str new_str 0)"

definition directory_without_filename :: "string \<Rightarrow> string" where
  "directory_without_filename str =
     (case find_last_of CHR ''/'' str of None \<Rightarrow> [] | Some pos \<Rightarrow> take (pos + 1) str)"

definition filename_without_directory :: "string \<Rightarrow> string" where
  "filename_without_directory str =
     (case find_last_of CHR ''/'' str of None \<Rightarrow> str | Some pos \<Rightarrow> drop (pos + 1) str)"

definition fix_filename_slash :: "string \<Rightarrow> string" where
  "fix_filename_slash str = replace_char str CHR 0x5C CHR ''/''"

definition fix_directory_slash :: "string \<Rightarrow> string" where
  "fix_directory_slash str =
     (let ret = fix_filename_slash str in
      if \<not> (ret \<noteq> [] \<and> last ret = CHR ''/'') then ret @ ''/'' else ret)"

text \<open>The loop of \<open>Split\<close>: the pieces from the given start on.\<close>

function split_loop :: "string \<Rightarrow> string \<Rightarrow> bool \<Rightarrow> nat \<Rightarrow> string list" where
  "split_loop str sep keep_empty start =
     (if sep = [] then []
      else case str_find str sep start of
             None \<Rightarrow> if keep_empty \<or> start \<noteq> length str then [drop start str] else []
           | Some pos \<Rightarrow>
               (if keep_empty \<or> pos \<noteq> start then [take (pos - start) (drop start str)] else [])
               @ split_loop str sep keep_empty (pos + length sep))"
  by pat_completeness auto
termination
proof (relation "measure (\<lambda>(str, sep, keep_empty, start). length str - start)", goal_cases)
  case (2 str sep keep_empty start pos)
  have "0 < length sep" "pos + length sep \<le> length str" "start \<le> pos"
    using 2 str_find_Some [of str sep start pos] by auto
  then have "length str - (pos + length sep) < length str - start" by linarith
  then show ?case by simp
qed simp

declare split_loop.simps [simp del]

definition split_str :: "string \<Rightarrow> string \<Rightarrow> bool \<Rightarrow> string list" where
  "split_str str sep keep_empty =
     (if sep = [] then map (\<lambda>c. [c]) str else split_loop str sep keep_empty 0)"

definition split_char :: "string \<Rightarrow> char \<Rightarrow> bool \<Rightarrow> string list" where
  "split_char str sep keep_empty = split_str str [sep] keep_empty"

text \<open>
  \<open>std::from_chars\<close> for an \<open>int32_t\<close> that starts at 0: an optional minus sign and the longest run of
  digits; the value stays 0 where there is no digit or the number does not fit.
\<close>

definition digit_of :: "int \<Rightarrow> char \<Rightarrow> int option" where
  "digit_of base c =
     (let n = int (of_char c);
          d = (if 48 \<le> n \<and> n \<le> 57 then n - 48 else if 97 \<le> n \<and> n \<le> 122 then n - 87
               else if 65 \<le> n \<and> n \<le> 90 then n - 55 else 99)
      in if d < base then Some d else None)"

fun read_digits :: "int \<Rightarrow> int \<Rightarrow> string \<Rightarrow> int" where
  "read_digits base n [] = n"
| "read_digits base n (c # cs) =
     (case digit_of base c of None \<Rightarrow> n | Some d \<Rightarrow> read_digits base (n * base + d) cs)"

definition to_int32 :: "string \<Rightarrow> int \<Rightarrow> int" where
  "to_int32 str base =
     (let negative = (case str of c # _ \<Rightarrow> c = CHR ''-'' | [] \<Rightarrow> False);
          n = read_digits base 0 (if negative then tl str else str);
          value = (if negative then - n else n)
      in if - 2147483648 \<le> value \<and> value < 2147483648 then value else 0)"

subsection \<open>Splitting and joining\<close>

fun join :: "'a list \<Rightarrow> 'a list list \<Rightarrow> 'a list" where
  "join sep [] = []"
| "join sep [x] = x"
| "join sep (x # y # ys) = x @ sep @ join sep (y # ys)"

lemma join_Cons: "xs \<noteq> [] \<Longrightarrow> join sep (x # xs) = x @ sep @ join sep xs"
  by (cases xs) simp_all

lemma split_loop_join:
  assumes "sep \<noteq> []" and "start \<le> length str"
  shows "split_loop str sep True start \<noteq> [] \<and> join sep (split_loop str sep True start) = drop start str"
  using assms
proof (induction str sep True start rule: split_loop.induct)
  case (1 str sep start)
  show ?case
  proof (cases "str_find str sep start")
    case None
    then show ?thesis using 1 by (simp add: split_loop.simps [of str sep True start])
  next
    case (Some pos)
    note f = str_find_Some [OF Some]
    have IH: "split_loop str sep True (pos + length sep) \<noteq> []"
      "join sep (split_loop str sep True (pos + length sep)) = drop (pos + length sep) str"
      using "1.hyps" [OF _ Some] "1.prems" f(2) by simp_all
    have "drop pos str = sep @ drop (pos + length sep) str"
      using append_take_drop_id [of "length sep" "drop pos str"] f(3) by (simp add: add.commute)
    moreover have "drop start str = take (pos - start) (drop start str) @ drop pos str"
      using append_take_drop_id [of "pos - start" "drop start str"] f(1) by simp
    ultimately show ?thesis
      using Some "1.prems" IH by (simp add: split_loop.simps [of str sep True start] join_Cons)
  qed
qed

lemma split_loop_filter:
  assumes "sep \<noteq> []" and "start \<le> length str"
  shows "split_loop str sep False start = filter (\<lambda>x. x \<noteq> []) (split_loop str sep True start)"
  using assms
proof (induction str sep True start rule: split_loop.induct)
  case (1 str sep start)
  show ?case
  proof (cases "str_find str sep start")
    case None
    then show ?thesis using 1 by (simp add: split_loop.simps [of str sep _ start])
  next
    case (Some pos)
    note f = str_find_Some [OF Some]
    have IH: "split_loop str sep False (pos + length sep)
        = filter (\<lambda>x. x \<noteq> []) (split_loop str sep True (pos + length sep))"
      using "1.hyps" [OF _ Some] "1.prems" f(2) by simp
    have ne: "take (pos - start) (drop start str) = [] \<longleftrightarrow> pos = start"
      using f(1,2) "1.prems" by auto
    show ?thesis
      using Some "1.prems" IH ne f(1) by (simp add: split_loop.simps [of str sep _ start])
  qed
qed

text \<open>No piece holds the separator.\<close>

definition occurs :: "'a list \<Rightarrow> 'a list \<Rightarrow> bool" where
  "occurs sep xs \<longleftrightarrow> (\<exists>q. q + length sep \<le> length xs \<and> take (length sep) (drop q xs) = sep)"

lemma split_loop_pieces:
  assumes "sep \<noteq> []" and "start \<le> length str" and "x \<in> set (split_loop str sep k start)"
  shows "\<not> occurs sep x"
  using assms
proof (induction str sep k start arbitrary: x rule: split_loop.induct)
  case (1 str sep k start)
  show ?case
  proof (cases "str_find str sep start")
    case None
    then have x: "x = drop start str" using 1 by (simp add: split_loop.simps [of str sep _ start] split: if_splits)
    show ?thesis
      unfolding occurs_def x using str_find_None [OF None, of "start + q" for q] "1.prems"(2)
      by (auto simp: add.commute)
  next
    case (Some pos)
    note f = str_find_Some [OF Some]
    have "x = take (pos - start) (drop start str) \<or> x \<in> set (split_loop str sep k (pos + length sep))"
      using "1.prems" Some by (auto simp: split_loop.simps [of str sep _ start] split: if_splits)
    then show ?thesis
    proof
      assume x: "x = take (pos - start) (drop start str)"
      have "take (length sep) (drop q x) \<noteq> sep" if "q + length sep \<le> length x" for q
      proof -
        have len: "length x = pos - start" using x f(2) "1.prems" f(1) by simp
        have "0 < length sep" using "1.prems" by simp
        then have "start + q < pos" using that len by linarith
        then have "take (length sep) (drop (start + q) str) \<noteq> sep" using f(4) [of "start + q"] by simp
        moreover have "take (length sep) (drop q x) = take (length sep) (drop (start + q) str)"
          using that len unfolding x by (simp add: drop_take add.commute min_def)
        ultimately show ?thesis by simp
      qed
      then show ?thesis by (auto simp: occurs_def)
    next
      assume "x \<in> set (split_loop str sep k (pos + length sep))"
      then show ?thesis using "1.IH" [OF _ Some] "1.prems"(1) f(2) by blast
    qed
  qed
qed


subsection \<open>Properties\<close>

text \<open>
  \<open>Split\<close> is exact: putting the separator back between the pieces gives the text, no piece
  holds the separator, and without \<open>keep_empty\<close> only the empty pieces are missing.
\<close>

theorem split_join:
  assumes "sep \<noteq> []"
  shows "join sep (split_str str sep True) = str
    \<and> split_str str sep False = filter (\<lambda>x. x \<noteq> []) (split_str str sep True)
    \<and> \<not> (\<exists>x\<in>set (split_str str sep True). occurs sep x)"
  using split_loop_join [OF assms, of 0 str] split_loop_filter [OF assms, of 0 str]
    split_loop_pieces [OF assms, of 0 str] assms
  by (auto simp: split_str_def)

theorem split_join_witness:
  "join '', '' (split_str ''a, , bc'' '', '' True) = ''a, , bc''"
  using split_join [of "'', ''" "''a, , bc''"] by simp

text \<open>
  \<open>DirectoryWithoutFilename\<close> and \<open>FilenameWithoutDirectory\<close> cut a path in two at its last slash.
\<close>

theorem directory_filename:
  "directory_without_filename path @ filename_without_directory path = path
   \<and> CHR ''/'' \<notin> set (filename_without_directory path)
   \<and> (directory_without_filename path = [] \<or> last (directory_without_filename path) = CHR ''/'')"
proof (cases "find_last_of CHR ''/'' path")
  case None
  then show ?thesis using find_last_of_None [of "CHR ''/''" path]
    by (simp add: directory_without_filename_def filename_without_directory_def)
next
  case (Some p)
  have "last (take (Suc p) path) = CHR ''/''"
    using find_last_of_Some [OF Some] by (simp add: take_Suc_conv_app_nth)
  then show ?thesis using Some find_last_of_Some [OF Some]
    by (simp add: directory_without_filename_def filename_without_directory_def)
qed

end
