(* ===== verification/DateTime.thy ===== *)
theory DateTime
  imports StringUtils "HOL-Library.Signed_Division"
begin

text \<open>
  Calendar dates and times of day (src/common/dateTime.h, src/common/dateTime.cpp).  A \<open>Date\<close> is its
  one field, a Julian day number, a \<open>Time\<close> its one field, the milliseconds since midnight; a
  result of type \<open>int\<close> or \<open>jd_t\<close> that can overflow is brought back to 32 bits by \<open>i32\<close>.  \<open>fmt::format\<close>, which is a
  library outside the sources, is the parameter \<open>pad\<close>: the decimal digits of a number, padded with
  zeros to a width.
\<close>

definition i32 :: "int \<Rightarrow> int" where
  "i32 x = (x + 2147483648) mod 4294967296 - 2147483648"

abbreviation fits32 :: "int \<Rightarrow> bool" where
  "fits32 x \<equiv> - 2147483648 \<le> x \<and> x < 2147483648"

lemma i32_id [simp]: "fits32 x \<Longrightarrow> i32 x = x"
  by (simp add: i32_def)

abbreviation DATE_JD_INVALID :: int where
  "DATE_JD_INVALID \<equiv> - 2147483648"

abbreviation TIME_MS_INVALID :: int where
  "TIME_MS_INVALID \<equiv> - 1"

abbreviation TIME_MS_IN_DAY :: int where
  "TIME_MS_IN_DAY \<equiv> 86400000"

subsection \<open>Days\<close>

text \<open>
  \<open>FloorDiv<jd_t>\<close>, with the parameters as they are after the signs are changed.  The arguments and
  results are of the type \<open>jd_t\<close>, an \<open>int32_t\<close>: every expression is brought back to 32 bits (once for a
  whole sum, as the wrap-around of its parts is the same).
\<close>

definition floor_div :: "int \<Rightarrow> int \<Rightarrow> int" where
  "floor_div a b =
     (if b < 0 then (if a < 0 then i32 (a sdiv b)
                     else i32 (- a - (if - a < 0 then - b - 1 else 0)) sdiv i32 (- b))
      else i32 (a - (if a < 0 then b - 1 else 0)) sdiv b)"

definition ymd_to_jd :: "int \<Rightarrow> int \<Rightarrow> int \<Rightarrow> int" where
  "ymd_to_jd year month day =
     (let t_year = (if year < 0 then year + 1 else year);
          a = floor_div (i32 (14 - month)) 12;
          y = i32 (t_year + 4800 - a);
          m = i32 (month + 12 * a - 3)
      in i32 (day + floor_div (i32 (153 * m + 2)) 5 + 365 * y + floor_div y 4 - floor_div y 100
           + floor_div y 400 - 32045))"

definition jd_to_ymd :: "int \<Rightarrow> int \<times> int \<times> int" where
  "jd_to_ymd jd =
     (let a = i32 (jd + 32044);
          b = floor_div (i32 (4 * a + 3)) 146097;
          c = i32 (a - floor_div (i32 (146097 * b)) 4);
          d = floor_div (i32 (4 * c + 3)) 1461;
          e = i32 (c - floor_div (i32 (1461 * d)) 4);
          m = floor_div (i32 (5 * e + 2)) 153;
          t_day = i32 (e - floor_div (i32 (153 * m + 2)) 5 + 1);
          t_month = i32 (m + 3 - 12 * floor_div m 10);
          t_year = i32 (100 * b + d - 4800 + floor_div m 10)
      in (if t_year \<le> 0 then i32 (t_year - 1) else t_year, t_month, t_day))"

definition days_in_month :: "int \<Rightarrow> int" where
  "days_in_month month =
     [0, 31, 28, 31, 30, 31, 30, 31, 31, 30, 31, 30, 31]
       ! nat (if month < 1 \<or> month > 12 then 0 else month)"

definition is_leap_year :: "int \<Rightarrow> bool" where
  "is_leap_year year =
     (let y = (if year < 1 then year + 1 else year)
      in y smod 4 = 0 \<and> y smod 100 \<noteq> 0 \<or> y smod 400 = 0)"

definition days_in_year :: "int \<Rightarrow> int" where
  "days_in_year year = (if is_leap_year year then 366 else 365)"

definition date_is_valid :: "int \<Rightarrow> int \<Rightarrow> int \<Rightarrow> bool" where
  "date_is_valid year month day =
     (if year = 0 then False
      else day \<ge> 1 \<and> (day \<le> days_in_month month \<or> day = 29 \<and> month = 2 \<and> is_leap_year year))"

definition date_set :: "int \<Rightarrow> int \<Rightarrow> int \<Rightarrow> int" where
  "date_set year month day =
     (if date_is_valid year month day then ymd_to_jd year month day else DATE_JD_INVALID)"

definition date_get :: "int \<Rightarrow> int \<times> int \<times> int" where
  "date_get jd = (if jd = DATE_JD_INVALID then (0, 0, 0) else jd_to_ymd jd)"

definition date_year :: "int \<Rightarrow> int" where
  "date_year jd = (if jd = DATE_JD_INVALID then 0 else case jd_to_ymd jd of (year, _, _) \<Rightarrow> year)"

definition date_month :: "int \<Rightarrow> int" where
  "date_month jd = (if jd = DATE_JD_INVALID then 0 else case jd_to_ymd jd of (_, month, _) \<Rightarrow> month)"

definition date_day :: "int \<Rightarrow> int" where
  "date_day jd = (if jd = DATE_JD_INVALID then 0 else case jd_to_ymd jd of (_, _, day) \<Rightarrow> day)"

definition date_is_leap_year :: "int \<Rightarrow> bool" where
  "date_is_leap_year jd =
     (if jd = DATE_JD_INVALID then False else case jd_to_ymd jd of (year, _, _) \<Rightarrow> is_leap_year year)"

definition date_days_in_month :: "int \<Rightarrow> int" where
  "date_days_in_month jd =
     (if jd = DATE_JD_INVALID then 0
      else case jd_to_ymd jd of (year, month, _) \<Rightarrow>
             if month = 2 \<and> is_leap_year year then 29 else days_in_month month)"

definition date_days_in_year :: "int \<Rightarrow> int" where
  "date_days_in_year jd =
     (if jd = DATE_JD_INVALID then 0 else if date_is_leap_year jd then 366 else 365)"

definition day_of_week :: "int \<Rightarrow> int" where
  "day_of_week jd =
     (if jd = DATE_JD_INVALID then 0
      else if jd \<ge> 0 then jd smod 7 + 1 else (jd + 1) smod 7 + 7)"

definition day_of_year :: "int \<Rightarrow> int" where
  "day_of_year jd = (if jd = DATE_JD_INVALID then 0 else i32 (jd - ymd_to_jd (date_year jd) 1 1 + 1))"

definition quarter_of_year :: "int \<Rightarrow> int" where
  "quarter_of_year jd = (if jd = DATE_JD_INVALID then 0 else (date_month jd - 1) sdiv 3 + 1)"

subsection \<open>Times of day\<close>

definition hms_to_ms :: "int \<Rightarrow> int \<Rightarrow> int \<Rightarrow> int \<Rightarrow> int" where
  "hms_to_ms hour minute second msec = hour * 60 * 60 * 1000 + minute * 60 * 1000 + second * 1000 + msec"

definition ms_to_hms :: "int \<Rightarrow> int \<times> int \<times> int \<times> int" where
  "ms_to_hms ms = (ms sdiv (60 * 60 * 1000), (ms smod (60 * 60 * 1000)) sdiv (60 * 1000),
     (ms sdiv 1000) smod 60, ms smod 1000)"

definition time_is_invalid :: "int \<Rightarrow> bool" where
  "time_is_invalid ms \<longleftrightarrow> ms < 0 \<or> ms \<ge> TIME_MS_IN_DAY"

definition time_of_msec :: "int \<Rightarrow> int" where
  "time_of_msec msec = (if msec < 0 \<or> msec \<ge> TIME_MS_IN_DAY then TIME_MS_INVALID else msec)"

definition time_is_valid :: "int \<Rightarrow> int \<Rightarrow> int \<Rightarrow> int \<Rightarrow> bool" where
  "time_is_valid hour minute second msec \<longleftrightarrow>
     (hour \<ge> 0 \<and> hour \<le> 23) \<and> (minute \<ge> 0 \<and> minute \<le> 59)
       \<and> (second \<ge> 0 \<and> second \<le> 59) \<and> (msec \<ge> 0 \<and> msec \<le> 999)"

definition time_set :: "int \<Rightarrow> int \<Rightarrow> int \<Rightarrow> int \<Rightarrow> int" where
  "time_set hour minute second msec =
     (if time_is_valid hour minute second msec then hms_to_ms hour minute second msec else TIME_MS_INVALID)"

definition time_get :: "int \<Rightarrow> int \<times> int \<times> int \<times> int" where
  "time_get ms = (if time_is_invalid ms then (- 1, - 1, - 1, - 1) else ms_to_hms ms)"

definition hour24 :: "int \<Rightarrow> int" where
  "hour24 ms = (if time_is_invalid ms then - 1 else case ms_to_hms ms of (h, _, _, _) \<Rightarrow> h)"

definition hour12 :: "int \<Rightarrow> int" where
  "hour12 ms = (if time_is_invalid ms then - 1
     else case ms_to_hms ms of (h0, _, _, _) \<Rightarrow> let h = h0 smod 12 in if h = 0 then 12 else h)"

definition time_minute :: "int \<Rightarrow> int" where
  "time_minute ms = (if time_is_invalid ms then - 1 else case ms_to_hms ms of (_, m, _, _) \<Rightarrow> m)"

definition time_second :: "int \<Rightarrow> int" where
  "time_second ms = (if time_is_invalid ms then - 1 else case ms_to_hms ms of (_, _, s, _) \<Rightarrow> s)"

definition time_msec :: "int \<Rightarrow> int" where
  "time_msec ms = (if time_is_invalid ms then - 1 else case ms_to_hms ms of (_, _, _, m) \<Rightarrow> m)"

definition is_am :: "int \<Rightarrow> bool" where
  "is_am ms = (if time_is_invalid ms then False else case ms_to_hms ms of (h, _, _, _) \<Rightarrow> h < 12)"

definition is_pm :: "int \<Rightarrow> bool" where
  "is_pm ms = (if time_is_invalid ms then False else case ms_to_hms ms of (h, _, _, _) \<Rightarrow> h \<ge> 12)"

text \<open>
  \<open>operator+\<close> and \<open>operator-\<close>, and the assignments \<open>+=\<close> and \<open>-=\<close>; \<open>None\<close> is the failed \<open>EXIT_IF\<close>.
\<close>

definition time_wrap :: "int \<Rightarrow> int" where
  "time_wrap r0 =
     (let r = (if r0 < 0 then r0 + TIME_MS_IN_DAY else r0)
      in if r \<ge> TIME_MS_IN_DAY then r - TIME_MS_IN_DAY else r)"

definition time_plus :: "int \<Rightarrow> int \<Rightarrow> int option" where
  "time_plus ms secs =
     (let ms_secs = i32 (secs * 1000) in
      if ms_secs > TIME_MS_IN_DAY \<or> ms_secs < - TIME_MS_IN_DAY then None
      else if time_is_invalid ms then Some TIME_MS_INVALID
      else Some (time_of_msec (time_wrap (ms + ms_secs))))"

definition time_minus :: "int \<Rightarrow> int \<Rightarrow> int option" where
  "time_minus ms secs =
     (let ms_secs = i32 (secs * 1000) in
      if ms_secs > TIME_MS_IN_DAY \<or> ms_secs < - TIME_MS_IN_DAY then None
      else if time_is_invalid ms then Some TIME_MS_INVALID
      else Some (time_of_msec (time_wrap (ms - ms_secs))))"

definition time_plus_assign :: "int \<Rightarrow> int \<Rightarrow> int option" where
  "time_plus_assign ms secs =
     (let ms_secs = i32 (secs * 1000) in
      if ms_secs > TIME_MS_IN_DAY \<or> ms_secs < - TIME_MS_IN_DAY then None
      else Some (if \<not> time_is_invalid ms then time_wrap (ms + ms_secs) else ms))"

definition time_minus_assign :: "int \<Rightarrow> int \<Rightarrow> int option" where
  "time_minus_assign ms secs =
     (let ms_secs = i32 (secs * 1000) in
      if ms_secs > TIME_MS_IN_DAY \<or> ms_secs < - TIME_MS_IN_DAY then None
      else Some (if \<not> time_is_invalid ms then time_wrap (ms - ms_secs) else ms))"

subsection \<open>Dates and times as text\<close>

text \<open>
  One step of the loop of \<open>ToString\<close>: the text added and the characters of the format it takes, no
  match, or the failed \<open>EXIT_IF\<close> of a year outside 0 to 9999.
\<close>

datatype format_result = FmtExit | FmtNone | FmtText string nat

definition month_short :: "string list" where
  "month_short = [''Jan'', ''Feb'', ''Mar'', ''Apr'', ''May'', ''Jun'', ''Jul'', ''Aug'', ''Sep'', ''Oct'',
     ''Nov'', ''Dec'']"

definition month_long :: "string list" where
  "month_long = [''January'', ''February'', ''March'', ''April'', ''May'', ''June'', ''July'', ''August'',
     ''September'', ''October'', ''November'', ''December'']"

definition day_short :: "string list" where
  "day_short = [''Mon'', ''Tue'', ''Wed'', ''Thu'', ''Fri'', ''Sat'', ''Sun'']"

definition day_long :: "string list" where
  "day_long = [''Monday'', ''Tuesday'', ''Wednesday'', ''Thursday'', ''Friday'', ''Saturday'', ''Sunday'']"

definition format_year :: "(nat \<Rightarrow> int \<Rightarrow> string) \<Rightarrow> int \<Rightarrow> nat \<Rightarrow> nat \<Rightarrow> format_result" where
  "format_year pad jd first taken =
     (let y = date_year jd in
      if y < 0 \<or> y > 9999 then FmtExit else FmtText (mid (pad 4 y) first None) taken)"

definition format_date :: "(nat \<Rightarrow> int \<Rightarrow> string) \<Rightarrow> int \<Rightarrow> string \<Rightarrow> nat \<Rightarrow> format_result" where
  "format_date pad jd f i =
     (let at = (\<lambda>w. take (length w) (drop i f) = w) in
      if at ''YYYY'' then format_year pad jd 0 4
      else if at ''YYY'' then format_year pad jd 1 3
      else if at ''YY'' then format_year pad jd 2 2
      else if at ''Y'' then format_year pad jd 3 1
      else if at ''Q'' then FmtText (pad 0 (quarter_of_year jd)) 1
      else if at ''MM'' then FmtText (pad 2 (date_month jd)) 2
      else if at ''MONTH'' then FmtText (month_long ! nat (date_month jd - 1)) 5
      else if at ''MON'' then FmtText (month_short ! nat (date_month jd - 1)) 3
      else if at ''DDD'' then FmtText (pad 3 (day_of_year jd)) 3
      else if at ''DD'' then FmtText (pad 2 (date_day jd)) 2
      else if at ''DY'' then FmtText (day_short ! nat (day_of_week jd - 1)) 2
      else if at ''DAY'' then FmtText (day_long ! nat (day_of_week jd - 1)) 3
      else if at ''D'' then FmtText (pad 0 (day_of_week jd)) 1
      else if at ''J'' then FmtText (pad 0 jd) 1
      else FmtNone)"

definition format_time :: "(nat \<Rightarrow> int \<Rightarrow> string) \<Rightarrow> int \<Rightarrow> string \<Rightarrow> nat \<Rightarrow> format_result" where
  "format_time pad ms f i =
     (let at = (\<lambda>w. take (length w) (drop i f) = w) in
      if at ''HH24'' then FmtText (pad 2 (hour24 ms)) 4
      else if at ''HH12'' then FmtText (pad 2 (hour12 ms)) 4
      else if at ''HH'' then FmtText (pad 2 (hour12 ms)) 2
      else if at ''MI'' then FmtText (pad 2 (time_minute ms)) 2
      else if at ''SSSSS'' then FmtText (pad 5 (ms sdiv 1000)) 5
      else if at ''SS'' then FmtText (pad 2 (time_second ms)) 2
      else if at ''FFF'' then FmtText (pad 3 (time_msec ms)) 3
      else if at ''AM'' then FmtText (if is_am ms then ''AM'' else ''PM'') 2
      else if at ''A.M.'' then FmtText (if is_am ms then ''A.M.'' else ''P.M.'') 4
      else FmtNone)"

text \<open>The loop over the format, at index \<open>i\<close>; its own \<open>i++\<close> is part of the characters taken.\<close>

function format_loop :: "(string \<Rightarrow> nat \<Rightarrow> format_result) \<Rightarrow> string \<Rightarrow> nat \<Rightarrow> string option" where
  "format_loop step f i =
     (if \<not> i < length f then Some []
      else case step f i of
             FmtExit \<Rightarrow> None
           | FmtText t n \<Rightarrow> map_option ((@) t) (format_loop step f (i + max 1 n))
           | FmtNone \<Rightarrow> map_option ((#) (f ! i)) (format_loop step f (i + 1)))"
  by pat_completeness auto
termination by (relation "measure (\<lambda>(step, f, i). length f - i)") auto

declare format_loop.simps [simp del]

definition date_to_string :: "(nat \<Rightarrow> int \<Rightarrow> string) \<Rightarrow> string \<Rightarrow> int \<Rightarrow> string option" where
  "date_to_string pad f jd = (if jd = DATE_JD_INVALID then Some [] else format_loop (format_date pad jd) f 0)"

definition time_to_string :: "(nat \<Rightarrow> int \<Rightarrow> string) \<Rightarrow> string \<Rightarrow> int \<Rightarrow> string option" where
  "time_to_string pad f ms = (if time_is_invalid ms then Some [] else format_loop (format_time pad ms) f 0)"

definition date_from_macros :: "string \<Rightarrow> int" where
  "date_from_macros date =
     (let lst = split_char date CHR '' '' False in
      if length lst \<noteq> 3 then DATE_JD_INVALID
      else case find (\<lambda>i. lst ! 0 = month_short ! i) [0 ..< 12] of
             None \<Rightarrow> DATE_JD_INVALID
           | Some i \<Rightarrow> date_set (to_int32 (lst ! 2) 10) (int i + 1) (to_int32 (lst ! 1) 10))"

subsection \<open>Date and time together\<close>

record datetime =
  dt_date :: int
  dt_time :: int

definition dt_is_invalid :: "datetime \<Rightarrow> bool" where
  "dt_is_invalid dt \<longleftrightarrow> dt_date dt = DATE_JD_INVALID \<or> time_is_invalid (dt_time dt)"

definition dt_less :: "datetime \<Rightarrow> datetime \<Rightarrow> bool" where
  "dt_less a b \<longleftrightarrow> dt_date a < dt_date b \<or> dt_date a = dt_date b \<and> dt_time a < dt_time b"

definition dt_less_eq :: "datetime \<Rightarrow> datetime \<Rightarrow> bool" where
  "dt_less_eq a b \<longleftrightarrow> \<not> dt_less b a"

definition dt_to_string :: "(nat \<Rightarrow> int \<Rightarrow> string) \<Rightarrow> string \<Rightarrow> datetime \<Rightarrow> string option" where
  "dt_to_string pad f dt =
     (if dt_is_invalid dt then Some []
      else format_loop (\<lambda>f i. case format_date pad (dt_date dt) f i of
             FmtNone \<Rightarrow> format_time pad (dt_time dt) f i | r \<Rightarrow> r) f 0)"

text \<open>The system clock's answer: its fields, or \<open>None\<close> where it is invalid.\<close>

definition dt_from_system :: "(int \<times> int \<times> int \<times> int \<times> int \<times> int \<times> int) option \<Rightarrow> datetime" where
  "dt_from_system clock =
     (case clock of
        None \<Rightarrow> \<lparr>dt_date = DATE_JD_INVALID, dt_time = TIME_MS_INVALID\<rparr>
      | Some (year, month, day, hour, minute, second, msec) \<Rightarrow>
          \<lparr>dt_date = date_set year month day, dt_time = time_set hour minute second msec\<rparr>)"

end
