(* ===== verification/DateTimeFacts.thy ===== *)
theory DateTimeFacts
  imports DateTime
begin

text \<open>
  The calendar of src/common/dateTime.cpp is the proleptic Gregorian calendar: the conversions are
  inverse to each other, consecutive day numbers are consecutive days, and the order of day numbers
  is the order of dates.
\<close>

lemma sdiv_pos [simp]: "\<lbrakk>0 \<le> (a :: int); 0 < b\<rbrakk> \<Longrightarrow> a sdiv b = a div b"
  by (auto simp: signed_divide_int_def sgn_if)

lemma sdiv_floor:
  assumes "0 < (b :: int)" "a < 0"
  shows "(a - (b - 1)) sdiv b = a div b"
proof -
  have "(a - (b - 1)) sdiv b = - ((b - 1 - a) div b)"
    using assms by (simp add: signed_divide_int_def sgn_if)
  also have "\<dots> = a div b"
  proof -
    have a: "a = (a div b) * b + a mod b" "0 \<le> a mod b" "a mod b < b" using assms by simp_all
    have "b - 1 - a = (b - 1 - a mod b) + (- (a div b)) * b" using a(1) by (simp add: algebra_simps)
    then have "(b - 1 - a) div b = ((b - 1 - a mod b) + (- (a div b)) * b) div b" by (simp only:)
    also have "\<dots> = - (a div b) + (b - 1 - a mod b) div b" using assms by (simp only: div_mult_self1 less_irrefl)
    finally have "(b - 1 - a) div b = - (a div b) + (b - 1 - a mod b) div b" .
    moreover have "(b - 1 - a mod b) div b = 0" using a(2,3) by (intro div_pos_pos_trivial) auto
    ultimately show ?thesis by simp
  qed
  finally show ?thesis .
qed

text \<open>The division rounds down where the number it subtracts from does not leave 32 bits.\<close>

lemma floor_div_exact:
  assumes "0 < b" "- 2147483648 + (b - 1) \<le> a" "a < 2147483648"
  shows "floor_div a b = a div b"
  using assms sdiv_floor [of b a] by (auto simp: floor_div_def)

subsection \<open>The calendar\<close>

text \<open>The conversions in unbounded integers: what the code computes where nothing overflows.\<close>

definition civil_jd :: "int \<Rightarrow> int \<Rightarrow> int \<Rightarrow> int" where
  "civil_jd year month day =
     (let a = (14 - month) div 12;
          y = (if year < 0 then year + 1 else year) + 4800 - a;
          m = month + 12 * a - 3
      in day + (153 * m + 2) div 5 + 365 * y + y div 4 - y div 100 + y div 400 - 32045)"

definition jd_civil :: "int \<Rightarrow> int \<times> int \<times> int" where
  "jd_civil jd =
     (let a = jd + 32044;
          b = (4 * a + 3) div 146097;
          c = a - (146097 * b) div 4;
          d = (4 * c + 3) div 1461;
          e = c - (1461 * d) div 4;
          m = (5 * e + 2) div 153;
          t_year = 100 * b + d - 4800 + m div 10
      in (if t_year \<le> 0 then t_year - 1 else t_year, m + 3 - 12 * (m div 10), e - (153 * m + 2) div 5 + 1))"

lemma smod_zero_iff: "0 < (b :: int) \<Longrightarrow> a smod b = 0 \<longleftrightarrow> b dvd a"
  by (simp add: signed_modulo_int_def signed_divide_int_def sgn_if)
    (simp add: mod_eq_0_iff_dvd)


lemma div_bounds:
  fixes x k :: int
  assumes "0 < k"
  shows "k * (x div k) \<le> x" "x < k * (x div k) + k"
proof -
  have "x = k * (x div k) + x mod k" "0 \<le> x mod k" "x mod k < k" using assms by simp_all
  then show "k * (x div k) \<le> x" "x < k * (x div k) + k" by linarith+
qed

lemma div_eqI: "\<lbrakk>k * q \<le> x; x < k * q + k\<rbrakk> \<Longrightarrow> x div k = (q :: int)"
  by (rule int_div_pos_eq [of x k q "x - k * q"]) auto

text \<open>
  A day is a day \<open>e\<close> of a year that begins in March, the \<open>d\<close>-th of its century \<open>b\<close>; the length of
  the year is the leap-year rule for the year that ends it.
\<close>

definition leap :: "int \<Rightarrow> bool" where
  "leap y \<longleftrightarrow> 4 dvd y \<and> \<not> 100 dvd y \<or> 400 dvd y"

definition march_day :: "int \<Rightarrow> int \<Rightarrow> int" where
  "march_day Y e = e + 365 * Y + Y div 4 - Y div 100 + Y div 400"

lemma century:
  fixes b d :: int
  assumes "0 \<le> d" "d < 100"
  shows "(100 * b + d) div 4 = 25 * b + d div 4" "(100 * b + d) div 100 = b"
    "(100 * b + d) div 400 = b div 4"
proof -
  show "(100 * b + d) div 4 = 25 * b + d div 4"
    using div_bounds [of 4 d] by (intro div_eqI) auto
  show "(100 * b + d) div 100 = b" using assms by (intro div_eqI) auto
  show "(100 * b + d) div 400 = b div 4" using div_bounds [of 4 b] assms by (intro div_eqI) auto
qed

lemma quarter:
  fixes A x :: int
  shows "(4 * A + 1) * x div 4 = A * x + x div 4"
proof -
  have "(4 * A + 1) * x = x + (A * x) * 4" by (simp add: algebra_simps)
  then show ?thesis by (simp only: div_mult_self1)
qed

lemma quarters:
  fixes b d :: int
  shows "(1461 * d) div 4 = 365 * d + d div 4" "(146097 * b) div 4 = 36524 * b + b div 4"
  using quarter [of 365 d] quarter [of 36524 b] by simp_all

lemma quarters4:
  fixes b d :: int
  shows "4 * ((1461 * d) div 4) = 1461 * d - d mod 4" "4 * ((146097 * b) div 4) = 146097 * b - b mod 4"
  using quarters(1) [of d] quarters(2) [of b] minus_mod_eq_mult_div [of d 4] minus_mod_eq_mult_div [of b 4]
  by simp_all

lemma march_day_century:
  fixes b d :: int
  assumes "0 \<le> d" "d < 100"
  shows "march_day (100 * b + d) e = e + (1461 * d) div 4 + (146097 * b) div 4"
  unfolding march_day_def century [OF assms] quarters by simp

lemma leap_century:
  fixes b d :: int
  assumes "0 \<le> d" "d < 100"
  shows "leap (100 * b + d + 1) \<longleftrightarrow> d mod 4 = 3 \<and> (d \<noteq> 99 \<or> b mod 4 = 3)"
proof -
  have "100 * b + d + 1 = 4 * (25 * b) + (d + 1)" by simp
  moreover have "4 dvd 4 * (25 * b) + (d + 1) \<longleftrightarrow> 4 dvd d + 1" by (intro dvd_add_right_iff dvd_triv_left)
  ultimately have "4 dvd 100 * b + d + 1 \<longleftrightarrow> 4 dvd d + 1" by (simp only:)
  then have "4 dvd 100 * b + d + 1 \<longleftrightarrow> d mod 4 = 3" by presburger
  moreover have "100 dvd 100 * b + d + 1 \<longleftrightarrow> d = 99"
  proof
    assume "100 dvd 100 * b + d + 1"
    then obtain k where "100 * b + d + 1 = 100 * k" by (elim dvdE)
    moreover from this have "k - b = 1" using assms by linarith
    ultimately show "d = 99" by linarith
  next
    assume "d = 99"
    then have "100 * b + d + 1 = 100 * (b + 1)" by simp
    then show "100 dvd 100 * b + d + 1" by (rule dvdI)
  qed
  moreover have "400 dvd 100 * b + d + 1 \<longleftrightarrow> d = 99 \<and> b mod 4 = 3"
  proof
    assume "400 dvd 100 * b + d + 1"
    then obtain k where "100 * b + d + 1 = 400 * k" by (elim dvdE)
    moreover from this have "4 * k - b = 1" using assms by linarith
    ultimately have "d = 99" "b = 4 * k - 1" by linarith+
    then show "d = 99 \<and> b mod 4 = 3" by presburger
  next
    assume "d = 99 \<and> b mod 4 = 3"
    then have "d = 99" "b mod 4 = 3" by simp_all
    moreover have "b = 4 * (b div 4) + b mod 4" by simp
    ultimately have "100 * b + d + 1 = 400 * (b div 4 + 1)" by (simp only:) simp
    then show "400 dvd 100 * b + d + 1" by (rule dvdI)
  qed
  ultimately show ?thesis unfolding leap_def by auto
qed


text \<open>Finding the century, the year in it and the day in the year.\<close>

definition year_length :: "int \<Rightarrow> int" where
  "year_length Y = (if leap (Y + 1) then 366 else 365)"

lemma march_bounds:
  fixes a b d e Q R mb md :: int
  assumes a: "a = e + R + Q" and Q: "4 * Q = 146097 * b - mb" and R: "4 * R = 1461 * d - md"
    and m: "0 \<le> mb" "mb < 4" "0 \<le> md" "md < 4" "d = 99 \<Longrightarrow> md = 3" "d = 0 \<Longrightarrow> md = 0"
    and e: "e \<le> 364 \<or> e = 365 \<and> md = 3 \<and> (d \<noteq> 99 \<or> mb = 3)" "0 \<le> e" and d: "0 \<le> d" "d < 100"
  shows "146097 * b \<le> 4 * a + 3" "4 * a + 3 < 146097 * b + 146097"
    "1461 * d \<le> 4 * a - 4 * Q + 3" "4 * a - 4 * Q + 3 < 1461 * d + 1461"
proof -
  have eq: "4 * a = 4 * e + 1461 * d - md + (146097 * b - mb)" using a Q R by linarith
  have lo: "md \<le> 1461 * d" using m d by (cases "d = 0") linarith+
  have ee: "e \<le> 365" "4 * e - md \<le> 1457" "d = 99 \<Longrightarrow> 4 * e - mb \<le> 1457" using e m by auto
  show "146097 * b \<le> 4 * a + 3" using eq lo m e(2) by linarith
  show "4 * a + 3 < 146097 * b + 146097"
  proof (cases "d = 99")
    case True
    then have "4 * a = 4 * e + 144636 + (146097 * b - mb)" using eq m(5) by simp
    then show ?thesis using ee(3) [OF True] by linarith
  next
    case False
    then have "d \<le> 98" using d by simp
    then show ?thesis using eq m(1-4) ee(1) by linarith
  qed
  show "1461 * d \<le> 4 * a - 4 * Q + 3" using a R m(3,4) e(2) by linarith
  show "4 * a - 4 * Q + 3 < 1461 * d + 1461" using a R ee(2) by linarith
qed

lemma march_day_inverse:
  fixes b d e :: int
  assumes d: "0 \<le> d" "d < 100" and e: "0 \<le> e" "e < year_length (100 * b + d)"
  defines "a \<equiv> march_day (100 * b + d) e"
  shows "(4 * a + 3) div 146097 = b"
    and "(4 * (a - (146097 * b) div 4) + 3) div 1461 = d"
    and "a - (146097 * b) div 4 - (1461 * d) div 4 = e"
proof -
  have a: "a = e + (1461 * d) div 4 + (146097 * b) div 4"
    unfolding a_def by (rule march_day_century [OF d])
  have e': "e \<le> 364 \<or> e = 365 \<and> d mod 4 = 3 \<and> (d \<noteq> 99 \<or> b mod 4 = 3)"
  proof (cases "leap (100 * b + d + 1)")
    case True
    then have "e \<le> 365" using e(2) by (simp add: year_length_def)
    then have "e \<le> 364 \<or> e = 365" by linarith
    then show ?thesis using True unfolding leap_century [OF d] by blast
  next
    case False
    then show ?thesis using e(2) by (simp add: year_length_def)
  qed
  note q = quarters4(2) [of b]
  note r = quarters4(1) [of d]
  have m: "0 \<le> b mod 4" "b mod 4 < 4" "0 \<le> d mod 4" "d mod 4 < 4" by simp_all
  have x: "d = 99 \<Longrightarrow> d mod 4 = 3" "d = 0 \<Longrightarrow> d mod 4 = 0" by simp_all
  note bounds = march_bounds [OF a q r m x e' e(1) d]
  show "(4 * a + 3) div 146097 = b" by (rule div_eqI [OF bounds(1,2)])
  show "(4 * (a - (146097 * b) div 4) + 3) div 1461 = d"
    unfolding right_diff_distrib by (rule div_eqI [OF bounds(3,4)])
  show "a - (146097 * b) div 4 - (1461 * d) div 4 = e" using a by simp
qed

lemma split_bounds:
  fixes a b Q mb :: int
  assumes "146097 * b \<le> 4 * a + 3" "4 * a + 3 < 146097 * b + 146097" "4 * Q = 146097 * b - mb"
    "0 \<le> mb" "mb < 4"
  shows "0 \<le> a - Q" "4 * a - 4 * Q \<le> 146093 + mb"
  using assms by linarith+

lemma split_bounds2:
  fixes c d R md :: int
  assumes "1461 * d \<le> 4 * c + 3" "4 * c + 3 < 1461 * d + 1461" "4 * R = 1461 * d - md"
    "0 \<le> md" "md < 4"
  shows "0 \<le> c - R" "4 * c - 4 * R \<le> 1457 + md"
  using assms by linarith+

text \<open>Every day number falls into one century, year and day.\<close>

lemma march_day_split:
  fixes a :: int
  obtains b d e where "0 \<le> d" "d < 100" "0 \<le> e" "e < year_length (100 * b + d)"
    "a = march_day (100 * b + d) e"
proof -
  define b where "b = (4 * a + 3) div 146097"
  define c where "c = a - (146097 * b) div 4"
  define d where "d = (4 * c + 3) div 1461"
  define e where "e = c - (1461 * d) div 4"
  have B: "146097 * b \<le> 4 * a + 3" "4 * a + 3 < 146097 * b + 146097"
    unfolding b_def by (rule div_bounds; simp)+
  note q = quarters4(2) [of b]
  have m: "0 \<le> b mod 4" "b mod 4 < 4" by simp_all
  have c: "0 \<le> c" "4 * c \<le> 146093 + b mod 4"
    using split_bounds [OF B q m] unfolding c_def right_diff_distrib by blast+
  have D: "1461 * d \<le> 4 * c + 3" "4 * c + 3 < 1461 * d + 1461"
    unfolding d_def by (rule div_bounds; simp)+
  have d: "0 \<le> d" "d < 100" using D c m by linarith+
  note r = quarters4(1) [of d]
  have n: "0 \<le> d mod 4" "d mod 4 < 4" by simp_all
  have e: "0 \<le> e" "4 * e \<le> 1457 + d mod 4"
    using split_bounds2 [OF D r n] unfolding e_def right_diff_distrib by blast+
  have "a = march_day (100 * b + d) e"
    unfolding march_day_century [OF d] e_def c_def by simp
  moreover have "e < year_length (100 * b + d)"
  proof (cases "leap (100 * b + d + 1)")
    case True
    then show ?thesis using e n by (simp add: year_length_def)
  next
    case False
    then have "d mod 4 \<noteq> 3 \<or> d = 99 \<and> b mod 4 \<noteq> 3" unfolding leap_century [OF d] by blast
    then have "e < 365"
    proof
      assume "d mod 4 \<noteq> 3"
      then show ?thesis using e n by linarith
    next
      assume *: "d = 99 \<and> b mod 4 \<noteq> 3"
      then have "d mod 4 = 3" "b mod 4 < 3" using m by (simp, linarith)
      moreover have "4 * e = 4 * c - 1461 * 99 + d mod 4" using r * by (simp add: e_def)
      ultimately show ?thesis using c by linarith
    qed
    then show ?thesis using False by (simp add: year_length_def)
  qed
  ultimately show thesis using that d e(1) by blast
qed


subsection \<open>Months\<close>

definition month_start :: "int \<Rightarrow> int" where
  "month_start M = (153 * M + 2) div 5"

definition month_length :: "int \<Rightarrow> bool \<Rightarrow> int" where
  "month_length m l = (if m = 2 \<and> l then 29 else days_in_month m)"

lemma twelve: "\<lbrakk>0 \<le> M; M < 12\<rbrakk> \<Longrightarrow> M \<in> {0, 1, 2, 3, 4, 5, 6, 7, 8, 9, 10, 11 :: int}"
  unfolding insert_iff empty_iff by presburger

lemma days_in_month_values:
  "days_in_month 1 = 31" "days_in_month 2 = 28" "days_in_month 3 = 31" "days_in_month 4 = 30"
  "days_in_month 5 = 31" "days_in_month 6 = 30" "days_in_month 7 = 31" "days_in_month 8 = 31"
  "days_in_month 9 = 30" "days_in_month 10 = 31" "days_in_month 11 = 30" "days_in_month 12 = 31"
  by (simp_all add: days_in_month_def)

lemma days_in_month_none: "m < 1 \<or> 12 < m \<Longrightarrow> days_in_month m = 0"
  by (auto simp: days_in_month_def)

text \<open>The month \<open>M\<close> counts from March; its calendar number is \<open>M + 3\<close> or \<open>M - 9\<close>.\<close>

lemma month_of_day:
  assumes "0 \<le> M" "M < 12" and "0 \<le> k" "k < month_length (M + 3 - 12 * (M div 10)) l"
  shows "(5 * (month_start M + k) + 2) div 153 = M" "0 \<le> month_start M + k"
    "month_start M + k < (if l then 366 else 365)"
proof -
  have "M \<in> {0, 1, 2, 3, 4, 5, 6, 7, 8, 9, 10, 11}" by (rule twelve [OF assms(1,2)])
  then have "153 * M \<le> 5 * (month_start M + k) + 2 \<and> 5 * (month_start M + k) + 2 < 153 * M + 153
      \<and> 0 \<le> month_start M + k \<and> month_start M + k < (if l then 366 else 365)"
    using assms(3,4)
    by (elim insertE emptyE) (auto simp: month_start_def month_length_def days_in_month_values split: if_splits)
  then show "(5 * (month_start M + k) + 2) div 153 = M" "0 \<le> month_start M + k"
    "month_start M + k < (if l then 366 else 365)"
    using div_eqI [of 153 M "5 * (month_start M + k) + 2"] by blast+
qed

lemma day_in_month:
  assumes e: "0 \<le> e" "e < (if l then 366 else 365)"
  defines "M \<equiv> (5 * e + 2) div 153"
  shows "0 \<le> M" "M < 12" "0 \<le> e - month_start M" "e - month_start M < month_length (M + 3 - 12 * (M div 10)) l"
proof -
  have B: "153 * M \<le> 5 * e + 2" "5 * e + 2 < 153 * M + 153"
    unfolding M_def by (rule div_bounds; simp)+
  have "e < 366" using e(2) by (simp split: if_splits)
  then show M: "0 \<le> M" "M < 12" using B e(1) by linarith+
  have "M \<in> {0, 1, 2, 3, 4, 5, 6, 7, 8, 9, 10, 11}" by (rule twelve [OF M])
  then have "0 \<le> e - month_start M \<and> e - month_start M < month_length (M + 3 - 12 * (M div 10)) l"
    using e B
    by (elim insertE emptyE) (auto simp: month_start_def month_length_def days_in_month_values split: if_splits)
  then show "0 \<le> e - month_start M" "e - month_start M < month_length (M + 3 - 12 * (M div 10)) l" by blast+
qed


subsection \<open>The conversions\<close>

text \<open>Astronomical years have a year 0; the calendar skips it.\<close>

definition astro :: "int \<Rightarrow> int" where
  "astro year = (if year < 0 then year + 1 else year)"

lemma is_leap_year_eq: "year \<noteq> 0 \<Longrightarrow> is_leap_year year = leap (astro year)"
  by (auto simp: is_leap_year_def leap_def astro_def smod_zero_iff Let_def)

lemma leap_4800: "leap (y + 4800) = leap y"
proof -
  have "k dvd y + 4800 \<longleftrightarrow> k dvd y" if "k dvd 4800" for k
    using that by (rule dvd_add_left_iff)
  then show ?thesis by (simp add: leap_def)
qed

lemma valid_iff:
  "date_is_valid year month day \<longleftrightarrow>
     year \<noteq> 0 \<and> 1 \<le> day \<and> day \<le> month_length month (leap (astro year))"
  using is_leap_year_eq [of year]
  by (auto simp: date_is_valid_def month_length_def days_in_month_values)

lemma valid_month: "date_is_valid year month day \<Longrightarrow> 1 \<le> month \<and> month \<le> 12"
proof (rule ccontr)
  assume v: "date_is_valid year month day" and "\<not> (1 \<le> month \<and> month \<le> 12)"
  then have "month_length month l = 0" for l
    using days_in_month_none [of month] by (auto simp: month_length_def)
  then have "1 \<le> day \<and> day \<le> 0" using v by (simp add: valid_iff)
  then show False by linarith
qed

text \<open>The year that begins in March and the month in it.\<close>

definition march_year :: "int \<Rightarrow> int \<Rightarrow> int" where
  "march_year year month = astro year + 4800 - (if month \<le> 2 then 1 else 0)"

definition march_month :: "int \<Rightarrow> int" where
  "march_month month = (if month \<le> 2 then month + 9 else month - 3)"

lemma civil_jd_march:
  assumes "1 \<le> month" "month \<le> 12"
  shows "civil_jd year month day + 32044
    = march_day (march_year year month) (month_start (march_month month) + (day - 1))"
proof (cases "month \<le> 2")
  case True
  then have "(14 - month) div 12 = 1" using assms by (simp add: div_eqI)
  then show ?thesis using True
    by (simp add: civil_jd_def Let_def march_day_def month_start_def march_year_def march_month_def astro_def)
next
  case False
  then have "(14 - month) div 12 = 0" using assms by simp
  then show ?thesis using False
    by (simp add: civil_jd_def Let_def march_day_def month_start_def march_year_def march_month_def astro_def)
qed

lemma march_month_range:
  assumes "1 \<le> month" "month \<le> 12"
  shows "0 \<le> march_month month" "march_month month < 12"
    "march_month month + 3 - 12 * (march_month month div 10) = month"
    "march_month month div 10 = (if month \<le> 2 then 1 else 0)"
proof -
  show *: "march_month month div 10 = (if month \<le> 2 then 1 else 0)"
    using assms by (intro div_eqI) (auto simp: march_month_def)
  show "0 \<le> march_month month" "march_month month < 12"
    "march_month month + 3 - 12 * (march_month month div 10) = month"
    unfolding * using assms by (auto simp: march_month_def)
qed

lemma jd_civil_march:
  assumes d: "0 \<le> d" "d < 100" and e: "0 \<le> e" "e < year_length (100 * b + d)"
    and jd: "jd + 32044 = march_day (100 * b + d) e"
  shows "jd_civil jd =
    (let m = (5 * e + 2) div 153; y = 100 * b + d - 4800 + m div 10
     in (if y \<le> 0 then y - 1 else y, m + 3 - 12 * (m div 10), e - month_start m + 1))"
proof -
  note I = march_day_inverse [OF d e]
  show ?thesis
    unfolding jd_civil_def Let_def jd I month_start_def by (rule refl)
qed


lemma year_split:
  fixes Y :: int
  obtains b d where "0 \<le> d" "d < 100" "Y = 100 * b + d"
proof -
  have "Y = 100 * (Y div 100) + Y mod 100" "0 \<le> Y mod 100" "Y mod 100 < 100" by simp_all
  then show thesis using that by blast
qed

lemma leap_march:
  assumes "1 \<le> month" "month \<le> 12"
  shows "month_length month (leap (astro year)) = month_length month (leap (march_year year month + 1))"
proof (cases "month \<le> 2")
  case True
  then have "march_year year month + 1 = astro year + 4800" by (simp add: march_year_def)
  then show ?thesis by (simp only: leap_4800)
qed (simp add: month_length_def)

lemma ymd_jd_ymd:
  assumes v: "date_is_valid year month day"
  shows "jd_civil (civil_jd year month day) = (year, month, day)"
proof -
  have m: "1 \<le> month" "month \<le> 12" using valid_month [OF v] by simp_all
  note M = march_month_range [OF m]
  have y: "year \<noteq> 0" and dd: "0 \<le> day - 1"
    "day - 1 < month_length (march_month month + 3 - 12 * (march_month month div 10)) (leap (march_year year month + 1))"
    using v leap_march [OF m, of year] unfolding valid_iff M(3) by linarith+
  obtain b d where d: "0 \<le> d" "d < 100" "march_year year month = 100 * b + d" by (rule year_split)
  note K = month_of_day [OF M(1,2) dd]
  have e: "0 \<le> month_start (march_month month) + (day - 1)"
    "month_start (march_month month) + (day - 1) < year_length (100 * b + d)"
    using K(2,3) unfolding year_length_def d(3) by blast+
  have "civil_jd year month day + 32044 = march_day (100 * b + d) (month_start (march_month month) + (day - 1))"
    using civil_jd_march [OF m, of year day] unfolding d(3) .
  note J = jd_civil_march [OF d(1,2) e this]
  have Y: "100 * b + d - 4800 + march_month month div 10 = astro year"
    unfolding M(4) d(3) [symmetric] march_year_def by simp
  have "(if astro year \<le> 0 then astro year - 1 else astro year) = year" using y by (auto simp: astro_def)
  then show ?thesis unfolding J Let_def K(1) Y M(3) by simp
qed

lemma jd_ymd_jd:
  assumes "jd_civil jd = (year, month, day)"
  shows "date_is_valid year month day" "civil_jd year month day = jd"
proof -
  obtain b d e where d: "0 \<le> d" "d < 100" and e: "0 \<le> e" "e < year_length (100 * b + d)"
    and jd: "jd + 32044 = march_day (100 * b + d) e" by (rule march_day_split)
  define M where "M = (5 * e + 2) div 153"
  define Y where "Y = 100 * b + d - 4800 + M div 10"
  have J: "year = (if Y \<le> 0 then Y - 1 else Y)" "month = M + 3 - 12 * (M div 10)" "day = e - month_start M + 1"
    using jd_civil_march [OF d e jd] assms unfolding Let_def M_def [symmetric] Y_def [symmetric] by simp_all
  note D = day_in_month [OF e [unfolded year_length_def], folded M_def]
  have M10: "M div 10 = (if M < 10 then 0 else 1)" using D(1,2) by (intro div_eqI) auto
  have m: "1 \<le> month" "month \<le> 12" "march_month month = M" "(month \<le> 2) = (10 \<le> M)"
    using D(1,2) unfolding J(2) M10 march_month_def by auto
  have astro: "astro year = Y" "year \<noteq> 0" unfolding J(1) astro_def by auto
  have Y: "march_year year month = 100 * b + d"
    unfolding march_year_def astro(1) Y_def m(4) M10 by auto
  show "date_is_valid year month day"
    unfolding valid_iff leap_march [OF m(1,2)] Y using astro(2) D(3,4) unfolding J(2) [symmetric] J(3) by auto
  have "civil_jd year month day + 32044 = jd + 32044"
    unfolding civil_jd_march [OF m(1,2)] Y m(3) J(3) jd by simp
  then show "civil_jd year month day = jd" by simp
qed


subsection \<open>The next day\<close>

text \<open>The Gregorian calendar, one day at a time; the year before year 1 is year -1.\<close>

definition next_day :: "int \<times> int \<times> int \<Rightarrow> int \<times> int \<times> int" where
  "next_day ymd = (case ymd of (y, m, d) \<Rightarrow>
     if d < month_length m (leap (astro y)) then (y, m, d + 1)
     else if m < 12 then (y, m + 1, 1)
     else (if y = - 1 then 1 else y + 1, 1, 1))"

lemma div_Suc: "0 < k \<Longrightarrow> (Y + 1) div k = Y div k + (if k dvd Y + 1 then 1 else (0 :: int))"
proof -
  assume k: "0 < k"
  note B = div_bounds [OF k, of Y]
  show ?thesis
  proof (cases "k dvd Y + 1")
    case True
    then obtain q where q: "Y + 1 = k * q" by (elim dvdE)
    have "Y div k = q - 1" by (rule div_eqI) (use q k in \<open>simp_all add: right_diff_distrib\<close>)
    then show ?thesis using q k by simp
  next
    case False
    then have "Y + 1 \<noteq> k * (Y div k + 1)" by (metis dvd_triv_left)
    then have "Y + 1 < k * (Y div k) + k" using B(2) by (simp add: distrib_left)
    then have "(Y + 1) div k = Y div k" using B(1) by (intro div_eqI) auto
    then show ?thesis using False by simp
  qed
qed

lemma march_day_next: "march_day Y (year_length Y) = march_day (Y + 1) 0"
proof -
  have "4 dvd Y + 1" if "100 dvd Y + 1" by (rule dvd_trans [OF _ that]) simp
  moreover have "100 dvd Y + 1" if "400 dvd Y + 1" by (rule dvd_trans [OF _ that]) simp
  ultimately show ?thesis
    by (auto simp: march_day_def year_length_def leap_def div_Suc)
qed

lemma march_day_plus: "march_day Y (e + k) = march_day Y e + k"
  by (simp add: march_day_def)

lemma next_month_start:
  assumes "0 \<le> M" "M < 11"
  shows "month_start (M + 1) = month_start M + month_length (M + 3 - 12 * (M div 10)) l"
proof -
  have "M \<in> {0, 1, 2, 3, 4, 5, 6, 7, 8, 9, 10, 11}" by (rule twelve) (use assms in simp_all)
  then show ?thesis
    using assms by (elim insertE emptyE) (auto simp: month_start_def month_length_def days_in_month_values)
qed

lemma february_end: "month_start 11 + month_length 2 l = (if l then 366 else 365)"
  by (simp add: month_start_def month_length_def days_in_month_values)

lemma civil_jd_next:
  assumes v: "date_is_valid y m d"
  shows "(case next_day (y, m, d) of (y', m', d') \<Rightarrow> date_is_valid y' m' d' \<and> civil_jd y' m' d' = civil_jd y m d + 1)"
proof -
  have m: "1 \<le> m" "m \<le> 12" using valid_month [OF v] by simp_all
  note M = march_month_range [OF m]
  have vd: "y \<noteq> 0" "1 \<le> d" "d \<le> month_length m (leap (astro y))" using v by (simp_all add: valid_iff)
  have first: "1 \<le> month_length k l" if "1 \<le> k" "k \<le> 12" for k l
  proof -
    have "k - 1 \<in> {0, 1, 2, 3, 4, 5, 6, 7, 8, 9, 10, 11}" by (rule twelve) (use that in simp_all)
    then show ?thesis by (elim insertE emptyE) (auto simp: month_length_def days_in_month_values algebra_simps)
  qed
  note J = civil_jd_march [OF m, of y d]
  show ?thesis
  proof (cases "d < month_length m (leap (astro y))")
    case True
    have "civil_jd y m (d + 1) = civil_jd y m d + 1"
      using J civil_jd_march [OF m, of y "d + 1"] by (simp add: march_day_def)
    then show ?thesis using True vd by (simp add: next_day_def valid_iff)
  next
    case False
    then have d: "d = month_length m (leap (astro y))" using vd(3) by simp
    define l where "l = leap (march_year y m + 1)"
    have dl: "d = month_length m l" using leap_march [OF m, of y] d by (simp add: l_def)
    consider (mar) "m < 12" "m \<noteq> 2" | (feb) "m = 2" | (dec) "m = 12" using m by linarith
    then show ?thesis
    proof cases
      case mar
      have m': "1 \<le> m + 1" "m + 1 \<le> 12" using m mar by simp_all
      have s: "march_year y (m + 1) = march_year y m" "march_month (m + 1) = march_month m + 1" "march_month m < 11"
        using mar m by (auto simp: march_year_def march_month_def)
      have "month_start (march_month m + 1) = month_start (march_month m) + d"
        using next_month_start [OF M(1) s(3), of l] unfolding M(3) dl .
      then have "civil_jd y (m + 1) 1 = civil_jd y m d + 1"
        using J civil_jd_march [OF m', of y 1] by (simp add: s march_day_def)
      then show ?thesis using False mar vd(1) first [OF m'] by (simp add: next_day_def valid_iff)
    next
      case feb
      have s: "march_year y 3 = march_year y 2 + 1" "march_month 3 = 0" "march_month 2 = 11"
        by (simp_all add: march_year_def march_month_def)
      have "month_start 11 + d = year_length (march_year y 2)"
        using february_end [of l] dl by (simp add: feb l_def year_length_def)
      then have "march_day (march_year y 2 + 1) 0 = march_day (march_year y 2) (month_start 11 + (d - 1)) + 1"
        unfolding march_day_next [symmetric] by (simp add: march_day_def)
      then have "civil_jd y 3 1 = civil_jd y 2 d + 1"
        using J civil_jd_march [of 3 y 1] by (simp add: feb s month_start_def)
      then show ?thesis using False feb vd(1) first [of 3] by (simp add: next_day_def valid_iff)
    next
      case dec
      define y' where "y' = (if y = - 1 then 1 else y + 1)"
      have y': "y' \<noteq> 0" "astro y' = astro y + 1" using vd(1) by (auto simp: y'_def astro_def)
      have s: "march_year y' 1 = march_year y 12" "march_month 1 = 10" "march_month 12 = 9"
        by (simp_all add: march_year_def march_month_def y'(2))
      have "month_start 10 = month_start 9 + d"
        using dl by (simp add: dec month_start_def month_length_def days_in_month_values)
      then have "civil_jd y' 1 1 = civil_jd y 12 d + 1"
        using J civil_jd_march [of 1 y' 1] by (simp add: dec s march_day_def)
      then show ?thesis using False dec y'(1) first [of 1]
        by (simp add: next_day_def valid_iff y'_def [symmetric] split: prod.split)
    qed
  qed
qed


subsection \<open>Where the code computes the calendar\<close>

text \<open>The day numbers for which no step of \<open>JdToYmd\<close> leaves 32 bits; they span almost three million years.\<close>

abbreviation JD_FIRST :: int where "JD_FIRST \<equiv> - 536866432"

abbreviation JD_LAST :: int where "JD_LAST \<equiv> 536838867"

lemma jd_to_ymd_exact:
  assumes "JD_FIRST \<le> jd" "jd \<le> JD_LAST"
  shows "jd_to_ymd jd = jd_civil jd"
proof -
  obtain b d e where d: "0 \<le> d" "d < 100" and e: "0 \<le> e" "e < year_length (100 * b + d)"
    and jd: "jd + 32044 = march_day (100 * b + d) e" by (rule march_day_split)
  note I = march_day_inverse [OF d e]
  define a where "a = march_day (100 * b + d) e"
  have a: "a = jd + 32044" by (simp add: a_def jd)
  have aR: "- 536834388 \<le> a" "a \<le> 536870911" using assms by (simp_all add: a)
  have B: "146097 * b \<le> 4 * a + 3" "4 * a + 3 < 146097 * b + 146097"
    using div_bounds [of 146097 "4 * a + 3"] I(1) unfolding a_def by simp_all
  have b146: "- 2147483645 \<le> 146097 * b" "146097 * b < 2147483648" using B aR by linarith+
  then have b: "- 14699 \<le> b" "b \<le> 14699" by linarith+
  have e': "e < 366" using e(2) by (simp add: year_length_def split: if_splits)
  note q = quarters4(2) [of b]
  define c where "c = a - (146097 * b) div 4"
  have "0 \<le> c" "4 * c \<le> 146093 + b mod 4"
    using split_bounds [OF B q] unfolding c_def right_diff_distrib by simp_all
  moreover have "b mod 4 < 4" by simp
  ultimately have c: "0 \<le> c" "4 * c \<le> 146096" by linarith+
  define m where "m = (5 * e + 2) div 153"
  note M = day_in_month(1,2) [OF e [unfolded year_length_def], folded m_def]
  note I' = I(1) [folded a_def] I(2) [folded a_def, folded c_def] I(3) [folded a_def, folded c_def]
  have m5: "0 \<le> (153 * m + 2) div 5" "(153 * m + 2) div 5 \<le> 400" using M by linarith+
  have m10: "0 \<le> m div 10" "m div 10 \<le> 1" using M by linarith+
  have f: "floor_div (4 * a + 3) 146097 = b" "floor_div (146097 * b) 4 = (146097 * b) div 4"
    "floor_div (4 * c + 3) 1461 = d" "floor_div (1461 * d) 4 = (1461 * d) div 4"
    "floor_div (5 * e + 2) 153 = m" "floor_div (153 * m + 2) 5 = (153 * m + 2) div 5" "floor_div m 10 = m div 10"
    by (subst floor_div_exact; use aR b146 c d e(1) e' M I' in \<open>simp add: m_def; fail\<close>)+
  have i: "i32 (jd + 32044) = a" "i32 (4 * a + 3) = 4 * a + 3" "i32 (146097 * b) = 146097 * b"
    "i32 (a - (146097 * b) div 4) = c" "i32 (4 * c + 3) = 4 * c + 3" "i32 (1461 * d) = 1461 * d"
    "i32 (c - (1461 * d) div 4) = e" "i32 (5 * e + 2) = 5 * e + 2" "i32 (153 * m + 2) = 153 * m + 2"
    "i32 (e - (153 * m + 2) div 5 + 1) = e - (153 * m + 2) div 5 + 1"
    "i32 (m + 3 - 12 * (m div 10)) = m + 3 - 12 * (m div 10)"
    "i32 (100 * b + d - 4800 + m div 10) = 100 * b + d - 4800 + m div 10"
    "i32 (100 * b + d - 4800 + m div 10 - 1) = 100 * b + d - 4800 + m div 10 - 1"
    unfolding c_def [symmetric] I'(3) a [symmetric]
    by (rule i32_id; use aR b146 b c d e(1) e' M m5 m10 in linarith)+
  have "jd_civil jd = (if 100 * b + d - 4800 + m div 10 \<le> 0 then 100 * b + d - 4800 + m div 10 - 1
      else 100 * b + d - 4800 + m div 10, m + 3 - 12 * (m div 10), e - (153 * m + 2) div 5 + 1)"
    using jd_civil_march [OF d e jd] unfolding Let_def m_def [symmetric] month_start_def .
  then show ?thesis unfolding jd_to_ymd_def Let_def by (simp only: i f)
qed

text \<open>One day further the first product overflows, and the result is the date of the day before.\<close>

lemma jd_to_ymd_overflow: "date_get (JD_LAST + 1) = date_get JD_LAST"
  by code_simp

lemma ymd_to_jd_exact:
  assumes "date_is_valid y m d" "- 1500000 \<le> y" "y \<le> 1500000"
  shows "ymd_to_jd y m d = civil_jd y m d"
proof -
  have m: "1 \<le> m" "m \<le> 12" using valid_month [OF assms(1)] by simp_all
  have "1 \<le> d" "d \<le> month_length m (leap (astro y))" using assms(1) by (simp_all add: valid_iff)
  moreover have "month_length m l \<le> 31" for l
  proof -
    have "m - 1 \<in> {0, 1, 2, 3, 4, 5, 6, 7, 8, 9, 10, 11}" by (rule twelve) (use m in simp_all)
    then show ?thesis by (elim insertE emptyE) (auto simp: month_length_def days_in_month_values algebra_simps)
  qed
  ultimately have d: "1 \<le> d" "d \<le> 31" using order_trans by blast+
  define a where "a = (14 - m) div 12"
  define Y where "Y = (if y < 0 then y + 1 else y) + 4800 - a"
  define M where "M = m + 12 * a - 3"
  have a: "0 \<le> a" "a \<le> 1" using m by (simp_all add: a_def)
  have M: "- 3 \<le> M" "M \<le> 21" using a m by (simp_all add: M_def)
  have Y: "- 1500000 \<le> Y" "Y \<le> 1504801" using assms(2,3) a by (auto simp: Y_def)
  have f: "floor_div (14 - m) 12 = a" "floor_div (153 * M + 2) 5 = (153 * M + 2) div 5"
    "floor_div Y 4 = Y div 4" "floor_div Y 100 = Y div 100" "floor_div Y 400 = Y div 400"
    by (subst floor_div_exact; use m M Y in \<open>simp add: a_def; fail\<close>)+
  have q: "- 100 \<le> (153 * M + 2) div 5" "(153 * M + 2) div 5 \<le> 1000" "- 400000 \<le> Y div 4" "Y div 4 \<le> 400000"
    "- 16000 \<le> Y div 100" "Y div 100 \<le> 16000" "- 4000 \<le> Y div 400" "Y div 400 \<le> 4000"
    using M Y by linarith+
  have i: "i32 (14 - m) = 14 - m" "i32 ((if y < 0 then y + 1 else y) + 4800 - a) = Y" "i32 (m + 12 * a - 3) = M"
    "i32 (153 * M + 2) = 153 * M + 2"
    "i32 (d + (153 * M + 2) div 5 + 365 * Y + Y div 4 - Y div 100 + Y div 400 - 32045)
       = d + (153 * M + 2) div 5 + 365 * Y + Y div 4 - Y div 100 + Y div 400 - 32045"
    unfolding Y_def [symmetric] M_def [symmetric] by (rule i32_id; use m M Y d q in linarith)+
  have "civil_jd y m d = d + (153 * M + 2) div 5 + 365 * Y + Y div 4 - Y div 100 + Y div 400 - 32045"
    by (simp only: civil_jd_def Let_def a_def [symmetric] Y_def [symmetric] M_def [symmetric])
  then show ?thesis unfolding ymd_to_jd_def Let_def by (simp only: i f)
qed

lemma civil_jd_bounds:
  assumes "date_is_valid y m d" "- 1460000 \<le> y" "y \<le> 1460000"
  shows "JD_FIRST \<le> civil_jd y m d" "civil_jd y m d \<le> JD_LAST"
proof -
  have m: "1 \<le> m" "m \<le> 12" using valid_month [OF assms(1)] by simp_all
  note M = march_month_range [OF m]
  define Y where "Y = march_year y m"
  have Y: "- 1455201 \<le> Y" "Y \<le> 1464800" using assms(2,3) by (auto simp: Y_def march_year_def astro_def)
  have dd: "0 \<le> d - 1" "d - 1 < month_length (march_month m + 3 - 12 * (march_month m div 10)) (leap (Y + 1))"
    using assms(1) leap_march [OF m, of y] unfolding valid_iff M(3) Y_def by linarith+
  define e where "e = month_start (march_month m) + (d - 1)"
  have "0 \<le> e" "e < (if leap (Y + 1) then 366 else 365)"
    using month_of_day [OF M(1,2) dd] by (simp_all add: e_def)
  then have e: "0 \<le> e" "e \<le> 366" by (simp_all split: if_splits)
  have J: "civil_jd y m d + 32044 = e + 365 * Y + Y div 4 - Y div 100 + Y div 400"
    using civil_jd_march [OF m, of y d] by (simp add: march_day_def e_def Y_def)
  have q: "- 363801 \<le> Y div 4" "Y div 4 \<le> 366200" "- 14553 \<le> Y div 100" "Y div 100 \<le> 14648"
    "- 3639 \<le> Y div 400" "Y div 400 \<le> 3662"
    using Y by linarith+
  show "JD_FIRST \<le> civil_jd y m d" "civil_jd y m d \<le> JD_LAST" using J q e Y by linarith+
qed

lemma jd_civil_year:
  assumes "jd_civil jd = (y, m, d)" "JD_FIRST \<le> jd" "jd \<le> JD_LAST"
  shows "- 1500000 \<le> y" "y \<le> 1500000"
proof -
  obtain b c e where d: "0 \<le> c" "c < 100" and e: "0 \<le> e" "e < year_length (100 * b + c)"
    and jd: "jd + 32044 = march_day (100 * b + c) e" by (rule march_day_split)
  define a where "a = march_day (100 * b + c) e"
  have a: "- 536834388 \<le> a" "a \<le> 536870911" using assms(2,3) jd by (simp_all add: a_def)
  have "146097 * b \<le> 4 * a + 3" "4 * a + 3 < 146097 * b + 146097"
    using div_bounds [of 146097 "4 * a + 3"] march_day_inverse(1) [OF d e] by (simp_all add: a_def)
  then have "- 2147483645 \<le> 146097 * b" "146097 * b < 2147483648" using a by linarith+
  then have b: "- 14700 \<le> b" "b \<le> 14699" by linarith+
  have M: "0 \<le> (5 * e + 2) div 153 div 10" "(5 * e + 2) div 153 div 10 \<le> 1"
    using day_in_month(1,2) [OF e [unfolded year_length_def]] by linarith+
  show "- 1500000 \<le> y" "y \<le> 1500000"
    using jd_civil_march [OF d e jd] assms(1) b d M by (auto simp: Let_def split: if_splits)
qed

subsection \<open>Properties\<close>

text \<open>
  C15. Round trip between dates and day numbers: every valid date within 1,460,000 years of the epoch comes
  back from its day number, and every day number from \<open>JD_FIRST\<close> to \<open>JD_LAST\<close> is the number of the valid
  date it stands for.  These are all the day numbers for which \<open>JdToYmd\<close> does not overflow.
\<close>

theorem date_roundtrip:
  assumes "date_is_valid year month day" and "- 1460000 \<le> year" and "year \<le> 1460000"
    and "JD_FIRST \<le> jd" and "jd \<le> JD_LAST"
  shows "date_get (date_set year month day) = (year, month, day)
    \<and> (case date_get jd of (y, m, d) \<Rightarrow> date_is_valid y m d \<and> date_set y m d = jd)"
proof
  note B = civil_jd_bounds [OF assms(1-3)]
  show "date_get (date_set year month day) = (year, month, day)"
    using ymd_jd_ymd [OF assms(1)] jd_to_ymd_exact [OF B] ymd_to_jd_exact [OF assms(1)] assms(2,3) B(1) assms(1)
    by (simp add: date_get_def date_set_def)
  obtain y m d where g: "jd_civil jd = (y, m, d)" by (metis prod_cases3)
  note V = jd_ymd_jd [OF g]
  have "ymd_to_jd y m d = jd" using ymd_to_jd_exact [OF V(1) jd_civil_year [OF g assms(4,5)]] V(2) by simp
  then show "case date_get jd of (y, m, d) \<Rightarrow> date_is_valid y m d \<and> date_set y m d = jd"
    using jd_to_ymd_exact [OF assms(4,5)] g V(1) assms(4) by (simp add: date_get_def date_set_def)
qed

theorem date_roundtrip_witness:
  "date_get (date_set 2024 2 29) = (2024, 2, 29)"
proof -
  have "date_is_valid 2024 2 29"
    by (simp add: date_is_valid_def is_leap_year_def days_in_month_def signed_modulo_int_def
        signed_divide_int_def)
  then show ?thesis using date_roundtrip [of 2024 2 29 0] by simp
qed

text \<open>
  C16. The day numbers are the proleptic Gregorian calendar: the epoch of Unix time is a Thursday in the
  year 1970, and from \<open>JD_FIRST\<close> to \<open>JD_LAST\<close>, where \<open>JdToYmd\<close> does not overflow, the next day number is
  the next day of the calendar and of the week.
\<close>

theorem date_calendar:
  assumes "JD_FIRST \<le> jd" and "jd < JD_LAST"
  shows "date_get (jd + 1) = next_day (date_get jd) \<and> day_of_week (jd + 1) = day_of_week jd mod 7 + 1
    \<and> date_get 2440588 = (1970, 1, 1) \<and> day_of_week 2440588 = 4"
proof (intro conjI)
  have get: "date_get j = jd_civil j" if "JD_FIRST \<le> j" "j \<le> JD_LAST" for j
    using jd_to_ymd_exact [OF that] that by (simp add: date_get_def)
  obtain y m d where g: "jd_civil jd = (y, m, d)" by (metis prod_cases3)
  obtain y' m' d' where n: "next_day (y, m, d) = (y', m', d')" by (metis prod_cases3)
  have "date_is_valid y' m' d'" "civil_jd y' m' d' = jd + 1"
    using civil_jd_next [OF jd_ymd_jd(1) [OF g]] jd_ymd_jd(2) [OF g] n by simp_all
  then have "jd_civil (jd + 1) = (y', m', d')" using ymd_jd_ymd [of y' m' d'] by simp
  then show "date_get (jd + 1) = next_day (date_get jd)" using assms get [of jd] get [of "jd + 1"] g n by simp
  have w: "day_of_week j = j mod 7 + 1" if "JD_FIRST \<le> j" for j
  proof (cases "j \<ge> 0")
    case True
    then show ?thesis using that
      by (cases "j = 0") (simp_all add: day_of_week_def signed_modulo_int_def signed_divide_int_def sgn_if)
  next
    case False
    then have "(j + 1) smod 7 + 7 = j mod 7 + 1"
      by (simp add: signed_modulo_int_def signed_divide_int_def sgn_if) presburger
    then show ?thesis using that False by (simp add: day_of_week_def)
  qed
  show "day_of_week (jd + 1) = day_of_week jd mod 7 + 1" using w [of jd] w [of "jd + 1"] assms(1) by (simp add: mod_simps)
  have "date_is_valid 1970 1 1" by (simp add: date_is_valid_def days_in_month_def)
  moreover have "civil_jd 1970 1 1 = 2440588" by (simp add: civil_jd_def)
  ultimately show "date_get 2440588 = (1970, 1, 1)" using ymd_jd_ymd [of 1970 1 1] get [of 2440588] by simp
  show "day_of_week 2440588 = 4" by (simp add: w)
qed

theorem date_calendar_witness: "date_get (2440588 + 1) = next_day (1970, 1, 1)"
  using date_calendar [of 2440588] by simp

subsection \<open>Times of day\<close>

lemma hms_split:
  fixes h m s ms :: int
  assumes "0 \<le> h" "0 \<le> m" "m < 60" "0 \<le> s" "s < 60" "0 \<le> ms" "ms < 1000"
  defines "t \<equiv> hms_to_ms h m s ms"
  shows "t div 3600000 = h" "t mod 3600000 div 60000 = m" "t div 1000 mod 60 = s" "t mod 1000 = ms"
proof -
  have t: "t = 3600000 * h + (60000 * m + (1000 * s + ms))" by (simp add: t_def hms_to_ms_def)
  show h: "t div 3600000 = h" by (rule div_eqI) (use t assms in linarith)+
  have "t mod 3600000 = t - 3600000 * h" using minus_mult_div_eq_mod [of t 3600000] unfolding h by linarith
  then have "t mod 3600000 = 60000 * m + (1000 * s + ms)" using t by simp
  then show "t mod 3600000 div 60000 = m" by (simp only:) (rule div_eqI; use assms in linarith)
  have d: "t div 1000 = 3600 * h + 60 * m + s" by (rule div_eqI) (use assms(6,7) in \<open>simp_all add: t\<close>)
  have "3600 * h + 60 * m + s = s + (60 * h + m) * 60" by simp
  then show "t div 1000 mod 60 = s" unfolding d using assms(4,5) by (simp only: mod_mult_self1) simp
  have "t mod 1000 = t - 1000 * (t div 1000)" using minus_mult_div_eq_mod [of t 1000] by simp
  then show "t mod 1000 = ms" using d t by simp
qed

lemma smod_pos: "\<lbrakk>0 \<le> (a :: int); 0 < b\<rbrakk> \<Longrightarrow> a smod b = a mod b"
  by (cases "a = 0") (simp_all add: signed_modulo_int_def signed_divide_int_def sgn_if minus_div_mult_eq_mod)

lemma ms_to_hms_pos:
  assumes "0 \<le> ms"
  shows "ms_to_hms ms = (ms div 3600000, ms mod 3600000 div 60000, ms div 1000 mod 60, ms mod 1000)"
  using assms by (simp add: ms_to_hms_def smod_pos pos_imp_zdiv_nonneg_iff)

lemma time_set_get:
  assumes "time_is_valid h m s ms"
  shows "\<not> time_is_invalid (time_set h m s ms)" and "time_get (time_set h m s ms) = (h, m, s, ms)"
proof -
  have v: "0 \<le> h" "h \<le> 23" "0 \<le> m" "m < 60" "0 \<le> s" "s < 60" "0 \<le> ms" "ms < 1000"
    using assms by (auto simp: time_is_valid_def)
  define k where "k = hms_to_ms h m s ms"
  have k: "time_set h m s ms = k" using assms by (simp add: time_set_def k_def)
  have K: "0 \<le> k" "k < TIME_MS_IN_DAY" using v by (simp_all add: k_def hms_to_ms_def)
  then show "\<not> time_is_invalid (time_set h m s ms)" by (simp add: k time_is_invalid_def)
  show "time_get (time_set h m s ms) = (h, m, s, ms)"
    using K hms_split [OF v(1,3,4,5,6,7,8), folded k_def] unfolding k
    by (simp add: time_get_def time_is_invalid_def ms_to_hms_pos)
qed

lemma time_get_set:
  assumes "\<not> time_is_invalid t"
  shows "case time_get t of (h', m', s', ms') \<Rightarrow> time_is_valid h' m' s' ms' \<and> time_set h' m' s' ms' = t"
proof -
  have t: "0 \<le> t" "t < TIME_MS_IN_DAY" using assms by (simp_all add: time_is_invalid_def)
  define h' where "h' = t div 3600000"
  define m' where "m' = t mod 3600000 div 60000"
  define s' where "s' = t div 1000 mod 60"
  define ms' where "ms' = t mod 1000"
  have g: "time_get t = (h', m', s', ms')"
    using t by (simp add: time_get_def time_is_invalid_def ms_to_hms_pos h'_def m'_def s'_def ms'_def)
  have parts: "60000 * m' + 1000 * s' + ms' = t mod 3600000"
  proof -
    define r where "r = t mod 3600000"
    have "t = 1000 * (t div 1000) + ms'" by (simp add: ms'_def)
    have r: "r = 60000 * m' + r mod 60000" by (simp add: m'_def r_def)
    have "r mod 60000 = t mod 60000" unfolding r_def by (rule mod_mod_cancel) simp
    moreover have "t mod 60000 = 1000 * (t div 1000 mod 60) + t mod 1000"
      using zmod_zmult2_eq [of 60 t 1000] by simp
    ultimately show ?thesis using r by (simp add: s'_def ms'_def r_def)
  qed
  have "t = 3600000 * h' + t mod 3600000" by (simp add: h'_def)
  then have eq: "hms_to_ms h' m' s' ms' = t" using parts by (simp add: hms_to_ms_def)
  have "0 \<le> h'" "h' \<le> 23" using t by (simp_all add: h'_def pos_imp_zdiv_nonneg_iff)
  moreover have "0 \<le> m'" "m' \<le> 59"
  proof -
    have "0 \<le> t mod 3600000" "t mod 3600000 < 3600000" by simp_all
    then show "0 \<le> m'" "m' \<le> 59" unfolding m'_def by linarith+
  qed
  moreover have "0 \<le> s'" "s' \<le> 59" "0 \<le> ms'" "ms' \<le> 999"
    using pos_mod_bound [of 60 "t div 1000"] pos_mod_bound [of 1000 t] by (simp_all add: s'_def ms'_def)
  ultimately have "time_is_valid h' m' s' ms'" by (simp add: time_is_valid_def)
  then show "case time_get t of (h', m', s', ms') \<Rightarrow> time_is_valid h' m' s' ms' \<and> time_set h' m' s' ms' = t"
    by (simp add: g time_set_def eq)
qed

lemma time_wrap_mod:
  assumes "- TIME_MS_IN_DAY \<le> y" "y < 2 * TIME_MS_IN_DAY"
  shows "time_wrap y = y mod TIME_MS_IN_DAY"
proof -
  consider "y < 0" | "0 \<le> y" "y < TIME_MS_IN_DAY" | "TIME_MS_IN_DAY \<le> y" by linarith
  then show ?thesis
  proof cases
    case 1
    have "y mod TIME_MS_IN_DAY = y + TIME_MS_IN_DAY"
      using mod_pos_pos_trivial [of "y + TIME_MS_IN_DAY" TIME_MS_IN_DAY] 1 assms by simp
    then show ?thesis using 1 assms by (simp add: time_wrap_def)
  next
    case 3
    have "y mod TIME_MS_IN_DAY = y - TIME_MS_IN_DAY"
      using mod_pos_pos_trivial [of "y - TIME_MS_IN_DAY" TIME_MS_IN_DAY] 3 assms by simp
    then show ?thesis using 3 assms by (simp add: time_wrap_def)
  qed (simp add: time_wrap_def)
qed

lemma time_plus_minus:
  assumes "\<not> time_is_invalid t" and "- 86400 \<le> secs" and "secs \<le> 86400"
  shows "time_plus t secs = Some ((t + 1000 * secs) mod TIME_MS_IN_DAY)"
    and "time_minus ((t + 1000 * secs) mod TIME_MS_IN_DAY) secs = Some t"
proof -
  have t: "0 \<le> t" "t < TIME_MS_IN_DAY" using assms(1) by (simp_all add: time_is_invalid_def)
  define x where "x = secs * 1000"
  have x: "- TIME_MS_IN_DAY \<le> x" "x \<le> TIME_MS_IN_DAY" "i32 (secs * 1000) = x"
    using assms(2,3) by (simp_all add: x_def)
  have r: "0 \<le> y mod TIME_MS_IN_DAY" "y mod TIME_MS_IN_DAY < TIME_MS_IN_DAY" for y :: int by simp_all
  have ok: "time_of_msec z = z \<and> \<not> time_is_invalid z" if "0 \<le> z" "z < TIME_MS_IN_DAY" for z
    using that by (simp add: time_of_msec_def time_is_invalid_def)
  have of_r: "time_of_msec (y mod TIME_MS_IN_DAY) = y mod TIME_MS_IN_DAY" "\<not> time_is_invalid (y mod TIME_MS_IN_DAY)" for y
    using ok [OF r [of y]] by blast+
  have w: "time_wrap (t + x) = (t + x) mod TIME_MS_IN_DAY" by (rule time_wrap_mod) (use t x in linarith)+
  show "time_plus t secs = Some ((t + 1000 * secs) mod TIME_MS_IN_DAY)"
    unfolding time_plus_def Let_def x(3) w of_r(1) using x assms(1) by (simp add: x_def mult.commute)
  define u where "u = (t + x) mod TIME_MS_IN_DAY"
  have u: "0 \<le> u" "u < TIME_MS_IN_DAY" unfolding u_def by (rule r)+
  have "(u - x) mod TIME_MS_IN_DAY = t mod TIME_MS_IN_DAY" unfolding u_def by (simp add: mod_diff_left_eq)
  then have "(u - x) mod TIME_MS_IN_DAY = t" using t by simp
  moreover have "time_wrap (u - x) = (u - x) mod TIME_MS_IN_DAY" by (rule time_wrap_mod) (use u x in linarith)+
  ultimately have "time_minus u secs = Some t"
    unfolding time_minus_def Let_def x(3) using x u t by (simp add: time_is_invalid_def time_of_msec_def)
  then show "time_minus ((t + 1000 * secs) mod TIME_MS_IN_DAY) secs = Some t"
    by (simp add: u_def x_def mult.commute)
qed

text \<open>
  C17. Round trip between times of day and milliseconds, and the clock arithmetic: adding seconds of at
  most a day moves the clock around the day, and subtracting them moves it back.
\<close>

theorem time_roundtrip:
  assumes "time_is_valid h m s ms" and "\<not> time_is_invalid t" and "- 86400 \<le> secs" and "secs \<le> 86400"
  shows "\<not> time_is_invalid (time_set h m s ms) \<and> time_get (time_set h m s ms) = (h, m, s, ms)
    \<and> (case time_get t of (h', m', s', ms') \<Rightarrow> time_is_valid h' m' s' ms' \<and> time_set h' m' s' ms' = t)
    \<and> time_plus t secs = Some ((t + 1000 * secs) mod TIME_MS_IN_DAY)
    \<and> time_minus ((t + 1000 * secs) mod TIME_MS_IN_DAY) secs = Some t"
  using time_set_get [OF assms(1)] time_get_set [OF assms(2)] time_plus_minus [OF assms(2-4)] by simp

theorem time_roundtrip_witness: "time_plus 86399000 2 = Some 1000 \<and> time_get (time_set 23 59 59 0) = (23, 59, 59, 0)"
  using time_roundtrip [of 23 59 59 0 86399000 2] by (simp add: time_is_valid_def time_is_invalid_def)

text \<open>The check of the seconds runs after the multiplication has wrapped around.\<close>

lemma time_plus_overflow: "time_plus 0 4294968 = Some 704"
  by (simp add: time_plus_def i32_def time_is_invalid_def time_wrap_def time_of_msec_def)

subsection \<open>The default formats\<close>

lemma format_loop_end: "length f \<le> i \<Longrightarrow> format_loop step f i = Some []"
  by (subst format_loop.simps) simp

text \<open>
  The default formats write the fields with their separators; a date outside the years 0 to 9999
  stops the program at the check, and an invalid date or time is the empty string.
\<close>

theorem default_formats:
  assumes "\<not> time_is_invalid ms"
  shows "date_to_string pad ''YYYY.MM.DD'' jd =
      (if jd = DATE_JD_INVALID then Some []
       else if date_year jd < 0 \<or> 9999 < date_year jd then None
       else Some (mid (pad 4 (date_year jd)) 0 None @ ''.'' @ pad 2 (date_month jd) @ ''.'' @ pad 2 (date_day jd)))
    \<and> time_to_string pad ''HH24:MI:SS'' ms =
      Some (pad 2 (hour24 ms) @ '':'' @ pad 2 (time_minute ms) @ '':'' @ pad 2 (time_second ms))
    \<and> dt_to_string pad ''HH24:MI'' \<lparr>dt_date = 0, dt_time = ms\<rparr> = Some (pad 2 (hour24 ms) @ '':'' @ pad 2 (time_minute ms))"
  using assms
  by (simp add: date_to_string_def time_to_string_def dt_to_string_def dt_is_invalid_def format_loop.simps
      format_date_def format_time_def format_year_def Let_def)

theorem default_formats_witness:
  "date_to_string (\<lambda>w n. ''x'') ''YYYY.MM.DD'' DATE_JD_INVALID = Some []"
  using default_formats [of 0 "\<lambda>w n. ''x''" DATE_JD_INVALID] by (simp add: time_is_invalid_def)

end
