(* ===== verification/Errno.thy ===== *)
theory Errno
  imports Prelude
begin

text \<open>
  The error numbers of src/libs/errno.h that the kernel calls return: the POSIX numbers, the kernel's
  own codes, and the conversions between the two (\<open>KernelToPosix\<close> there, \<open>PosixToKernel\<close> in
  src/kernel/semaphore.cpp).
\<close>

abbreviation (input) OK :: int where
  "OK \<equiv> 0"

definition posix_errnos :: "(string \<times> int) list" where
  "posix_errnos = [
     (''EPERM'', 1), (''ENOENT'', 2), (''ESRCH'', 3), (''EINTR'', 4), (''EIO'', 5), (''ENXIO'', 6),
     (''E2BIG'', 7), (''ENOEXEC'', 8), (''EBADF'', 9), (''ECHILD'', 10), (''EDEADLK'', 11),
     (''ENOMEM'', 12), (''EACCES'', 13), (''EFAULT'', 14), (''ENOTBLK'', 15), (''EBUSY'', 16),
     (''EEXIST'', 17), (''EXDEV'', 18), (''ENODEV'', 19), (''ENOTDIR'', 20), (''EISDIR'', 21),
     (''EINVAL'', 22), (''ENFILE'', 23), (''EMFILE'', 24), (''ENOTTY'', 25), (''ETXTBSY'', 26),
     (''EFBIG'', 27), (''ENOSPC'', 28), (''ESPIPE'', 29), (''EROFS'', 30), (''EMLINK'', 31),
     (''EPIPE'', 32), (''EDOM'', 33), (''ERANGE'', 34), (''EAGAIN'', 35), (''EWOULDBLOCK'', 35),
     (''EINPROGRESS'', 36), (''EALREADY'', 37), (''ENOTSOCK'', 38), (''EDESTADDRREQ'', 39),
     (''EMSGSIZE'', 40), (''EPROTOTYPE'', 41), (''ENOPROTOOPT'', 42), (''EPROTONOSUPPORT'', 43),
     (''ESOCKTNOSUPPORT'', 44), (''EOPNOTSUPP'', 45), (''ENOTSUP'', 45), (''EPFNOSUPPORT'', 46),
     (''EAFNOSUPPORT'', 47), (''EADDRINUSE'', 48), (''EADDRNOTAVAIL'', 49), (''ENETDOWN'', 50),
     (''ENETUNREACH'', 51), (''ENETRESET'', 52), (''ECONNABORTED'', 53), (''ECONNRESET'', 54),
     (''ENOBUFS'', 55), (''EISCONN'', 56), (''ENOTCONN'', 57), (''ESHUTDOWN'', 58),
     (''ETOOMANYREFS'', 59), (''ETIMEDOUT'', 60), (''ECONNREFUSED'', 61), (''ELOOP'', 62),
     (''ENAMETOOLONG'', 63), (''EHOSTDOWN'', 64), (''EHOSTUNREACH'', 65), (''ENOTEMPTY'', 66),
     (''EPROCLIM'', 67), (''EUSERS'', 68), (''EDQUOT'', 69), (''ESTALE'', 70), (''EREMOTE'', 71),
     (''EBADRPC'', 72), (''ERPCMISMATCH'', 73), (''EPROGUNAVAIL'', 74), (''EPROGMISMATCH'', 75),
     (''EPROCUNAVAIL'', 76), (''ENOLCK'', 77), (''ENOSYS'', 78), (''EFTYPE'', 79), (''EAUTH'', 80),
     (''ENEEDAUTH'', 81), (''EIDRM'', 82), (''ENOMSG'', 83), (''EOVERFLOW'', 84),
     (''ECANCELED'', 85), (''EILSEQ'', 86), (''ENOATTR'', 87), (''EDOOFUS'', 88),
     (''EBADMSG'', 89), (''EMULTIHOP'', 90), (''ENOLINK'', 91), (''EPROTO'', 92),
     (''ENOTCAPABLE'', 93), (''ECAPMODE'', 94), (''ENOBLK'', 95), (''EICV'', 96),
     (''ENOPLAYGOENT'', 97), (''EREVOKE'', 98), (''EAPIVERSION'', 99), (''ESTART'', 100),
     (''ESTOP'', 101), (''EINVALID2MB'', 102), (''ELAST'', 102), (''EADHOC'', 160),
     (''EINACTIVEDISABLED'', 163), (''ENETNODATA'', 164), (''ENETDESC'', 165),
     (''ENETDESCTIMEDOUT'', 166), (''ENETINTR'', 167), (''ERETURN'', 205), (''EFPOS'', 152),
     (''ENODATA'', 1040), (''ENOSR'', 1050), (''ENOSTR'', 1051), (''ENOTRECOVERABLE'', 1056),
     (''EOTHER'', 1062), (''EOWNERDEAD'', 1064), (''ETIME'', 1074)]"

definition kernel_errnos :: "(string \<times> int) list" where
  "kernel_errnos = [
     (''UNKNOWN'', - 2147352576), (''EPERM'', - 2147352575), (''ENOENT'', - 2147352574),
     (''ESRCH'', - 2147352573), (''EINTR'', - 2147352572), (''EIO'', - 2147352571),
     (''ENXIO'', - 2147352570), (''E2BIG'', - 2147352569), (''ENOEXEC'', - 2147352568),
     (''EBADF'', - 2147352567), (''ECHILD'', - 2147352566), (''EDEADLK'', - 2147352565),
     (''ENOMEM'', - 2147352564), (''EACCES'', - 2147352563), (''EFAULT'', - 2147352562),
     (''ENOTBLK'', - 2147352561), (''EBUSY'', - 2147352560), (''EEXIST'', - 2147352559),
     (''EXDEV'', - 2147352558), (''ENODEV'', - 2147352557), (''ENOTDIR'', - 2147352556),
     (''EISDIR'', - 2147352555), (''EINVAL'', - 2147352554), (''ENFILE'', - 2147352553),
     (''EMFILE'', - 2147352552), (''ENOTTY'', - 2147352551), (''ETXTBSY'', - 2147352550),
     (''EFBIG'', - 2147352549), (''ENOSPC'', - 2147352548), (''ESPIPE'', - 2147352547),
     (''EROFS'', - 2147352546), (''EMLINK'', - 2147352545), (''EPIPE'', - 2147352544),
     (''EDOM'', - 2147352543), (''ERANGE'', - 2147352542), (''EAGAIN'', - 2147352541),
     (''EWOULDBLOCK'', - 2147352541), (''EINPROGRESS'', - 2147352540),
     (''EALREADY'', - 2147352539), (''ENOTSOCK'', - 2147352538), (''EDESTADDRREQ'', - 2147352537),
     (''EMSGSIZE'', - 2147352536), (''EPROTOTYPE'', - 2147352535), (''ENOPROTOOPT'', - 2147352534),
     (''EPROTONOSUPPORT'', - 2147352533), (''ESOCKTNOSUPPORT'', - 2147352532),
     (''EOPNOTSUPP'', - 2147352531), (''ENOTSUP'', - 2147352531), (''EPFNOSUPPORT'', - 2147352530),
     (''EAFNOSUPPORT'', - 2147352529), (''EADDRINUSE'', - 2147352528),
     (''EADDRNOTAVAIL'', - 2147352527), (''ENETDOWN'', - 2147352526),
     (''ENETUNREACH'', - 2147352525), (''ENETRESET'', - 2147352524),
     (''ECONNABORTED'', - 2147352523), (''ECONNRESET'', - 2147352522), (''ENOBUFS'', - 2147352521),
     (''EISCONN'', - 2147352520), (''ENOTCONN'', - 2147352519), (''ESHUTDOWN'', - 2147352518),
     (''ETOOMANYREFS'', - 2147352517), (''ETIMEDOUT'', - 2147352516),
     (''ECONNREFUSED'', - 2147352515), (''ELOOP'', - 2147352514), (''ENAMETOOLONG'', - 2147352513),
     (''EHOSTDOWN'', - 2147352512), (''EHOSTUNREACH'', - 2147352511),
     (''ENOTEMPTY'', - 2147352510), (''EPROCLIM'', - 2147352509), (''EUSERS'', - 2147352508),
     (''EDQUOT'', - 2147352507), (''ESTALE'', - 2147352506), (''EREMOTE'', - 2147352505),
     (''EBADRPC'', - 2147352504), (''ERPCMISMATCH'', - 2147352503),
     (''EPROGUNAVAIL'', - 2147352502), (''EPROGMISMATCH'', - 2147352501),
     (''EPROCUNAVAIL'', - 2147352500), (''ENOLCK'', - 2147352499), (''ENOSYS'', - 2147352498),
     (''EFTYPE'', - 2147352497), (''EAUTH'', - 2147352496), (''ENEEDAUTH'', - 2147352495),
     (''EIDRM'', - 2147352494), (''ENOMSG'', - 2147352493), (''EOVERFLOW'', - 2147352492),
     (''ECANCELED'', - 2147352491), (''EILSEQ'', - 2147352490), (''ENOATTR'', - 2147352489),
     (''EDOOFUS'', - 2147352488), (''EBADMSG'', - 2147352487), (''EMULTIHOP'', - 2147352486),
     (''ENOLINK'', - 2147352485), (''EPROTO'', - 2147352484), (''ENOTCAPABLE'', - 2147352483),
     (''ECAPMODE'', - 2147352482), (''ENOBLK'', - 2147352481), (''EICV'', - 2147352480),
     (''ENOPLAYGOENT'', - 2147352479), (''EREVOKE'', - 2147352478),
     (''EAPIVERSION'', - 2147352477), (''ESTART'', - 2147352476), (''ESTOP'', - 2147352475)]"

definition kernel_to_posix :: "int \<Rightarrow> int" where
  "kernel_to_posix kernel_errno =
     (if kernel_errno > - 2147352576 \<and> kernel_errno \<le> - 2147352475 then kernel_errno + 2147352576 else 1062)"

definition posix_to_kernel :: "int \<Rightarrow> int" where
  "posix_to_kernel posix_errno =
     (if posix_errno \<ge> 0 \<and> posix_errno \<le> 102 then posix_errno - 2147352576 else - 2147352554)"

abbreviation (input) KERNEL_ERROR_EPERM :: int where
  "KERNEL_ERROR_EPERM \<equiv> - 2147352575"

abbreviation (input) KERNEL_ERROR_ENOENT :: int where
  "KERNEL_ERROR_ENOENT \<equiv> - 2147352574"

abbreviation (input) KERNEL_ERROR_ESRCH :: int where
  "KERNEL_ERROR_ESRCH \<equiv> - 2147352573"

abbreviation (input) KERNEL_ERROR_EINTR :: int where
  "KERNEL_ERROR_EINTR \<equiv> - 2147352572"

abbreviation (input) KERNEL_ERROR_EBADF :: int where
  "KERNEL_ERROR_EBADF \<equiv> - 2147352567"

abbreviation (input) KERNEL_ERROR_ENOMEM :: int where
  "KERNEL_ERROR_ENOMEM \<equiv> - 2147352564"

abbreviation (input) KERNEL_ERROR_EACCES :: int where
  "KERNEL_ERROR_EACCES \<equiv> - 2147352563"

abbreviation (input) KERNEL_ERROR_EFAULT :: int where
  "KERNEL_ERROR_EFAULT \<equiv> - 2147352562"

abbreviation (input) KERNEL_ERROR_EBUSY :: int where
  "KERNEL_ERROR_EBUSY \<equiv> - 2147352560"

abbreviation (input) KERNEL_ERROR_EEXIST :: int where
  "KERNEL_ERROR_EEXIST \<equiv> - 2147352559"

abbreviation (input) KERNEL_ERROR_EINVAL :: int where
  "KERNEL_ERROR_EINVAL \<equiv> - 2147352554"

abbreviation (input) KERNEL_ERROR_EAGAIN :: int where
  "KERNEL_ERROR_EAGAIN \<equiv> - 2147352541"

abbreviation (input) KERNEL_ERROR_ETIMEDOUT :: int where
  "KERNEL_ERROR_ETIMEDOUT \<equiv> - 2147352516"

abbreviation (input) KERNEL_ERROR_ECANCELED :: int where
  "KERNEL_ERROR_ECANCELED \<equiv> - 2147352491"

abbreviation (input) KERNEL_ERROR_EDEADLK :: int where
  "KERNEL_ERROR_EDEADLK \<equiv> - 2147352565"

abbreviation (input) POSIX_EINVAL :: int where
  "POSIX_EINVAL \<equiv> 22"

abbreviation (input) POSIX_EAGAIN :: int where
  "POSIX_EAGAIN \<equiv> 35"

abbreviation (input) POSIX_ETIMEDOUT :: int where
  "POSIX_ETIMEDOUT \<equiv> 60"

abbreviation (input) POSIX_EOVERFLOW :: int where
  "POSIX_EOVERFLOW \<equiv> 84"

text \<open>
  The kernel's table is the POSIX one, name by name, up to its 103rd entry, after the unknown error; on these
  entries the two conversions translate one table to the other.  Two names may share a number.
\<close>

lemma errno_tables_convert:
  "map (\<lambda>(name, e). (name, kernel_to_posix e)) (tl kernel_errnos) = take 103 posix_errnos"
  "map (\<lambda>(name, e). (name, posix_to_kernel e)) (take 103 posix_errnos) = tl kernel_errnos"
  by (simp_all add: posix_errnos_def kernel_errnos_def posix_to_kernel_def kernel_to_posix_def)

end
