(* ===== verification/Semaphore.thy ===== *)
theory Semaphore
  imports Errno "HOL-Library.Signed_Division"
begin

text \<open>
  The kernel semaphores of src/kernel/semaphore.cpp (the class \<open>KernelSemaPrivate\<close> and the \<open>Kernel...Sema\<close>
  calls).  A method runs under the class mutex from one wait on the condition variable to the next, so
  \<open>Wait\<close> is two operations: \<open>sema_wait\<close> up to the loop, and \<open>sema_check\<close>, one test of the loop's condition
  with what follows when it ends.  A waiter is named by its thread: it lives on the stack of the thread
  that waits.  An \<open>int\<close> sum that can overflow is brought back to 32 bits.
\<close>

datatype sema_result = SemaOk | SemaTimedOut | SemaCanceled | SemaDeleted | SemaInvalCount

record waiter =
  w_thread :: nat
  w_priority :: int
  w_need :: int
  w_result :: sema_result
  w_ready :: bool

record sema =
  s_name :: string
  s_deleted :: bool
  s_waiting :: "waiter list"
  s_fifo :: bool
  s_count :: int
  s_init :: int
  s_max :: int

definition sema_new :: "string \<Rightarrow> bool \<Rightarrow> int \<Rightarrow> int \<Rightarrow> sema" where
  "sema_new name fifo init_count max_count =
     \<lparr>s_name = name, s_deleted = False, s_waiting = [], s_fifo = fifo, s_count = init_count,
      s_init = init_count, s_max = max_count\<rparr>"

text \<open>A waiter that is not ready yet is given the result and made ready.\<close>

definition finish_waiter :: "sema_result \<Rightarrow> waiter \<Rightarrow> waiter" where
  "finish_waiter r w = (if \<not> w_ready w then w\<lparr>w_result := r, w_ready := True\<rparr> else w)"

text \<open>The destructor up to the loop in which it waits for the queue to become empty.\<close>

definition sema_delete :: "sema \<Rightarrow> sema" where
  "sema_delete s = s\<lparr>s_deleted := True, s_waiting := map (finish_waiter SemaDeleted) (s_waiting s)\<rparr>"

definition sema_cancel :: "int \<Rightarrow> sema \<Rightarrow> sema \<times> sema_result \<times> nat option" where
  "sema_cancel set_count s =
     (if set_count > s_max s then (s, SemaInvalCount, None)
      else if s_deleted s then (s, SemaDeleted, None)
      else (s\<lparr>s_count := (if set_count < 0 then s_init s else set_count),
               s_waiting := map (finish_waiter SemaCanceled) (s_waiting s)\<rparr>,
            SemaOk, Some (length (filter (\<lambda>w. \<not> w_ready w) (s_waiting s)))))"

fun wake_waiters :: "int \<Rightarrow> waiter list \<Rightarrow> int \<times> waiter list" where
  "wake_waiters count [] = (count, [])"
| "wake_waiters count (w # ws) =
     (if \<not> w_ready w \<and> w_need w \<le> count
      then (let (count', ws') = wake_waiters (count - w_need w) ws
            in (count', w\<lparr>w_result := SemaOk, w_ready := True\<rparr> # ws'))
      else (let (count', ws') = wake_waiters count ws in (count', w # ws')))"

definition int_add :: "int \<Rightarrow> int \<Rightarrow> int" where
  "int_add a b = (a + b + 2147483648) mod 4294967296 - 2147483648"

definition sema_signal :: "int \<Rightarrow> sema \<Rightarrow> sema \<times> sema_result" where
  "sema_signal signal_count s =
     (if s_deleted s then (s, SemaDeleted)
      else if int_add (s_count s) signal_count > s_max s then (s, SemaInvalCount)
      else (let (count, ws) = wake_waiters (int_add (s_count s) signal_count) (s_waiting s)
            in (s\<lparr>s_count := count, s_waiting := ws\<rparr>, SemaOk)))"

definition add_waiter :: "waiter \<Rightarrow> sema \<Rightarrow> sema" where
  "add_waiter w s =
     (if s_fifo s then s\<lparr>s_waiting := s_waiting s @ [w]\<rparr>
      else s\<lparr>s_waiting := takeWhile (\<lambda>v. w_priority v \<le> w_priority w) (s_waiting s) @ [w]
               @ dropWhile (\<lambda>v. w_priority v \<le> w_priority w) (s_waiting s)\<rparr>)"

definition remove_waiter :: "nat \<Rightarrow> sema \<Rightarrow> sema" where
  "remove_waiter t s = s\<lparr>s_waiting := remove_first_where (\<lambda>w. w_thread w = t) (s_waiting s)\<rparr>"

text \<open>What a call of \<open>Wait\<close> has come to: its result with the time left, or it still blocks.\<close>

datatype wait_outcome = WReturn sema_result "nat option" | WBlock

definition sema_wait :: "nat \<Rightarrow> int \<Rightarrow> int \<Rightarrow> nat option \<Rightarrow> sema \<Rightarrow> sema \<times> wait_outcome" where
  "sema_wait t current_priority need_count ptr_micros s =
     (if need_count < 1 \<or> need_count > s_max s then (s, WReturn SemaInvalCount ptr_micros)
      else if s_deleted s then (s, WReturn SemaDeleted ptr_micros)
      else if s_count s \<ge> need_count
           then (s\<lparr>s_count := s_count s - need_count\<rparr>, WReturn SemaOk ptr_micros)
      else if ptr_micros = Some 0 then (s, WReturn SemaTimedOut ptr_micros)
      else (add_waiter \<lparr>w_thread = t, w_priority = (if s_fifo s then 0 else current_priority),
              w_need = need_count, w_result = SemaTimedOut, w_ready = False\<rparr> s, WBlock))"

definition sema_check :: "nat \<Rightarrow> nat option \<Rightarrow> nat \<Rightarrow> sema \<Rightarrow> sema \<times> wait_outcome" where
  "sema_check t ptr_micros elapsed s =
     (case find (\<lambda>w. w_thread w = t) (s_waiting s) of
        None \<Rightarrow> (s, WBlock)
      | Some w \<Rightarrow>
          if \<not> w_ready w
          then (if (case ptr_micros of None \<Rightarrow> False | Some micros \<Rightarrow> elapsed \<ge> micros)
                then (remove_waiter t s, WReturn SemaTimedOut (Some 0)) else (s, WBlock))
          else (remove_waiter t s, WReturn (w_result w)
                  (map_option (\<lambda>micros. if elapsed \<ge> micros then 0 else micros - elapsed) ptr_micros)))"

definition sema_poll :: "nat \<Rightarrow> int \<Rightarrow> int \<Rightarrow> sema \<Rightarrow> sema \<times> wait_outcome" where
  "sema_poll t current_priority need_count s = sema_wait t current_priority need_count (Some 0) s"

subsection \<open>The kernel calls\<close>

text \<open>
  A null pointer is \<open>None\<close>; the creation returns the error code or the new semaphore.  The pointer it
  writes the semaphore to is not null: the program stops otherwise.
\<close>

definition kernel_create_sema :: "string option \<Rightarrow> nat \<Rightarrow> int \<Rightarrow> int \<Rightarrow> int + sema" where
  "kernel_create_sema name attr init max_count =
     (case name of
        None \<Rightarrow> Inl KERNEL_ERROR_EINVAL
      | Some n \<Rightarrow>
          if attr > 2 \<or> init < 0 \<or> max_count \<le> 0 \<or> init > max_count then Inl KERNEL_ERROR_EINVAL
          else Inr (sema_new n (attr = 1) init max_count))"

definition kernel_delete_sema :: "sema option \<Rightarrow> sema option \<times> int" where
  "kernel_delete_sema sem =
     (case sem of None \<Rightarrow> (None, KERNEL_ERROR_ESRCH) | Some s \<Rightarrow> (Some (sema_delete s), OK))"

fun wait_code :: "sema_result \<Rightarrow> int" where
  "wait_code SemaOk = OK"
| "wait_code SemaInvalCount = KERNEL_ERROR_EINVAL"
| "wait_code SemaTimedOut = KERNEL_ERROR_ETIMEDOUT"
| "wait_code SemaCanceled = KERNEL_ERROR_ECANCELED"
| "wait_code SemaDeleted = KERNEL_ERROR_EACCES"

fun poll_code :: "sema_result \<Rightarrow> int" where
  "poll_code SemaOk = OK"
| "poll_code SemaInvalCount = KERNEL_ERROR_EINVAL"
| "poll_code SemaTimedOut = KERNEL_ERROR_EBUSY"
| "poll_code SemaCanceled = KERNEL_ERROR_EBUSY"
| "poll_code SemaDeleted = KERNEL_ERROR_EBUSY"

fun signal_code :: "sema_result \<Rightarrow> int" where
  "signal_code SemaOk = OK"
| "signal_code SemaInvalCount = KERNEL_ERROR_EINVAL"
| "signal_code SemaTimedOut = KERNEL_ERROR_EINVAL"
| "signal_code SemaCanceled = KERNEL_ERROR_EINVAL"
| "signal_code SemaDeleted = KERNEL_ERROR_EINVAL"

text \<open>The code of a call that may block is \<open>None\<close> while it does.\<close>

definition kernel_wait_sema :: "nat \<Rightarrow> int \<Rightarrow> int \<Rightarrow> nat option \<Rightarrow> sema option \<Rightarrow> sema option \<times> int option" where
  "kernel_wait_sema t prio need time sem =
     (case sem of
        None \<Rightarrow> (None, Some KERNEL_ERROR_ESRCH)
      | Some s \<Rightarrow>
          (case sema_wait t prio need time s of
             (s', WReturn r _) \<Rightarrow> (Some s', Some (wait_code r))
           | (s', WBlock) \<Rightarrow> (Some s', None)))"

definition kernel_poll_sema :: "nat \<Rightarrow> int \<Rightarrow> int \<Rightarrow> sema option \<Rightarrow> sema option \<times> int option" where
  "kernel_poll_sema t prio need sem =
     (case sem of
        None \<Rightarrow> (None, Some KERNEL_ERROR_ESRCH)
      | Some s \<Rightarrow>
          (case sema_poll t prio need s of
             (s', WReturn r _) \<Rightarrow> (Some s', Some (poll_code r))
           | (s', WBlock) \<Rightarrow> (Some s', None)))"

definition kernel_signal_sema :: "int \<Rightarrow> sema option \<Rightarrow> sema option \<times> int" where
  "kernel_signal_sema count sem =
     (case sem of
        None \<Rightarrow> (None, KERNEL_ERROR_ESRCH)
      | Some s \<Rightarrow> (case sema_signal count s of (s', r) \<Rightarrow> (Some s', signal_code r)))"

definition kernel_cancel_sema :: "int \<Rightarrow> sema option \<Rightarrow> sema option \<times> int \<times> nat option" where
  "kernel_cancel_sema count sem =
     (case sem of
        None \<Rightarrow> (None, KERNEL_ERROR_ESRCH, None)
      | Some s \<Rightarrow> (case sema_cancel count s of (s', r, threads) \<Rightarrow> (Some s', signal_code r, threads)))"

subsection \<open>The semaphore and its threads\<close>

text \<open>
  A semaphore with the threads that block in \<open>Wait\<close> and the time limit of each.  A blocked thread may
  test its condition at any moment: the condition variable is polled, and a wake-up may be spurious.
  The number of a signal is any 32-bit integer the predicate admits, given the count; the code admits all.
\<close>

record sema_sys =
  y_sema :: sema
  y_blocked :: "nat \<Rightarrow> nat option option"

inductive sema_step :: "(int \<Rightarrow> int \<Rightarrow> bool) \<Rightarrow> sema_sys \<Rightarrow> sema_sys \<Rightarrow> bool" for admits where
  wait_return: "\<lbrakk>y_blocked y t = None; sema_wait t p n ptr (y_sema y) = (s, WReturn r m)\<rbrakk>
    \<Longrightarrow> sema_step admits y (y\<lparr>y_sema := s\<rparr>)"
| wait_block: "\<lbrakk>y_blocked y t = None; sema_wait t p n ptr (y_sema y) = (s, WBlock)\<rbrakk>
    \<Longrightarrow> sema_step admits y (y\<lparr>y_sema := s, y_blocked := (y_blocked y)(t := Some ptr)\<rparr>)"
| check_return: "\<lbrakk>y_blocked y t = Some ptr; sema_check t ptr e (y_sema y) = (s, WReturn r m)\<rbrakk>
    \<Longrightarrow> sema_step admits y (y\<lparr>y_sema := s, y_blocked := (y_blocked y)(t := None)\<rparr>)"
| signal: "\<lbrakk>sema_signal n (y_sema y) = (s, r); admits n (s_count (y_sema y))\<rbrakk>
    \<Longrightarrow> sema_step admits y (y\<lparr>y_sema := s\<rparr>)"
| cancel: "sema_cancel n (y_sema y) = (s, r, k) \<Longrightarrow> sema_step admits y (y\<lparr>y_sema := s\<rparr>)"
| delete: "\<not> s_deleted (y_sema y) \<Longrightarrow> sema_step admits y (y\<lparr>y_sema := sema_delete (y_sema y)\<rparr>)"

inductive sema_reach_by :: "(int \<Rightarrow> int \<Rightarrow> bool) \<Rightarrow> sema_sys \<Rightarrow> bool" for admits where
  create: "\<lbrakk>kernel_create_sema name attr init max_count = Inr s; max_count < 2147483648\<rbrakk>
    \<Longrightarrow> sema_reach_by admits \<lparr>y_sema = s, y_blocked = (\<lambda>_. None)\<rparr>"
| step: "\<lbrakk>sema_reach_by admits y; sema_step admits y y'\<rbrakk> \<Longrightarrow> sema_reach_by admits y'"

abbreviation sema_reach :: "sema_sys \<Rightarrow> bool" where
  "sema_reach \<equiv> sema_reach_by (\<lambda>_ _. True)"

end
