(* ===== verification/SemaphoreFacts.thy ===== *)
theory SemaphoreFacts
  imports Semaphore
begin

text \<open>
  The kernel semaphore: no reachable state loses a token or a wake-up, a signal wakes the queue
  greedily in its order, and every call that is woken, timed out or deleted returns.
\<close>

lemma int_add_exact [simp]: "\<lbrakk>- 2147483648 \<le> a + b; a + b < 2147483648\<rbrakk> \<Longrightarrow> int_add a b = a + b"
  by (simp add: int_add_def)

subsection \<open>Waking the queue\<close>

definition grant :: "waiter \<Rightarrow> waiter \<Rightarrow> int" where
  "grant w w' = (if \<not> w_ready w \<and> w_ready w' then w_need w else 0)"

definition granted :: "waiter list \<Rightarrow> waiter list \<Rightarrow> int" where
  "granted ws ws' = sum_list (map2 grant ws ws')"

lemma granted_simps [simp]: "granted [] ws = 0" "granted (w # ws) (w' # ws') = grant w w' + granted ws ws'"
  by (simp_all add: granted_def)

lemma wake_waiters_length: "length (snd (wake_waiters c ws)) = length ws"
  by (induction c ws rule: wake_waiters.induct) (auto simp: Let_def split: prod.splits)

lemma wake_waiters_nth:
  fixes c :: int
  assumes "i < length ws"
  defines "ws' \<equiv> snd (wake_waiters c ws)"
  shows "ws' ! i = (if \<not> w_ready (ws ! i) \<and> w_need (ws ! i) \<le> c - granted (take i ws) (take i ws')
    then (ws ! i)\<lparr>w_result := SemaOk, w_ready := True\<rparr> else ws ! i)"
  using assms(1) unfolding ws'_def
proof (induction c ws arbitrary: i rule: wake_waiters.induct)
  case (2 c w ws)
  show ?case
  proof (cases i)
    case 0
    then show ?thesis by (simp add: Let_def split: prod.split)
  next
    case (Suc j)
    then have j: "j < length ws" using "2.prems" by simp
    show ?thesis
    proof (cases "\<not> w_ready w \<and> w_need w \<le> c")
      case True
      obtain c' ws' where e: "wake_waiters (c - w_need w) ws = (c', ws')" by force
      show ?thesis using "2.IH"(1) [OF True j] Suc True by (simp add: e grant_def diff_diff_add)
    next
      case False
      then show ?thesis using "2.IH"(2) [OF False j] Suc
        by (auto simp: Let_def grant_def split: prod.split)
    qed
  qed
qed simp

lemma wake_waiters_count:
  "fst (wake_waiters c ws) = c - granted ws (snd (wake_waiters c ws))"
proof (induction c ws rule: wake_waiters.induct)
  case (2 c w ws)
  then show ?case by (auto simp: Let_def grant_def split: prod.split)
qed simp

lemma wake_waiters_map:
  "map w_thread (snd (wake_waiters c ws)) = map w_thread ws"
  "map w_priority (snd (wake_waiters c ws)) = map w_priority ws"
  "map w_need (snd (wake_waiters c ws)) = map w_need ws"
  by (induction c ws rule: wake_waiters.induct) (auto simp: Let_def split: prod.splits)

lemma wake_waiters_bounds:
  assumes "\<forall>w\<in>set ws. 1 \<le> w_need w"
  shows "fst (wake_waiters c ws) = c \<or> 0 \<le> fst (wake_waiters c ws)" "fst (wake_waiters c ws) \<le> c"
    "\<forall>w\<in>set (snd (wake_waiters c ws)). \<not> w_ready w \<longrightarrow> fst (wake_waiters c ws) < w_need w"
    "\<forall>w\<in>set (snd (wake_waiters c ws)). w_ready w \<longrightarrow> w \<in> set ws \<or> w_result w = SemaOk"
    "\<forall>w\<in>set (snd (wake_waiters c ws)). \<exists>v\<in>set ws. w_need w = w_need v \<and> (\<not> w_ready w \<longrightarrow> w = v)"
proof -
  have "(fst (wake_waiters c ws) = c \<or> 0 \<le> fst (wake_waiters c ws)) \<and> fst (wake_waiters c ws) \<le> c
    \<and> (\<forall>w\<in>set (snd (wake_waiters c ws)). \<not> w_ready w \<longrightarrow> fst (wake_waiters c ws) < w_need w)
    \<and> (\<forall>w\<in>set (snd (wake_waiters c ws)). w_ready w \<longrightarrow> w \<in> set ws \<or> w_result w = SemaOk)
    \<and> (\<forall>w\<in>set (snd (wake_waiters c ws)). \<exists>v\<in>set ws. w_need w = w_need v \<and> (\<not> w_ready w \<longrightarrow> w = v))"
    using assms
  proof (induction c ws rule: wake_waiters.induct)
    case (2 c w ws)
    show ?case
    proof (cases "\<not> w_ready w \<and> w_need w \<le> c")
      case True
      have p: "\<forall>w\<in>set ws. 1 \<le> w_need w" "0 \<le> c - w_need w" "1 \<le> w_need w" using "2.prems" True by simp_all
      obtain c' ws' where e: "wake_waiters (c - w_need w) ws = (c', ws')" by force
      from "2.IH"(1) [OF True p(1)] show ?thesis using True p(2,3) by (auto simp: e)
    next
      case False
      obtain c' ws' where e: "wake_waiters c ws = (c', ws')" by force
      from "2.IH"(2) [OF False] "2.prems" show ?thesis using False by (auto simp: e)
    qed
  qed simp
  then show "fst (wake_waiters c ws) = c \<or> 0 \<le> fst (wake_waiters c ws)" "fst (wake_waiters c ws) \<le> c"
    "\<forall>w\<in>set (snd (wake_waiters c ws)). \<not> w_ready w \<longrightarrow> fst (wake_waiters c ws) < w_need w"
    "\<forall>w\<in>set (snd (wake_waiters c ws)). w_ready w \<longrightarrow> w \<in> set ws \<or> w_result w = SemaOk"
    "\<forall>w\<in>set (snd (wake_waiters c ws)). \<exists>v\<in>set ws. w_need w = w_need v \<and> (\<not> w_ready w \<longrightarrow> w = v)"
    by blast+
qed

subsection \<open>The invariant\<close>

definition sema_ok :: "sema \<Rightarrow> bool" where
  "sema_ok s \<longleftrightarrow> - 2147483648 \<le> s_count s \<and> s_count s \<le> s_max s \<and> s_max s < 2147483648 \<and> 0 \<le> s_init s \<and> s_init s \<le> s_max s
     \<and> distinct (map w_thread (s_waiting s))
     \<and> (\<forall>w\<in>set (s_waiting s). 1 \<le> w_need w \<and> w_need w \<le> s_max s
          \<and> (\<not> w_ready w \<longrightarrow> s_count s < w_need w \<and> \<not> s_deleted s)
          \<and> (w_ready w \<longrightarrow> w_result w \<noteq> SemaTimedOut))
     \<and> (s_fifo s \<or> sorted (map w_priority (s_waiting s)))"

lemma finish_waiter_simps [simp]:
  "w_thread (finish_waiter r w) = w_thread w" "w_need (finish_waiter r w) = w_need w"
  "w_priority (finish_waiter r w) = w_priority w" "w_ready (finish_waiter r w)"
  by (simp_all add: finish_waiter_def)

lemma finish_waiter_result: "w_result (finish_waiter r w) = (if w_ready w then w_result w else r)"
  by (simp add: finish_waiter_def)

lemma finish_all_ok:
  assumes "sema_ok s" "r \<noteq> SemaTimedOut" "- 2147483648 \<le> c" "c \<le> s_max s"
  shows "sema_ok (s\<lparr>s_deleted := d, s_count := c, s_waiting := map (finish_waiter r) (s_waiting s)\<rparr>)"
  using assms by (auto simp: sema_ok_def comp_def finish_waiter_result)

lemma sema_cancel_ok: "\<lbrakk>sema_ok s; sema_cancel n s = (s', r, k)\<rbrakk> \<Longrightarrow> sema_ok s'
    \<and> map w_thread (s_waiting s') = map w_thread (s_waiting s)"
  using finish_all_ok [of s SemaCanceled "if n < 0 then s_init s else n" "s_deleted s"]
  by (auto simp: sema_cancel_def sema_ok_def comp_def split: if_splits)

lemma sema_delete_ok: "sema_ok s \<Longrightarrow> sema_ok (sema_delete s)"
  using finish_all_ok [of s SemaDeleted "s_count s" True] by (simp add: sema_delete_def sema_ok_def)

lemma int_add_range: "- 2147483648 \<le> int_add a b" "int_add a b < 2147483648"
  by (simp_all add: int_add_def)

lemma sema_signal_ok:
  assumes ok: "sema_ok s" and sig: "sema_signal n s = (s', r)"
  shows "sema_ok s'" "map w_thread (s_waiting s') = map w_thread (s_waiting s)"
    and "\<lbrakk>0 \<le> s_count s; 0 \<le> n; s_count s + n < 2147483648\<rbrakk> \<Longrightarrow> 0 \<le> s_count s'"
proof -
  define c where "c = int_add (s_count s) n"
  have "sema_ok s' \<and> map w_thread (s_waiting s') = map w_thread (s_waiting s) \<and> (0 \<le> s_count s \<and> 0 \<le> c \<longrightarrow> 0 \<le> s_count s')"
  proof (cases "s_deleted s \<or> c > s_max s")
    case True
    then have "s' = s" using sig unfolding sema_signal_def c_def [symmetric] by (auto split: if_splits)
    then show ?thesis using ok by simp
  next
    case False
    define c' where "c' = fst (wake_waiters c (s_waiting s))"
    define ws where "ws = snd (wake_waiters c (s_waiting s))"
    have s': "s' = s\<lparr>s_count := c', s_waiting := ws\<rparr>"
      using sig False unfolding sema_signal_def c_def [symmetric] by (simp add: c'_def ws_def split: prod.splits)
    have need: "\<forall>w\<in>set (s_waiting s). 1 \<le> w_need w" using ok by (auto simp: sema_ok_def)
    note B = wake_waiters_bounds [OF need, of c, folded c'_def ws_def]
    note M = wake_waiters_map [of c "s_waiting s", folded ws_def]
    have c': "- 2147483648 \<le> c'" "c' \<le> s_max s" using B(1,2) False int_add_range(1) [of "s_count s" n] unfolding c_def by linarith+
    have "1 \<le> w_need w \<and> w_need w \<le> s_max s \<and> (w_ready w \<longrightarrow> w_result w \<noteq> SemaTimedOut)"
      if "w \<in> set ws" for w
    proof -
      obtain v where v: "v \<in> set (s_waiting s)" "w_need w = w_need v" using B(5) \<open>w \<in> set ws\<close> by blast
      have "w_ready w \<Longrightarrow> w_result w \<noteq> SemaTimedOut"
        using B(4) that ok by (fastforce simp: sema_ok_def)
      then show ?thesis using v ok by (simp add: sema_ok_def)
    qed
    then show ?thesis using ok B(1,3) M False c' by (auto simp: s' sema_ok_def)
  qed
  then show "sema_ok s'" "map w_thread (s_waiting s') = map w_thread (s_waiting s)"
    "\<lbrakk>0 \<le> s_count s; 0 \<le> n; s_count s + n < 2147483648\<rbrakk> \<Longrightarrow> 0 \<le> s_count s'"
    by (simp_all add: c_def)
qed


lemma remove_first_thread:
  "distinct (map w_thread ws) \<Longrightarrow> distinct (map w_thread (remove_first_where (\<lambda>w. w_thread w = t) ws))
     \<and> set (map w_thread (remove_first_where (\<lambda>w. w_thread w = t) ws)) = set (map w_thread ws) - {t}"
proof (induction ws)
  case (Cons w ws)
  then show ?case by (cases "w_thread w = t") (auto simp: image_iff)
qed simp

lemma remove_waiter_ok:
  assumes "sema_ok s"
  shows "sema_ok (remove_waiter t s)"
    "set (map w_thread (s_waiting (remove_waiter t s))) = set (map w_thread (s_waiting s)) - {t}"
proof -
  have d: "distinct (map w_thread (s_waiting s))" using assms by (simp add: sema_ok_def)
  show "set (map w_thread (s_waiting (remove_waiter t s))) = set (map w_thread (s_waiting s)) - {t}"
    using remove_first_thread [OF d, of t] by (simp add: remove_waiter_def)
  define ws where "ws = remove_first_where (\<lambda>w. w_thread w = t) (s_waiting s)"
  have eq: "remove_waiter t s = s\<lparr>s_waiting := ws\<rparr>" by (simp add: remove_waiter_def ws_def)
  have sub: "w \<in> set (s_waiting s)" if "w \<in> set ws" for w
    using that remove_first_set [of "\<lambda>w. w_thread w = t" "s_waiting s"] unfolding ws_def by blast
  have "distinct (map w_thread ws)" using remove_first_thread [OF d, of t] by (simp add: ws_def)
  moreover have "s_fifo s \<or> sorted (map w_priority ws)"
    using assms remove_first_sorted [of w_priority "s_waiting s"] by (auto simp: sema_ok_def ws_def)
  ultimately show "sema_ok (remove_waiter t s)" unfolding eq using assms sub by (simp add: sema_ok_def) blast
qed

lemma sorted_insert_waiter:
  assumes "sorted (map f xs)"
  shows "sorted (map f (takeWhile (\<lambda>v. f v \<le> f x) xs @ [x] @ dropWhile (\<lambda>v. f v \<le> f x) xs))"
  using assms
proof (induction xs)
  case (Cons y xs)
  show ?case
  proof (cases "f y \<le> f x")
    case True
    define zs where "zs = takeWhile (\<lambda>v. f v \<le> f x) xs @ [x] @ dropWhile (\<lambda>v. f v \<le> f x) xs"
    have "set zs = insert x (set (takeWhile (\<lambda>v. f v \<le> f x) xs) \<union> set (dropWhile (\<lambda>v. f v \<le> f x) xs))"
      by (simp add: zs_def)
    then have "set zs = insert x (set xs)" by (simp only: set_append [symmetric] takeWhile_dropWhile_id)
    then have "\<forall>z\<in>set zs. f y \<le> f z" using Cons.prems True by simp
    moreover have "sorted (map f zs)" using Cons by (simp add: zs_def)
    ultimately have "sorted (map f (y # zs))" by simp
    then show ?thesis using True by (simp add: zs_def)
  next
    case False
    then show ?thesis using Cons.prems by auto
  qed
qed simp

lemma add_waiter_set: "set (s_waiting (add_waiter w s)) = insert w (set (s_waiting s))"
proof -
  have "set xs = set (takeWhile P xs) \<union> set (dropWhile P xs)" for P and xs :: "waiter list"
    by (metis set_append takeWhile_dropWhile_id)
  then show ?thesis by (auto simp: add_waiter_def)
qed

lemma add_waiter_fields [simp]:
  "s_count (add_waiter w s) = s_count s" "s_max (add_waiter w s) = s_max s" "s_init (add_waiter w s) = s_init s"
  "s_deleted (add_waiter w s) = s_deleted s" "s_fifo (add_waiter w s) = s_fifo s"
  by (simp_all add: add_waiter_def)

lemma add_waiter_ok:
  assumes ok: "sema_ok s" and w: "1 \<le> w_need w" "w_need w \<le> s_max s" "s_count s < w_need w" "\<not> w_ready w"
    "\<not> s_deleted s" "w_thread w \<notin> set (map w_thread (s_waiting s))"
  shows "sema_ok (add_waiter w s)"
proof -
  have "distinct (map w_thread (takeWhile P xs @ [w] @ dropWhile P xs))"
    if "distinct (map w_thread xs)" "w_thread w \<notin> set (map w_thread xs)" for P xs
    using that by (induction xs) (auto dest: set_takeWhileD set_dropWhileD)
  then have "distinct (map w_thread (s_waiting (add_waiter w s)))"
    using ok w(6) by (auto simp: add_waiter_def sema_ok_def)
  moreover have "s_fifo s \<or> sorted (map w_priority (s_waiting (add_waiter w s)))"
    using ok sorted_insert_waiter [of w_priority "s_waiting s" w] by (auto simp: add_waiter_def sema_ok_def)
  ultimately show ?thesis using ok w by (auto simp: sema_ok_def add_waiter_set)
qed

definition sys_ok :: "sema_sys \<Rightarrow> bool" where
  "sys_ok y \<longleftrightarrow> sema_ok (y_sema y)
     \<and> set (map w_thread (s_waiting (y_sema y))) = {t. y_blocked y t \<noteq> None}"

lemma sema_wait_ok:
  assumes ok: "sema_ok s" and t: "t \<notin> set (map w_thread (s_waiting s))" and w: "sema_wait t p n ptr s = (s', out)"
  shows "sema_ok s'" "set (map w_thread (s_waiting s')) =
    (if out = WBlock then insert t (set (map w_thread (s_waiting s))) else set (map w_thread (s_waiting s)))"
proof -
  have "sema_ok s' \<and> set (map w_thread (s_waiting s')) =
    (if out = WBlock then insert t (set (map w_thread (s_waiting s))) else set (map w_thread (s_waiting s)))"
  proof (cases "n < 1 \<or> n > s_max s \<or> s_deleted s")
    case True
    then have "s' = s \<and> out \<noteq> WBlock" using w [unfolded sema_wait_def] by (auto split: if_splits)
    then show ?thesis using ok by simp
  next
    case False
    show ?thesis
    proof (cases "s_count s \<ge> n")
      case True
      then show ?thesis using w ok False by (auto simp: sema_wait_def sema_ok_def)
    next
      case c: False
      show ?thesis
      proof (cases "ptr = Some 0")
        case True
        then show ?thesis using w ok False c by (auto simp: sema_wait_def)
      next
        case p: False
        define v where "v = \<lparr>w_thread = t, w_priority = (if s_fifo s then 0 else p), w_need = n,
          w_result = SemaTimedOut, w_ready = False\<rparr>"
        have s': "s' = add_waiter v s" "out = WBlock" using w False c p by (simp_all add: sema_wait_def v_def)
        have "sema_ok s'" unfolding s'(1) by (rule add_waiter_ok [OF ok]) (use False c t in \<open>simp_all add: v_def\<close>)
        moreover have "set (map w_thread (s_waiting s')) = insert t (set (map w_thread (s_waiting s)))"
          by (simp add: s' add_waiter_set v_def)
        ultimately show ?thesis using s' by simp
      qed
    qed
  qed
  then show "sema_ok s'" "set (map w_thread (s_waiting s')) =
    (if out = WBlock then insert t (set (map w_thread (s_waiting s))) else set (map w_thread (s_waiting s)))"
    by blast+
qed

lemma sema_check_ok:
  assumes "sema_ok s" and "sema_check t ptr e s = (s', out)"
  shows "sema_ok s'" "out = WReturn r m \<Longrightarrow> s' = remove_waiter t s"
  using assms remove_waiter_ok(1) [OF assms(1), of t]
  by (auto simp: sema_check_def split: option.splits if_splits)

lemma sema_step_ok: "\<lbrakk>sema_step admits y y'; sys_ok y\<rbrakk> \<Longrightarrow> sys_ok y'"
proof (induction rule: sema_step.induct)
  case (wait_return y t p n ptr s r m)
  have t: "t \<notin> set (map w_thread (s_waiting (y_sema y)))" using wait_return by (simp add: sys_ok_def)
  from sema_wait_ok [OF _ t wait_return(2)] wait_return show ?case by (simp add: sys_ok_def)
next
  case (wait_block y t p n ptr s)
  have t: "t \<notin> set (map w_thread (s_waiting (y_sema y)))" using wait_block by (simp add: sys_ok_def)
  from sema_wait_ok [OF _ t wait_block(2)] wait_block show ?case by (auto simp: sys_ok_def)
next
  case (check_return y t ptr e s r m)
  have ok: "sema_ok (y_sema y)" using check_return by (simp add: sys_ok_def)
  from sema_check_ok [OF ok check_return(2)] remove_waiter_ok(2) [OF ok, of t] check_return
  show ?case by (auto simp: sys_ok_def)
next
  case (signal n y s r)
  from sema_signal_ok(1,2) [OF _ signal(1)] signal show ?case by (simp add: sys_ok_def del: set_map)
next
  case (cancel n y s r k)
  from sema_cancel_ok [OF _ cancel(1)] cancel show ?case by (simp add: sys_ok_def del: set_map)
next
  case (delete y)
  then show ?case using sema_delete_ok [of "y_sema y"] by (simp add: sys_ok_def sema_delete_def image_image)
qed

lemma sema_reach_ok: "sema_reach_by admits y \<Longrightarrow> sys_ok y"
proof (induction rule: sema_reach_by.induct)
  case (create name attr init max_count s)
  then show ?case by (auto simp: kernel_create_sema_def sema_new_def sys_ok_def sema_ok_def split: option.splits if_splits)
next
  case (step y y')
  then show ?case using sema_step_ok by blast
qed


lemma sema_reach_nonneg:
  assumes "sema_reach_by admits y" and "\<forall>n c. admits n c \<longrightarrow> 0 \<le> n \<and> c + n < 2147483648"
  shows "0 \<le> s_count (y_sema y)"
  using assms(1)
proof (induction rule: sema_reach_by.induct)
  case (create name attr init max_count s)
  then show ?case by (auto simp: kernel_create_sema_def sema_new_def split: option.splits if_splits)
next
  case (step y y')
  have ok: "sema_ok (y_sema y)" using sema_reach_ok [OF step.hyps(1)] by (simp add: sys_ok_def)
  from step.hyps(2) step.IH show ?case
  proof (cases rule: sema_step.cases)
    case (wait_return t p n ptr s r m)
    then show ?thesis using step.IH by (auto simp: sema_wait_def split: if_splits)
  next
    case (wait_block t p n ptr s)
    then show ?thesis using step.IH by (auto simp: sema_wait_def split: if_splits)
  next
    case (check_return t ptr e s r m)
    then show ?thesis using step.IH sema_check_ok(2) [OF ok check_return(3)] by (simp add: remove_waiter_def)
  next
    case (signal n s r)
    then show ?thesis using sema_signal_ok(3) [OF ok signal(2) step.IH] assms(2) by simp
  next
    case (cancel n s r k)
    then show ?thesis using step.IH ok by (auto simp: sema_cancel_def sema_ok_def split: if_splits)
  next
    case delete
    then show ?thesis using step.IH by (simp add: sema_delete_def)
  qed
qed

subsection \<open>Properties\<close>

text \<open>A semaphore of at most three tokens in priority order, holding one, with two threads that wait for two.\<close>

definition example_sema :: sema where
  "example_sema = sema_new ''s'' False 1 3"

definition example_waiter :: "nat \<Rightarrow> int \<Rightarrow> waiter" where
  "example_waiter t p = \<lparr>w_thread = t, w_priority = p, w_need = 2, w_result = SemaTimedOut, w_ready = False\<rparr>"

definition example_sys :: sema_sys where
  "example_sys = \<lparr>y_sema = example_sema\<lparr>s_waiting := [example_waiter 2 100, example_waiter 1 700]\<rparr>,
     y_blocked = (\<lambda>_. None)(1 := Some None, 2 := Some (Some 500))\<rparr>"

lemmas sema_evals = example_sema_def example_waiter_def sema_new_def sema_wait_def add_waiter_def
  sema_signal_def sema_check_def remove_waiter_def sema_delete_def finish_waiter_def

lemma example_sys_reach: "sema_reach example_sys"
proof -
  define y0 where "y0 = \<lparr>y_sema = example_sema, y_blocked = (\<lambda>_. None)\<rparr>"
  define y1 where "y1 = \<lparr>y_sema = example_sema\<lparr>s_waiting := [example_waiter 1 700]\<rparr>, y_blocked = (\<lambda>_. None)(1 := Some None)\<rparr>"
  have "sema_reach y0" unfolding y0_def
    by (rule sema_reach_by.create [of "Some ''s''" 2 1 3]) (simp_all add: kernel_create_sema_def example_sema_def)
  moreover have "sema_step (\<lambda>_ _. True) y0 (y0\<lparr>y_sema := example_sema\<lparr>s_waiting := [example_waiter 1 700]\<rparr>,
      y_blocked := (y_blocked y0)(1 := Some None)\<rparr>)"
    by (rule sema_step.wait_block [of _ 1 700 2 None]) (simp_all add: y0_def sema_evals)
  ultimately have "sema_reach y1" using sema_reach_by.step by (fastforce simp: y0_def y1_def)
  moreover have "sema_step (\<lambda>_ _. True) y1 (y1\<lparr>y_sema := y_sema example_sys, y_blocked := (y_blocked y1)(2 := Some (Some 500))\<rparr>)"
    by (rule sema_step.wait_block [of _ 2 100 2 "Some 500"]) (simp_all add: y1_def sema_evals example_sys_def)
  ultimately show ?thesis using sema_reach_by.step by (fastforce simp: y1_def example_sys_def)
qed

text \<open>
  C18. In every state of a kernel semaphore, whatever numbers threads signal, the count is at most the
  maximum, no wake-up is lost (a waiter that is not ready needs more tokens than there are), the queue is
  in priority order unless the semaphore is first-in first-out, and it holds exactly the threads that block.
  The count is never negative if every signal adds at least nothing and does not overflow, which the code
  leaves to its callers.
\<close>

theorem sema_reach_invariant:
  assumes "sema_reach_by admits y"
  shows "s_count (y_sema y) \<le> s_max (y_sema y)
    \<and> (\<forall>w\<in>set (s_waiting (y_sema y)). w_ready w \<or> s_count (y_sema y) < w_need w \<and> \<not> s_deleted (y_sema y))
    \<and> (s_fifo (y_sema y) \<or> sorted (map w_priority (s_waiting (y_sema y))))
    \<and> distinct (map w_thread (s_waiting (y_sema y)))
    \<and> set (map w_thread (s_waiting (y_sema y))) = {t. y_blocked y t \<noteq> None}
    \<and> ((\<forall>n c. admits n c \<longrightarrow> 0 \<le> n \<and> c + n < 2147483648) \<longrightarrow> 0 \<le> s_count (y_sema y))"
  using sema_reach_ok [OF assms] sema_reach_nonneg [OF assms] unfolding sys_ok_def sema_ok_def by blast

theorem sema_reach_invariant_witness:
  "sorted (map w_priority (s_waiting (y_sema example_sys))) \<and> length (s_waiting (y_sema example_sys)) = 2"
  using sema_reach_invariant [OF example_sys_reach] by (simp add: example_sys_def sema_evals)

text \<open>
  C19. \<open>Signal\<close> hands out the tokens greedily in the order of the queue: a waiter is woken exactly if
  its need does not exceed what the waiters woken before it have left, what remains is the new count,
  and a signal over the maximum changes nothing.
\<close>

theorem sema_signal_greedy:
  assumes "sema_reach y" and "0 \<le> n" and "s_count (y_sema y) + n < 2147483648"
  shows "case sema_signal n (y_sema y) of (s', r) \<Rightarrow>
    (if s_deleted (y_sema y) then s' = y_sema y \<and> r = SemaDeleted
     else if s_max (y_sema y) < s_count (y_sema y) + n then s' = y_sema y \<and> r = SemaInvalCount
     else r = SemaOk \<and> length (s_waiting s') = length (s_waiting (y_sema y))
       \<and> s_count s' + granted (s_waiting (y_sema y)) (s_waiting s') = s_count (y_sema y) + n
       \<and> (\<forall>i<length (s_waiting s'). s_waiting s' ! i =
            (if \<not> w_ready (s_waiting (y_sema y) ! i)
               \<and> w_need (s_waiting (y_sema y) ! i) + granted (take i (s_waiting (y_sema y))) (take i (s_waiting s'))
                 \<le> s_count (y_sema y) + n
             then (s_waiting (y_sema y) ! i)\<lparr>w_result := SemaOk, w_ready := True\<rparr>
             else s_waiting (y_sema y) ! i)))"
proof -
  define s where "s = y_sema y"
  have ok: "sema_ok s" using sema_reach_ok [OF assms(1)] by (simp add: sys_ok_def s_def)
  have c: "int_add (s_count s) n = s_count s + n" using ok assms(2,3) by (simp add: sema_ok_def s_def)
  obtain c' ws' where w: "wake_waiters (s_count s + n) (s_waiting s) = (c', ws')" by force
  have "c' = s_count s + n - granted (s_waiting s) ws'"
    using wake_waiters_count [of "s_count s + n" "s_waiting s"] by (simp add: w)
  moreover have "length ws' = length (s_waiting s)"
    using wake_waiters_length [of "s_count s + n" "s_waiting s"] by (simp add: w)
  moreover have "ws' ! i = (if \<not> w_ready (s_waiting s ! i) \<and>
      w_need (s_waiting s ! i) + granted (take i (s_waiting s)) (take i ws') \<le> s_count s + n
    then (s_waiting s ! i)\<lparr>w_result := SemaOk, w_ready := True\<rparr> else s_waiting s ! i)"
    if "i < length (s_waiting s)" for i
    using wake_waiters_nth [OF that, of "s_count s + n"] by (simp add: w le_diff_eq)
  ultimately show ?thesis
    unfolding s_def [symmetric] sema_signal_def c by (simp add: w)
qed

theorem sema_signal_greedy_witness:
  "s_count (fst (sema_signal 2 (y_sema example_sys)))
     + granted (s_waiting (y_sema example_sys)) (s_waiting (fst (sema_signal 2 (y_sema example_sys))))
   = s_count (y_sema example_sys) + 2"
proof -
  have A: "0 \<le> (2 :: int)" "s_count (y_sema example_sys) + 2 < 2147483648" "s_deleted (y_sema example_sys) = False"
    "(s_max (y_sema example_sys) < s_count (y_sema example_sys) + 2) = False"
    by (simp_all add: example_sys_def sema_evals)
  obtain s' r where e: "sema_signal 2 (y_sema example_sys) = (s', r)" by force
  show ?thesis
    using sema_signal_greedy [OF example_sys_reach A(1,2)] unfolding e prod.case A(3,4) if_False fst_conv by blast
qed

lemma granted_ready: "\<forall>v\<in>set ws. w_ready v \<Longrightarrow> granted ws ws' = 0"
proof (induction ws arbitrary: ws')
  case (Cons w ws)
  then show ?case by (cases ws') (simp_all add: granted_def grant_def)
qed (simp add: granted_def)

lemma find_thread:
  assumes "distinct (map w_thread ws)" "w \<in> set ws"
  shows "find (\<lambda>v. w_thread v = w_thread w) ws = Some w"
  using assms by (induction ws) (auto simp: image_iff)

text \<open>
  C20. A signal reaches the thread that waits first: if it makes enough tokens for the first waiter of
  the queue that is not ready, the next test of that thread's loop returns with success, whatever time
  has passed.
\<close>

theorem sema_signal_wakes_first:
  assumes "sema_reach y" and "find (\<lambda>w. \<not> w_ready w) (s_waiting (y_sema y)) = Some w"
    and "0 \<le> n" and "w_need w \<le> s_count (y_sema y) + n" and "s_count (y_sema y) + n \<le> s_max (y_sema y)"
    and "s_max (y_sema y) < 2147483648"
  shows "\<exists>ptr. y_blocked y (w_thread w) = Some ptr
    \<and> (\<forall>e. \<exists>m. snd (sema_check (w_thread w) ptr e (fst (sema_signal n (y_sema y)))) = WReturn SemaOk m)"
proof -
  define s where "s = y_sema y"
  have sys: "sys_ok y" by (rule sema_reach_ok [OF assms(1)])
  then have ok: "sema_ok s" and blocked: "set (map w_thread (s_waiting s)) = {t. y_blocked y t \<noteq> None}"
    by (simp_all only: sys_ok_def s_def)
  have n: "s_count s + n < 2147483648" "s_count s + n \<le> s_max s" using assms(5,6) by (simp_all add: s_def)
  obtain i where i: "i < length (s_waiting s)" "s_waiting s ! i = w" "\<not> w_ready w"
    "\<forall>j<i. w_ready (s_waiting s ! j)"
    using assms(2) by (auto simp: find_Some_iff s_def)
  have nd: "\<not> s_deleted s" using ok i nth_mem [OF i(1)] by (auto simp: sema_ok_def)
  have c: "int_add (s_count s) n = s_count s + n" using ok assms(3) n by (simp add: sema_ok_def)
  obtain c' ws' where wk: "wake_waiters (s_count s + n) (s_waiting s) = (c', ws')" by force
  have sig: "sema_signal n s = (s\<lparr>s_count := c', s_waiting := ws'\<rparr>, SemaOk)"
    using n(2) nd by (simp add: sema_signal_def c wk)
  have len: "length ws' = length (s_waiting s)"
    using wake_waiters_length [of "s_count s + n" "s_waiting s"] by (simp add: wk)
  have "\<forall>v\<in>set (take i (s_waiting s)). w_ready v" using i(4) by (auto simp: in_set_conv_nth)
  then have "granted (take i (s_waiting s)) (take i ws') = 0" by (rule granted_ready)
  then have wi: "ws' ! i = w\<lparr>w_result := SemaOk, w_ready := True\<rparr>"
    using wake_waiters_nth [OF i(1), of "s_count s + n"] assms(4) [folded s_def] i(2,3) by (simp add: wk)
  have d: "distinct (map w_thread ws')"
    using ok wake_waiters_map(1) [of "s_count s + n" "s_waiting s"] by (simp add: wk sema_ok_def)
  have mem: "w\<lparr>w_result := SemaOk, w_ready := True\<rparr> \<in> set ws'"
    using wi i(1) len by (metis nth_mem)
  have f: "find (\<lambda>v. w_thread v = w_thread w) ws' = Some (w\<lparr>w_result := SemaOk, w_ready := True\<rparr>)"
    using find_thread [OF d mem] by simp
  have "w \<in> set (s_waiting s)" using i by (metis nth_mem)
  then obtain ptr where "y_blocked y (w_thread w) = Some ptr" using blocked by auto
  then show ?thesis unfolding s_def [symmetric] sig using f by (simp add: sema_check_def)
qed


theorem sema_signal_wakes_first_witness:
  "\<exists>ptr. y_blocked example_sys 2 = Some ptr
    \<and> (\<forall>e. \<exists>m. snd (sema_check 2 ptr e (fst (sema_signal 1 (y_sema example_sys)))) = WReturn SemaOk m)"
  using sema_signal_wakes_first [OF example_sys_reach, of "example_waiter 2 100" 1]
  by (simp add: example_sys_def example_sema_def example_waiter_def sema_new_def)

text \<open>The threads of a list test their conditions one after the other, each with its limit and the time it has waited.\<close>

fun check_all :: "(nat \<times> nat option \<times> nat) list \<Rightarrow> sema \<Rightarrow> sema \<times> wait_outcome list" where
  "check_all [] s = (s, [])"
| "check_all ((t, ptr, e) # cs) s =
     (let (s1, out) = sema_check t ptr e s; (s2, outs) = check_all cs s1 in (s2, out # outs))"

definition time_over :: "nat option \<Rightarrow> nat \<Rightarrow> nat option" where
  "time_over ptr e = map_option (\<lambda>micros. if e \<ge> micros then 0 else micros - e) ptr"

definition thread_waiter :: "nat \<Rightarrow> sema \<Rightarrow> waiter option" where
  "thread_waiter t s = find (\<lambda>w. w_thread w = t) (s_waiting s)"

lemma thread_waiter_remove: "t' \<noteq> t \<Longrightarrow> thread_waiter t' (remove_waiter t s) = thread_waiter t' s"
proof -
  assume "t' \<noteq> t"
  then have "find (\<lambda>w. w_thread w = t') (remove_first_where (\<lambda>w. w_thread w = t) ws) = find (\<lambda>w. w_thread w = t') ws" for ws
    by (induction ws) auto
  then show ?thesis by (simp add: thread_waiter_def remove_waiter_def)
qed

lemma thread_waiter_some:
  assumes "t \<in> set (map w_thread (s_waiting s))"
  obtains w where "thread_waiter t s = Some w" "w \<in> set (s_waiting s)" "w_thread w = t"
proof (cases "thread_waiter t s")
  case None
  then show thesis using assms by (auto simp: thread_waiter_def find_None_iff)
next
  case (Some w)
  then have "w \<in> set (s_waiting s)" "w_thread w = t" by (auto simp: thread_waiter_def find_Some_iff)
  then show thesis using that Some by blast
qed

lemma check_all_ready:
  assumes "sema_ok s" and "\<forall>w\<in>set (s_waiting s). w_ready w" and "distinct ts"
    and "set (map w_thread (s_waiting s)) = set ts"
  shows "s_waiting (fst (check_all (map (\<lambda>t. (t, ptr t, e t)) ts) s)) = []
    \<and> snd (check_all (map (\<lambda>t. (t, ptr t, e t)) ts) s)
      = map (\<lambda>t. WReturn (w_result (the (thread_waiter t s))) (time_over (ptr t) (e t))) ts"
  using assms
proof (induction ts arbitrary: s)
  case (Cons t ts)
  have "t \<in> set (map w_thread (s_waiting s))" using Cons.prems(4) by simp
  then obtain w where w: "thread_waiter t s = Some w" "w \<in> set (s_waiting s)" by (rule thread_waiter_some)
  have c: "sema_check t (ptr t) (e t) s = (remove_waiter t s, WReturn (w_result w) (time_over (ptr t) (e t)))"
    using w Cons.prems(2) unfolding thread_waiter_def by (simp add: sema_check_def time_over_def)
  note ok = remove_waiter_ok [OF Cons.prems(1), of t]
  have sub: "\<forall>w\<in>set (s_waiting (remove_waiter t s)). w_ready w"
    using remove_first_set [of "\<lambda>w. w_thread w = t" "s_waiting s"] Cons.prems(2) by (auto simp: remove_waiter_def)
  have rest: "set (map w_thread (s_waiting (remove_waiter t s))) = set ts"
    using ok(2) Cons.prems(3,4) by auto
  have d: "distinct ts" "t \<notin> set ts" using Cons.prems(3) by simp_all
  obtain s2 outs where r: "check_all (map (\<lambda>t. (t, ptr t, e t)) ts) (remove_waiter t s) = (s2, outs)" by force
  have "map (\<lambda>u. WReturn (w_result (the (thread_waiter u (remove_waiter t s)))) (time_over (ptr u) (e u))) ts
      = map (\<lambda>u. WReturn (w_result (the (thread_waiter u s))) (time_over (ptr u) (e u))) ts"
    by (rule map_cong [OF refl]) (use d(2) thread_waiter_remove [of _ t s] in \<open>metis\<close>)
  then show ?case using Cons.IH [OF ok(1) sub d(1) rest] by (simp add: c r w(1))
qed simp

lemma thread_waiter_delete: "thread_waiter t (sema_delete s) = map_option (finish_waiter SemaDeleted) (thread_waiter t s)"
proof -
  have "find (\<lambda>w. w_thread w = t) (map (finish_waiter SemaDeleted) ws) = map_option (finish_waiter SemaDeleted) (find (\<lambda>w. w_thread w = t) ws)" for ws
    by (induction ws) simp_all
  then show ?thesis by (simp add: thread_waiter_def sema_delete_def)
qed

text \<open>
  C21. Deleting a semaphore ends.  In any state, after the destructor has marked the waiters, let the threads
  that block test their conditions in any order and after any time: each returns from \<open>Wait\<close>, with the result
  it had been woken with or else with the deletion, and the queue is empty, which is what the destructor's loop
  waits for.  No thread can block any more.
\<close>

theorem sema_delete_drains:
  assumes "sema_reach_by admits y" and "distinct ts" and "set ts = {t. y_blocked y t \<noteq> None}"
    and "check_all (map (\<lambda>t. (t, the (y_blocked y t), elapsed t)) ts) (sema_delete (y_sema y)) = (s, outs)"
  shows "s_waiting s = [] \<and> length outs = length ts
    \<and> (\<forall>i<length ts. \<exists>w\<in>set (s_waiting (y_sema y)). w_thread w = ts ! i
         \<and> outs ! i = WReturn (if w_ready w then w_result w else SemaDeleted)
             (time_over (the (y_blocked y (ts ! i))) (elapsed (ts ! i))))
    \<and> (\<forall>t p n ptr. snd (sema_wait t p n ptr (sema_delete (y_sema y))) \<noteq> WBlock)"
proof -
  have ok: "sema_ok (y_sema y)" and b: "set (map w_thread (s_waiting (y_sema y))) = set ts"
    using sema_reach_ok [OF assms(1)] assms(3) by (simp_all only: sys_ok_def)
  have "set (map w_thread (s_waiting (sema_delete (y_sema y)))) = set ts"
    unfolding b [symmetric] by (simp add: sema_delete_def image_image)
  from check_all_ready [OF sema_delete_ok [OF ok] _ assms(2) this, of "\<lambda>t. the (y_blocked y t)" elapsed]
  have "s_waiting s = []" and outs: "outs = map (\<lambda>t. WReturn (w_result (the (thread_waiter t (sema_delete (y_sema y)))))
      (time_over (the (y_blocked y t)) (elapsed t))) ts"
    unfolding assms(4) by (simp_all add: sema_delete_def)
  moreover have "\<exists>w\<in>set (s_waiting (y_sema y)). w_thread w = ts ! i
      \<and> outs ! i = WReturn (if w_ready w then w_result w else SemaDeleted)
          (time_over (the (y_blocked y (ts ! i))) (elapsed (ts ! i)))" if i: "i < length ts" for i
  proof -
    have "ts ! i \<in> set (map w_thread (s_waiting (y_sema y)))" unfolding b using i by simp
    then obtain w where "thread_waiter (ts ! i) (y_sema y) = Some w" "w \<in> set (s_waiting (y_sema y))" "w_thread w = ts ! i"
      by (rule thread_waiter_some)
    then show ?thesis using i by (auto simp: outs thread_waiter_delete finish_waiter_result)
  qed
  moreover have "snd (sema_wait t p n ptr (sema_delete (y_sema y))) \<noteq> WBlock" for t p n ptr
    by (simp add: sema_wait_def sema_delete_def)
  ultimately show ?thesis by (simp add: outs)
qed

theorem sema_delete_drains_witness:
  "s_waiting (fst (check_all [(1, None, 0), (2, Some 500, 7)] (sema_delete (y_sema example_sys)))) = []"
proof -
  have t: "set [1, 2] = {t. y_blocked example_sys t \<noteq> None}" by (auto simp: example_sys_def)
  obtain s outs where c: "check_all [(1, None, 0), (2, Some 500, 7)] (sema_delete (y_sema example_sys)) = (s, outs)" by force
  then have "check_all (map (\<lambda>t. (t, the (y_blocked example_sys t), if t = 1 then 0 else 7)) [1, 2])
      (sema_delete (y_sema example_sys)) = (s, outs)"
    by (simp add: example_sys_def)
  from sema_delete_drains [OF example_sys_reach _ t this] show ?thesis unfolding c by simp
qed

text \<open>
  The code does not check the number of a signal: a negative one takes tokens away below zero, and a
  large one overflows the sum before it is compared with the maximum.
\<close>

lemma signal_negative: "s_count (fst (sema_signal (- 2) example_sema)) = - 1"
  by (simp add: sema_evals)

lemma signal_overflow: "s_count (fst (sema_signal 2147483647 example_sema)) = - 2147483648"
  by (simp add: sema_evals int_add_def)

end
