(* ===== verification/PosixSemaphore.thy ===== *)
theory PosixSemaphore
  imports Errno "HOL-Library.Signed_Division"
begin

text \<open>
  The POSIX semaphores of src/kernel/semaphore.cpp: the class \<open>PosixSemPrivate\<close>, the table of the
  semaphores by the address of the guest's structure, and the \<open>sem_...\<close> and \<open>PthreadSem...\<close> calls.  \<open>Wait\<close>
  is the test of its loop (\<open>psem_wait_test\<close>) and the return from a wait on the condition variable
  (\<open>psem_resume\<close>).  The time that has passed and the clock are arguments.
\<close>

abbreviation (input) POSIX_SEM_MAGIC :: nat where
  "POSIX_SEM_MAGIC \<equiv> 0x09fa"

abbreviation (input) POSIX_SEM_VALUE_MAX :: int where
  "POSIX_SEM_VALUE_MAX \<equiv> 2147483647"

record sem_guest =
  g_magic :: nat
  g_nameid :: nat
  g_has_waiters :: nat
  g_count :: nat
  g_flags :: nat

record psem =
  ps_count :: int
  ps_waiters :: nat

text \<open>\<open>SyncGuest\<close> writes the object's state to the guest's structure.\<close>

definition sync_guest :: "nat \<Rightarrow> psem \<Rightarrow> sem_guest \<Rightarrow> sem_guest" where
  "sync_guest flags s g =
     g\<lparr>g_magic := POSIX_SEM_MAGIC, g_nameid := 0, g_has_waiters := (if ps_waiters s > 0 then 1 else 0),
       g_count := nat (ps_count s mod 4294967296),
       g_flags := (if flags \<noteq> UINT32_MAX then flags else g_flags g)\<rparr>"

abbreviation (input) sync :: "psem \<Rightarrow> sem_guest \<Rightarrow> sem_guest" where
  "sync \<equiv> sync_guest UINT32_MAX"

definition psem_wait_test :: "nat option \<Rightarrow> nat \<Rightarrow> psem \<times> sem_guest \<Rightarrow> (psem \<times> sem_guest) \<times> int option" where
  "psem_wait_test micros elapsed sg =
     (case sg of (s, g) \<Rightarrow>
        if ps_count s \<le> 0
        then (if (case micros of None \<Rightarrow> False | Some m \<Rightarrow> elapsed \<ge> m)
              then ((s, sync s g), Some POSIX_ETIMEDOUT)
              else (let s' = s\<lparr>ps_waiters := ps_waiters s + 1\<rparr> in ((s', sync s' g), None)))
        else (let s' = s\<lparr>ps_count := ps_count s - 1\<rparr> in ((s', sync s' g), Some OK)))"

definition psem_resume :: "nat option \<Rightarrow> nat \<Rightarrow> psem \<times> sem_guest \<Rightarrow> (psem \<times> sem_guest) \<times> int option" where
  "psem_resume micros elapsed sg =
     (case sg of (s, g) \<Rightarrow> psem_wait_test micros elapsed (s\<lparr>ps_waiters := ps_waiters s - 1\<rparr>, g))"

definition psem_try_wait :: "psem \<times> sem_guest \<Rightarrow> (psem \<times> sem_guest) \<times> int" where
  "psem_try_wait sg =
     (case sg of (s, g) \<Rightarrow>
        if ps_count s \<le> 0 then ((s, sync s g), POSIX_EAGAIN)
        else (let s' = s\<lparr>ps_count := ps_count s - 1\<rparr> in ((s', sync s' g), OK)))"

definition psem_post :: "psem \<times> sem_guest \<Rightarrow> (psem \<times> sem_guest) \<times> int" where
  "psem_post sg =
     (case sg of (s, g) \<Rightarrow>
        if ps_count s = POSIX_SEM_VALUE_MAX then ((s, g), POSIX_EOVERFLOW)
        else (let s' = s\<lparr>ps_count := ps_count s + 1\<rparr> in ((s', sync s' g), OK)))"

subsection \<open>The table of semaphores\<close>

text \<open>The objects by the guest's address, and the guest's structures.\<close>

record psem_table =
  px_sems :: "nat \<Rightarrow> psem option"
  px_guest :: "nat \<Rightarrow> sem_guest"

definition get_sem :: "nat \<Rightarrow> psem_table \<Rightarrow> psem option" where
  "get_sem sem st = (if sem = 0 then None else px_sems st sem)"

definition sem_init_impl :: "nat \<Rightarrow> nat \<Rightarrow> nat \<Rightarrow> psem_table \<Rightarrow> psem_table \<times> int" where
  "sem_init_impl sem pshared value st =
     (if sem = 0 \<or> int value > POSIX_SEM_VALUE_MAX then (st, POSIX_EINVAL)
      else (let obj = \<lparr>ps_count = int value, ps_waiters = 0\<rparr>
            in (st\<lparr>px_sems := (px_sems st)(sem \<mapsto> obj),
                   px_guest := (px_guest st)(sem := sync_guest pshared obj (px_guest st sem))\<rparr>, OK)))"

definition sem_destroy_impl :: "nat \<Rightarrow> psem_table \<Rightarrow> psem_table \<times> int" where
  "sem_destroy_impl sem st =
     (if sem = 0 then (st, POSIX_EINVAL)
      else case px_sems st sem of
             None \<Rightarrow> (st, POSIX_EINVAL)
           | Some obj \<Rightarrow>
               (st\<lparr>px_sems := (px_sems st)(sem := None),
                   px_guest := (px_guest st)(sem := (px_guest st sem)
                     \<lparr>g_magic := 0, g_has_waiters := 0, g_count := 0, g_flags := 0\<rparr>)\<rparr>, OK))"

text \<open>An operation of the class on the object of a guest's address, where there is one.\<close>

definition on_sem :: "(psem \<times> sem_guest \<Rightarrow> (psem \<times> sem_guest) \<times> 'r) \<Rightarrow> 'r \<Rightarrow> nat \<Rightarrow> psem_table \<Rightarrow> psem_table \<times> 'r" where
  "on_sem f missing sem st =
     (case get_sem sem st of
        None \<Rightarrow> (st, missing)
      | Some obj \<Rightarrow>
          (case f (obj, px_guest st sem) of ((s, g), r) \<Rightarrow>
             (st\<lparr>px_sems := (px_sems st)(sem \<mapsto> s), px_guest := (px_guest st)(sem := g)\<rparr>, r)))"

definition sem_timedwait_impl :: "nat \<Rightarrow> nat option \<Rightarrow> psem_table \<Rightarrow> psem_table \<times> int option" where
  "sem_timedwait_impl sem micros = on_sem (psem_wait_test micros 0) (Some POSIX_EINVAL) sem"

definition int64 :: "int \<Rightarrow> int" where
  "int64 x = (x + 9223372036854775808) mod 18446744073709551616 - 9223372036854775808"

text \<open>
  \<open>AbsTimespecToMicros\<close>: a time is seconds and nanoseconds; the clock's answer is \<open>None\<close> where it fails.
\<close>

definition abs_timespec_to_micros :: "(int \<times> int) option \<Rightarrow> (int \<times> int) option \<Rightarrow> nat option" where
  "abs_timespec_to_micros now abstime =
     (case abstime of
        None \<Rightarrow> None
      | Some (tv_sec, tv_nsec) \<Rightarrow>
          if tv_sec < 0 \<or> tv_nsec < 0 \<or> tv_nsec \<ge> 1000000000 then None
          else case now of
                 None \<Rightarrow> None
               | Some (now_sec, now_nsec) \<Rightarrow>
                   (let sec_delta = int64 (tv_sec - now_sec);
                        nsec_delta = int64 (tv_nsec - now_nsec);
                        usec_delta = int64 (int64 (sec_delta * 1000000) + nsec_delta sdiv 1000)
                    in if usec_delta \<le> 0 then Some 0
                       else if usec_delta > int UINT32_MAX then Some UINT32_MAX
                       else Some (nat usec_delta)))"

subsection \<open>The calls\<close>

text \<open>The result of a \<open>sem_\<close> call: the value returned, and \<open>errno\<close> where it is set.\<close>

definition posix_ret :: "int \<Rightarrow> int \<times> int option" where
  "posix_ret result = (if result = OK then (0, None) else (- 1, Some result))"

definition pthread_ret :: "int \<Rightarrow> int" where
  "pthread_ret result = (if result = OK then OK else posix_to_kernel result)"

definition posix_sem_init :: "nat \<Rightarrow> nat \<Rightarrow> nat \<Rightarrow> psem_table \<Rightarrow> psem_table \<times> int \<times> int option" where
  "posix_sem_init sem pshared value st = map_prod id posix_ret (sem_init_impl sem pshared value st)"

definition posix_sem_destroy :: "nat \<Rightarrow> psem_table \<Rightarrow> psem_table \<times> int \<times> int option" where
  "posix_sem_destroy sem st = map_prod id posix_ret (sem_destroy_impl sem st)"

definition posix_sem_wait :: "nat \<Rightarrow> psem_table \<Rightarrow> psem_table \<times> (int \<times> int option) option" where
  "posix_sem_wait sem st = map_prod id (map_option posix_ret) (sem_timedwait_impl sem None st)"

definition posix_sem_trywait :: "nat \<Rightarrow> psem_table \<Rightarrow> psem_table \<times> int \<times> int option" where
  "posix_sem_trywait sem st = map_prod id posix_ret (on_sem psem_try_wait POSIX_EINVAL sem st)"

definition posix_sem_reltimedwait :: "nat \<Rightarrow> nat \<Rightarrow> psem_table \<Rightarrow> psem_table \<times> (int \<times> int option) option" where
  "posix_sem_reltimedwait sem usec st = map_prod id (map_option posix_ret) (sem_timedwait_impl sem (Some usec) st)"

definition posix_sem_timedwait :: "(int \<times> int) option \<Rightarrow> nat \<Rightarrow> (int \<times> int) option \<Rightarrow> psem_table
    \<Rightarrow> psem_table \<times> (int \<times> int option) option" where
  "posix_sem_timedwait now sem abstime st =
     (case abs_timespec_to_micros now abstime of
        None \<Rightarrow> (st, Some (posix_ret POSIX_EINVAL))
      | Some micros \<Rightarrow> map_prod id (map_option posix_ret) (sem_timedwait_impl sem (Some micros) st))"

definition posix_sem_post :: "nat \<Rightarrow> psem_table \<Rightarrow> psem_table \<times> int \<times> int option" where
  "posix_sem_post sem st = map_prod id posix_ret (on_sem psem_post POSIX_EINVAL sem st)"

text \<open>\<open>sem_getvalue\<close> with the result pointer: the error, or the value.\<close>

definition posix_sem_getvalue :: "nat \<Rightarrow> bool \<Rightarrow> psem_table \<Rightarrow> (int \<times> int option) + int" where
  "posix_sem_getvalue sem value_null st =
     (case get_sem sem st of
        None \<Rightarrow> Inl (posix_ret POSIX_EINVAL)
      | Some obj \<Rightarrow> if value_null then Inl (posix_ret POSIX_EINVAL) else Inr (ps_count obj))"

definition pthread_sem_init :: "nat \<Rightarrow> int \<Rightarrow> nat \<Rightarrow> psem_table \<Rightarrow> psem_table \<times> int" where
  "pthread_sem_init sem flag value st =
     (if flag \<noteq> 0 then (st, KERNEL_ERROR_EINVAL) else map_prod id pthread_ret (sem_init_impl sem 0 value st))"

definition pthread_sem_destroy :: "nat \<Rightarrow> psem_table \<Rightarrow> psem_table \<times> int" where
  "pthread_sem_destroy sem st = map_prod id pthread_ret (sem_destroy_impl sem st)"

definition pthread_sem_wait :: "nat \<Rightarrow> psem_table \<Rightarrow> psem_table \<times> int option" where
  "pthread_sem_wait sem st = map_prod id (map_option pthread_ret) (sem_timedwait_impl sem None st)"

definition pthread_sem_trywait :: "nat \<Rightarrow> psem_table \<Rightarrow> psem_table \<times> int" where
  "pthread_sem_trywait sem st =
     (case get_sem sem st of
        None \<Rightarrow> (st, KERNEL_ERROR_EINVAL)
      | Some _ \<Rightarrow> map_prod id pthread_ret (on_sem psem_try_wait POSIX_EINVAL sem st))"

definition pthread_sem_timedwait :: "nat \<Rightarrow> nat \<Rightarrow> psem_table \<Rightarrow> psem_table \<times> int option" where
  "pthread_sem_timedwait sem usec st = map_prod id (map_option pthread_ret) (sem_timedwait_impl sem (Some usec) st)"

definition pthread_sem_post :: "nat \<Rightarrow> psem_table \<Rightarrow> psem_table \<times> int" where
  "pthread_sem_post sem st =
     (case get_sem sem st of
        None \<Rightarrow> (st, KERNEL_ERROR_EINVAL)
      | Some _ \<Rightarrow> map_prod id pthread_ret (on_sem psem_post POSIX_EINVAL sem st))"

definition pthread_sem_getvalue :: "nat \<Rightarrow> bool \<Rightarrow> psem_table \<Rightarrow> int + int" where
  "pthread_sem_getvalue sem value_null st =
     (case get_sem sem st of
        None \<Rightarrow> Inl KERNEL_ERROR_EINVAL
      | Some obj \<Rightarrow> if value_null then Inl KERNEL_ERROR_EINVAL else Inr (ps_count obj))"

subsection \<open>One semaphore and its threads\<close>

text \<open>
  A history of a semaphore made with the given value: the successful posts, the successful waits and
  the number of threads that block.  A blocked thread may resume at any moment.
\<close>

inductive psem_reach :: "nat \<Rightarrow> nat \<Rightarrow> nat \<Rightarrow> nat \<Rightarrow> psem \<times> sem_guest \<Rightarrow> bool" for v where
  init: "\<lbrakk>int v \<le> POSIX_SEM_VALUE_MAX; s = \<lparr>ps_count = int v, ps_waiters = 0\<rparr>\<rbrakk>
    \<Longrightarrow> psem_reach v 0 0 0 (s, sync_guest f s g)"
| wait: "\<lbrakk>psem_reach v p k b sg; psem_wait_test m 0 sg = (sg', r)\<rbrakk>
    \<Longrightarrow> psem_reach v p (if r = Some OK then k + 1 else k) (if r = None then b + 1 else b) sg'"
| resume: "\<lbrakk>psem_reach v p k b sg; 0 < b; psem_resume m e sg = (sg', r)\<rbrakk>
    \<Longrightarrow> psem_reach v p (if r = Some OK then k + 1 else k) (if r = None then b else b - 1) sg'"
| trywait: "\<lbrakk>psem_reach v p k b sg; psem_try_wait sg = (sg', r)\<rbrakk>
    \<Longrightarrow> psem_reach v p (if r = OK then k + 1 else k) b sg'"
| post: "\<lbrakk>psem_reach v p k b sg; psem_post sg = (sg', r)\<rbrakk>
    \<Longrightarrow> psem_reach v (if r = OK then p + 1 else p) k b sg'"

definition psem_ok :: "nat \<Rightarrow> nat \<Rightarrow> nat \<Rightarrow> nat \<Rightarrow> psem \<times> sem_guest \<Rightarrow> bool" where
  "psem_ok v p k b sg \<longleftrightarrow> (case sg of (s, g) \<Rightarrow>
     0 \<le> ps_count s \<and> ps_count s \<le> POSIX_SEM_VALUE_MAX \<and> ps_count s = int v + int p - int k
     \<and> ps_waiters s = b \<and> g_magic g = POSIX_SEM_MAGIC
     \<and> int (g_count g) = ps_count s \<and> g_has_waiters g = (if 0 < b then 1 else 0))"

lemma sync_guest_simps [simp]:
  "g_magic (sync_guest f s g) = POSIX_SEM_MAGIC" "g_has_waiters (sync_guest f s g) = (if 0 < ps_waiters s then 1 else 0)"
  "\<lbrakk>0 \<le> ps_count s; ps_count s \<le> POSIX_SEM_VALUE_MAX\<rbrakk> \<Longrightarrow> int (g_count (sync_guest f s g)) = ps_count s"
  by (simp_all add: sync_guest_def)

lemma psem_wait_test_ok:
  assumes "psem_wait_test m e (s, g) = (sg', r)" and "0 \<le> ps_count s" "ps_count s \<le> POSIX_SEM_VALUE_MAX"
    "ps_count s = int v + int p - int k" "ps_waiters s = b"
  shows "psem_ok v p (if r = Some OK then k + 1 else k) (if r = None then b + 1 else b) sg'"
  using assms by (auto simp: psem_wait_test_def psem_ok_def Let_def split: if_splits option.splits)

lemma psem_reach_ok: "psem_reach v p k b sg \<Longrightarrow> psem_ok v p k b sg"
proof (induction rule: psem_reach.induct)
  case (init s f g)
  then show ?case by (simp add: psem_ok_def sync_guest_def)
next
  case (wait p k b sg m sg' r)
  obtain s g where sg: "sg = (s, g)" by force
  show ?case by (rule psem_wait_test_ok [OF wait.hyps(2) [unfolded sg]]) (use wait.IH in \<open>simp_all add: sg psem_ok_def\<close>)
next
  case (resume p k b sg m e sg' r)
  obtain s g where sg: "sg = (s, g)" by force
  have w: "psem_wait_test m e (s\<lparr>ps_waiters := ps_waiters s - 1\<rparr>, g) = (sg', r)"
    using resume.hyps(3) by (simp add: psem_resume_def sg)
  have "psem_ok v p (if r = Some OK then k + 1 else k) (if r = None then b - 1 + 1 else b - 1) sg'"
    by (rule psem_wait_test_ok [OF w]) (use resume.IH in \<open>simp_all add: sg psem_ok_def\<close>)
  moreover have "b - 1 + 1 = b" using resume.hyps(2) by simp
  ultimately show ?case by (simp only:)
next
  case (trywait p k b sg sg' r)
  then show ?case by (cases sg) (auto simp: psem_try_wait_def psem_ok_def Let_def split: if_splits)
next
  case (post p k b sg sg' r)
  then show ?case by (cases sg) (auto simp: psem_post_def psem_ok_def Let_def split: if_splits)
qed


subsection \<open>Properties\<close>

text \<open>
  C22. A POSIX semaphore accounts for its tokens: in every history the count is the initial value plus
  the successful posts minus the successful waits and never leaves the range of the type, and the
  guest's structure shows the count and whether a thread waits.
\<close>

theorem psem_accounting:
  assumes "psem_reach v p k b (s, g)"
  shows "ps_count s = int v + int p - int k \<and> 0 \<le> ps_count s \<and> ps_count s \<le> POSIX_SEM_VALUE_MAX
    \<and> ps_waiters s = b \<and> g_magic g = POSIX_SEM_MAGIC \<and> int (g_count g) = ps_count s
    \<and> g_has_waiters g = (if 0 < b then 1 else 0)"
  using psem_reach_ok [OF assms] by (simp add: psem_ok_def)

definition example_guest :: sem_guest where
  "example_guest = \<lparr>g_magic = 0, g_nameid = 0, g_has_waiters = 0, g_count = 0, g_flags = 0\<rparr>"

abbreviation example_post_guest :: sem_guest where
  "example_post_guest \<equiv> \<lparr>g_magic = POSIX_SEM_MAGIC, g_nameid = 0, g_has_waiters = 1, g_count = 1, g_flags = 0\<rparr>"

lemma example_psem_reach: "psem_reach 0 1 0 1 (\<lparr>ps_count = 1, ps_waiters = 1\<rparr>, example_post_guest)"
proof -
  let ?g = "\<lambda>w c. \<lparr>g_magic = POSIX_SEM_MAGIC, g_nameid = 0, g_has_waiters = w, g_count = c, g_flags = 0\<rparr>"
  have "psem_reach 0 0 0 0 (\<lparr>ps_count = 0, ps_waiters = 0\<rparr>, sync_guest 0 \<lparr>ps_count = 0, ps_waiters = 0\<rparr> example_guest)"
    by (rule psem_reach.init) simp_all
  then have 0: "psem_reach 0 0 0 0 (\<lparr>ps_count = 0, ps_waiters = 0\<rparr>, ?g 0 0)"
    by (simp add: sync_guest_def example_guest_def)
  have "psem_wait_test None 0 (\<lparr>ps_count = 0, ps_waiters = 0\<rparr>, ?g 0 0) = ((\<lparr>ps_count = 0, ps_waiters = 1\<rparr>, ?g 1 0), None)"
    by (simp add: psem_wait_test_def sync_guest_def Let_def)
  from psem_reach.wait [OF 0 this] have 1: "psem_reach 0 0 0 1 (\<lparr>ps_count = 0, ps_waiters = 1\<rparr>, ?g 1 0)" by simp
  have "psem_post (\<lparr>ps_count = 0, ps_waiters = 1\<rparr>, ?g 1 0) = ((\<lparr>ps_count = 1, ps_waiters = 1\<rparr>, ?g 1 1), OK)"
    by (simp add: psem_post_def sync_guest_def Let_def)
  from psem_reach.post [OF 1 this] show ?thesis by simp
qed

theorem psem_accounting_witness:
  "psem_reach 0 1 0 1 (\<lparr>ps_count = 1, ps_waiters = 1\<rparr>, example_post_guest) \<and> g_has_waiters example_post_guest = 1"
  using psem_accounting [OF example_psem_reach] example_psem_reach by simp

lemma sdiv_1000:
  fixes nd :: int
  assumes "- 1000000000 < nd" "nd < 1000000000"
  shows "- 1000 < 1000 * (nd sdiv 1000) - nd" "1000 * (nd sdiv 1000) - nd < 1000"
    "- 1000000 < nd sdiv 1000" "nd sdiv 1000 < 1000000"
proof -
  have "nd sdiv 1000 = (if nd < 0 then - ((- nd) div 1000) else nd div 1000)"
    by (auto simp: signed_divide_int_def sgn_if)
  then show "- 1000 < 1000 * (nd sdiv 1000) - nd" "1000 * (nd sdiv 1000) - nd < 1000"
    "- 1000000 < nd sdiv 1000" "nd sdiv 1000 < 1000000"
    using assms by (auto split: if_splits)
qed

lemma int64_id: "\<lbrakk>- 9223372036854775808 \<le> x; x < 9223372036854775808\<rbrakk> \<Longrightarrow> int64 x = x"
  by (simp add: int64_def)

text \<open>A deadline far enough in the future overflows the product and counts as past.\<close>

lemma timespec_overflow: "abs_timespec_to_micros (Some (0, 0)) (Some (9223372036855, 0)) = Some 0"
proof -
  have "int64 9223372036855 = 9223372036855" "int64 0 = 0" "int64 9223372036855000000 = - 9223372036854551616"
    "int64 (- 9223372036854551616) = - 9223372036854551616"
    by (simp_all add: int64_def)
  then show ?thesis by (simp add: abs_timespec_to_micros_def Let_def signed_divide_int_def)
qed

text \<open>
  C23. The deadline of \<open>sem_timedwait\<close>, for every 64-bit time the guest gives and every time of the clock:
  the call is refused exactly for negative seconds and for nanoseconds out of range.  Up to 9,223,372,036,853
  seconds ahead, the time left in microseconds differs from the distance to the deadline by less than a
  microsecond, cut to zero for a deadline that is past and to the largest 32-bit number for a distant one.
  Further ahead the product overflows: a deadline two seconds further may already count as past.
\<close>

theorem timespec_to_micros:
  assumes "0 \<le> now_sec" "now_sec < 9223372036854775808" "0 \<le> now_nsec" "now_nsec < 1000000000"
    and "- 9223372036854775808 \<le> tv_sec" "tv_sec < 9223372036854775808"
    and "- 9223372036854775808 \<le> tv_nsec" "tv_nsec < 9223372036854775808"
  shows "(abs_timespec_to_micros (Some (now_sec, now_nsec)) (Some (tv_sec, tv_nsec)) = None
      \<longleftrightarrow> tv_sec < 0 \<or> tv_nsec < 0 \<or> 1000000000 \<le> tv_nsec)
    \<and> (\<forall>micros. abs_timespec_to_micros (Some (now_sec, now_nsec)) (Some (tv_sec, tv_nsec)) = Some micros
        \<and> - 9223372036853 \<le> tv_sec - now_sec \<and> tv_sec - now_sec \<le> 9223372036853
        \<longrightarrow> (let left = (tv_sec - now_sec) * 1000000000 + (tv_nsec - now_nsec)
             in if left \<le> - 1000 then micros = 0
                else if left \<ge> 4294967296000 then micros = UINT32_MAX
                else \<bar>1000 * int micros - left\<bar> < 1000))
    \<and> abs_timespec_to_micros (Some (0, 0)) (Some (9223372036855, 0)) = Some 0"
proof (intro conjI allI impI)
  show "abs_timespec_to_micros (Some (now_sec, now_nsec)) (Some (tv_sec, tv_nsec)) = None
      \<longleftrightarrow> tv_sec < 0 \<or> tv_nsec < 0 \<or> 1000000000 \<le> tv_nsec"
    by (simp add: abs_timespec_to_micros_def Let_def)
  show "abs_timespec_to_micros (Some (0, 0)) (Some (9223372036855, 0)) = Some 0" by (rule timespec_overflow)
next
  fix micros
  assume h: "abs_timespec_to_micros (Some (now_sec, now_nsec)) (Some (tv_sec, tv_nsec)) = Some micros
    \<and> - 9223372036853 \<le> tv_sec - now_sec \<and> tv_sec - now_sec \<le> 9223372036853"
  then have v: "0 \<le> tv_sec" "0 \<le> tv_nsec" "tv_nsec < 1000000000"
    by (simp_all add: abs_timespec_to_micros_def split: if_splits)
  define sd where "sd = tv_sec - now_sec"
  define nd where "nd = tv_nsec - now_nsec"
  define q where "q = nd sdiv 1000"
  define u where "u = sd * 1000000 + q"
  have sd: "- 9223372036853 \<le> sd" "sd \<le> 9223372036853" using h by (simp_all add: sd_def)
  have nd: "- 1000000000 < nd" "nd < 1000000000" using assms(3,4) v by (simp_all add: nd_def)
  note q = sdiv_1000 [OF nd, folded q_def]
  have i: "int64 sd = sd" "int64 nd = nd" "int64 (sd * 1000000) = sd * 1000000"
    "int64 (sd * 1000000 + q) = sd * 1000000 + q"
    by (rule int64_id; use sd nd q in linarith)+
  have m: "micros = (if u \<le> 0 then 0 else if u > int UINT32_MAX then UINT32_MAX else nat u)"
    using h v by (auto simp: abs_timespec_to_micros_def Let_def sd_def [symmetric] nd_def [symmetric] i
        q_def [symmetric] u_def)
  have e: "- 1000 < 1000 * u - (sd * 1000000000 + nd)" "1000 * u - (sd * 1000000000 + nd) < 1000"
    using q by (simp_all add: u_def)
  show "let left = (tv_sec - now_sec) * 1000000000 + (tv_nsec - now_nsec)
      in if left \<le> - 1000 then micros = 0
         else if left \<ge> 4294967296000 then micros = UINT32_MAX
         else \<bar>1000 * int micros - left\<bar> < 1000"
    unfolding Let_def m sd_def [symmetric] nd_def [symmetric] using e by (auto simp: abs_less_iff)
qed

theorem timespec_to_micros_witness:
  "\<exists>m. abs_timespec_to_micros (Some (10, 0)) (Some (12, 500000000)) = Some m \<and> \<bar>1000 * int m - 2500000000\<bar> < 1000"
proof -
  obtain m where "abs_timespec_to_micros (Some (10, 0)) (Some (12, 500000000)) = Some m"
    using timespec_to_micros [of 10 0 12 500000000] by (cases "abs_timespec_to_micros (Some (10, 0)) (Some (12, 500000000))") simp_all
  then show ?thesis using timespec_to_micros [of 10 0 12 500000000] by simp
qed

text \<open>
  The table of semaphores: a value above the maximum or a null address is refused; an initialized
  semaphore reports its value, whatever was at the address before, and leaves every other address alone;
  after its destruction, and at every address never initialized, each call fails with \<open>EINVAL\<close>.
\<close>

theorem posix_sem_lifecycle:
  assumes "sem \<noteq> 0" and "int value \<le> POSIX_SEM_VALUE_MAX" and "st1 = fst (posix_sem_init sem pshared value st)"
    and "st2 = fst (posix_sem_destroy sem st1)"
  shows "posix_sem_init 0 pshared value st = (st, - 1, Some POSIX_EINVAL)
    \<and> snd (posix_sem_init sem pshared value st) = (0, None)
    \<and> posix_sem_getvalue sem False st1 = Inr (int value) \<and> pthread_sem_getvalue sem False st1 = Inr (int value)
    \<and> (\<forall>a. a = sem \<or> (px_sems st1 a = px_sems st a \<and> px_guest st1 a = px_guest st a))
    \<and> snd (posix_sem_post sem st2) = (- 1, Some POSIX_EINVAL) \<and> pthread_sem_post sem st2 = (st2, KERNEL_ERROR_EINVAL)
    \<and> snd (posix_sem_wait sem st2) = Some (- 1, Some POSIX_EINVAL) \<and> pthread_sem_wait sem st2 = (st2, Some KERNEL_ERROR_EINVAL)
    \<and> snd (posix_sem_trywait sem st2) = (- 1, Some POSIX_EINVAL) \<and> pthread_sem_trywait sem st2 = (st2, KERNEL_ERROR_EINVAL)
    \<and> posix_sem_getvalue sem False st2 = Inl (- 1, Some POSIX_EINVAL)
    \<and> snd (posix_sem_destroy sem st2) = (- 1, Some POSIX_EINVAL)"
proof -
  have s1: "px_sems st1 = (px_sems st)(sem \<mapsto> \<lparr>ps_count = int value, ps_waiters = 0\<rparr>)"
    "\<And>a. a \<noteq> sem \<Longrightarrow> px_guest st1 a = px_guest st a" and r1: "snd (posix_sem_init sem pshared value st) = (0, None)"
    using assms(1-3) by (simp_all add: posix_sem_init_def sem_init_impl_def posix_ret_def Let_def)
  have "px_sems st2 sem = None" and no: "posix_sem_init 0 pshared value st = (st, - 1, Some POSIX_EINVAL)"
    using s1(1) assms(1,4) by (simp_all add: posix_sem_destroy_def sem_destroy_impl_def posix_sem_init_def
        sem_init_impl_def posix_ret_def)
  then have g: "get_sem sem st2 = None" and d: "snd (posix_sem_destroy sem st2) = (- 1, Some POSIX_EINVAL)"
    by (simp_all add: get_sem_def posix_sem_destroy_def sem_destroy_impl_def posix_ret_def)
  have v: "posix_sem_getvalue sem False st1 = Inr (int value)" "pthread_sem_getvalue sem False st1 = Inr (int value)"
    using assms(1) by (simp_all add: posix_sem_getvalue_def pthread_sem_getvalue_def get_sem_def s1)
  note posix = posix_sem_post_def posix_sem_wait_def posix_sem_trywait_def posix_sem_getvalue_def
  have e: "snd (posix_sem_post sem st2) = (- 1, Some POSIX_EINVAL)" "snd (posix_sem_wait sem st2) = Some (- 1, Some POSIX_EINVAL)"
    "snd (posix_sem_trywait sem st2) = (- 1, Some POSIX_EINVAL)" "posix_sem_getvalue sem False st2 = Inl (- 1, Some POSIX_EINVAL)"
    by (simp_all add: posix on_sem_def sem_timedwait_impl_def g posix_ret_def)
  have k: "pthread_ret POSIX_EINVAL = KERNEL_ERROR_EINVAL"
    by (simp add: pthread_ret_def posix_to_kernel_def)
  have p: "pthread_sem_post sem st2 = (st2, KERNEL_ERROR_EINVAL)" "pthread_sem_trywait sem st2 = (st2, KERNEL_ERROR_EINVAL)"
    "pthread_sem_wait sem st2 = (st2, Some KERNEL_ERROR_EINVAL)"
    by (simp_all add: pthread_sem_post_def pthread_sem_trywait_def pthread_sem_wait_def on_sem_def
        sem_timedwait_impl_def g k)
  show ?thesis using no r1 v s1 e p d by simp
qed

theorem posix_sem_lifecycle_witness:
  "posix_sem_getvalue 4096 False (fst (posix_sem_init 4096 0 5 \<lparr>px_sems = (\<lambda>_. None), px_guest = (\<lambda>_. example_guest)\<rparr>)) = Inr 5"
  using posix_sem_lifecycle [of 4096 5 _ 0 "\<lparr>px_sems = (\<lambda>_. None), px_guest = (\<lambda>_. example_guest)\<rparr>", OF _ _ refl refl] by simp

end
