(* ===== verification/EventFlag.thy ===== *)
theory EventFlag
  imports Errno "HOL-Library.Word"
begin

text \<open>
  The event flags of src/kernel/eventFlag.cpp (the class \<open>KernelEventFlagPrivate\<close> and the
  \<open>Kernel...EventFlag\<close> calls).  A method runs under the class mutex; where it gives the mutex up it is cut:
  \<open>Wait\<close> is the claim of the slot with the first test of its loop (\<open>ef_wait\<close>) and the return from the
  condition variable (\<open>ef_resume\<close>); \<open>Set\<close>, \<open>Clear\<close>, \<open>Cancel\<close> and the destructor are attempts that go ahead
  or sleep and try again.  The condition variable's wait is polled, so a blocked thread can resume at
  any moment.  The time that has passed is an argument.
\<close>

unbundle bit_operations_syntax

datatype ef_result = EfOk | EfAlreadyWaiting | EfTimedOut | EfCanceled | EfDeleted

datatype clear_mode = ClearNone | ClearAll | ClearBits

datatype wait_mode = WaitAnd | WaitOr

datatype ef_status = StatusSet | StatusCanceled | StatusDeleted

record event_flag =
  ef_status :: ef_status
  ef_waiting :: nat
  ef_name :: string
  ef_single :: bool
  ef_bits :: "64 word"

definition ef_new :: "string \<Rightarrow> bool \<Rightarrow> 64 word \<Rightarrow> event_flag" where
  "ef_new name single bits =
     \<lparr>ef_status = StatusSet, ef_waiting = 0, ef_name = name, ef_single = single, ef_bits = bits\<rparr>"

text \<open>The modes of a wait; the program stops at an unknown mode.\<close>

definition decode_wait_mode :: "32 word \<Rightarrow> (wait_mode \<times> clear_mode) option" where
  "decode_wait_mode wait_mode =
     (case (if wait_mode AND 0xf = 1 then Some WaitAnd else if wait_mode AND 0xf = 2 then Some WaitOr else None) of
        None \<Rightarrow> None
      | Some w \<Rightarrow>
          if wait_mode AND 0xf0 = 0 then Some (w, ClearNone)
          else if wait_mode AND 0xf0 = 0x10 then Some (w, ClearAll)
          else if wait_mode AND 0xf0 = 0x20 then Some (w, ClearBits)
          else None)"

definition ef_satisfied :: "64 word \<Rightarrow> wait_mode \<Rightarrow> event_flag \<Rightarrow> bool" where
  "ef_satisfied bits mode f \<longleftrightarrow>
     mode = WaitAnd \<and> ef_bits f AND bits = bits \<or> mode = WaitOr \<and> ef_bits f AND bits \<noteq> 0"

definition time_left :: "nat option \<Rightarrow> nat \<Rightarrow> nat option" where
  "time_left ptr_micros elapsed = map_option (\<lambda>micros. if elapsed \<ge> micros then 0 else micros - elapsed) ptr_micros"

text \<open>The destructor of \<open>SlotGuard\<close>.\<close>

definition release_slot :: "event_flag \<Rightarrow> event_flag" where
  "release_slot f = (if ef_single f then f\<lparr>ef_waiting := 0\<rparr> else f)"

definition clear_bits :: "clear_mode \<Rightarrow> 64 word \<Rightarrow> 64 word \<Rightarrow> 64 word" where
  "clear_bits mode bits w =
     (case mode of ClearAll \<Rightarrow> 0 | ClearBits \<Rightarrow> w AND NOT bits | ClearNone \<Rightarrow> w)"

text \<open>What a wait has come to: its result, the pattern written and the time left; or it blocks.\<close>

datatype ef_outcome = EfReturn ef_result "64 word option" "nat option" | EfBlock

definition ef_test :: "64 word \<Rightarrow> wait_mode \<Rightarrow> clear_mode \<Rightarrow> nat option \<Rightarrow> nat \<Rightarrow> event_flag
    \<Rightarrow> event_flag \<times> ef_outcome" where
  "ef_test bits mode clear ptr_micros elapsed f =
     (if \<not> ef_satisfied bits mode f
      then (if (case ptr_micros of None \<Rightarrow> False | Some micros \<Rightarrow> elapsed \<ge> micros)
            then (release_slot f, EfReturn EfTimedOut (Some (ef_bits f)) (time_left ptr_micros elapsed))
            else ((if \<not> ef_single f then f\<lparr>ef_waiting := ef_waiting f + 1\<rparr> else f), EfBlock))
      else (release_slot (f\<lparr>ef_bits := clear_bits clear bits (ef_bits f)\<rparr>),
            EfReturn EfOk (Some (ef_bits f)) (time_left ptr_micros elapsed)))"

definition ef_wait :: "64 word \<Rightarrow> wait_mode \<Rightarrow> clear_mode \<Rightarrow> nat option \<Rightarrow> event_flag \<Rightarrow> event_flag \<times> ef_outcome" where
  "ef_wait bits mode clear ptr_micros f =
     (if ef_single f \<and> ef_waiting f > 0 then (f, EfReturn EfAlreadyWaiting None ptr_micros)
      else ef_test bits mode clear ptr_micros 0 (if ef_single f then f\<lparr>ef_waiting := 1\<rparr> else f))"

definition ef_resume :: "64 word \<Rightarrow> wait_mode \<Rightarrow> clear_mode \<Rightarrow> nat option \<Rightarrow> nat \<Rightarrow> event_flag
    \<Rightarrow> event_flag \<times> ef_outcome" where
  "ef_resume bits mode clear ptr_micros elapsed f =
     (let f' = (if \<not> ef_single f then f\<lparr>ef_waiting := ef_waiting f - 1\<rparr> else f)
      in case ef_status f' of
           StatusCanceled \<Rightarrow> (release_slot f', EfReturn EfCanceled (Some (ef_bits f')) (time_left ptr_micros elapsed))
         | StatusDeleted \<Rightarrow> (release_slot f', EfReturn EfDeleted (Some (ef_bits f')) (time_left ptr_micros elapsed))
         | StatusSet \<Rightarrow> ef_test bits mode clear ptr_micros elapsed f')"

definition ef_poll :: "64 word \<Rightarrow> wait_mode \<Rightarrow> clear_mode \<Rightarrow> event_flag \<Rightarrow> event_flag \<times> ef_outcome" where
  "ef_poll bits mode clear f = ef_wait bits mode clear (Some 0) f"

text \<open>
  An attempt of a method that may have to wait for its turn: the program stops, the method sleeps and
  tries again, or it goes ahead.  Only the first attempt asks whether the flag is being deleted.
\<close>

datatype 'a attempt = Stop | Sleep | Go 'a

definition ef_turn :: "bool \<Rightarrow> event_flag \<Rightarrow> 'a \<Rightarrow> 'a attempt" where
  "ef_turn first f a =
     (if first \<and> ef_status f = StatusDeleted then Stop else if ef_status f \<noteq> StatusSet then Sleep else Go a)"

definition ef_set :: "bool \<Rightarrow> 64 word \<Rightarrow> event_flag \<Rightarrow> event_flag attempt" where
  "ef_set first bits f = ef_turn first f (f\<lparr>ef_bits := ef_bits f OR bits\<rparr>)"

definition ef_clear :: "bool \<Rightarrow> 64 word \<Rightarrow> event_flag \<Rightarrow> event_flag attempt" where
  "ef_clear first bits f = ef_turn first f (f\<lparr>ef_bits := ef_bits f AND bits\<rparr>)"

text \<open>\<open>Cancel\<close> up to the loop that waits for the threads to leave, with the count it reports; and its end.\<close>

definition ef_cancel :: "bool \<Rightarrow> 64 word \<Rightarrow> event_flag \<Rightarrow> (event_flag \<times> nat) attempt" where
  "ef_cancel first bits f =
     ef_turn first f (f\<lparr>ef_status := StatusCanceled, ef_bits := bits\<rparr>, ef_waiting f)"

definition ef_cancel_end :: "event_flag \<Rightarrow> event_flag attempt" where
  "ef_cancel_end f = (if ef_waiting f > 0 then Sleep else Go (f\<lparr>ef_status := StatusSet\<rparr>))"

text \<open>The destructor up to its second loop, and the end of that loop, when the object is freed.\<close>

definition ef_delete :: "event_flag \<Rightarrow> event_flag attempt" where
  "ef_delete f = ef_turn False f (f\<lparr>ef_status := StatusDeleted\<rparr>)"

definition ef_delete_end :: "event_flag \<Rightarrow> unit attempt" where
  "ef_delete_end f = (if ef_waiting f > 0 then Sleep else Go ())"

subsection \<open>The kernel calls\<close>

text \<open>A call returns a code, still waits, or stops the program.\<close>

datatype ef_call = EfCode int | EfWaits | EfStops

definition kernel_create_event_flag :: "bool \<Rightarrow> string option \<Rightarrow> 32 word \<Rightarrow> 64 word \<Rightarrow> bool \<Rightarrow> int + event_flag" where
  "kernel_create_event_flag ef_null name attr init_pattern param_null =
     (case name of
        None \<Rightarrow> Inl KERNEL_ERROR_EINVAL
      | Some n \<Rightarrow>
          if ef_null then Inl KERNEL_ERROR_EINVAL
          else if \<not> param_null \<or> attr AND NOT 0x33 \<noteq> 0 then Inl KERNEL_ERROR_EINVAL
          else if attr AND 0x0f \<notin> {0, 1, 2} then Inl KERNEL_ERROR_EINVAL
          else if attr AND 0xf0 = 0 \<or> attr AND 0xf0 = 0x10 then Inr (ef_new n True init_pattern)
          else if attr AND 0xf0 = 0x20 then Inr (ef_new n False init_pattern)
          else Inl KERNEL_ERROR_EINVAL)"

fun ef_wait_code :: "ef_result \<Rightarrow> int" where
  "ef_wait_code EfOk = OK"
| "ef_wait_code EfAlreadyWaiting = KERNEL_ERROR_EPERM"
| "ef_wait_code EfTimedOut = KERNEL_ERROR_ETIMEDOUT"
| "ef_wait_code EfCanceled = KERNEL_ERROR_ECANCELED"
| "ef_wait_code EfDeleted = KERNEL_ERROR_EACCES"

fun ef_poll_code :: "ef_result \<Rightarrow> int" where
  "ef_poll_code EfOk = OK"
| "ef_poll_code EfAlreadyWaiting = KERNEL_ERROR_EPERM"
| "ef_poll_code EfTimedOut = KERNEL_ERROR_EBUSY"
| "ef_poll_code EfCanceled = KERNEL_ERROR_EBUSY"
| "ef_poll_code EfDeleted = KERNEL_ERROR_EBUSY"

definition kernel_wait_event_flag :: "64 word \<Rightarrow> 32 word \<Rightarrow> nat option \<Rightarrow> event_flag option
    \<Rightarrow> event_flag option \<times> ef_call \<times> 64 word option" where
  "kernel_wait_event_flag bit_pattern wait_mode timeout ef =
     (case ef of
        None \<Rightarrow> (None, EfCode KERNEL_ERROR_ESRCH, None)
      | Some f \<Rightarrow>
          if bit_pattern = 0 then (Some f, EfCode KERNEL_ERROR_EINVAL, None)
          else case decode_wait_mode wait_mode of
                 None \<Rightarrow> (Some f, EfStops, None)
               | Some (mode, clear) \<Rightarrow>
                   (case ef_wait bit_pattern mode clear timeout f of
                      (f', EfReturn r pat _) \<Rightarrow> (Some f', EfCode (ef_wait_code r), pat)
                    | (f', EfBlock) \<Rightarrow> (Some f', EfWaits, None)))"

definition kernel_poll_event_flag :: "64 word \<Rightarrow> 32 word \<Rightarrow> event_flag option
    \<Rightarrow> event_flag option \<times> ef_call \<times> 64 word option" where
  "kernel_poll_event_flag bit_pattern wait_mode ef =
     (case ef of
        None \<Rightarrow> (None, EfCode KERNEL_ERROR_ESRCH, None)
      | Some f \<Rightarrow>
          if bit_pattern = 0 then (Some f, EfCode KERNEL_ERROR_EINVAL, None)
          else case decode_wait_mode wait_mode of
                 None \<Rightarrow> (Some f, EfStops, None)
               | Some (mode, clear) \<Rightarrow>
                   (case ef_poll bit_pattern mode clear f of
                      (f', EfReturn r pat _) \<Rightarrow> (Some f', EfCode (ef_poll_code r), pat)
                    | (f', EfBlock) \<Rightarrow> (Some f', EfWaits, None)))"

text \<open>A call that makes an attempt of the flag: the state after it and how the call stands.\<close>

definition ef_attempt :: "(event_flag \<Rightarrow> event_flag attempt) \<Rightarrow> event_flag option \<Rightarrow> event_flag option \<times> ef_call" where
  "ef_attempt op ef =
     (case ef of
        None \<Rightarrow> (None, EfCode KERNEL_ERROR_ESRCH)
      | Some f \<Rightarrow> (case op f of Stop \<Rightarrow> (Some f, EfStops) | Sleep \<Rightarrow> (Some f, EfWaits) | Go f' \<Rightarrow> (Some f', EfCode OK)))"

definition kernel_set_event_flag :: "64 word \<Rightarrow> event_flag option \<Rightarrow> event_flag option \<times> ef_call" where
  "kernel_set_event_flag bit_pattern = ef_attempt (ef_set True bit_pattern)"

definition kernel_clear_event_flag :: "64 word \<Rightarrow> event_flag option \<Rightarrow> event_flag option \<times> ef_call" where
  "kernel_clear_event_flag bit_pattern = ef_attempt (ef_clear True bit_pattern)"

definition kernel_cancel_event_flag :: "64 word \<Rightarrow> event_flag option \<Rightarrow> event_flag option \<times> ef_call \<times> nat option" where
  "kernel_cancel_event_flag set_pattern ef =
     (case ef of
        None \<Rightarrow> (None, EfCode KERNEL_ERROR_ESRCH, None)
      | Some f \<Rightarrow>
          (case ef_cancel True set_pattern f of
             Stop \<Rightarrow> (Some f, EfStops, None)
           | Sleep \<Rightarrow> (Some f, EfWaits, None)
           | Go (f', n) \<Rightarrow>
               (case ef_cancel_end f' of
                  Go f'' \<Rightarrow> (Some f'', EfCode OK, Some n)
                | _ \<Rightarrow> (Some f', EfWaits, Some n))))"

definition kernel_delete_event_flag :: "event_flag option \<Rightarrow> event_flag option \<times> ef_call" where
  "kernel_delete_event_flag ef =
     (case ef of
        None \<Rightarrow> (None, EfCode KERNEL_ERROR_ESRCH)
      | Some f \<Rightarrow>
          (case ef_delete f of
             Go f' \<Rightarrow> (case ef_delete_end f' of Go _ \<Rightarrow> (None, EfCode OK) | _ \<Rightarrow> (Some f', EfWaits))
           | _ \<Rightarrow> (Some f, EfWaits)))"

subsection \<open>The flag and its threads\<close>

text \<open>A flag with the threads blocked in \<open>Wait\<close>, what each waits for and its time limit.\<close>

record wait_request =
  r_bits :: "64 word"
  r_mode :: wait_mode
  r_clear :: clear_mode
  r_micros :: "nat option"

record ef_sys =
  e_flag :: event_flag
  e_blocked :: "nat \<Rightarrow> wait_request option"
  e_canceling :: bool

abbreviation wait_on :: "wait_request \<Rightarrow> event_flag \<Rightarrow> event_flag \<times> ef_outcome" where
  "wait_on r \<equiv> ef_wait (r_bits r) (r_mode r) (r_clear r) (r_micros r)"

abbreviation resume_on :: "wait_request \<Rightarrow> nat \<Rightarrow> event_flag \<Rightarrow> event_flag \<times> ef_outcome" where
  "resume_on r \<equiv> ef_resume (r_bits r) (r_mode r) (r_clear r) (r_micros r)"

inductive ef_step :: "ef_sys \<Rightarrow> ef_sys \<Rightarrow> bool" where
  wait_return: "\<lbrakk>e_blocked y t = None; wait_on r (e_flag y) = (f, EfReturn res pat left)\<rbrakk>
    \<Longrightarrow> ef_step y (y\<lparr>e_flag := f\<rparr>)"
| wait_block: "\<lbrakk>e_blocked y t = None; wait_on r (e_flag y) = (f, EfBlock)\<rbrakk>
    \<Longrightarrow> ef_step y (y\<lparr>e_flag := f, e_blocked := (e_blocked y)(t \<mapsto> r)\<rparr>)"
| resume_return: "\<lbrakk>e_blocked y t = Some r; resume_on r e (e_flag y) = (f, EfReturn res pat left)\<rbrakk>
    \<Longrightarrow> ef_step y (y\<lparr>e_flag := f, e_blocked := (e_blocked y)(t := None)\<rparr>)"
| resume_block: "\<lbrakk>e_blocked y t = Some r; resume_on r e (e_flag y) = (f, EfBlock)\<rbrakk>
    \<Longrightarrow> ef_step y (y\<lparr>e_flag := f\<rparr>)"
| set_bits: "ef_set first b (e_flag y) = Go f \<Longrightarrow> ef_step y (y\<lparr>e_flag := f\<rparr>)"
| clear: "ef_clear first b (e_flag y) = Go f \<Longrightarrow> ef_step y (y\<lparr>e_flag := f\<rparr>)"
| cancel: "ef_cancel first b (e_flag y) = Go (f, n) \<Longrightarrow> ef_step y (y\<lparr>e_flag := f, e_canceling := True\<rparr>)"
| cancel_end: "\<lbrakk>e_canceling y; ef_cancel_end (e_flag y) = Go f\<rbrakk>
    \<Longrightarrow> ef_step y (y\<lparr>e_flag := f, e_canceling := False\<rparr>)"
| delete: "ef_delete (e_flag y) = Go f \<Longrightarrow> ef_step y (y\<lparr>e_flag := f\<rparr>)"

inductive ef_reach :: "ef_sys \<Rightarrow> bool" where
  create: "kernel_create_event_flag en name attr bits pn = Inr f
    \<Longrightarrow> ef_reach \<lparr>e_flag = f, e_blocked = (\<lambda>_. None), e_canceling = False\<rparr>"
| step: "\<lbrakk>ef_reach y; ef_step y y'\<rbrakk> \<Longrightarrow> ef_reach y'"

end
