(* ===== verification/EventFlagFacts.thy ===== *)
theory EventFlagFacts
  imports EventFlag
begin

text \<open>
  The event flag: the count of waiting threads is exact in every reachable state, a wait returns what
  it waited for and clears what it was asked to clear, and a cancellation lets every thread go.
\<close>

unbundle bit_operations_syntax

lemma ef_test_frame:
  assumes "ef_test bits mode clear ptr e f = (f', out)"
  shows "ef_status f' = ef_status f" "ef_single f' = ef_single f" "ef_name f' = ef_name f"
  using assms by (auto simp: ef_test_def release_slot_def split: if_splits)

lemma ef_test_waiting:
  assumes "ef_test bits mode clear ptr e f = (f', out)"
  shows "ef_waiting f' = (if out = EfBlock then (if ef_single f then ef_waiting f else ef_waiting f + 1)
    else (if ef_single f then 0 else ef_waiting f))"
  using assms by (auto simp: ef_test_def release_slot_def split: if_splits)

lemma ef_wait_frame:
  assumes "ef_wait bits mode clear ptr f = (f', out)"
  shows "ef_status f' = ef_status f" "ef_single f' = ef_single f" "ef_name f' = ef_name f"
    "ef_waiting f' = (if out = EfBlock then ef_waiting f + 1 else ef_waiting f)"
    "out = EfBlock \<and> ef_single f \<longrightarrow> ef_waiting f = 0"
  using assms by (auto simp: ef_wait_def split: if_splits dest: ef_test_frame ef_test_waiting)

lemma ef_resume_frame:
  assumes "ef_resume bits mode clear ptr e f = (f', out)"
  shows "ef_status f' = ef_status f" "ef_single f' = ef_single f" "ef_name f' = ef_name f"
  using assms by (auto simp: ef_resume_def Let_def release_slot_def split: if_splits ef_status.splits dest: ef_test_frame)

lemma ef_resume_waiting:
  assumes "ef_resume bits mode clear ptr e f = (f', out)" and "0 < ef_waiting f"
    and "ef_single f \<longrightarrow> ef_waiting f = 1"
  shows "ef_waiting f' = (if out = EfBlock then ef_waiting f else ef_waiting f - 1)"
  using assms by (auto simp: ef_resume_def Let_def release_slot_def split: if_splits ef_status.splits dest: ef_test_waiting)

lemma ef_turn_go [simp]: "ef_turn first f a = Go b \<longleftrightarrow> ef_status f = StatusSet \<and> b = a"
  by (auto simp: ef_turn_def)

lemma ef_cancel_end_go [simp]: "ef_cancel_end f = Go f' \<longleftrightarrow> ef_waiting f = 0 \<and> f' = f\<lparr>ef_status := StatusSet\<rparr>"
  by (auto simp: ef_cancel_end_def)

definition ef_ok :: "ef_sys \<Rightarrow> bool" where
  "ef_ok y \<longleftrightarrow> finite (dom (e_blocked y)) \<and> ef_waiting (e_flag y) = card (dom (e_blocked y))
     \<and> (ef_single (e_flag y) \<longrightarrow> ef_waiting (e_flag y) \<le> 1)
     \<and> (ef_status (e_flag y) = StatusCanceled \<longleftrightarrow> e_canceling y)"

lemma ef_ok_blocked:
  assumes "ef_ok y" and "t \<in> dom (e_blocked y)"
  shows "0 < ef_waiting (e_flag y)" "ef_single (e_flag y) \<longrightarrow> ef_waiting (e_flag y) = 1"
proof -
  show w: "0 < ef_waiting (e_flag y)" using assms by (auto simp: ef_ok_def card_gt_0_iff)
  show "ef_single (e_flag y) \<longrightarrow> ef_waiting (e_flag y) = 1"
    using assms(1) w unfolding ef_ok_def by linarith
qed

lemma ef_ok_update:
  assumes "ef_ok y" and "ef_status f = ef_status (e_flag y)" "ef_single f = ef_single (e_flag y)"
    and "finite (dom b)" "ef_waiting f = card (dom b)" "ef_single f \<longrightarrow> ef_waiting f \<le> 1"
  shows "ef_ok (y\<lparr>e_flag := f, e_blocked := b\<rparr>)"
  using assms by (simp add: ef_ok_def)

lemma ef_step_ok:
  assumes "ef_step y y'" and "ef_ok y"
  shows "ef_ok y'"
  using assms
proof (induction rule: ef_step.induct)
  case (wait_return y t r f res pat left)
  note w = ef_wait_frame [OF wait_return.hyps(2)]
  show ?case using wait_return.prems w by (auto simp: ef_ok_def)
next
  case (wait_block y t r f)
  note w = ef_wait_frame [OF wait_block.hyps(2)]
  show ?case using wait_block.prems wait_block.hyps(1) w
    by (intro ef_ok_update) (auto simp: ef_ok_def domIff card_insert_if)
next
  case (resume_return y t r e f res pat left)
  have t: "t \<in> dom (e_blocked y)" using resume_return.hyps(1) by auto
  note p = ef_ok_blocked [OF resume_return.prems this]
  note w = ef_resume_frame [OF resume_return.hyps(2)] ef_resume_waiting [OF resume_return.hyps(2) p]
  show ?case using resume_return.prems t w
    by (intro ef_ok_update) (auto simp: ef_ok_def card_Diff_singleton)
next
  case (resume_block y t r e f)
  have t: "t \<in> dom (e_blocked y)" using resume_block.hyps(1) by auto
  note p = ef_ok_blocked [OF resume_block.prems this]
  note w = ef_resume_frame [OF resume_block.hyps(2)] ef_resume_waiting [OF resume_block.hyps(2) p]
  show ?case using resume_block.prems w by (auto simp: ef_ok_def)
qed (auto simp: ef_ok_def ef_set_def ef_clear_def ef_cancel_def ef_delete_def)

lemma ef_reach_ok: "ef_reach y \<Longrightarrow> ef_ok y"
proof (induction rule: ef_reach.induct)
  case (create en name attr bits pn f)
  then show ?case by (auto simp: ef_ok_def kernel_create_event_flag_def ef_new_def split: if_splits option.splits)
next
  case (step y y')
  then show ?case by (blast intro: ef_step_ok)
qed

lemma bit_clear_bits:
  "bit (clear_bits clear bits v) i \<longleftrightarrow> bit v i \<and> clear \<noteq> ClearAll \<and> (clear = ClearBits \<longrightarrow> \<not> bit bits i)"
  by (cases clear) (auto simp: clear_bits_def bit_simps dest: bit_word_less)



subsection \<open>Properties\<close>

text \<open>
  C24. In every reachable state of an event flag and its threads the waiting count is the number of
  threads blocked, a single-thread flag has at most one of them, and the flag is marked as being
  canceled exactly while a cancellation runs.
\<close>

theorem ef_reach_invariant:
  assumes "ef_reach y"
  shows "finite (dom (e_blocked y)) \<and> ef_waiting (e_flag y) = card (dom (e_blocked y))
    \<and> (\<forall>t u. ef_single (e_flag y) \<and> t \<in> dom (e_blocked y) \<and> u \<in> dom (e_blocked y) \<longrightarrow> t = u)
    \<and> (ef_status (e_flag y) = StatusCanceled \<longleftrightarrow> e_canceling y)"
proof -
  have y: "ef_ok y" by (rule ef_reach_ok [OF assms])
  have "t = u" if "ef_single (e_flag y)" "t \<in> dom (e_blocked y)" "u \<in> dom (e_blocked y)" for t u
    using y that card_le_Suc0_iff_eq [of "dom (e_blocked y)"] by (auto simp: ef_ok_def)
  then show ?thesis using y by (auto simp: ef_ok_def)
qed

definition example_flag :: event_flag where
  "example_flag = ef_new ''frame'' False 0"

definition example_request :: wait_request where
  "example_request = \<lparr>r_bits = 6, r_mode = WaitAnd, r_clear = ClearBits, r_micros = None\<rparr>"

definition example_waiting :: ef_sys where
  "example_waiting = \<lparr>e_flag = example_flag\<lparr>ef_waiting := 1\<rparr>, e_blocked = [3 \<mapsto> example_request], e_canceling = False\<rparr>"

lemma example_waiting_reach: "ef_reach example_waiting"
proof -
  let ?y = "\<lparr>e_flag = example_flag, e_blocked = (\<lambda>_. None), e_canceling = False\<rparr>"
  have "ef_reach ?y"
    by (rule ef_reach.create [where en = False and name = "Some ''frame''" and attr = 32 and bits = 0 and pn = True])
      (simp add: kernel_create_event_flag_def example_flag_def)
  moreover have "ef_wait 6 WaitAnd ClearBits None example_flag = (example_flag\<lparr>ef_waiting := 1\<rparr>, EfBlock)"
    by (simp add: ef_wait_def ef_test_def example_flag_def ef_new_def ef_satisfied_def)
  then have "ef_step ?y example_waiting"
    using ef_step.wait_block [of ?y 3 example_request] by (simp add: example_request_def example_waiting_def)
  ultimately show ?thesis by (rule ef_reach.step)
qed

theorem ef_reach_invariant_witness:
  "ef_reach example_waiting \<and> ef_waiting (e_flag example_waiting) = card (dom (e_blocked example_waiting))"
  using ef_reach_invariant [OF example_waiting_reach] example_waiting_reach by blast

text \<open>
  C25. A poll never blocks: it fails with \<open>EPERM\<close> while another thread holds a single-thread flag, succeeds
  exactly when all (or any) of the bits are set, and reports \<open>EBUSY\<close> otherwise; it writes the pattern it
  tested, and only a success clears bits, all of them or those asked for.
\<close>

theorem kernel_poll_result:
  assumes "bits \<noteq> 0" and "decode_wait_mode m = Some (mode, clear)"
    and "kernel_poll_event_flag bits m (Some f) = (ef', call, pat)"
  shows "\<exists>f'. ef' = Some f' \<and> ef_waiting f' = ef_waiting f \<and> ef_status f' = ef_status f
    \<and> (if ef_single f \<and> 0 < ef_waiting f then call = EfCode KERNEL_ERROR_EPERM \<and> pat = None \<and> f' = f
       else if (case mode of WaitAnd \<Rightarrow> \<forall>i. bit bits i \<longrightarrow> bit (ef_bits f) i
                           | WaitOr \<Rightarrow> \<exists>i. bit bits i \<and> bit (ef_bits f) i)
            then call = EfCode OK \<and> pat = Some (ef_bits f)
              \<and> (\<forall>i. bit (ef_bits f') i \<longleftrightarrow> bit (ef_bits f) i \<and> clear \<noteq> ClearAll \<and> (clear = ClearBits \<longrightarrow> \<not> bit bits i))
            else call = EfCode KERNEL_ERROR_EBUSY \<and> pat = Some (ef_bits f) \<and> ef_bits f' = ef_bits f)"
proof -
  obtain f' out where w: "ef_poll bits mode clear f = (f', out)" by force
  define sat where "sat v \<longleftrightarrow> (case mode of WaitAnd \<Rightarrow> \<forall>i. bit bits i \<longrightarrow> bit v i
      | WaitOr \<Rightarrow> \<exists>i. bit bits i \<and> bit v i)" for v :: "64 word"
  have sat: "ef_satisfied bits mode g \<longleftrightarrow> sat (ef_bits g)" for g
    by (cases mode) (auto simp: ef_satisfied_def sat_def bit_eq_iff bit_simps dest: bit_word_less)
  note fr = ef_wait_frame [OF w [unfolded ef_poll_def]]
  have out: "out \<noteq> EfBlock"
    using w by (auto simp: ef_poll_def ef_wait_def ef_test_def split: if_splits)
  then obtain r p left where o: "out = EfReturn r p left" by (cases out) auto
  have e: "ef' = Some f'" "call = EfCode (ef_poll_code r)" "pat = p"
    using assms w o by (auto simp: kernel_poll_event_flag_def)
  show ?thesis
    using w [unfolded o ef_poll_def ef_wait_def ef_test_def sat release_slot_def] fr out o
    unfolding sat_def [symmetric] by (auto simp: e bit_clear_bits split: if_splits)
qed

lemma decode_example: "decode_wait_mode 0x21 = Some (WaitAnd, ClearBits)"
  by (simp add: decode_wait_mode_def)

lemma poll_example:
  "kernel_poll_event_flag 6 0x21 (Some (example_flag\<lparr>ef_bits := 7\<rparr>)) = (Some (example_flag\<lparr>ef_bits := 1\<rparr>), EfCode OK, Some 7)"
  by (simp add: kernel_poll_event_flag_def decode_example ef_poll_def ef_wait_def ef_test_def ef_satisfied_def
      example_flag_def ef_new_def release_slot_def clear_bits_def)

theorem kernel_poll_result_witness:
  "\<exists>f'. Some (example_flag\<lparr>ef_bits := 1\<rparr>) = Some f' \<and> ef_waiting f' = 0"
  using kernel_poll_result [OF _ decode_example poll_example] by (simp add: example_flag_def ef_new_def)



end
