(* ===== verification/EventQueue.thy ===== *)
theory EventQueue
  imports Errno "HOL-Library.AList"
begin

text \<open>
  The event queues of src/kernel/eventQueue.cpp and eventQueue.h (the class \<open>KernelEqueuePrivate\<close>, the
  table of queues and the \<open>Kernel...\<close> calls), with the hooks that src/graphics/presentation/videoOut.cpp
  and src/graphics/host_gpu/renderer/sync.cpp register.  The clocks are arguments; a call of a deletion
  hook is reported with the event it is made for, as its work is on the video output's own tables.
\<close>

unbundle bit_operations_syntax

abbreviation (input) EV_ADD :: "16 word" where "EV_ADD \<equiv> 0x01"

abbreviation (input) EV_ONESHOT :: "16 word" where "EV_ONESHOT \<equiv> 0x10"

abbreviation (input) EV_CLEAR :: "16 word" where "EV_CLEAR \<equiv> 0x20"

abbreviation (input) EV_ERROR :: "16 word" where "EV_ERROR \<equiv> 0x4000"

abbreviation (input) EVFILT_TIMER :: int where "EVFILT_TIMER \<equiv> - 7"

abbreviation (input) EVFILT_USER :: int where "EVFILT_USER \<equiv> - 11"

abbreviation (input) EVFILT_GRAPHICS :: int where "EVFILT_GRAPHICS \<equiv> - 14"

abbreviation (input) EVFILT_VIDEO_OUT :: int where "EVFILT_VIDEO_OUT \<equiv> - 13"

abbreviation (input) EVFILT_HRTIMER :: int where "EVFILT_HRTIMER \<equiv> - 15"

abbreviation (input) EVFILT_AMPR :: int where "EVFILT_AMPR \<equiv> - 25"

record kernel_event =
  ev_ident :: "64 word"
  ev_filter :: int
  ev_flags :: "16 word"
  ev_fflags :: "32 word"
  ev_data :: "64 word"
  ev_udata :: "64 word"

text \<open>The functions a registration can hold.\<close>

datatype trigger_func = NoTrigger | UserEventTrigger | AmprEventTrigger | VideoOutTrigger | InterruptTrigger

datatype reset_func = NoReset | UserEventReset | VideoOutReset | InterruptReset

datatype delete_func = NoDelete | RemoveVideoOutEventQueue

record eq_event =
  ee_triggered :: bool
  ee_deadline :: nat
  ee_interval :: nat
  ee_event :: kernel_event
  ee_trigger :: trigger_func
  ee_reset :: reset_func
  ee_delete :: delete_func
  ee_pending :: "kernel_event list"

record event_queue =
  q_events :: "eq_event list"
  q_name :: string
  q_handle :: int
  q_closed :: bool

subsection \<open>The hooks\<close>

definition make_video_out_event_data :: "64 word \<Rightarrow> 64 word \<Rightarrow> 64 word \<Rightarrow> 64 word" where
  "make_video_out_event_data tsc current_data trigger_data =
     (let c = drop_bit 12 current_data AND 0xf;
          counter = (if c \<noteq> 0xf then c + 1 else c)
      in (tsc AND 0xfff) OR push_bit 12 counter OR push_bit 16 (trigger_data AND 0x0000ffffffffffff))"

text \<open>An occurrence while one is already triggered waits in the pending queue.\<close>

definition raise_or_queue :: "kernel_event \<Rightarrow> eq_event \<Rightarrow> eq_event" where
  "raise_or_queue ev e =
     (if ee_triggered e then e\<lparr>ee_pending := ee_pending e @ [ev]\<rparr> else e\<lparr>ee_event := ev, ee_triggered := True\<rparr>)"

definition user_event_trigger :: "64 word \<Rightarrow> eq_event \<Rightarrow> eq_event" where
  "user_event_trigger d e = e\<lparr>ee_triggered := True, ee_event := (ee_event e)\<lparr>ev_data := d, ev_udata := d\<rparr>\<rparr>"

definition ampr_event_trigger :: "64 word \<Rightarrow> eq_event \<Rightarrow> eq_event" where
  "ampr_event_trigger d e = raise_or_queue ((ee_event e)\<lparr>ev_data := d\<rparr>) e"

definition trigger_video_out_event :: "64 word \<Rightarrow> 64 word \<Rightarrow> eq_event \<Rightarrow> eq_event" where
  "trigger_video_out_event tsc d e =
     raise_or_queue ((ee_event e)\<lparr>ev_fflags := (if ev_fflags (ee_event e) < 0xf then ev_fflags (ee_event e) + 1
         else ev_fflags (ee_event e)),
       ev_data := make_video_out_event_data tsc (ev_data (ee_event e)) d\<rparr>) e"

definition interrupt_event_trigger :: "64 word \<Rightarrow> eq_event \<Rightarrow> eq_event" where
  "interrupt_event_trigger d e =
     raise_or_queue ((ee_event e)\<lparr>ev_fflags := ev_fflags (ee_event e) + 1, ev_data := d\<rparr>) e"

text \<open>What a clearing reset does.\<close>

definition clear_event :: "eq_event \<Rightarrow> eq_event" where
  "clear_event e = e\<lparr>ee_triggered := False, ee_event := (ee_event e)\<lparr>ev_fflags := 0, ev_data := 0\<rparr>\<rparr>"

definition is_clear :: "kernel_event \<Rightarrow> bool" where
  "is_clear ev \<longleftrightarrow> ev_flags ev AND EV_CLEAR \<noteq> 0"

definition is_oneshot :: "kernel_event \<Rightarrow> bool" where
  "is_oneshot ev \<longleftrightarrow> ev_flags ev AND EV_ONESHOT \<noteq> 0"

definition user_event_reset :: "eq_event \<Rightarrow> eq_event" where
  "user_event_reset e = (if is_clear (ee_event e) then clear_event e else e)"

fun run_trigger :: "64 word \<Rightarrow> trigger_func \<Rightarrow> 64 word \<Rightarrow> eq_event \<Rightarrow> eq_event" where
  "run_trigger tsc NoTrigger d e = e\<lparr>ee_triggered := True\<rparr>"
| "run_trigger tsc UserEventTrigger d e = user_event_trigger d e"
| "run_trigger tsc AmprEventTrigger d e = ampr_event_trigger d e"
| "run_trigger tsc VideoOutTrigger d e = trigger_video_out_event tsc d e"
| "run_trigger tsc InterruptTrigger d e = interrupt_event_trigger d e"

fun run_reset :: "reset_func \<Rightarrow> eq_event \<Rightarrow> eq_event" where
  "run_reset NoReset e = (if is_clear (ee_event e) then clear_event e else e)"
| "run_reset UserEventReset e = user_event_reset e"
| "run_reset VideoOutReset e = clear_event e"
| "run_reset InterruptReset e = clear_event e"

subsection \<open>The queue\<close>

definition queue_close :: "event_queue \<Rightarrow> event_queue \<times> (int \<times> eq_event) list" where
  "queue_close q =
     (if q_closed q then (q, [])
      else (q\<lparr>q_closed := True, q_events := []\<rparr>,
            map (\<lambda>e. (q_handle q, e)) (filter (\<lambda>e. ee_delete e \<noteq> NoDelete) (q_events q))))"

definition expire_timer :: "nat \<Rightarrow> eq_event \<Rightarrow> eq_event" where
  "expire_timer now_ns e =
     (if ee_deadline e \<noteq> 0 \<and> ee_deadline e \<le> now_ns
      then (let count = (if ee_interval e = 0 then (if ee_triggered e then 0 else 1)
                         else 1 + (now_ns - ee_deadline e) div ee_interval e)
            in (if ev_filter (ee_event e) = EVFILT_TIMER
                then e\<lparr>ee_event := (ee_event e)\<lparr>ev_data := ev_data (ee_event e) + word_of_nat count\<rparr>,
                       ee_deadline := add64 (ee_deadline e) (count * ee_interval e)\<rparr>
                else e)\<lparr>ee_triggered := True\<rparr>)
      else e)"

definition trigger_expired_timers :: "nat \<Rightarrow> event_queue \<Rightarrow> event_queue" where
  "trigger_expired_timers now_ns q = q\<lparr>q_events := map (expire_timer now_ns) (q_events q)\<rparr>"

text \<open>
  The inner loop of \<open>GetTriggeredEvents\<close>: one registration delivers into the room that is left.  It
  returns what is delivered, the registration after it, and whether it is erased.
\<close>

function deliver_event :: "nat \<Rightarrow> eq_event \<Rightarrow> kernel_event list \<times> eq_event \<times> bool" where
  "deliver_event room e =
     (if \<not> ee_triggered e then ([], e, False)
      else if is_oneshot (ee_event e) then ([ee_event e], e, True)
      else case ee_pending e of
             [] \<Rightarrow> ([ee_event e], run_reset (ee_reset e) e, False)
           | p # ps \<Rightarrow>
               (let e' = (run_reset (ee_reset e) e)\<lparr>ee_event := p, ee_pending := ps, ee_triggered := True\<rparr>
                in if room \<le> 1 then ([ee_event e], e', False)
                   else (let (out, r) = deliver_event (room - 1) e' in (ee_event e # out, r))))"
  by pat_completeness auto

termination
  by (relation "measure (\<lambda>(room, e). length (ee_pending e))") auto

declare deliver_event.simps [simp del]

text \<open>The outer loop, which stops when the room is used up.\<close>

fun deliver_events :: "nat \<Rightarrow> eq_event list \<Rightarrow> kernel_event list \<times> eq_event list" where
  "deliver_events room [] = ([], [])"
| "deliver_events room (e # es) =
     (let (out, e', erase) = deliver_event room e;
          kept = (if erase then [] else [e'])
      in if room \<le> length out then (out, kept @ es)
         else (let (outs, es') = deliver_events (room - length out) es in (out @ outs, kept @ es')))"

text \<open>The events delivered, or the error; the program stops for a count below one.\<close>

definition get_triggered_events :: "nat \<Rightarrow> int \<Rightarrow> event_queue \<Rightarrow> (event_queue \<times> (int + kernel_event list)) option" where
  "get_triggered_events now_ns num q =
     (if num < 1 then None
      else if q_closed q then Some (q, Inl KERNEL_ERROR_EBADF)
      else (let q' = trigger_expired_timers now_ns q;
                (out, es) = deliver_events (nat num) (q_events q')
            in Some (q'\<lparr>q_events := es\<rparr>, Inr out)))"

definition get_next_timer_wait_micros :: "nat \<Rightarrow> event_queue \<Rightarrow> nat option" where
  "get_next_timer_wait_micros now_ns q =
     (let nearest = fold (\<lambda>e m. if \<not> ee_triggered e \<and> ee_deadline e \<noteq> 0 then min m (ee_deadline e) else m)
            (q_events q) U64_MAX
      in if nearest = U64_MAX then None
         else (let remaining = (if nearest > now_ns then nearest - now_ns else 0)
               in Some (min (max 1 (add64 remaining 999 div 1000)) UINT32_MAX)))"

text \<open>
  One round of \<open>WaitForEvents\<close>: it returns, or blocks, for a time or until it is woken.  The clock is
  read for the timers and again for the time to wait.
\<close>

datatype wait_round = RoundReturn "int + kernel_event list" | RoundBlock "nat option"

definition wait_for_events :: "nat \<Rightarrow> nat \<Rightarrow> nat \<Rightarrow> nat \<Rightarrow> int \<Rightarrow> event_queue \<Rightarrow> (event_queue \<times> wait_round) option" where
  "wait_for_events now_ns then_ns micros elapsed num q =
     (case get_triggered_events now_ns num q of
        None \<Rightarrow> None
      | Some (q', Inl err) \<Rightarrow> Some (q', RoundReturn (Inl err))
      | Some (q', Inr out) \<Rightarrow>
          if out \<noteq> [] \<or> (elapsed \<ge> micros \<and> micros \<noteq> 0) then Some (q', RoundReturn (Inr out))
          else (let timer = get_next_timer_wait_micros then_ns q';
                    external = (if micros \<noteq> 0 then micros - elapsed else UINT32_MAX)
                in Some (q', RoundBlock (if micros = 0 \<and> timer = None then None
                     else Some (case timer of None \<Rightarrow> external | Some t \<Rightarrow> min external t)))))"

definition same_event :: "64 word \<Rightarrow> int \<Rightarrow> eq_event \<Rightarrow> bool" where
  "same_event ident filt e \<longleftrightarrow> ev_ident (ee_event e) = ident \<and> ev_filter (ee_event e) = filt"

definition queue_add_event :: "nat \<Rightarrow> eq_event \<Rightarrow> event_queue \<Rightarrow> event_queue \<times> int" where
  "queue_add_event now_ns e q =
     (let same = same_event (ev_ident (ee_event e)) (ev_filter (ee_event e))
      in if q_closed q then (q, KERNEL_ERROR_EBADF)
         else if find same (q_events q) \<noteq> None
         then (q\<lparr>q_events := update_first same
                 (\<lambda>x. x\<lparr>ee_deadline := ee_deadline e, ee_interval := ee_interval e,
                         ee_event := (ee_event x)\<lparr>ev_udata := ev_udata (ee_event e)\<rparr>,
                         ee_pending := map (\<lambda>p. p\<lparr>ev_udata := ev_udata (ee_event e)\<rparr>) (ee_pending x)\<rparr>)
                 (map (expire_timer now_ns) (q_events q))\<rparr>, OK)
         else (q\<lparr>q_events := q_events q @ [e]\<rparr>, OK))"

definition queue_trigger_event :: "64 word \<Rightarrow> 64 word \<Rightarrow> int \<Rightarrow> 64 word \<Rightarrow> event_queue \<Rightarrow> event_queue \<times> int" where
  "queue_trigger_event tsc ident filt trigger_data q =
     (if q_closed q then (q, KERNEL_ERROR_EBADF)
      else if find (same_event ident filt) (q_events q) = None then (q, KERNEL_ERROR_ENOENT)
      else (q\<lparr>q_events := update_first (same_event ident filt)
              (\<lambda>e. run_trigger tsc (ee_trigger e) trigger_data e) (q_events q)\<rparr>, OK))"

text \<open>The third component reports the call of the deletion hook.\<close>

definition queue_delete_event :: "64 word \<Rightarrow> int \<Rightarrow> event_queue \<Rightarrow> event_queue \<times> int \<times> (int \<times> eq_event) list" where
  "queue_delete_event ident filt q =
     (if q_closed q then (q, KERNEL_ERROR_EBADF, [])
      else case find (same_event ident filt) (q_events q) of
             None \<Rightarrow> (q, KERNEL_ERROR_ENOENT, [])
           | Some e \<Rightarrow> (q\<lparr>q_events := remove_first_where (same_event ident filt) (q_events q)\<rparr>, OK,
               if ee_delete e \<noteq> NoDelete then [(q_handle q, e)] else []))"

end
