(* ===== verification/EventCalls.thy ===== *)
theory EventCalls
  imports EventQueue "HOL-Library.AList"
begin

text \<open>
  The table of event queues and the kernel calls of src/kernel/eventQueue.cpp on it, and the two places
  that register hooks of their own (src/graphics/host_gpu/renderer/sync.cpp and
  src/graphics/presentation/videoOut.cpp).  The unordered map is an association list; its order is the
  order in which \<open>KernelTriggerUserEventForAll\<close> meets the queues.
\<close>

unbundle bit_operations_syntax

record eq_table =
  t_queues :: "(int \<times> event_queue) list"
  t_next :: nat

definition kernel_pin_equeue :: "int \<Rightarrow> eq_table \<Rightarrow> event_queue option" where
  "kernel_pin_equeue eq t = (if eq = 0 then None else map_of (t_queues t) eq)"

text \<open>The creation stops the program when the handles are used up.\<close>

definition kernel_create_equeue :: "bool \<Rightarrow> string option \<Rightarrow> eq_table \<Rightarrow> (eq_table \<times> (int + int)) option" where
  "kernel_create_equeue eq_null name t =
     (case name of
        None \<Rightarrow> Some (t, Inl KERNEL_ERROR_EINVAL)
      | Some n \<Rightarrow>
          if eq_null then Some (t, Inl KERNEL_ERROR_EINVAL)
          else if t_next t > 9223372036854775807 then None
          else (let h = int (t_next t);
                    q = \<lparr>q_events = [], q_name = n, q_handle = h, q_closed = False\<rparr>
                in Some (t\<lparr>t_next := add64 (t_next t) 1,
                           t_queues := (if map_of (t_queues t) h = None then (h, q) # t_queues t else t_queues t)\<rparr>,
                         Inr h)))"

text \<open>A method of the pinned queue.\<close>

definition on_queue :: "int \<Rightarrow> 'r \<Rightarrow> (event_queue \<Rightarrow> event_queue \<times> 'r) \<Rightarrow> eq_table \<Rightarrow> eq_table \<times> 'r" where
  "on_queue eq missing op t =
     (case kernel_pin_equeue eq t of
        None \<Rightarrow> (t, missing)
      | Some q \<Rightarrow> (case op q of (q', r) \<Rightarrow> (t\<lparr>t_queues := AList.update eq q' (t_queues t)\<rparr>, r)))"

definition kernel_add_event :: "nat \<Rightarrow> int \<Rightarrow> eq_event \<Rightarrow> eq_table \<Rightarrow> eq_table \<times> int" where
  "kernel_add_event now_ns eq e = on_queue eq KERNEL_ERROR_EBADF (queue_add_event now_ns e)"

definition kernel_trigger_event :: "64 word \<Rightarrow> int \<Rightarrow> 64 word \<Rightarrow> int \<Rightarrow> 64 word \<Rightarrow> eq_table \<Rightarrow> eq_table \<times> int" where
  "kernel_trigger_event tsc eq ident filt trigger_data =
     on_queue eq KERNEL_ERROR_EBADF (queue_trigger_event tsc ident filt trigger_data)"

definition kernel_delete_event :: "int \<Rightarrow> 64 word \<Rightarrow> int \<Rightarrow> eq_table \<Rightarrow> eq_table \<times> int \<times> (int \<times> eq_event) list" where
  "kernel_delete_event eq ident filt = on_queue eq (KERNEL_ERROR_EBADF, []) (queue_delete_event ident filt)"

text \<open>The queue deleted is closed; the threads that pinned it keep the closed object.\<close>

definition kernel_delete_equeue :: "int \<Rightarrow> eq_table \<Rightarrow> eq_table \<times> int \<times> (event_queue \<times> (int \<times> eq_event) list) option" where
  "kernel_delete_equeue eq t =
     (case map_of (t_queues t) eq of
        None \<Rightarrow> (t, KERNEL_ERROR_EBADF, None)
      | Some q \<Rightarrow> (t\<lparr>t_queues := AList.delete eq (t_queues t)\<rparr>, OK, Some (queue_close q)))"

datatype eq_call = EqCode int "kernel_event list" | EqBlocks "nat option"

fun wait_call :: "wait_round \<Rightarrow> eq_call" where
  "wait_call (RoundReturn (Inl err)) = EqCode err []"
| "wait_call (RoundReturn (Inr out)) = (if out = [] then EqCode KERNEL_ERROR_ETIMEDOUT [] else EqCode OK out)"
| "wait_call (RoundBlock t) = EqBlocks t"

text \<open>
  \<open>KernelWaitEqueue\<close> up to the first block; a thread that blocks goes on with \<open>wait_for_events\<close> on the
  queue it has pinned.  \<open>None\<close> where the program stops.
\<close>

definition kernel_wait_equeue :: "nat \<Rightarrow> nat \<Rightarrow> int \<Rightarrow> bool \<Rightarrow> int \<Rightarrow> bool \<Rightarrow> nat option \<Rightarrow> eq_table
    \<Rightarrow> (eq_table \<times> eq_call) option" where
  "kernel_wait_equeue now_ns then_ns eq ev_null num out_null timo t =
     (case kernel_pin_equeue eq t of
        None \<Rightarrow> Some (t, EqCode KERNEL_ERROR_EBADF [])
      | Some q \<Rightarrow>
          if ev_null then Some (t, EqCode KERNEL_ERROR_EFAULT [])
          else if num < 1 then Some (t, EqCode KERNEL_ERROR_EINVAL [])
          else if out_null then None
          else map_option (\<lambda>(q', r). (t\<lparr>t_queues := AList.update eq q' (t_queues t)\<rparr>, wait_call r))
                 (case timo of
                    None \<Rightarrow> wait_for_events now_ns then_ns 0 0 num q
                  | Some micros \<Rightarrow>
                      if micros = 0 then map_option (map_prod id RoundReturn) (get_triggered_events now_ns num q)
                      else wait_for_events now_ns then_ns micros 0 num q))"

subsection \<open>The registrations\<close>

definition event_registration :: "64 word \<Rightarrow> int \<Rightarrow> 16 word \<Rightarrow> 64 word \<Rightarrow> eq_event" where
  "event_registration ident filt flags udata =
     \<lparr>ee_triggered = False, ee_deadline = 0, ee_interval = 0,
      ee_event = \<lparr>ev_ident = ident, ev_filter = filt, ev_flags = flags, ev_fflags = 0, ev_data = 0, ev_udata = udata\<rparr>,
      ee_trigger = NoTrigger, ee_reset = NoReset, ee_delete = NoDelete, ee_pending = []\<rparr>"

definition kernel_add_user_event :: "nat \<Rightarrow> int \<Rightarrow> int \<Rightarrow> eq_table \<Rightarrow> eq_table \<times> int" where
  "kernel_add_user_event now_ns eq ident =
     kernel_add_event now_ns eq ((event_registration (word_of_int ident) EVFILT_USER EV_ADD 0)
       \<lparr>ee_trigger := UserEventTrigger, ee_reset := UserEventReset\<rparr>)"

definition kernel_add_user_event_edge :: "nat \<Rightarrow> int \<Rightarrow> int \<Rightarrow> eq_table \<Rightarrow> eq_table \<times> int" where
  "kernel_add_user_event_edge now_ns eq ident =
     kernel_add_event now_ns eq ((event_registration (word_of_int ident) EVFILT_USER (EV_ADD OR EV_CLEAR) 0)
       \<lparr>ee_trigger := UserEventTrigger, ee_reset := UserEventReset\<rparr>)"

definition kernel_trigger_user_event :: "64 word \<Rightarrow> int \<Rightarrow> int \<Rightarrow> 64 word \<Rightarrow> eq_table \<Rightarrow> eq_table \<times> int" where
  "kernel_trigger_user_event tsc eq ident udata = kernel_trigger_event tsc eq (word_of_int ident) EVFILT_USER udata"

definition kernel_trigger_user_event_for_all :: "64 word \<Rightarrow> int \<Rightarrow> 64 word \<Rightarrow> eq_table \<Rightarrow> eq_table \<times> int" where
  "kernel_trigger_user_event_for_all tsc ident udata t =
     (let rs = map (\<lambda>(h, q). (h, queue_trigger_event tsc (word_of_int ident) EVFILT_USER udata q)) (t_queues t);
          triggered = length (filter (\<lambda>(h, q, r). r = OK) rs)
      in (t\<lparr>t_queues := map (\<lambda>(h, q, r). (h, q)) rs\<rparr>, if triggered > 0 then OK else KERNEL_ERROR_ENOENT))"

definition kernel_delete_user_event :: "int \<Rightarrow> int \<Rightarrow> eq_table \<Rightarrow> eq_table \<times> int \<times> (int \<times> eq_event) list" where
  "kernel_delete_user_event eq ident = kernel_delete_event eq (word_of_int ident) EVFILT_USER"

definition add_timer_event :: "nat \<Rightarrow> nat \<Rightarrow> int \<Rightarrow> int \<Rightarrow> nat \<Rightarrow> bool \<Rightarrow> 64 word \<Rightarrow> eq_table \<Rightarrow> eq_table \<times> int" where
  "add_timer_event now_ns then_ns eq ident delay_ns periodic udata =
     kernel_add_event then_ns eq
       ((event_registration (word_of_int ident) (if periodic then EVFILT_TIMER else EVFILT_HRTIMER)
          (EV_ADD OR (if periodic then EV_CLEAR else EV_ONESHOT)) udata)
        \<lparr>ee_deadline := (if delay_ns \<le> U64_MAX - now_ns then now_ns + delay_ns else U64_MAX),
         ee_interval := (if periodic then delay_ns else 0)\<rparr>)"

definition kernel_add_timer_event :: "nat \<Rightarrow> nat \<Rightarrow> int \<Rightarrow> int \<Rightarrow> nat \<Rightarrow> 64 word \<Rightarrow> eq_table \<Rightarrow> eq_table \<times> int" where
  "kernel_add_timer_event now_ns then_ns eq ident usec udata =
     add_timer_event now_ns then_ns eq ident (usec * 1000) True udata"

definition kernel_add_hr_timer_event :: "nat \<Rightarrow> nat \<Rightarrow> int \<Rightarrow> int \<Rightarrow> (int \<times> int) option \<Rightarrow> 64 word
    \<Rightarrow> eq_table \<Rightarrow> eq_table \<times> int" where
  "kernel_add_hr_timer_event now_ns then_ns eq ident ts udata t =
     (case ts of
        None \<Rightarrow> (t, KERNEL_ERROR_EFAULT)
      | Some (tv_sec, tv_nsec) \<Rightarrow>
          if tv_sec < 0 \<or> tv_nsec < 0 \<or> tv_nsec \<ge> 1000000000
             \<or> nat tv_sec > (U64_MAX - nat tv_nsec) div 1000000000
          then (t, KERNEL_ERROR_EINVAL)
          else add_timer_event now_ns then_ns eq ident (nat tv_sec * 1000000000 + nat tv_nsec) False udata t)"

definition kernel_delete_hr_timer_event :: "int \<Rightarrow> int \<Rightarrow> eq_table \<Rightarrow> eq_table \<times> int \<times> (int \<times> eq_event) list" where
  "kernel_delete_hr_timer_event eq ident = kernel_delete_event eq (word_of_int ident) EVFILT_HRTIMER"

definition kernel_add_ampr_event :: "nat \<Rightarrow> int \<Rightarrow> int \<Rightarrow> 64 word \<Rightarrow> eq_table \<Rightarrow> eq_table \<times> int" where
  "kernel_add_ampr_event now_ns eq ident udata t =
     (if eq \<noteq> 0
      then (fst (kernel_add_event now_ns eq
              ((event_registration (word_of_int ident) EVFILT_AMPR (EV_ADD OR EV_CLEAR) udata)
                 \<lparr>ee_trigger := AmprEventTrigger, ee_reset := UserEventReset\<rparr>) t), OK)
      else (t, OK))"

definition kernel_add_ampr_system_event :: "nat \<Rightarrow> int \<Rightarrow> int \<Rightarrow> 64 word \<Rightarrow> eq_table \<Rightarrow> eq_table \<times> int" where
  "kernel_add_ampr_system_event = kernel_add_ampr_event"

definition kernel_delete_ampr_event :: "int \<Rightarrow> int \<Rightarrow> eq_table \<Rightarrow> eq_table \<times> int \<times> (int \<times> eq_event) list" where
  "kernel_delete_ampr_event eq ident t =
     (if eq \<noteq> 0 then (case kernel_delete_event eq (word_of_int ident) EVFILT_AMPR t of (t', _, hooks) \<Rightarrow> (t', OK, hooks))
      else (t, OK, []))"

definition kernel_delete_ampr_system_event :: "int \<Rightarrow> int \<Rightarrow> eq_table \<Rightarrow> eq_table \<times> int \<times> (int \<times> eq_event) list" where
  "kernel_delete_ampr_system_event = kernel_delete_ampr_event"

text \<open>The registration \<open>AddEqEvent\<close> of the renderer makes, and the one of the video output, for a kind of
  event and, where it starts triggered, the output mode.\<close>

definition add_eq_event :: "nat \<Rightarrow> int \<Rightarrow> int \<Rightarrow> 64 word \<Rightarrow> eq_table \<Rightarrow> eq_table \<times> int" where
  "add_eq_event now_ns eq ident udata =
     kernel_add_event now_ns eq
       (let e = event_registration (word_of_int ident) EVFILT_GRAPHICS 0 udata
        in e\<lparr>ee_event := (ee_event e)\<lparr>ev_data := word_of_int ident\<rparr>, ee_trigger := InterruptTrigger,
             ee_reset := InterruptReset\<rparr>)"

definition video_out_registration :: "64 word \<Rightarrow> 64 word \<Rightarrow> 64 word option \<Rightarrow> 64 word \<Rightarrow> eq_event" where
  "video_out_registration tsc kind output_mode udata =
     (let e = event_registration kind EVFILT_VIDEO_OUT 0 udata
      in e\<lparr>ee_triggered := output_mode \<noteq> None,
           ee_event := (ee_event e)\<lparr>ev_fflags := (if output_mode \<noteq> None then 1 else 0),
             ev_data := (case output_mode of None \<Rightarrow> 0 | Some m \<Rightarrow> make_video_out_event_data tsc 0 m)\<rparr>,
           ee_delete := RemoveVideoOutEventQueue, ee_reset := VideoOutReset, ee_trigger := VideoOutTrigger\<rparr>)"

subsection \<open>The fields of an event\<close>

definition kernel_get_event_data :: "kernel_event option \<Rightarrow> 64 word" where
  "kernel_get_event_data ev = (case ev of Some e \<Rightarrow> ev_data e | None \<Rightarrow> 0)"

definition kernel_get_event_fflags :: "kernel_event option \<Rightarrow> 64 word" where
  "kernel_get_event_fflags ev = (case ev of Some e \<Rightarrow> ucast (ev_fflags e) | None \<Rightarrow> 0)"

definition kernel_get_event_filter :: "kernel_event option \<Rightarrow> int" where
  "kernel_get_event_filter ev = (case ev of Some e \<Rightarrow> ev_filter e | None \<Rightarrow> 0)"

definition kernel_get_event_id :: "kernel_event option \<Rightarrow> 64 word" where
  "kernel_get_event_id ev = (case ev of Some e \<Rightarrow> ev_ident e | None \<Rightarrow> 0)"

definition kernel_get_event_user_data :: "kernel_event option \<Rightarrow> 64 word" where
  "kernel_get_event_user_data ev = (case ev of Some e \<Rightarrow> ev_udata e | None \<Rightarrow> 0)"

definition kernel_get_event_error :: "kernel_event option \<Rightarrow> int" where
  "kernel_get_event_error ev =
     (case ev of
        Some e \<Rightarrow> if ev_flags e AND EV_ERROR \<noteq> 0 then sint (ucast (ev_data e) :: 32 word) else 0
      | None \<Rightarrow> 0)"

end
