(* ===== verification/EventQueueFacts.thy ===== *)
theory EventQueueFacts
  imports EventCalls
begin

text \<open>
  The event queue: periodic timers count every period exactly once however late they are looked at,
  a wait delivers the available occurrences in order and loses none, a queue keeps one registration
  per identifier and filter, and the handle of a deleted queue stays invalid.
\<close>

unbundle bit_operations_syntax

subsection \<open>Timers\<close>

lemma expire_periodic:
  assumes "ev_filter (ee_event e) = EVFILT_TIMER" "0 < ee_interval e" "0 < ee_deadline e" "ee_deadline e \<le> now"
    and "now + ee_interval e < two64"
  defines "n \<equiv> 1 + (now - ee_deadline e) div ee_interval e"
  shows "expire_timer now e = e\<lparr>ee_triggered := True, ee_deadline := ee_deadline e + n * ee_interval e,
      ee_event := (ee_event e)\<lparr>ev_data := ev_data (ee_event e) + word_of_nat n\<rparr>\<rparr>"
    and "now < ee_deadline e + n * ee_interval e" and "ee_deadline e + n * ee_interval e \<le> now + ee_interval e"
proof -
  let ?i = "ee_interval e" let ?m = "now - ee_deadline e"
  have dm: "?m div ?i * ?i + ?m mod ?i = ?m" "?m mod ?i < ?i" using assms(2) by simp_all
  have n: "n * ?i = ?i + ?m div ?i * ?i" by (simp add: n_def)
  show a: "now < ee_deadline e + n * ?i" and b: "ee_deadline e + n * ?i \<le> now + ?i"
    using dm n assms(4) by linarith+
  show "expire_timer now e = e\<lparr>ee_triggered := True, ee_deadline := ee_deadline e + n * ?i,
      ee_event := (ee_event e)\<lparr>ev_data := ev_data (ee_event e) + word_of_nat n\<rparr>\<rparr>"
    using assms(1-5) b unfolding expire_timer_def n_def [symmetric] by (simp add: Let_def)
qed

lemma periods_card:
  assumes "0 < (i :: nat)" "d \<le> now"
  shows "card {k. d + k * i \<le> now} = 1 + (now - d) div i"
proof -
  have "{k. d + k * i \<le> now} = {..(now - d) div i}"
    using assms by (auto simp: less_eq_div_iff_mult_less_eq)
  then show ?thesis by simp
qed

lemma expire_compose:
  assumes "t1 \<le> t2" "ee_deadline e < two64" "t2 + ee_interval e < two64"
  shows "expire_timer t2 (expire_timer t1 e) = expire_timer t2 e"
proof (cases "ev_filter (ee_event e) = EVFILT_TIMER \<and> 0 < ee_interval e \<and> 0 < ee_deadline e \<and> ee_deadline e \<le> t1")
  case True
  let ?i = "ee_interval e" and ?d = "ee_deadline e"
  define n where "n = 1 + (t1 - ?d) div ?i"
  define e1 where "e1 = e\<lparr>ee_triggered := True, ee_deadline := ?d + n * ?i,
      ee_event := (ee_event e)\<lparr>ev_data := ev_data (ee_event e) + word_of_nat n\<rparr>\<rparr>"
  have e1: "expire_timer t1 e = e1" and le: "t1 < ?d + n * ?i"
    using expire_periodic [of e t1] True assms by (simp_all add: e1_def n_def)
  define k where "k = 1 + (t2 - ?d) div ?i"
  have e2: "expire_timer t2 e = e\<lparr>ee_triggered := True, ee_deadline := ?d + k * ?i,
      ee_event := (ee_event e)\<lparr>ev_data := ev_data (ee_event e) + word_of_nat k\<rparr>\<rparr>"
    using expire_periodic(1) [of e t2] True assms by (simp add: k_def)
  show ?thesis
  proof (cases "?d + n * ?i \<le> t2")
    case later: True
    have "t2 - ?d = (t2 - (?d + n * ?i)) + n * ?i" using later by simp
    then have "(t2 - ?d) div ?i = (t2 - (?d + n * ?i)) div ?i + n" using True by simp
    then have k: "k = n + (1 + (t2 - (?d + n * ?i)) div ?i)" by (simp add: k_def)
    have "expire_timer t2 e1 = e1\<lparr>ee_triggered := True,
        ee_deadline := ?d + n * ?i + (1 + (t2 - (?d + n * ?i)) div ?i) * ?i,
        ee_event := (ee_event e1)\<lparr>ev_data := ev_data (ee_event e1) + word_of_nat (1 + (t2 - (?d + n * ?i)) div ?i)\<rparr>\<rparr>"
      using expire_periodic(1) [of e1 t2] True assms later by (simp add: e1_def)
    then show ?thesis unfolding e1 e2 k by (simp add: e1_def algebra_simps)
  next
    case False
    have "(t1 - ?d) div ?i = (t2 - ?d) div ?i"
    proof (rule antisym)
      show "(t1 - ?d) div ?i \<le> (t2 - ?d) div ?i" using assms(1) by (simp add: div_le_mono)
      have "t2 - ?d < n * ?i" using False True assms(1) by linarith
      then have "(t2 - ?d) div ?i < n" using True by (simp add: div_less_iff_less_mult)
      then show "(t2 - ?d) div ?i \<le> (t1 - ?d) div ?i" by (simp add: n_def)
    qed
    then have "k = n" by (simp add: k_def n_def)
    moreover have "expire_timer t2 e1 = e1" using False by (simp add: expire_timer_def e1_def)
    ultimately show ?thesis unfolding e1 e2 by (simp add: e1_def)
  qed
next
  case other: False
  show ?thesis
  proof (cases "ee_deadline e \<noteq> 0 \<and> ee_deadline e \<le> t1")
    case False
    then have "expire_timer t1 e = e" by (simp only: expire_timer_def if_False)
    then show ?thesis by simp
  next
    case True
    then have late: "ee_deadline e \<noteq> 0" "ee_deadline e \<le> t2" using assms(1) by simp_all
    show ?thesis
    proof (cases "ev_filter (ee_event e) = EVFILT_TIMER")
      case False
      then show ?thesis using True late by (simp add: expire_timer_def Let_def)
    next
      case timer: True
      then have "ee_interval e = 0" using True other by simp
      then show ?thesis using True late timer assms(2) by (simp add: expire_timer_def Let_def)
    qed
  qed
qed

subsection \<open>Delivery\<close>

text \<open>The occurrences a registration holds for delivery; after a one-shot event nothing follows.\<close>

fun upto_oneshot :: "kernel_event list \<Rightarrow> kernel_event list" where
  "upto_oneshot [] = []"
| "upto_oneshot (x # xs) = (if is_oneshot x then [x] else x # upto_oneshot xs)"

definition available :: "eq_event \<Rightarrow> kernel_event list" where
  "available e = (if ee_triggered e then upto_oneshot (ee_event e # ee_pending e) else [])"

text \<open>The registrations that a delivery uses up: all but the level-triggered user events.\<close>

definition consumed :: "eq_event \<Rightarrow> bool" where
  "consumed e \<longleftrightarrow> ee_reset e \<in> {VideoOutReset, InterruptReset}
     \<or> (\<forall>ev \<in> set (ee_event e # ee_pending e). is_clear ev \<or> is_oneshot ev)"

lemma run_reset_fields [simp]:
  "ee_pending (run_reset r e) = ee_pending e" "ee_reset (run_reset r e) = ee_reset e"
  "ev_ident (ee_event (run_reset r e)) = ev_ident (ee_event e)" "ev_filter (ee_event (run_reset r e)) = ev_filter (ee_event e)"
  by (cases r; simp add: user_event_reset_def clear_event_def)+

text \<open>
  The reset after a delivery leaves a level-triggered occurrence triggered, so that the next wait delivers it
  again; of a registration, that can only be its last occurrence.
\<close>

definition keeps :: "eq_event \<Rightarrow> kernel_event \<Rightarrow> bool" where
  "keeps e ev \<longleftrightarrow> ee_reset e \<in> {NoReset, UserEventReset} \<and> \<not> is_clear ev \<and> \<not> is_oneshot ev"

definition redelivered :: "eq_event \<Rightarrow> kernel_event list" where
  "redelivered e = (if available e \<noteq> [] \<and> keeps e (last (available e)) then [last (available e)] else [])"

lemma upto_oneshot_set: "set (upto_oneshot xs) \<subseteq> set xs"
  by (induction xs) auto

lemma redelivered_consumed: "consumed e \<Longrightarrow> redelivered e = []"
proof (rule ccontr)
  assume c: "consumed e" and "redelivered e \<noteq> []"
  then have k: "available e \<noteq> []" "keeps e (last (available e))" by (auto simp: redelivered_def split: if_splits)
  have "set (available e) \<subseteq> set (ee_event e # ee_pending e)"
    using upto_oneshot_set [of "ee_event e # ee_pending e"] unfolding available_def by (auto simp del: upto_oneshot.simps)
  then have "last (available e) \<in> set (ee_event e # ee_pending e)" using last_in_set [OF k(1)] by blast
  then show False using c k(2) by (auto simp: consumed_def keeps_def)
qed

lemma clear_event_flags [simp]: "is_clear ((ee_event e)\<lparr>ev_fflags := a, ev_data := b\<rparr>) = is_clear (ee_event e)"
  "is_oneshot ((ee_event e)\<lparr>ev_fflags := a, ev_data := b\<rparr>) = is_oneshot (ee_event e)"
  by (simp_all add: is_clear_def is_oneshot_def)

lemma expire_consumed: "consumed e \<Longrightarrow> consumed (expire_timer now e)"
  by (auto simp: consumed_def expire_timer_def is_clear_def is_oneshot_def Let_def)

text \<open>What is available of a list of registrations after so many occurrences are delivered.\<close>

fun left_over :: "nat \<Rightarrow> eq_event list \<Rightarrow> kernel_event list" where
  "left_over room [] = []"
| "left_over room (e # es) =
     (if room < length (available e) then drop room (available e) @ concat (map available es)
      else redelivered e @ left_over (room - length (available e)) es)"

lemma left_over_none [simp]: "left_over 0 es = concat (map available es)"
  by (induction es) (auto simp: redelivered_def)

lemma left_over_consumed:
  "\<forall>e \<in> set es. consumed e \<Longrightarrow> left_over room es = drop room (concat (map available es))"
  by (induction es arbitrary: room) (auto simp: redelivered_consumed)

lemma reset_single:
  assumes "ee_triggered e" "\<not> is_oneshot (ee_event e)" "ee_pending e = []"
  shows "available (run_reset (ee_reset e) e) = redelivered e"
  using assms by (cases "ee_reset e")
    (auto simp: available_def redelivered_def keeps_def user_event_reset_def clear_event_def is_clear_def)

lemma deliver_event_available:
  "\<lbrakk>deliver_event room e = (out, e', erase); 0 < room\<rbrakk>
   \<Longrightarrow> out = take room (available e)
     \<and> (if erase then [] else available e')
        = (if room < length (available e) then drop room (available e) else redelivered e)"
proof (induction room e arbitrary: out e' erase rule: deliver_event.induct)
  case (1 room e)
  show ?case
  proof (cases "ee_triggered e \<and> \<not> is_oneshot (ee_event e)")
    case False
    then show ?thesis using "1.prems"
      by (auto simp: deliver_event.simps [of room e] available_def redelivered_def keeps_def split: if_splits)
  next
    case t: True
    show ?thesis
    proof (cases "ee_pending e")
      case Nil
      then have av: "available e = [ee_event e]" using t by (simp add: available_def)
      have "out = [ee_event e]" "e' = run_reset (ee_reset e) e" "\<not> erase"
        using "1.prems"(1) t Nil by (auto simp: deliver_event.simps [of room e])
      then show ?thesis using "1.prems"(2) t Nil reset_single [of e] by (simp add: av)
    next
      case (Cons p ps)
      define e1 where "e1 = (run_reset (ee_reset e) e)\<lparr>ee_event := p, ee_pending := ps, ee_triggered := True\<rparr>"
      have av: "available e = ee_event e # available e1" "available e1 \<noteq> []"
        using t Cons by (simp_all add: available_def e1_def)
      have re: "redelivered e = redelivered e1" using av by (simp add: redelivered_def keeps_def) (simp add: e1_def)
      show ?thesis
      proof (cases "room \<le> 1")
        case True
        then have "out = [ee_event e]" "e' = e1" "\<not> erase" "room = 1"
          using "1.prems" t Cons by (auto simp: deliver_event.simps [of room e] e1_def [symmetric])
        then show ?thesis using av by simp
      next
        case False
        obtain out1 r where d: "deliver_event (room - 1) e1 = (out1, r)" by (meson surj_pair)
        then have o: "out = ee_event e # out1" "r = (e', erase)"
          using "1.prems"(1) t Cons False by (auto simp: deliver_event.simps [of room e] e1_def [symmetric] Let_def)
        have r: "room = Suc (room - 1)" using False by simp
        have "out1 = take (room - 1) (available e1)
          \<and> (if erase then [] else available e')
            = (if room - 1 < length (available e1) then drop (room - 1) (available e1) else redelivered e1)"
          using "1.IH" [OF _ _ Cons e1_def False] t d o False by simp
        then show ?thesis unfolding o(1) av(1) re by (subst (1 2 3) r) simp
      qed
    qed
  qed
qed

lemma deliver_events_available:
  "\<lbrakk>deliver_events room es = (out, es'); 0 < room\<rbrakk>
   \<Longrightarrow> out = take room (concat (map available es)) \<and> concat (map available es') = left_over room es"
proof (induction es arbitrary: room out es')
  case Nil
  then show ?case by simp
next
  case (Cons e es)
  obtain o1 e1 er where d: "deliver_event room e = (o1, e1, er)" by (metis prod_cases3)
  note h = deliver_event_available [OF d Cons.prems(2)]
  have c: "concat (map available (if er then [] else [e1])) = (if er then [] else available e1)" by simp
  show ?case
  proof (cases "room \<le> length o1")
    case True
    then have o: "out = o1" "es' = (if er then [] else [e1]) @ es" using Cons.prems(1) d by (auto simp: Let_def)
    have "room \<le> length (available e)" using True h by simp
    have "concat (map available es') = (if room < length (available e) then drop room (available e) else redelivered e)
        @ concat (map available es)"
      unfolding o(2) map_append concat_append c using h by simp
    moreover have "room - length (available e) = 0" if "\<not> room < length (available e)"
      using \<open>room \<le> length (available e)\<close> that by simp
    ultimately show ?thesis using h \<open>room \<le> length (available e)\<close> by (simp add: o(1))
  next
    case False
    obtain o2 es2 where d2: "deliver_events (room - length o1) es = (o2, es2)" by force
    have len: "o1 = available e" "length (available e) < room" using h False by auto
    have ih: "o2 = take (room - length o1) (concat (map available es)) \<and> concat (map available es2) = left_over (room - length o1) es"
      using Cons.IH [OF d2] False by simp
    have o: "out = o1 @ o2" "es' = (if er then [] else [e1]) @ es2"
      using Cons.prems(1) False by (auto simp: d d2 Let_def)
    have "concat (map available es') = redelivered e @ left_over (room - length (available e)) es"
      unfolding o(2) map_append concat_append c using h ih len by auto
    then show ?thesis using ih len by (simp add: o(1))
  qed
qed

subsection \<open>One registration for each event\<close>

definition event_key :: "eq_event \<Rightarrow> 64 word \<times> int" where
  "event_key e = (ev_ident (ee_event e), ev_filter (ee_event e))"

text \<open>A registration's pending occurrences are its own, and wait only behind a triggered one.\<close>

definition event_ok :: "eq_event \<Rightarrow> bool" where
  "event_ok e \<longleftrightarrow> (\<forall>p \<in> set (ee_pending e). (ev_ident p, ev_filter p) = event_key e)
     \<and> (ee_pending e \<noteq> [] \<longrightarrow> ee_triggered e)"

definition queue_ok :: "event_queue \<Rightarrow> bool" where
  "queue_ok q \<longleftrightarrow> distinct (map event_key (q_events q)) \<and> (\<forall>e \<in> set (q_events q). event_ok e)
     \<and> (q_closed q \<longrightarrow> q_events q = [])"

lemma same_event_key: "same_event i f e \<longleftrightarrow> event_key e = (i, f)"
  by (auto simp: same_event_def event_key_def)

lemma expire_key [simp]: "event_key (expire_timer now e) = event_key e"
  by (simp add: expire_timer_def event_key_def Let_def)

lemma expire_ok [simp]: "event_ok e \<Longrightarrow> event_ok (expire_timer now e)"
  by (auto simp: event_ok_def expire_timer_def event_key_def Let_def)

lemma trigger_key [simp]: "event_key (run_trigger tsc f d e) = event_key e"
  by (cases f) (simp_all add: event_key_def user_event_trigger_def ampr_event_trigger_def trigger_video_out_event_def
      interrupt_event_trigger_def raise_or_queue_def)

lemma trigger_ok [simp]: "event_ok e \<Longrightarrow> event_ok (run_trigger tsc f d e)"
  by (cases f) (auto simp: event_ok_def event_key_def user_event_trigger_def ampr_event_trigger_def
      trigger_video_out_event_def interrupt_event_trigger_def raise_or_queue_def)

lemma deliver_event_ok:
  "\<lbrakk>deliver_event room e = (out, e', erase); event_ok e\<rbrakk> \<Longrightarrow> event_key e' = event_key e \<and> event_ok e'"
proof (induction room e arbitrary: out e' erase rule: deliver_event.induct)
  case (1 room e)
  show ?case
  proof (cases "ee_triggered e \<and> \<not> is_oneshot (ee_event e)")
    case False
    then show ?thesis using "1.prems" by (auto simp: deliver_event.simps [of room e] split: if_splits)
  next
    case t: True
    show ?thesis
    proof (cases "ee_pending e")
      case Nil
      then show ?thesis using "1.prems" t by (auto simp: deliver_event.simps [of room e] event_ok_def event_key_def)
    next
      case (Cons p ps)
      define e1 where "e1 = (run_reset (ee_reset e) e)\<lparr>ee_event := p, ee_pending := ps, ee_triggered := True\<rparr>"
      have k: "event_key e1 = event_key e" "event_ok e1"
        using "1.prems"(2) Cons by (auto simp: event_ok_def event_key_def e1_def)
      show ?thesis
      proof (cases "room \<le> 1")
        case True
        then show ?thesis using "1.prems" t Cons k by (auto simp: deliver_event.simps [of room e] e1_def [symmetric])
      next
        case False
        obtain out1 r where d: "deliver_event (room - 1) e1 = (out1, r)" by (meson surj_pair)
        then have "r = (e', erase)"
          using "1.prems"(1) t Cons False by (auto simp: deliver_event.simps [of room e] e1_def [symmetric] Let_def)
        then show ?thesis using "1.IH" [OF _ _ Cons e1_def False] t d k by simp
      qed
    qed
  qed
qed

lemma deliver_events_ok:
  "\<lbrakk>deliver_events room es = (out, es'); \<forall>e \<in> set es. event_ok e; distinct (map event_key es)\<rbrakk>
   \<Longrightarrow> distinct (map event_key es') \<and> (\<forall>e \<in> set es'. event_ok e) \<and> event_key ` set es' \<subseteq> event_key ` set es"
proof (induction es arbitrary: room out es')
  case Nil
  then show ?case by simp
next
  case (Cons e es)
  obtain o1 e1 er where d: "deliver_event room e = (o1, e1, er)" by (metis prod_cases3)
  have k: "event_key e1 = event_key e" "event_ok e1" using deliver_event_ok [OF d] Cons.prems(2) by simp_all
  show ?case
  proof (cases "room \<le> length o1")
    case True
    then show ?thesis using Cons.prems k d by (cases er) (auto simp: Let_def)
  next
    case False
    obtain o2 es2 where d2: "deliver_events (room - length o1) es = (o2, es2)" by force
    have "es' = (if er then [] else [e1]) @ es2" using Cons.prems(1) False by (auto simp: d d2 Let_def)
    then show ?thesis using Cons.IH [OF d2] Cons.prems(2,3) k by (cases er) auto
  qed
qed

lemma get_triggered_ok:
  assumes "get_triggered_events now num q = Some (q', r)" and "queue_ok q"
  shows "queue_ok q'"
proof (cases "q_closed q")
  case True
  then show ?thesis using assms by (auto simp: get_triggered_events_def split: if_splits)
next
  case False
  obtain out es where d: "deliver_events (nat num) (map (expire_timer now) (q_events q)) = (out, es)" by force
  have "q' = (trigger_expired_timers now q)\<lparr>q_events := es\<rparr>"
    using assms(1) False d by (auto simp: get_triggered_events_def trigger_expired_timers_def Let_def split: if_splits)
  then show ?thesis using deliver_events_ok [OF d] assms(2) False
    by (auto simp: queue_ok_def trigger_expired_timers_def comp_def)
qed

lemma wait_for_events_ok:
  assumes "wait_for_events now t m e num q = Some (q', r)" and "queue_ok q"
  shows "queue_ok q'"
proof -
  obtain q1 r1 where g: "get_triggered_events now num q = Some (q1, r1)"
    using assms(1) by (auto simp: wait_for_events_def split: option.splits)
  have "q' = q1"
    using assms(1) by (cases r1) (auto simp: wait_for_events_def g Let_def split: if_splits)
  then show ?thesis using get_triggered_ok [OF g assms(2)] by simp
qed

lemma queue_trigger_ok:
  assumes "queue_ok q" shows "queue_ok (fst (queue_trigger_event tsc i f d q))"
proof (cases "q_closed q \<or> find (same_event i f) (q_events q) = None")
  case True
  then show ?thesis using assms by (auto simp: queue_trigger_event_def)
next
  case False
  let ?u = "\<lambda>e. run_trigger tsc (ee_trigger e) d e"
  have "fst (queue_trigger_event tsc i f d q) = q\<lparr>q_events := update_first (same_event i f) ?u (q_events q)\<rparr>"
    using False by (auto simp: queue_trigger_event_def)
  moreover have "map event_key (update_first (same_event i f) ?u (q_events q)) = map event_key (q_events q)"
    by (rule update_first_map) simp
  moreover have "\<forall>e \<in> set (update_first (same_event i f) ?u (q_events q)). event_ok e"
    by (rule update_first_all) (use assms in \<open>simp_all add: queue_ok_def\<close>)
  ultimately show ?thesis using assms False by (simp add: queue_ok_def)
qed

lemma queue_delete_ok:
  assumes "queue_ok q" shows "queue_ok (fst (queue_delete_event i f q))"
proof (cases "q_closed q \<or> find (same_event i f) (q_events q) = None")
  case True
  then show ?thesis using assms by (auto simp: queue_delete_event_def)
next
  case False
  then have "fst (queue_delete_event i f q) = q\<lparr>q_events := remove_first_where (same_event i f) (q_events q)\<rparr>"
    by (auto simp: queue_delete_event_def)
  then show ?thesis
    using assms False remove_first_set [of "same_event i f" "q_events q"]
      remove_first_distinct [of event_key "q_events q" "same_event i f"] by (simp add: queue_ok_def subset_iff)
qed

lemma queue_add_ok:
  assumes "queue_ok q" "event_ok e"
  shows "queue_ok (fst (queue_add_event now e q))"
proof -
  let ?s = "same_event (ev_ident (ee_event e)) (ev_filter (ee_event e))"
  let ?u = "\<lambda>x. x\<lparr>ee_deadline := ee_deadline e, ee_interval := ee_interval e,
      ee_event := (ee_event x)\<lparr>ev_udata := ev_udata (ee_event e)\<rparr>,
      ee_pending := map (\<lambda>p. p\<lparr>ev_udata := ev_udata (ee_event e)\<rparr>) (ee_pending x)\<rparr>"
  let ?es = "map (expire_timer now) (q_events q)"
  have u: "event_key (?u x) = event_key x" "event_ok x \<Longrightarrow> event_ok (?u x)" for x
    by (auto simp: event_key_def event_ok_def)
  have 1: "map event_key (update_first ?s ?u ?es) = map event_key (q_events q)"
    using update_first_map [of ?s event_key ?u ?es] u by (simp add: comp_def)
  have 2: "\<forall>x \<in> set (update_first ?s ?u ?es). event_ok x"
    by (rule update_first_all) (use assms u in \<open>auto simp: queue_ok_def\<close>)
  have 3: "event_key e \<notin> event_key ` set (q_events q)" if "find ?s (q_events q) = None"
    using that by (auto simp: find_None_iff same_event_def event_key_def)
  show ?thesis
  proof (cases "q_closed q")
    case True
    then show ?thesis using assms by (simp add: queue_add_event_def)
  next
    case open_queue: False
    show ?thesis
    proof (cases "find ?s (q_events q) = None")
      case True
      then have "queue_add_event now e q = (q\<lparr>q_events := q_events q @ [e]\<rparr>, OK)"
        using open_queue by (simp add: queue_add_event_def)
      then show ?thesis using assms 3 [OF True] open_queue by (simp add: queue_ok_def)
    next
      case False
      then have "queue_add_event now e q = (q\<lparr>q_events := update_first ?s ?u ?es\<rparr>, OK)"
        using open_queue by (simp add: queue_add_event_def)
      then show ?thesis using assms 1 2 open_queue by (simp add: queue_ok_def)
    qed
  qed
qed

end
