(* ===== verification/EventQueueTheorems.thy ===== *)
theory EventQueueTheorems
  imports EventQueueFacts
begin

text \<open>
  The properties of the event queues: timers, delivery, the well-formedness of a queue, and handles.
\<close>

unbundle bit_operations_syntax

text \<open>The states of a queue under its methods; a registration arrives with nothing pending.\<close>

inductive eq_reach :: "event_queue \<Rightarrow> bool" where
  new: "eq_reach \<lparr>q_events = [], q_name = n, q_handle = h, q_closed = False\<rparr>"
| add: "\<lbrakk>eq_reach q; ee_pending e = []\<rbrakk> \<Longrightarrow> eq_reach (fst (queue_add_event now e q))"
| trigger: "eq_reach q \<Longrightarrow> eq_reach (fst (queue_trigger_event tsc i f d q))"
| delete: "eq_reach q \<Longrightarrow> eq_reach (fst (queue_delete_event i f q))"
| get: "\<lbrakk>eq_reach q; get_triggered_events now num q = Some (q', r)\<rbrakk> \<Longrightarrow> eq_reach q'"
| wait: "\<lbrakk>eq_reach q; wait_for_events now t m el num q = Some (q', w)\<rbrakk> \<Longrightarrow> eq_reach q'"
| close: "eq_reach q \<Longrightarrow> eq_reach (fst (queue_close q))"

lemma eq_reach_ok: "eq_reach q \<Longrightarrow> queue_ok q"
proof (induction rule: eq_reach.induct)
  case (add q e now)
  then show ?case using queue_add_ok [of q e now] by (simp add: event_ok_def)
next
  case (close q)
  then show ?case by (simp add: queue_close_def queue_ok_def)
qed (simp_all add: queue_trigger_ok queue_delete_ok get_triggered_ok wait_for_events_ok, simp add: queue_ok_def)

text \<open>
  C27. Timers do not drift: looking at the clock twice is looking at the later time, and at any time a
  periodic timer whose first deadline has passed has counted exactly the periods that ended, and its
  next deadline is the first one still to come.
\<close>

theorem timers_exact:
  assumes "t1 \<le> t2" and "\<forall>e \<in> set (q_events q). ee_deadline e < two64 \<and> t2 + ee_interval e < two64"
  shows "trigger_expired_timers t2 (trigger_expired_timers t1 q) = trigger_expired_timers t2 q
    \<and> (\<forall>e \<in> set (q_events q). ev_filter (ee_event e) = EVFILT_TIMER \<and> 0 < ee_interval e \<and> 0 < ee_deadline e \<and> ee_deadline e \<le> t2
      \<longrightarrow> (let n = card {k. ee_deadline e + k * ee_interval e \<le> t2}; e' = expire_timer t2 e
           in ee_triggered e' \<and> ev_data (ee_event e') = ev_data (ee_event e) + word_of_nat n
              \<and> ee_deadline e' = ee_deadline e + n * ee_interval e
              \<and> t2 < ee_deadline e' \<and> ee_deadline e' \<le> t2 + ee_interval e))"
proof (intro conjI ballI impI)
  have "map (expire_timer t2 \<circ> expire_timer t1) (q_events q) = map (expire_timer t2) (q_events q)"
    using assms by (simp add: expire_compose)
  then show "trigger_expired_timers t2 (trigger_expired_timers t1 q) = trigger_expired_timers t2 q"
    by (simp add: trigger_expired_timers_def)
next
  fix e assume e: "e \<in> set (q_events q)" and h: "ev_filter (ee_event e) = EVFILT_TIMER \<and> 0 < ee_interval e
    \<and> 0 < ee_deadline e \<and> ee_deadline e \<le> t2"
  have b: "t2 + ee_interval e < two64" using assms(2) e by blast
  note p = expire_periodic [of e t2, OF _ _ _ _ b]
  have n: "card {k. ee_deadline e + k * ee_interval e \<le> t2} = 1 + (t2 - ee_deadline e) div ee_interval e"
    by (rule periods_card) (use h in simp_all)
  show "let n = card {k. ee_deadline e + k * ee_interval e \<le> t2}; e' = expire_timer t2 e
    in ee_triggered e' \<and> ev_data (ee_event e') = ev_data (ee_event e) + word_of_nat n
       \<and> ee_deadline e' = ee_deadline e + n * ee_interval e
       \<and> t2 < ee_deadline e' \<and> ee_deadline e' \<le> t2 + ee_interval e"
    unfolding n Let_def using p h by simp
qed

definition example_timer :: eq_event where
  "example_timer = (event_registration 5 EVFILT_TIMER 0x21 0)\<lparr>ee_deadline := 1000, ee_interval := 1000\<rparr>"

definition example_queue :: event_queue where
  "example_queue = \<lparr>q_events = [example_timer], q_name = ''vsync'', q_handle = 1, q_closed = False\<rparr>"

theorem timers_exact_witness:
  "trigger_expired_timers 4500 (trigger_expired_timers 2000 example_queue) = trigger_expired_timers 4500 example_queue"
  using timers_exact [of 2000 4500 example_queue]
  by (simp add: example_queue_def example_timer_def event_registration_def)

text \<open>
  C28. A wait delivers the occurrences that are available once the timers were looked at, in order, as many as
  fit, and loses none: the ones behind stay available.  Of a registration it has emptied nothing stays, unless
  its last occurrence is level-triggered: that one stays for the next wait.  So where every registration is
  edge-triggered or one-shot, the occurrences delivered followed by those still available are all that were.
\<close>

theorem delivery_complete:
  assumes "get_triggered_events now num q = Some (q', Inr out)"
  shows "let es = q_events (trigger_expired_timers now q); pool = concat (map available es);
      rest = concat (map available (q_events q'))
    in out = take (nat num) pool \<and> rest = left_over (nat num) es
      \<and> ((\<forall>e \<in> set (q_events q). consumed e) \<longrightarrow> out @ rest = pool)"
proof -
  let ?es = "q_events (trigger_expired_timers now q)"
  obtain o1 es where d: "deliver_events (nat num) ?es = (o1, es)" by force
  have o: "out = o1" "q_events q' = es" "0 < nat num"
    using assms d by (auto simp: get_triggered_events_def Let_def split: if_splits)
  have "\<forall>e \<in> set ?es. consumed e" if "\<forall>e \<in> set (q_events q). consumed e"
    using that by (auto simp: trigger_expired_timers_def expire_consumed)
  then show ?thesis using deliver_events_available [OF d o(3)] left_over_consumed [of ?es "nat num"]
    by (simp add: Let_def o(1,2))
qed

text \<open>A level-triggered user event that has happened: a wait delivers it, and so does the next.\<close>

definition example_user_event :: eq_event where
  "example_user_event = (event_registration 7 EVFILT_USER 1 0)\<lparr>ee_triggered := True, ee_trigger := UserEventTrigger,
     ee_reset := UserEventReset\<rparr>"

lemma example_user_available: "available example_user_event = [ee_event example_user_event]"
  "redelivered example_user_event = [ee_event example_user_event]" "ee_deadline example_user_event = 0"
  by (simp_all add: example_user_event_def event_registration_def available_def redelivered_def keeps_def
      is_clear_def is_oneshot_def)

theorem delivery_complete_witness:
  "\<exists>q' out. get_triggered_events 4500 8 (example_queue\<lparr>q_events := [example_timer, example_user_event]\<rparr>) = Some (q', Inr out)
     \<and> length out = 2 \<and> concat (map available (q_events q')) = [ee_event example_user_event]"
proof -
  let ?q = "example_queue\<lparr>q_events := [example_timer, example_user_event]\<rparr>"
  have u: "expire_timer 4500 example_user_event = example_user_event"
    by (simp add: expire_timer_def example_user_available)
  obtain out es where "deliver_events 8 (q_events (trigger_expired_timers 4500 ?q)) = (out, es)"
    by (meson surj_pair)
  then obtain q' where g: "get_triggered_events 4500 8 ?q = Some (q', Inr out)"
    by (simp add: get_triggered_events_def example_queue_def Let_def)
  define e where "e = expire_timer 4500 example_timer"
  have e: "length (available e) = 1" "redelivered e = []"
    by (simp_all add: e_def expire_timer_def example_timer_def event_registration_def available_def redelivered_def
        keeps_def is_clear_def Let_def)
  have es: "q_events (trigger_expired_timers 4500 ?q) = [e, example_user_event]"
    by (simp add: trigger_expired_timers_def u e_def)
  show ?thesis using delivery_complete [OF g] g e by (simp add: es Let_def example_user_available)
qed

text \<open>
  C29. A queue is well formed in every reachable state: no two registrations share identifier and filter,
  the occurrences that wait are of their registration's event and wait only behind a triggered one, and
  a closed queue is empty.
\<close>

theorem eq_reach_well_formed:
  assumes "eq_reach q"
  shows "distinct (map event_key (q_events q)) \<and> (q_closed q \<longrightarrow> q_events q = [])
    \<and> (\<forall>e \<in> set (q_events q). (ee_pending e \<noteq> [] \<longrightarrow> ee_triggered e)
         \<and> (\<forall>p \<in> set (ee_pending e). (ev_ident p, ev_filter p) = event_key e))"
  using eq_reach_ok [OF assms] by (simp add: queue_ok_def event_ok_def)

lemma example_queue_reach: "eq_reach example_queue"
  using eq_reach.add [OF eq_reach.new [of "''vsync''" 1], of example_timer 0]
  by (simp add: queue_add_event_def example_queue_def example_timer_def event_registration_def)

theorem eq_reach_well_formed_witness: "eq_reach example_queue \<and> distinct (map event_key (q_events example_queue))"
  using eq_reach_well_formed [OF example_queue_reach] example_queue_reach by simp

subsection \<open>The table\<close>

inductive eqt_step :: "eq_table \<Rightarrow> eq_table \<Rightarrow> bool" where
  create: "kernel_create_equeue en name t = Some (t', r) \<Longrightarrow> eqt_step t t'"
| add: "ee_pending e = [] \<Longrightarrow> eqt_step t (fst (kernel_add_event now eq e t))"
| trigger: "eqt_step t (fst (kernel_trigger_event tsc eq i f d t))"
| trigger_all: "eqt_step t (fst (kernel_trigger_user_event_for_all tsc i d t))"
| delete: "eqt_step t (fst (kernel_delete_event eq i f t))"
| delete_queue: "eqt_step t (fst (kernel_delete_equeue eq t))"
| wait: "kernel_wait_equeue now th eq en num on timo t = Some (t', r) \<Longrightarrow> eqt_step t t'"

inductive eqt_reach :: "eq_table \<Rightarrow> bool" where
  empty: "eqt_reach \<lparr>t_queues = [], t_next = 1\<rparr>"
| step: "\<lbrakk>eqt_reach t; eqt_step t t'\<rbrakk> \<Longrightarrow> eqt_reach t'"

definition entry_ok :: "int \<Rightarrow> event_queue \<Rightarrow> bool" where
  "entry_ok h q \<longleftrightarrow> q_handle q = h \<and> \<not> q_closed q \<and> eq_reach q"

definition table_ok :: "eq_table \<Rightarrow> bool" where
  "table_ok t \<longleftrightarrow> 1 \<le> t_next t \<and> distinct (map fst (t_queues t))
     \<and> (\<forall>h q. map_of (t_queues t) h = Some q \<longrightarrow> 0 < h \<and> h < int (t_next t) \<and> entry_ok h q)"

lemma table_entry: "\<lbrakk>table_ok t; map_of (t_queues t) h = Some q\<rbrakk> \<Longrightarrow> 0 < h \<and> h < int (t_next t) \<and> entry_ok h q"
  by (simp add: table_ok_def)

text \<open>What a step does to the set of handles: only a creation adds one, and a new one.\<close>

definition handles :: "eq_table \<Rightarrow> int set" where
  "handles t = fst ` set (t_queues t)"

lemma handles_map_of: "h \<in> handles t \<longleftrightarrow> map_of (t_queues t) h \<noteq> None"
  by (simp add: handles_def map_of_eq_None_iff)

lemma on_queue_ok:
  assumes "table_ok t" and "\<And>q. entry_ok eq q \<Longrightarrow> entry_ok eq (fst (op q))"
  shows "table_ok (fst (on_queue eq m op t)) \<and> handles (fst (on_queue eq m op t)) = handles t
    \<and> t_next (fst (on_queue eq m op t)) = t_next t"
proof (cases "kernel_pin_equeue eq t")
  case None
  then show ?thesis using assms by (simp add: on_queue_def)
next
  case (Some q)
  then have q: "map_of (t_queues t) eq = Some q" by (simp add: kernel_pin_equeue_def split: if_splits)
  then have e: "entry_ok eq (fst (op q))" using assms by (simp add: table_ok_def)
  have t: "fst (on_queue eq m op t) = t\<lparr>t_queues := AList.update eq (fst (op q)) (t_queues t)\<rparr>"
    using Some by (simp add: on_queue_def split: prod.splits)
  have "eq \<in> fst ` set (t_queues t)" using q by (metis handles_def handles_map_of option.distinct(1))
  then have h: "handles (fst (on_queue eq m op t)) = handles t"
    by (simp add: t handles_def dom_update insert_absorb)
  show ?thesis
    using assms(1) e q h by (simp add: t table_ok_def update_conv' distinct_update)
qed

lemma entry_add: "\<lbrakk>entry_ok h q; ee_pending e = []\<rbrakk> \<Longrightarrow> entry_ok h (fst (queue_add_event now e q))"
  using eq_reach.add [of q e now] by (auto simp: entry_ok_def queue_add_event_def Let_def)

lemma entry_trigger: "entry_ok h q \<Longrightarrow> entry_ok h (fst (queue_trigger_event tsc i f d q))"
  using eq_reach.trigger [of q tsc i f d] by (auto simp: entry_ok_def queue_trigger_event_def)

lemma entry_delete: "entry_ok h q \<Longrightarrow> entry_ok h (fst (queue_delete_event i f q))"
  using eq_reach.delete [of q i f] by (auto simp: entry_ok_def queue_delete_event_def split: option.splits)

lemma get_triggered_frame:
  "get_triggered_events now num q = Some (q', r) \<Longrightarrow> q_handle q' = q_handle q \<and> q_closed q' = q_closed q"
  by (auto simp: get_triggered_events_def trigger_expired_timers_def Let_def split: if_splits prod.splits)

lemma entry_get: "\<lbrakk>entry_ok h q; get_triggered_events now num q = Some (q', r)\<rbrakk> \<Longrightarrow> entry_ok h q'"
  using get_triggered_frame [of now num q q' r] eq_reach.get by (auto simp: entry_ok_def)

lemma entry_wait:
  assumes "entry_ok h q" "wait_for_events now t m el num q = Some (q', r)"
  shows "entry_ok h q'"
proof -
  obtain q1 r1 where g: "get_triggered_events now num q = Some (q1, r1)"
    using assms(2) by (auto simp: wait_for_events_def split: option.splits)
  have "q' = q1"
    using assms(2) by (cases r1) (auto simp: wait_for_events_def g Let_def split: if_splits)
  then show ?thesis using entry_get [OF assms(1) g] by simp
qed

lemma wait_equeue_ok:
  assumes "kernel_wait_equeue now th eq en num on timo t = Some (t', r)" and "table_ok t"
  shows "table_ok t' \<and> handles t' = handles t \<and> t_next t' = t_next t"
proof (cases "t' = t")
  case False
  obtain q where p: "kernel_pin_equeue eq t = Some q"
    using assms(1) False by (auto simp: kernel_wait_equeue_def split: option.splits)
  then have q: "entry_ok eq q" using assms(2) by (auto simp: kernel_pin_equeue_def table_ok_def split: if_splits)
  obtain q' w where w: "t' = t\<lparr>t_queues := AList.update eq q' (t_queues t)\<rparr>"
    "(\<exists>m. wait_for_events now th m 0 num q = Some (q', w)) \<or> (\<exists>x. get_triggered_events now num q = Some (q', x))"
    using assms(1) False by (auto simp: kernel_wait_equeue_def p split: option.splits if_splits)
  have e: "entry_ok eq q'" using w(2) q by (blast intro: entry_wait entry_get)
  have "fst (on_queue eq () (\<lambda>_. (q', ())) t) = t'" using p w(1) by (simp add: on_queue_def)
  then show ?thesis using on_queue_ok [OF assms(2), of eq "\<lambda>_. (q', ())" "()"] e by simp
qed (use assms in simp)

lemma trigger_all_ok:
  assumes "table_ok t" and t'_def: "t' = fst (kernel_trigger_user_event_for_all tsc i d t)"
  shows "table_ok t' \<and> handles t' = handles t \<and> t_next t' = t_next t"
proof -
  define g where "g q = fst (queue_trigger_event tsc (word_of_int i) EVFILT_USER d q)" for q
  have q: "t_queues t' = map (\<lambda>(h, q). (h, g q)) (t_queues t)"
    by (auto simp: t'_def kernel_trigger_user_event_for_all_def g_def Let_def split: prod.splits)
  have n: "t_next t' = t_next t"
    by (simp add: t'_def kernel_trigger_user_event_for_all_def Let_def)
  have fst: "map fst (t_queues t') = map fst (t_queues t)"
    by (simp add: q comp_def case_prod_beta)
  have m: "map_of (t_queues t') = map_option g \<circ> map_of (t_queues t)"
    by (simp add: q map_of_map)
  have "0 < h \<and> h < int (t_next t) \<and> entry_ok h q" if "map_of (t_queues t') h = Some q" for h q
    using that assms(1) entry_trigger by (auto simp: m table_ok_def g_def)
  then have "table_ok t'" using assms(1) by (simp add: table_ok_def n fst)
  moreover have "handles t' = handles t" using arg_cong [OF fst, of set] by (simp add: handles_def)
  ultimately show ?thesis using n by simp
qed

lemma create_ok:
  assumes "kernel_create_equeue en name t = Some (t', r)" and "table_ok t"
  shows "table_ok t' \<and> handles t' \<subseteq> handles t \<union> {int (t_next t)} \<and> t_next t \<le> t_next t'
    \<and> (case r of Inl e \<Rightarrow> e = KERNEL_ERROR_EINVAL \<and> t' = t
        | Inr h \<Rightarrow> h \<notin> handles t \<and> h = int (t_next t) \<and> (\<exists>q. map_of (t_queues t') h = Some q \<and> q_events q = []))"
proof (cases r)
  case (Inl e)
  then show ?thesis using assms by (auto simp: kernel_create_equeue_def Let_def split: option.splits if_splits)
next
  case (Inr h)
  then obtain n where n: "name = Some n" "\<not> en" "t_next t \<le> 9223372036854775807"
    using assms(1) by (auto simp: kernel_create_equeue_def Let_def split: option.splits if_splits)
  let ?q = "\<lparr>q_events = [], q_name = n, q_handle = int (t_next t), q_closed = False\<rparr>"
  have new: "map_of (t_queues t) (int (t_next t)) = None"
    using table_entry [OF assms(2), of "int (t_next t)"] by (cases "map_of (t_queues t) (int (t_next t))") auto
  have t': "t' = t\<lparr>t_next := t_next t + 1, t_queues := (int (t_next t), ?q) # t_queues t\<rparr>" "h = int (t_next t)"
    using assms(1) n new Inr by (auto simp: kernel_create_equeue_def Let_def)
  have "entry_ok (int (t_next t)) ?q" by (simp add: entry_ok_def eq_reach.new)
  then have "0 < h \<and> h < int (t_next t') \<and> entry_ok h q" if "map_of (t_queues t') h = Some q" for h q
    using that table_entry [OF assms(2), of h q] assms(2) [unfolded table_ok_def, THEN conjunct1]
    by (cases "h = int (t_next t)") (auto simp: t')
  moreover have "distinct (map fst (t_queues t'))" "1 \<le> t_next t'"
    using assms(2) new by (simp_all add: t' table_ok_def map_of_eq_None_iff)
  ultimately have "table_ok t'" by (simp add: table_ok_def)
  moreover have "int (t_next t) \<notin> handles t" using new by (simp add: handles_map_of)
  ultimately show ?thesis by (auto simp: t' Inr handles_def)
qed

lemma delete_queue_ok:
  assumes "table_ok t"
  shows "table_ok (fst (kernel_delete_equeue eq t)) \<and> handles (fst (kernel_delete_equeue eq t)) = handles t - {eq}
    \<and> t_next (fst (kernel_delete_equeue eq t)) = t_next t"
proof (cases "map_of (t_queues t) eq")
  case None
  then show ?thesis using assms handles_map_of [of eq t] by (simp add: kernel_delete_equeue_def)
next
  case (Some q)
  then have t: "fst (kernel_delete_equeue eq t) = t\<lparr>t_queues := AList.delete eq (t_queues t)\<rparr>"
    by (simp add: kernel_delete_equeue_def)
  have m: "map_of (AList.delete eq (t_queues t)) = (map_of (t_queues t))(eq := None)" by (rule delete_conv')
  have d: "distinct (map fst (AList.delete eq (t_queues t)))"
    by (rule distinct_delete) (use assms in \<open>simp add: table_ok_def\<close>)
  have "table_ok (fst (kernel_delete_equeue eq t))"
    using assms d unfolding table_ok_def t by (simp add: m)
  moreover have "h \<in> handles (fst (kernel_delete_equeue eq t)) \<longleftrightarrow> h \<in> handles t - {eq}" for h
    by (simp add: handles_map_of t m)
  ultimately show ?thesis by (auto simp: t)
qed

lemma eqt_step_ok:
  assumes "eqt_step t t'" and "table_ok t"
  shows "table_ok t' \<and> t_next t \<le> t_next t' \<and> handles t' \<subseteq> handles t \<union> {h. int (t_next t) \<le> h}"
  using assms
proof (induction rule: eqt_step.induct)
  case (create en name t t' r)
  then show ?case using create_ok [OF create.hyps create.prems] by auto
next
  case (add e t now eq)
  then show ?case using on_queue_ok [where op = "queue_add_event now e" and eq = eq and m = KERNEL_ERROR_EBADF, OF add.prems entry_add, OF _ add.hyps]
    by (simp add: kernel_add_event_def subset_iff)
next
  case (trigger t tsc eq i f d)
  then show ?case using on_queue_ok [where op = "queue_trigger_event tsc i f d" and eq = eq and m = KERNEL_ERROR_EBADF, OF trigger.prems entry_trigger]
    by (simp add: kernel_trigger_event_def subset_iff)
next
  case (trigger_all t tsc i d)
  then show ?case using trigger_all_ok [OF trigger_all.prems refl, of tsc i d] by simp
next
  case (delete t eq i f)
  then show ?case using on_queue_ok [where op = "queue_delete_event i f" and eq = eq and m = "(KERNEL_ERROR_EBADF, [])", OF delete.prems entry_delete]
    by (simp add: kernel_delete_event_def subset_iff)
next
  case (delete_queue t eq)
  then show ?case using delete_queue_ok [OF delete_queue.prems, of eq] by auto
next
  case (wait now th eq en num on timo t t' r)
  then show ?case using wait_equeue_ok [OF wait.hyps wait.prems] by auto
qed

lemma eqt_reach_ok: "eqt_reach t \<Longrightarrow> table_ok t"
proof (induction rule: eqt_reach.induct)
  case (step t t')
  then show ?case using eqt_step_ok by blast
qed (simp add: table_ok_def)

lemma dead_handle: "\<lbrakk>eqt_step\<^sup>*\<^sup>* t t'; table_ok t; eq \<notin> handles t; eq < int (t_next t)\<rbrakk> \<Longrightarrow> eq \<notin> handles t'"
proof (induction rule: converse_rtranclp_induct)
  case (step t t1)
  have "table_ok t1" "eq \<notin> handles t1" "eq < int (t_next t1)"
    using eqt_step_ok [OF step.hyps(1) step.prems(1)] step.prems by auto
  then show ?case by (rule step.IH)
qed simp

text \<open>What the calls answer for a handle that is not in the table.\<close>

lemma refused_calls:
  assumes "map_of (t_queues t) eq = None"
  shows "kernel_add_event now eq e t = (t, KERNEL_ERROR_EBADF)"
    and "kernel_trigger_event tsc eq i f d t = (t, KERNEL_ERROR_EBADF)"
    and "kernel_delete_event eq i f t = (t, KERNEL_ERROR_EBADF, [])"
    and "kernel_wait_equeue now th eq en num on timo t = Some (t, EqCode KERNEL_ERROR_EBADF [])"
    and "kernel_delete_equeue eq t = (t, KERNEL_ERROR_EBADF, None)"
    and "kernel_add_user_event now eq ident t = (t, KERNEL_ERROR_EBADF)"
    and "kernel_add_user_event_edge now eq ident t = (t, KERNEL_ERROR_EBADF)"
    and "kernel_trigger_user_event tsc eq ident d t = (t, KERNEL_ERROR_EBADF)"
    and "kernel_delete_user_event eq ident t = (t, KERNEL_ERROR_EBADF, [])"
    and "kernel_add_timer_event now th eq ident usec d t = (t, KERNEL_ERROR_EBADF)"
    and "kernel_delete_hr_timer_event eq ident t = (t, KERNEL_ERROR_EBADF, [])"
    and "kernel_add_hr_timer_event now th eq ident ts d t =
        (t, case ts of
               None \<Rightarrow> KERNEL_ERROR_EFAULT
             | Some (tv_sec, tv_nsec) \<Rightarrow>
                 if tv_sec < 0 \<or> tv_nsec < 0 \<or> tv_nsec \<ge> 1000000000
                    \<or> nat tv_sec > (U64_MAX - nat tv_nsec) div 1000000000
                 then KERNEL_ERROR_EINVAL else KERNEL_ERROR_EBADF)"
    and "kernel_add_ampr_event now eq ident d t = (t, OK)" "kernel_add_ampr_system_event now eq ident d t = (t, OK)"
    and "kernel_delete_ampr_event eq ident t = (t, OK, [])" "kernel_delete_ampr_system_event eq ident t = (t, OK, [])"
    and "add_eq_event now eq ident d t = (t, KERNEL_ERROR_EBADF)"
proof -
  have p: "kernel_pin_equeue eq t = None" using assms by (simp add: kernel_pin_equeue_def)
  show add: "kernel_add_event now eq e t = (t, KERNEL_ERROR_EBADF)" for now e
    by (simp add: kernel_add_event_def on_queue_def p)
  show trigger: "kernel_trigger_event tsc eq i f d t = (t, KERNEL_ERROR_EBADF)" for i f
    by (simp add: kernel_trigger_event_def on_queue_def p)
  show delete: "kernel_delete_event eq i f t = (t, KERNEL_ERROR_EBADF, [])" for i f
    by (simp add: kernel_delete_event_def on_queue_def p)
  show "kernel_wait_equeue now th eq en num on timo t = Some (t, EqCode KERNEL_ERROR_EBADF [])"
    by (simp add: kernel_wait_equeue_def p)
  show "kernel_delete_equeue eq t = (t, KERNEL_ERROR_EBADF, None)" by (simp add: kernel_delete_equeue_def assms)
  show "kernel_add_user_event now eq ident t = (t, KERNEL_ERROR_EBADF)"
    "kernel_add_user_event_edge now eq ident t = (t, KERNEL_ERROR_EBADF)"
    "kernel_trigger_user_event tsc eq ident d t = (t, KERNEL_ERROR_EBADF)"
    "kernel_delete_user_event eq ident t = (t, KERNEL_ERROR_EBADF, [])"
    "kernel_delete_hr_timer_event eq ident t = (t, KERNEL_ERROR_EBADF, [])"
    by (simp_all only: kernel_add_user_event_def kernel_add_user_event_edge_def kernel_trigger_user_event_def
        kernel_delete_user_event_def kernel_delete_hr_timer_event_def add trigger delete)
  have timer: "add_timer_event now th eq ident n b d t = (t, KERNEL_ERROR_EBADF)" for n b
    by (simp only: add_timer_event_def add)
  show "kernel_add_timer_event now th eq ident usec d t = (t, KERNEL_ERROR_EBADF)"
    by (simp only: kernel_add_timer_event_def timer)
  show "kernel_add_hr_timer_event now th eq ident ts d t =
        (t, case ts of
               None \<Rightarrow> KERNEL_ERROR_EFAULT
             | Some (tv_sec, tv_nsec) \<Rightarrow>
                 if tv_sec < 0 \<or> tv_nsec < 0 \<or> tv_nsec \<ge> 1000000000
                    \<or> nat tv_sec > (U64_MAX - nat tv_nsec) div 1000000000
                 then KERNEL_ERROR_EINVAL else KERNEL_ERROR_EBADF)"
    by (simp add: kernel_add_hr_timer_event_def timer split: option.split prod.split)
  show ampr: "kernel_add_ampr_event now eq ident d t = (t, OK)"
    by (simp only: kernel_add_ampr_event_def add fst_conv if_cancel)
  show "kernel_add_ampr_system_event now eq ident d t = (t, OK)" by (simp only: kernel_add_ampr_system_event_def ampr)
  show del: "kernel_delete_ampr_event eq ident t = (t, OK, [])"
    by (simp only: kernel_delete_ampr_event_def delete prod.case if_cancel)
  show "kernel_delete_ampr_system_event eq ident t = (t, OK, [])" by (simp only: kernel_delete_ampr_system_event_def del)
  show "add_eq_event now eq ident d t = (t, KERNEL_ERROR_EBADF)" by (simp only: add_eq_event_def add)
qed

text \<open>
  C30. A handle is never reused: once a queue is deleted, in every later state of the table, whatever queues
  are created after it, no creation returns its handle and no call on it changes anything.  The calls are
  refused with \<open>EBADF\<close>, but for the two groups the code treats otherwise: the one of the high-resolution timer
  checks its time first, and the AMPR calls report success whatever the queue answers.
\<close>

theorem deleted_handle_stays_invalid:
  assumes "eqt_reach t" and "kernel_delete_equeue eq t = (t1, OK, c)" and "eqt_step\<^sup>*\<^sup>* t1 t2"
  shows "kernel_create_equeue en name t2 \<noteq> Some (t3, Inr eq)
    \<and> kernel_add_event now eq e t2 = (t2, KERNEL_ERROR_EBADF)
    \<and> kernel_trigger_event tsc eq i f d t2 = (t2, KERNEL_ERROR_EBADF)
    \<and> kernel_delete_event eq i f t2 = (t2, KERNEL_ERROR_EBADF, [])
    \<and> kernel_wait_equeue now th eq en num on timo t2 = Some (t2, EqCode KERNEL_ERROR_EBADF [])
    \<and> kernel_delete_equeue eq t2 = (t2, KERNEL_ERROR_EBADF, None)
    \<and> kernel_add_user_event now eq ident t2 = (t2, KERNEL_ERROR_EBADF)
    \<and> kernel_add_user_event_edge now eq ident t2 = (t2, KERNEL_ERROR_EBADF)
    \<and> kernel_trigger_user_event tsc eq ident d t2 = (t2, KERNEL_ERROR_EBADF)
    \<and> kernel_delete_user_event eq ident t2 = (t2, KERNEL_ERROR_EBADF, [])
    \<and> kernel_add_timer_event now th eq ident usec d t2 = (t2, KERNEL_ERROR_EBADF)
    \<and> kernel_delete_hr_timer_event eq ident t2 = (t2, KERNEL_ERROR_EBADF, [])
    \<and> add_eq_event now eq ident d t2 = (t2, KERNEL_ERROR_EBADF)
    \<and> kernel_add_hr_timer_event now th eq ident ts d t2 =
        (t2, case ts of
               None \<Rightarrow> KERNEL_ERROR_EFAULT
             | Some (tv_sec, tv_nsec) \<Rightarrow>
                 if tv_sec < 0 \<or> tv_nsec < 0 \<or> tv_nsec \<ge> 1000000000
                    \<or> nat tv_sec > (U64_MAX - nat tv_nsec) div 1000000000
                 then KERNEL_ERROR_EINVAL else KERNEL_ERROR_EBADF)
    \<and> kernel_add_ampr_event now eq ident d t2 = (t2, OK) \<and> kernel_add_ampr_system_event now eq ident d t2 = (t2, OK)
    \<and> kernel_delete_ampr_event eq ident t2 = (t2, OK, []) \<and> kernel_delete_ampr_system_event eq ident t2 = (t2, OK, [])"
proof -
  have t: "table_ok t" by (rule eqt_reach_ok [OF assms(1)])
  have "eq \<in> handles t" using assms(2) by (auto simp: kernel_delete_equeue_def handles_map_of split: option.splits)
  then have lt: "eq < int (t_next t)" using t by (auto simp: table_ok_def handles_map_of)
  have t1: "t1 = fst (kernel_delete_equeue eq t)" using assms(2) by simp
  have d: "table_ok t1" "eq \<notin> handles t1" "eq < int (t_next t1)" using delete_queue_ok [OF t, of eq] lt by (simp_all add: t1)
  have "eq \<notin> handles t2" by (rule dead_handle [OF assms(3) d])
  then have m: "map_of (t_queues t2) eq = None" by (simp add: handles_map_of)
  have t2: "table_ok t2 \<and> t_next t1 \<le> t_next t2" using assms(3) d(1)
  proof (induction rule: rtranclp_induct)
    case (step y z)
    then show ?case using eqt_step_ok [OF step.hyps(2)] by force
  qed simp
  have "kernel_create_equeue en name t2 \<noteq> Some (t3, Inr eq)"
    using create_ok [of en name t2 t3 "Inr eq"] t2 d(3) by auto
  then show ?thesis unfolding refused_calls(12) [OF m] by (simp only: refused_calls(1-11,13-) [OF m] simp_thms)
qed

theorem deleted_handle_stays_invalid_witness:
  "kernel_trigger_event 0 1 5 EVFILT_USER 0 \<lparr>t_queues = [], t_next = 2\<rparr> = (\<lparr>t_queues = [], t_next = 2\<rparr>, KERNEL_ERROR_EBADF)"
proof -
  let ?q = "\<lparr>q_events = [], q_name = ''vsync'', q_handle = 1, q_closed = False\<rparr>"
  let ?t = "\<lparr>t_queues = [(1, ?q)], t_next = 2\<rparr>"
  have "eqt_step \<lparr>t_queues = [], t_next = 1\<rparr> ?t"
    by (rule eqt_step.create [of False "Some ''vsync''" _ _ "Inr 1"]) (simp add: kernel_create_equeue_def)
  then have "eqt_reach ?t" by (rule eqt_reach.step [OF eqt_reach.empty])
  moreover have "kernel_delete_equeue 1 ?t = (\<lparr>t_queues = [], t_next = 2\<rparr>, OK, Some (queue_close ?q))"
    by (simp add: kernel_delete_equeue_def)
  ultimately show ?thesis using deleted_handle_stays_invalid [OF _ _ rtranclp.rtrancl_refl] by blast
qed

end
