(* ===== verification/BitArray.thy ===== *)
theory BitArray
  imports Prelude
begin

text \<open>
  The bit array of src/common/bitArray.h: an array of 64-bit words, its operations on single bits and
  ranges, the search for runs of set bits from either end, and the iteration over all runs.  The array
  size is fixed at creation, so every operation keeps the length of the list of words.
\<close>

unbundle bit_operations_syntax

type_synonym bit_array = "64 word list"

abbreviation ones :: "64 word" where
  "ones \<equiv> NOT 0"

definition array_bits :: "bit_array \<Rightarrow> nat" where
  "array_bits d = length d * 64"

text \<open>The masks of a range: the bits from a position up, and the bits up to a position.\<close>

definition start_mask :: "nat \<Rightarrow> 64 word" where
  "start_mask b = push_bit b ones"

definition end_mask :: "nat \<Rightarrow> 64 word" where
  "end_mask b = (if b = 63 then ones else push_bit (b + 1) 1 - 1)"

definition ba_get :: "bit_array \<Rightarrow> nat \<Rightarrow> bool" where
  "ba_get d i \<longleftrightarrow> d ! (i div 64) AND push_bit (i mod 64) 1 \<noteq> 0"

definition ba_set :: "bit_array \<Rightarrow> nat \<Rightarrow> bit_array" where
  "ba_set d i = d[i div 64 := d ! (i div 64) OR push_bit (i mod 64) 1]"

definition ba_unset :: "bit_array \<Rightarrow> nat \<Rightarrow> bit_array" where
  "ba_unset d i = d[i div 64 := d ! (i div 64) AND NOT (push_bit (i mod 64) 1)]"

text \<open>The loop over the words strictly between the first and the last.\<close>

definition fill_words :: "(nat \<Rightarrow> 64 word) \<Rightarrow> nat \<Rightarrow> nat \<Rightarrow> bit_array \<Rightarrow> bit_array" where
  "fill_words f from till d = fold (\<lambda>w d. d[w := f w]) [from..<till] d"

definition ba_copy :: "bit_array \<Rightarrow> nat \<Rightarrow> nat \<Rightarrow> bit_array" where
  "ba_copy other start end =
     (let d = replicate (length other) 0; first = start div 64; final = (end - 1) div 64;
          sm = start_mask (start mod 64); em = end_mask ((end - 1) mod 64)
      in if start \<ge> end \<or> end > array_bits other then d
         else if first = final then d[first := other ! first AND sm AND em]
         else (let d1 = d[first := other ! first AND sm];
                   d2 = fill_words (\<lambda>w. other ! w) (first + 1) final d1
               in d2[final := other ! final AND em]))"

definition set_range :: "bit_array \<Rightarrow> nat \<Rightarrow> nat \<Rightarrow> bit_array" where
  "set_range d start end =
     (let first = start div 64; final = (end - 1) div 64;
          sm = start_mask (start mod 64); em = end_mask ((end - 1) mod 64)
      in if start \<ge> end \<or> end > array_bits d then d
         else if first = final then d[first := d ! first OR (sm AND em)]
         else (let d1 = d[first := d ! first OR sm];
                   d2 = fill_words (\<lambda>_. ones) (first + 1) final d1
               in d2[final := d2 ! final OR em]))"

definition unset_range :: "bit_array \<Rightarrow> nat \<Rightarrow> nat \<Rightarrow> bit_array" where
  "unset_range d start end =
     (let first = start div 64; final = (end - 1) div 64; end_bit = (end - 1) mod 64;
          sm = push_bit (start mod 64) 1 - 1;
          em = (if end_bit = 63 then 0 else NOT (push_bit (end_bit + 1) 1 - 1))
      in if start \<ge> end \<or> end > array_bits d then d
         else if first = final then d[first := d ! first AND (sm OR em)]
         else (let d1 = d[first := d ! first AND sm];
                   d2 = fill_words (\<lambda>_. 0) (first + 1) final d1
               in d2[final := d2 ! final AND em]))"

definition ba_clear :: "bit_array \<Rightarrow> bit_array" where
  "ba_clear d = replicate (length d) 0"

definition ba_fill :: "bit_array \<Rightarrow> bit_array" where
  "ba_fill d = replicate (length d) ones"

definition ba_none :: "bit_array \<Rightarrow> bool" where
  "ba_none d \<longleftrightarrow> fold (\<lambda>w combined. combined OR w) d 0 = 0"

definition ba_any :: "bit_array \<Rightarrow> bool" where
  "ba_any d \<longleftrightarrow> \<not> ba_none d"

definition ba_xor :: "bit_array \<Rightarrow> bit_array \<Rightarrow> bit_array" where
  "ba_xor d other = map2 (\<lambda>a b. a XOR b) d other"

definition ba_not :: "bit_array \<Rightarrow> bit_array" where
  "ba_not d = map (\<lambda>w. NOT w) d"

text \<open>The counts of zeros and ones at either end of a word, as in the header \<open>bit\<close>.\<close>

definition word_bits :: "64 word \<Rightarrow> bool list" where
  "word_bits w = map (bit w) [0..<64]"

definition countr_zero :: "64 word \<Rightarrow> nat" where
  "countr_zero w = length (takeWhile (\<lambda>b. \<not> b) (word_bits w))"

definition countr_one :: "64 word \<Rightarrow> nat" where
  "countr_one w = length (takeWhile (\<lambda>b. b) (word_bits w))"

definition countl_zero :: "64 word \<Rightarrow> nat" where
  "countl_zero w = length (takeWhile (\<lambda>b. \<not> b) (rev (word_bits w)))"

definition countl_one :: "64 word \<Rightarrow> nat" where
  "countl_one w = length (takeWhile (\<lambda>b. b) (rev (word_bits w)))"

text \<open>The searches: the first word that is not zero among a word and those that follow, with its index,
  and the end of a run of ones in the words that follow.\<close>

fun first_word :: "nat \<Rightarrow> 64 word \<Rightarrow> bit_array \<Rightarrow> (nat \<times> 64 word) option" where
  "first_word i w ws =
     (if w \<noteq> 0 then Some (i, w) else case ws of [] \<Rightarrow> None | v # vs \<Rightarrow> first_word (i + 1) v vs)"

fun run_end :: "nat \<Rightarrow> bit_array \<Rightarrow> nat option" where
  "run_end i [] = None"
| "run_end i (w # ws) = (if w \<noteq> ones then Some (i * 64 + countr_one w) else run_end (i + 1) ws)"

definition first_range_from :: "bit_array \<Rightarrow> nat \<Rightarrow> nat \<times> nat" where
  "first_range_from d start =
     (let N = array_bits d in
      if start \<ge> N then (N, N)
      else (case first_word (start div 64) (d ! (start div 64) AND start_mask (start mod 64)) (drop (start div 64 + 1) d) of
              None \<Rightarrow> (N, N)
            | Some (j, w) \<Rightarrow>
                (let first = j * 64 + countr_zero w;
                     first_bit = first mod 64;
                     first_ones = countr_one (drop_bit first_bit (d ! j))
                 in if first_bit + first_ones < 64 then (first, first + first_ones)
                    else (case run_end (j + 1) (drop (j + 1) d) of None \<Rightarrow> (first, N) | Some e \<Rightarrow> (first, e)))))"

text \<open>The same from the other end; the words are visited downwards.\<close>

fun final_word :: "nat \<Rightarrow> 64 word \<Rightarrow> bit_array \<Rightarrow> (nat \<times> 64 word) option" where
  "final_word i w ws =
     (if w \<noteq> 0 then Some (i, w) else case ws of [] \<Rightarrow> None | v # vs \<Rightarrow> final_word (i - 1) v vs)"

fun run_start :: "nat \<Rightarrow> bit_array \<Rightarrow> nat option" where
  "run_start i [] = None"
| "run_start i (w # ws) = (if w \<noteq> ones then Some ((i + 1) * 64 - countl_one w) else run_start (i - 1) ws)"

definition last_range_from :: "bit_array \<Rightarrow> nat \<Rightarrow> nat \<times> nat" where
  "last_range_from d end0 =
     (if end0 = 0 then (0, 0)
      else let end = (if end0 > array_bits d then array_bits d else end0);
               i = (end - 1) div 64
           in case final_word i (d ! i AND end_mask ((end - 1) mod 64)) (rev (take i d)) of
                None \<Rightarrow> (0, 0)
              | Some (j, w) \<Rightarrow>
                  (let empty_bits = countl_zero w;
                       n = countl_one (push_bit empty_bits w);
                       final = (j + 1) * 64 - empty_bits
                   in if empty_bits + n < 64 then (final - n, final)
                      else (case run_start (j - 1) (rev (take j d)) of None \<Rightarrow> (0, final) | Some s \<Rightarrow> (s, final))))"

definition first_range :: "bit_array \<Rightarrow> nat \<times> nat" where
  "first_range d = first_range_from d 0"

definition last_range :: "bit_array \<Rightarrow> nat \<times> nat" where
  "last_range d = last_range_from d (array_bits d)"

text \<open>
  A loop over the array: an iterator holds a range, the next one is searched from the end of the range,
  and the loop ends at the range that \<open>end()\<close> holds.  The fuel bounds the number of rounds.
\<close>

fun iterate_ranges :: "nat \<Rightarrow> bit_array \<Rightarrow> nat \<times> nat \<Rightarrow> (nat \<times> nat) list option" where
  "iterate_ranges 0 d r = None"
| "iterate_ranges (Suc n) d r =
     (if r = first_range_from d (array_bits d) then Some []
      else map_option (Cons r) (iterate_ranges n d (first_range_from d (snd r))))"

definition ba_ranges :: "bit_array \<Rightarrow> (nat \<times> nat) list option" where
  "ba_ranges d = iterate_ranges (array_bits d + 1) d (first_range_from d 0)"

end
