(* ===== verification/BitArrayFacts.thy ===== *)
theory BitArrayFacts
  imports BitArray
begin

text \<open>
  The bit array against its reference, the set of the positions of its set bits.
\<close>

unbundle bit_operations_syntax

definition bits_set :: "bit_array \<Rightarrow> nat set" where
  "bits_set d = {i. i < array_bits d \<and> bit (d ! (i div 64)) (i mod 64)}"

lemma mem_bits_set: "i \<in> bits_set d \<longleftrightarrow> i < length d * 64 \<and> bit (d ! (i div 64)) (i mod 64)"
  by (simp add: bits_set_def array_bits_def)

lemma word_index: "i < n * 64 \<longleftrightarrow> i div 64 < (n :: nat)"
  by (simp add: div_less_iff_less_mult)

lemma bits_set_eqI:
  assumes "length d = length e"
    and "\<And>q b. \<lbrakk>q < length d; b < 64\<rbrakk> \<Longrightarrow> bit (d ! q) b = (q * 64 + b \<in> S)"
    and "\<And>i. i \<in> S \<Longrightarrow> i < array_bits e"
  shows "bits_set d = S"
proof (rule set_eqI)
  fix i
  show "i \<in> bits_set d \<longleftrightarrow> i \<in> S"
    using assms(2) [of "i div 64" "i mod 64"] assms(1,3) by (auto simp: mem_bits_set array_bits_def word_index)
qed

lemma bit_ones [simp]: "bit ones b \<longleftrightarrow> b < 64"
  by (simp add: bit_not_iff)

lemma bit_start_mask [simp]: "bit (start_mask s) b \<longleftrightarrow> s \<le> b \<and> b < 64"
  by (auto simp: start_mask_def bit_simps)

lemma bit_low_mask: "e < 64 \<Longrightarrow> bit (push_bit e 1 - 1 :: 64 word) b \<longleftrightarrow> b < e"
  by (auto simp: bit_mask_iff mask_eq_exp_minus_1 [symmetric] push_bit_of_1)

lemma bit_end_mask [simp]: "e < 64 \<Longrightarrow> bit (end_mask e) b \<longleftrightarrow> b \<le> e"
  using bit_low_mask [of "e + 1" b] by (auto simp: end_mask_def)

lemma fill_words_length [simp]: "length (fill_words f a b d) = length d"
  by (induction b) (auto simp: fill_words_def)

lemma fill_words_nth: "b \<le> length d \<Longrightarrow> fill_words f a b d ! q = (if a \<le> q \<and> q < b then f q else d ! q)"
proof (induction b)
  case (Suc b)
  then have "length (fold (\<lambda>w d. d[w := f w]) [a..<b] d) = length d" using fill_words_length by (metis fill_words_def)
  then show ?case using Suc by (auto simp: fill_words_def nth_list_update less_Suc_eq)
qed (simp add: fill_words_def)

text \<open>Positions in a range, by word and bit.\<close>

lemma range_position:
  assumes "start < (end :: nat)" "b < 64"
  shows "q * 64 + b \<in> {start ..< end} \<longleftrightarrow>
    (start div 64 < q \<or> start div 64 = q \<and> start mod 64 \<le> b) \<and> (q < (end - 1) div 64 \<or> q = (end - 1) div 64 \<and> b \<le> (end - 1) mod 64)"
proof -
  have s: "start = start div 64 * 64 + start mod 64" "start mod 64 < 64" by simp_all
  have e: "end - 1 = (end - 1) div 64 * 64 + (end - 1) mod 64" "(end - 1) mod 64 < 64" by simp_all
  have "q * 64 + b < end \<longleftrightarrow> q * 64 + b \<le> end - 1" using assms by linarith
  then show ?thesis using s e assms(2) unfolding atLeastLessThan_iff by linarith
qed

lemma word_eq_0: "w = 0 \<longleftrightarrow> (\<forall>b < 64. \<not> bit (w :: 64 word) b)"
  by (auto simp: bit_eq_iff)

lemma word_eq_ones: "w = ones \<longleftrightarrow> (\<forall>b < 64. bit (w :: 64 word) b)"
  by (auto simp: bit_eq_iff)

lemma final_word_less: "\<lbrakk>start < (end :: nat); end \<le> n * 64\<rbrakk> \<Longrightarrow> (end - 1) div 64 < n \<and> start div 64 \<le> (end - 1) div 64"
proof
  assume a: "start < end" "end \<le> n * 64"
  have "end - 1 < n * 64" using a by simp
  then show "(end - 1) div 64 < n" by (simp add: word_index)
  show "start div 64 \<le> (end - 1) div 64" by (rule div_le_mono) (use a in simp)
qed

lemma set_range_length [simp]: "length (set_range d s e) = length d"
  by (simp add: set_range_def Let_def)

lemma unset_range_length [simp]: "length (unset_range d s e) = length d"
  by (simp add: unset_range_def Let_def)

lemma ba_copy_length [simp]: "length (ba_copy d s e) = length d"
  by (simp add: ba_copy_def Let_def)

lemma set_range_bits:
  assumes "start < end" "end \<le> array_bits d"
  shows "bits_set (set_range d start end) = bits_set d \<union> {start ..< end}"
proof (rule bits_set_eqI)
  define f where "f = start div 64"
  define l where "l = (end - 1) div 64"
  have fl: "f \<le> l" "l < length d" using final_word_less [of start "end" "length d"] assms by (simp_all add: f_def l_def array_bits_def)
  note pos = range_position [OF assms(1), folded f_def l_def]
  fix q b :: nat assume q: "q < length (set_range d start end)" and b: "b < 64"
  have m: "q * 64 + b \<in> bits_set d \<longleftrightarrow> bit (d ! q) b" using q b by (simp add: mem_bits_set word_index)
  have sr: "set_range d start end = (if f = l then d[f := d ! f OR (start_mask (start mod 64) AND end_mask ((end - 1) mod 64))]
      else (let d2 = fill_words (\<lambda>_. ones) (f + 1) l (d[f := d ! f OR start_mask (start mod 64)])
            in d2[l := d2 ! l OR end_mask ((end - 1) mod 64)]))"
    using assms by (simp add: set_range_def Let_def f_def l_def)
  show "bit (set_range d start end ! q) b = (q * 64 + b \<in> bits_set d \<union> {start..<end})"
    unfolding Un_iff m pos [OF b] using q b fl
    by (auto simp: sr Let_def nth_list_update fill_words_nth bit_or_iff bit_and_iff)
qed (use assms in \<open>auto simp: mem_bits_set array_bits_def\<close>)

lemma unset_range_bits:
  assumes "start < end" "end \<le> array_bits d"
  shows "bits_set (unset_range d start end) = bits_set d - {start ..< end}"
proof (rule bits_set_eqI)
  define f where "f = start div 64"
  define l where "l = (end - 1) div 64"
  have fl: "f \<le> l" "l < length d" using final_word_less [of start "end" "length d"] assms by (simp_all add: f_def l_def array_bits_def)
  note pos = range_position [OF assms(1), folded f_def l_def]
  define sm :: "64 word" where "sm = push_bit (start mod 64) 1 - 1"
  define em :: "64 word" where "em = (if (end - 1) mod 64 = 63 then 0 else NOT (push_bit ((end - 1) mod 64 + 1) 1 - 1))"
  fix q b :: nat assume q: "q < length (unset_range d start end)" and b: "b < 64"
  have m: "q * 64 + b \<in> bits_set d \<longleftrightarrow> bit (d ! q) b" using q b by (simp add: mem_bits_set word_index)
  have sm: "bit sm b \<longleftrightarrow> b < start mod 64" unfolding sm_def by (rule bit_low_mask) simp
  have em: "bit em b \<longleftrightarrow> (end - 1) mod 64 < b"
    using bit_low_mask [of "(end - 1) mod 64 + 1" b] b by (auto simp: em_def bit_not_iff)
  have sr: "unset_range d start end = (if f = l then d[f := d ! f AND (sm OR em)]
      else (let d2 = fill_words (\<lambda>_. 0) (f + 1) l (d[f := d ! f AND sm]) in d2[l := d2 ! l AND em]))"
    unfolding unset_range_def Let_def f_def l_def sm_def em_def using assms by (simp only: not_less not_le [symmetric] simp_thms if_False)
  show "bit (unset_range d start end ! q) b = (q * 64 + b \<in> bits_set d - {start..<end})"
    unfolding Diff_iff m pos [OF b] using q b fl
    by (auto simp: sr Let_def nth_list_update fill_words_nth bit_or_iff bit_and_iff sm em simp del: One_nat_def)
qed (use assms in \<open>auto simp: mem_bits_set array_bits_def\<close>)

lemma ba_copy_bits:
  assumes "start < end" "end \<le> array_bits d"
  shows "bits_set (ba_copy d start end) = bits_set d \<inter> {start ..< end}"
proof (rule bits_set_eqI)
  define f where "f = start div 64"
  define l where "l = (end - 1) div 64"
  have fl: "f \<le> l" "l < length d" using final_word_less [of start "end" "length d"] assms by (simp_all add: f_def l_def array_bits_def)
  note pos = range_position [OF assms(1), folded f_def l_def]
  fix q b :: nat assume q: "q < length (ba_copy d start end)" and b: "b < 64"
  have m: "q * 64 + b \<in> bits_set d \<longleftrightarrow> bit (d ! q) b" using q b by (simp add: mem_bits_set word_index)
  have sr: "ba_copy d start end = (if f = l
      then (replicate (length d) 0)[f := d ! f AND start_mask (start mod 64) AND end_mask ((end - 1) mod 64)]
      else (fill_words (\<lambda>w. d ! w) (f + 1) l ((replicate (length d) 0)[f := d ! f AND start_mask (start mod 64)]))
             [l := d ! l AND end_mask ((end - 1) mod 64)])"
    using assms by (simp add: ba_copy_def Let_def f_def l_def)
  show "bit (ba_copy d start end ! q) b = (q * 64 + b \<in> bits_set d \<inter> {start..<end})"
    unfolding Int_iff m pos [OF b] using q b fl
    by (auto simp: sr nth_list_update fill_words_nth bit_and_iff)
qed (use assms in \<open>auto simp: mem_bits_set array_bits_def\<close>)

subsection \<open>Searching runs\<close>

lemma takeWhile_prefix:
  assumes "c = length (takeWhile P xs)"
  shows "c \<le> length xs" "b < c \<Longrightarrow> P (xs ! b)" "c < length xs \<Longrightarrow> \<not> P (xs ! c)"
proof -
  show "c \<le> length xs" by (simp add: assms length_takeWhile_le)
  show "P (xs ! b)" if "b < c"
    using that assms set_takeWhileD [of "xs ! b" P xs] nth_mem [of b "takeWhile P xs"] takeWhile_nth [of b P xs] by auto
  show "c < length xs \<Longrightarrow> \<not> P (xs ! c)" unfolding assms by (rule nth_length_takeWhile)
qed

lemma word_bits_length [simp]: "length (word_bits w) = 64"
  by (simp add: word_bits_def)

lemma word_bits_nth [simp]: "b < 64 \<Longrightarrow> word_bits w ! b = bit w b" "b < 64 \<Longrightarrow> rev (word_bits w) ! b = bit w (63 - b)"
  by (simp_all add: word_bits_def rev_nth)

lemma countr_zero_spec:
  assumes "w \<noteq> 0"
  shows "countr_zero w < 64" "bit w (countr_zero w)" "b < countr_zero w \<Longrightarrow> \<not> bit w b"
proof -
  note t = takeWhile_prefix [OF countr_zero_def [of w], unfolded word_bits_length]
  show z: "\<not> bit w b" if "b < countr_zero w" for b
    using t(2) [OF that] less_le_trans [OF that t(1)] by simp
  show c: "countr_zero w < 64"
  proof (rule ccontr)
    assume "\<not> countr_zero w < 64"
    then have "w = 0" using z by (auto simp: word_eq_0)
    then show False using assms by simp
  qed
  show "bit w (countr_zero w)" using t(3) c by simp
qed

lemma countr_one_spec:
  shows "countr_one w \<le> 64" "b < countr_one w \<Longrightarrow> bit w b" "countr_one w < 64 \<Longrightarrow> \<not> bit w (countr_one w)"
proof -
  note t = takeWhile_prefix [OF countr_one_def [of w], unfolded word_bits_length]
  show "countr_one w \<le> 64" by (rule t(1))
  show "bit w b" if "b < countr_one w" using t(2) [OF that] less_le_trans [OF that t(1)] by simp
  show "countr_one w < 64 \<Longrightarrow> \<not> bit w (countr_one w)" using t(3) by simp
qed

lemma countl_zero_spec:
  assumes "w \<noteq> 0"
  shows "countl_zero w < 64" "bit w (63 - countl_zero w)" "\<lbrakk>63 - countl_zero w < b; b < 64\<rbrakk> \<Longrightarrow> \<not> bit w b"
proof -
  note t = takeWhile_prefix [OF countl_zero_def [of w], unfolded word_bits_length length_rev]
  have z: "\<not> bit w (63 - b)" if "b < countl_zero w" for b
    using t(2) [OF that] less_le_trans [OF that t(1)] by simp
  show c: "countl_zero w < 64"
  proof (rule ccontr)
    assume n: "\<not> countl_zero w < 64"
    have "\<not> bit w b" if "b < 64" for b using z [of "63 - b"] n that by simp
    then have "w = 0" by (auto simp: word_eq_0)
    then show False using assms by simp
  qed
  show "bit w (63 - countl_zero w)" using t(3) c by simp
  show "\<not> bit w b" if "63 - countl_zero w < b" "b < 64" using z [of "63 - b"] that by simp
qed

lemma countl_one_spec:
  shows "countl_one w \<le> 64" "\<lbrakk>64 - countl_one w \<le> b; b < 64\<rbrakk> \<Longrightarrow> bit w b"
    "countl_one w < 64 \<Longrightarrow> \<not> bit w (63 - countl_one w)"
proof -
  note t = takeWhile_prefix [OF countl_one_def [of w], unfolded word_bits_length length_rev]
  show "countl_one w \<le> 64" by (rule t(1))
  show "bit w b" if "64 - countl_one w \<le> b" "b < 64" proof -
    have "63 - b < countl_one w" "63 - b < 64" "63 - (63 - b) = b" using that by linarith+
    then show ?thesis using t(2) [of "63 - b"] by simp
  qed
  show "countl_one w < 64 \<Longrightarrow> \<not> bit w (63 - countl_one w)" using t(3) by simp
qed

declare first_word.simps [simp del] final_word.simps [simp del]

lemma first_word_step [simp]:
  "first_word i w [] = (if w \<noteq> 0 then Some (i, w) else None)"
  "first_word i w (v # vs) = (if w \<noteq> 0 then Some (i, w) else first_word (i + 1) v vs)"
  by (simp_all add: first_word.simps)

lemma final_word_step [simp]:
  "final_word i w [] = (if w \<noteq> 0 then Some (i, w) else None)"
  "final_word i w (v # vs) = (if w \<noteq> 0 then Some (i, w) else final_word (i - 1) v vs)"
  by (simp_all add: final_word.simps)

lemma first_word_Some:
  "first_word i w ws = Some (j, v) \<Longrightarrow> v \<noteq> 0 \<and> i \<le> j \<and> j \<le> i + length ws \<and> v = (w # ws) ! (j - i)
     \<and> (\<forall>k. i \<le> k \<and> k < j \<longrightarrow> (w # ws) ! (k - i) = 0)"
proof (induction ws arbitrary: i w)
  case Nil
  then show ?case by (auto split: if_splits)
next
  case (Cons u us)
  show ?case
  proof (cases "w = 0")
    case False
    then show ?thesis using Cons.prems by auto
  next
    case True
    then have "first_word (i + 1) u us = Some (j, v)" using Cons.prems by simp
    note ih = Cons.IH [OF this]
    have s: "(w # u # us) ! (k - i) = (u # us) ! (k - (i + 1))" if "i + 1 \<le> k" for k
      using that by (simp add: nth_Cons')
    have z: "(w # u # us) ! (k - i) = 0" if "i \<le> k" "k < j" for k
    proof (cases "k = i")
      case True
      then show ?thesis using \<open>w = 0\<close> by simp
    next
      case False
      then have "i + 1 \<le> k" using that(1) by linarith
      then show ?thesis using s ih that(2) by simp
    qed
    have "i + 1 \<le> j" "j \<le> i + length (u # us)" using ih by simp_all
    moreover have "v \<noteq> 0" using ih by blast
    moreover have "v = (w # u # us) ! (j - i)" using ih s [OF \<open>i + 1 \<le> j\<close>] by (simp only:)
    ultimately show ?thesis using z by simp
  qed
qed

lemma first_word_None: "first_word i w ws = None \<Longrightarrow> w = 0 \<and> (\<forall>v \<in> set ws. v = 0)"
  by (induction ws arbitrary: i w) (auto split: if_splits)

lemma run_end_Some:
  "run_end i ws = Some e \<Longrightarrow> \<exists>k < length ws. ws ! k \<noteq> ones \<and> (\<forall>j < k. ws ! j = ones) \<and> e = (i + k) * 64 + countr_one (ws ! k)"
proof (induction ws arbitrary: i)
  case (Cons w ws)
  show ?case
  proof (cases "w = ones")
    case False
    then show ?thesis using Cons.prems by (intro exI [of _ 0]) auto
  next
    case True
    then have "run_end (i + 1) ws = Some e" using Cons.prems by simp
    from Cons.IH [OF this] obtain k where "k < length ws" "ws ! k \<noteq> ones" "\<forall>j < k. ws ! j = ones"
      "e = (i + 1 + k) * 64 + countr_one (ws ! k)" by blast
    then show ?thesis using True by (intro exI [of _ "Suc k"]) (auto simp: nth_Cons less_Suc_eq_0_disj split: nat.splits)
  qed
qed simp

lemma run_end_None: "run_end i ws = None \<Longrightarrow> \<forall>w \<in> set ws. w = ones"
  by (induction ws arbitrary: i) (auto split: if_splits)

lemma countr_one_less: "w \<noteq> ones \<Longrightarrow> countr_one w < 64"
proof (rule ccontr)
  assume w: "w \<noteq> ones" and n: "\<not> countr_one w < 64"
  have "\<forall>b < 64. bit w b" using countr_one_spec(2) [where w = w] n by simp
  then show False using w word_eq_ones by blast
qed

lemma run_end_word:
  assumes "run_end (j + 1) (drop (j + 1) d) = Some x"
  shows "\<exists>q. j < q \<and> q < length d \<and> d ! q \<noteq> ones \<and> (\<forall>r. j < r \<and> r < q \<longrightarrow> d ! r = ones)
    \<and> x = q * 64 + countr_one (d ! q)"
proof -
  from run_end_Some [OF assms] obtain k where k: "k < length (drop (j + 1) d)" "drop (j + 1) d ! k \<noteq> ones"
    "\<forall>q < k. drop (j + 1) d ! q = ones" "x = (j + 1 + k) * 64 + countr_one (drop (j + 1) d ! k)" by blast
  have "d ! r = ones" if "j < r" "r < j + 1 + k" for r
    using k(3) [rule_format, of "r - (j + 1)"] that k(1) by simp
  then show ?thesis using k by (intro exI [of _ "j + 1 + k"]) simp
qed

text \<open>
  What a search upwards finds: no bit is set before the run, the run is set, and it is maximal; an empty
  run stands for the end of the array.
\<close>

definition is_first_range :: "bit_array \<Rightarrow> nat \<Rightarrow> nat \<times> nat \<Rightarrow> bool" where
  "is_first_range d start r \<longleftrightarrow> (case r of (a, b) \<Rightarrow>
     (if bits_set d \<inter> {start..} = {} then a = array_bits d \<and> b = array_bits d
      else start \<le> a \<and> a < b \<and> b \<le> array_bits d \<and> {a ..< b} \<subseteq> bits_set d
        \<and> bits_set d \<inter> {start ..< a} = {} \<and> b \<notin> bits_set d))"

lemma in_word: "bit (d ! j) b \<Longrightarrow> b < 64 \<Longrightarrow> j < length d \<Longrightarrow> j * 64 + b \<in> bits_set d"
  by (simp add: mem_bits_set word_index)

text \<open>The end of a run that fills its first word from a position on.\<close>

lemma run_end_correct:
  assumes j: "j < length d" "fb < 64" and full: "\<And>b. \<lbrakk>fb \<le> b; b < 64\<rbrakk> \<Longrightarrow> bit (d ! j) b"
    and a: "a = j * 64 + fb"
    and e: "e = (case run_end (j + 1) (drop (j + 1) d) of None \<Rightarrow> array_bits d | Some e \<Rightarrow> e)"
  shows "a < e \<and> e \<le> array_bits d \<and> {a ..< e} \<subseteq> bits_set d \<and> e \<notin> bits_set d"
proof -
  have after: "i \<in> bits_set d" if "a \<le> i" "i div 64 < n" "n \<le> length d" "\<And>q. j < q \<Longrightarrow> q < n \<Longrightarrow> d ! q = ones" for i n
  proof (cases "i div 64 = j")
    case True
    then have i: "i = j * 64 + i mod 64" by (metis div_mult_mod_eq)
    then have "fb \<le> i mod 64" using that(1) unfolding a by linarith
    then have "bit (d ! j) (i mod 64)" using full by simp
    then show ?thesis using in_word [of d j "i mod 64"] i j(1) by simp
  next
    case False
    have "j = a div 64" using j(2) by (simp add: a)
    then have "j < i div 64" using False div_le_mono [OF that(1), of 64] by simp
    then show ?thesis using that(2-4) by (simp add: mem_bits_set word_index)
  qed
  show ?thesis
  proof (cases "run_end (j + 1) (drop (j + 1) d)")
    case None
    have o: "d ! q = ones" if "j < q" "q < length d" for q
    proof -
      have "drop (j + 1) d ! (q - (j + 1)) \<in> set (drop (j + 1) d)" by (rule nth_mem) (use that in simp)
      then show ?thesis using run_end_None [OF None] that by simp
    qed
    have "(j + 1) * 64 \<le> length d * 64" by (rule mult_le_mono1) (use j(1) in simp)
    then have "a < length d * 64" using j(2) by (simp add: a)
    moreover have "i \<in> bits_set d" if "a \<le> i" "i < length d * 64" for i
      by (rule after [of i "length d"]) (use that o in \<open>simp_all add: word_index\<close>)
    ultimately show ?thesis unfolding e None option.case by (auto simp: array_bits_def mem_bits_set)
  next
    case (Some x)
    from run_end_word [OF this] obtain q where q: "j < q" "q < length d" "d ! q \<noteq> ones"
        "\<forall>r. j < r \<and> r < q \<longrightarrow> d ! r = ones" and x: "x = q * 64 + countr_one (d ! q)" by blast
    have less: "countr_one (d ! q) < 64" using q(3) by (rule countr_one_less)
    then have m: "x div 64 = q" "x mod 64 = countr_one (d ! q)" by (simp_all add: x)
    have "(j + 1) * 64 \<le> q * 64" "(q + 1) * 64 \<le> length d * 64" by (rule mult_le_mono1; use q in simp)+
    then have "a < x" "x \<le> length d * 64" using j(2) less by (simp_all add: a x)
    moreover have "x \<notin> bits_set d" using countr_one_spec(3) [OF less] m by (simp add: mem_bits_set)
    moreover have "i \<in> bits_set d" if i: "a \<le> i" "i < x" for i
    proof (cases "i div 64 < q")
      case True
      then show ?thesis using after [of i q] i(1) q by simp
    next
      case False
      moreover have "i div 64 \<le> q" using div_le_mono [of i x 64] i(2) m(1) by simp
      ultimately have d: "i div 64 = q" by simp
      then have "i mod 64 < countr_one (d ! q)" using i(2) div_mult_mod_eq [of i 64] unfolding x by linarith
      then show ?thesis using countr_one_spec(2) d q(2) by (simp add: mem_bits_set word_index)
    qed
    ultimately show ?thesis unfolding e Some option.case by (auto simp: array_bits_def)
  qed
qed

text \<open>The end of the run that starts at a set bit.\<close>

lemma run_up_correct:
  assumes j: "j < length d" "fb < 64" "bit (d ! j) fb" and a: "a = j * 64 + fb" and c: "c = countr_one (drop_bit fb (d ! j))"
    and e: "e = (if fb + c < 64 then a + c
      else case run_end (j + 1) (drop (j + 1) d) of None \<Rightarrow> array_bits d | Some e \<Rightarrow> e)"
  shows "a < e \<and> e \<le> array_bits d \<and> {a ..< e} \<subseteq> bits_set d \<and> e \<notin> bits_set d"
proof -
  note co = countr_one_spec [where w = "drop_bit fb (d ! j)", folded c]
  have run: "bit (d ! j) b" if "fb \<le> b" "b < fb + c" for b
    using co(2) [of "b - fb"] that by (simp add: bit_drop_bit_eq)
  show ?thesis
  proof (cases "fb + c < 64")
    case True
    have pos: "0 < c" using co(3) j(3) by (cases c) (simp_all add: bit_drop_bit_eq)
    have p: "a + c = j * 64 + (fb + c)" by (simp add: a)
    have m: "(a + c) div 64 = j" "(a + c) mod 64 = fb + c"
      unfolding p using True by (simp_all only: div_mult_self3 mod_mult_self3 div_less mod_less)
    then have "a + c \<notin> bits_set d" using True co(3) by (simp add: mem_bits_set bit_drop_bit_eq)
    moreover have "a + c \<le> length d * 64" using p True j(1) by simp
    moreover have "i \<in> bits_set d" if "a \<le> i" "i < a + c" for i
      using in_word [OF run [of "i - j * 64"]] that True j(1) by (simp add: a)
    ultimately show ?thesis using True pos by (auto simp: e array_bits_def)
  next
    case False
    then show ?thesis using run by (intro run_end_correct [OF j(1,2) _ a]) (simp_all add: e)
  qed
qed

text \<open>The first set bit from a position on, within the words from the position's own.\<close>

lemma search_up_correct:
  assumes "start < length d * 64" and wi: "wi = start div 64" and m: "m = d ! wi AND start_mask (start mod 64)"
  shows "case first_word wi m (drop (wi + 1) d) of
      None \<Rightarrow> bits_set d \<inter> {start..} = {}
    | Some (j, v) \<Rightarrow> j < length d \<and> countr_zero v < 64 \<and> bit (d ! j) (countr_zero v)
        \<and> start \<le> j * 64 + countr_zero v \<and> bits_set d \<inter> {start ..< j * 64 + countr_zero v} = {}"
proof -
  have len: "wi < length d" using assms by (simp add: wi word_index)
  have mask: "bit m b \<longleftrightarrow> bit (d ! wi) b \<and> start \<le> wi * 64 + b" if "b < 64" for b
  proof -
    have "start = wi * 64 + start mod 64" by (simp add: wi)
    then have "start \<le> wi * 64 + b \<longleftrightarrow> start mod 64 \<le> b" by linarith
    then show ?thesis using that by (simp add: m bit_and_iff)
  qed
  let ?w = "\<lambda>k. (m # drop (wi + 1) d) ! (k - wi)"
  have nth: "?w k = (if k = wi then m else d ! k)" if "wi \<le> k" for k
    using that len by (auto simp: nth_Cons')
  have from_start: "wi \<le> i div 64" if "start \<le> i" for i using that by (simp add: wi div_le_mono)
  have set_iff: "i \<in> bits_set d \<longleftrightarrow> i div 64 < length d \<and> bit (?w (i div 64)) (i mod 64)" if "start \<le> i" for i
  proof -
    have "i = wi * 64 + i mod 64" if "i div 64 = wi" using that by (metis div_mult_mod_eq)
    then show ?thesis using mask [of "i mod 64"] \<open>start \<le> i\<close> nth [OF from_start [OF that]]
      by (auto simp: mem_bits_set word_index)
  qed
  show ?thesis
  proof (cases "first_word wi m (drop (wi + 1) d)")
    case None
    then have z: "\<forall>v \<in> set (m # drop (wi + 1) d). v = 0" using first_word_None by auto
    have "?w k \<in> set (m # drop (wi + 1) d)" if "wi \<le> k" "k < length d" for k
      using that by (intro nth_mem) auto
    then have "i \<notin> bits_set d" if "start \<le> i" for i
      using set_iff [OF that] z from_start [OF that] by force
    then show ?thesis using None by auto
  next
    case (Some p)
    obtain j v where p: "p = (j, v)" by force
    note fw = first_word_Some [OF Some [unfolded p]]
    have j: "wi \<le> j" "j < length d" "v \<noteq> 0" using fw len by auto
    have v: "v = (if j = wi then m else d ! j)" using fw nth [OF j(1)] by simp
    note cz = countr_zero_spec [OF j(3)]
    let ?a = "j * 64 + countr_zero v"
    have a: "?a div 64 = j" using cz(1) by simp
    have "bit (d ! j) (countr_zero v)" using cz(2) v mask [OF cz(1)] by (auto split: if_splits)
    moreover have "start \<le> ?a"
    proof (cases "j = wi")
      case True
      then show ?thesis using cz(2) v mask [OF cz(1)] by simp
    next
      case False
      then show ?thesis using j(1) a div_le_mono [of ?a start 64] by (simp add: wi)
    qed
    moreover have "i \<notin> bits_set d" if i: "start \<le> i" "i < ?a" for i
    proof (cases "i div 64 = j")
      case True
      then have "i mod 64 < countr_zero v" using i(2) div_mult_mod_eq [of i 64] by linarith
      then show ?thesis using cz(3) set_iff [OF i(1)] True fw by simp
    next
      case False
      then have "i div 64 < j" using div_le_mono [of i ?a 64] i(2) a by simp
      then show ?thesis using set_iff [OF i(1)] fw from_start [OF i(1)] by simp
    qed
    ultimately show ?thesis using j(2) cz(1) unfolding Some p option.case prod.case by auto
  qed
qed

lemma first_range_correct: "is_first_range d start (first_range_from d start)"
proof (cases "start < length d * 64")
  case False
  then have "bits_set d \<inter> {start..} = {}" by (auto simp: mem_bits_set)
  then show ?thesis using False by (simp add: is_first_range_def first_range_from_def array_bits_def Let_def)
next
  case True
  define wi where "wi = start div 64"
  define m where "m = d ! wi AND start_mask (start mod 64)"
  note up = search_up_correct [OF True wi_def m_def]
  have start: "\<not> array_bits d \<le> start" using True by (simp add: array_bits_def)
  show ?thesis
  proof (cases "first_word wi m (drop (wi + 1) d)")
    case None
    then show ?thesis using start up
      by (simp add: is_first_range_def first_range_from_def wi_def [symmetric] m_def [symmetric] Let_def)
  next
    case (Some p)
    obtain j v where p: "p = (j, v)" by force
    define fb where "fb = countr_zero v"
    define c where "c = countr_one (drop_bit fb (d ! j))"
    define a where "a = j * 64 + fb"
    define e where "e = (if fb + c < 64 then a + c
      else case run_end (j + 1) (drop (j + 1) d) of None \<Rightarrow> array_bits d | Some e \<Rightarrow> e)"
    have u: "j < length d" "fb < 64" "bit (d ! j) fb" "start \<le> a" "bits_set d \<inter> {start ..< a} = {}"
      using up unfolding Some p option.case prod.case fb_def a_def by simp_all
    have r: "first_range_from d start = (a, e)"
      using start Some p u(2) by (simp add: first_range_from_def wi_def [symmetric] m_def [symmetric]
          fb_def [symmetric] a_def e_def c_def [symmetric] Let_def split: option.split)
    note run = run_up_correct [OF u(1-3) a_def c_def e_def]
    then have "a \<in> bits_set d" by auto
    then show ?thesis using run u(4,5) by (auto simp: r is_first_range_def)
  qed
qed

subsection \<open>Searching from the end\<close>

lemma final_word_Some:
  "\<lbrakk>final_word i w ws = Some (j, v); length ws = i\<rbrakk> \<Longrightarrow> v \<noteq> 0 \<and> j \<le> i \<and> v = (w # ws) ! (i - j)
     \<and> (\<forall>k. j < k \<and> k \<le> i \<longrightarrow> (w # ws) ! (i - k) = 0)"
proof (induction ws arbitrary: i w)
  case Nil
  then show ?case by (auto split: if_splits)
next
  case (Cons u us)
  show ?case
  proof (cases "w = 0")
    case False
    then show ?thesis using Cons.prems by auto
  next
    case True
    then have "final_word (i - 1) u us = Some (j, v)" using Cons.prems by simp
    note ih = Cons.IH [OF this]
    have s: "(w # u # us) ! (i - k) = (u # us) ! (i - 1 - k)" if "k \<le> i - 1" for k
      using that Cons.prems(2) by (auto simp: nth_Cons')
    have z: "(w # u # us) ! (i - k) = 0" if "j < k" "k \<le> i" for k
    proof (cases "k = i")
      case False
      then have "k \<le> i - 1" using that(2) by linarith
      then show ?thesis using s ih that(1) Cons.prems(2) by simp
    qed (use True in simp)
    have "j \<le> i - 1" "length us = i - 1" using ih Cons.prems(2) by auto
    moreover from this have "v = (w # u # us) ! (i - j)" using ih s [of j] by simp
    ultimately show ?thesis using z ih Cons.prems(2) by auto
  qed
qed

lemma final_word_None: "final_word i w ws = None \<Longrightarrow> w = 0 \<and> (\<forall>v \<in> set ws. v = 0)"
  by (induction ws arbitrary: i w) (auto split: if_splits)

lemma run_start_Some:
  "\<lbrakk>run_start i ws = Some s; length ws = i + 1\<rbrakk>
   \<Longrightarrow> \<exists>k \<le> i. ws ! (i - k) \<noteq> ones \<and> (\<forall>j. k < j \<and> j \<le> i \<longrightarrow> ws ! (i - j) = ones) \<and> s = (k + 1) * 64 - countl_one (ws ! (i - k))"
proof (induction ws arbitrary: i)
  case (Cons w ws)
  show ?case
  proof (cases "w = ones")
    case False
    then show ?thesis using Cons.prems by (intro exI [of _ i]) auto
  next
    case True
    then have r: "run_start (i - 1) ws = Some s" using Cons.prems by simp
    then have "ws \<noteq> []" by auto
    then have i: "0 < i" "length ws = i - 1 + 1" using Cons.prems(2) by (cases ws; simp)+
    from Cons.IH [OF r i(2)] obtain k where k: "k \<le> i - 1" "ws ! (i - 1 - k) \<noteq> ones"
      "\<forall>j. k < j \<and> j \<le> i - 1 \<longrightarrow> ws ! (i - 1 - j) = ones" "s = (k + 1) * 64 - countl_one (ws ! (i - 1 - k))" by blast
    have n: "(w # ws) ! (i - j) = ws ! (i - 1 - j)" if "j \<le> i - 1" for j
      using that i(1) by (auto simp: nth_Cons')
    have "(w # ws) ! (i - j) = ones" if "k < j" "j \<le> i" for j
      using that k(3) n [of j] True by (cases "j = i") auto
    then show ?thesis using k n i(1) by (intro exI [of _ k]) auto
  qed
qed simp

lemma run_start_None: "run_start i ws = None \<Longrightarrow> \<forall>w \<in> set ws. w = ones"
  by (induction ws arbitrary: i) (auto split: if_splits)

lemma countl_one_less: "w \<noteq> ones \<Longrightarrow> countl_one w < 64"
proof (rule ccontr)
  assume w: "w \<noteq> ones" and n: "\<not> countl_one w < 64"
  have "\<forall>b < 64. bit w b" using countl_one_spec(2) [where w = w] n by simp
  then show False using w word_eq_ones by blast
qed

lemma run_start_word:
  assumes "run_start (j - 1) (rev (take j d)) = Some x" "j \<le> length d"
  shows "\<exists>q < j. d ! q \<noteq> ones \<and> (\<forall>r. q < r \<and> r < j \<longrightarrow> d ! r = ones) \<and> x = (q + 1) * 64 - countl_one (d ! q)"
proof -
  have j: "0 < j" using assms(1) by (cases j) simp_all
  then have len: "length (rev (take j d)) = j - 1 + 1" using assms(2) by simp
  have n: "rev (take j d) ! (j - 1 - k) = d ! k" if "k \<le> j - 1" for k
    using that j assms(2) by (simp add: rev_nth)
  from run_start_Some [OF assms(1) len] obtain k where k: "k \<le> j - 1" "rev (take j d) ! (j - 1 - k) \<noteq> ones"
    "\<forall>i. k < i \<and> i \<le> j - 1 \<longrightarrow> rev (take j d) ! (j - 1 - i) = ones"
    "x = (k + 1) * 64 - countl_one (rev (take j d) ! (j - 1 - k))" by blast
  have "d ! r = ones" if "k < r" "r < j" for r
    using k(3) [rule_format, of r] n [of r] that by simp
  then show ?thesis using k n [OF k(1)] j by (intro exI [of _ k]) auto
qed

text \<open>The start of a run that fills its last word up to a position.\<close>

lemma run_start_correct:
  assumes j: "j < length d" "t < 64" and full: "\<And>b. b \<le> t \<Longrightarrow> bit (d ! j) b"
    and b: "b = j * 64 + t + 1"
    and a: "a = (case run_start (j - 1) (rev (take j d)) of None \<Rightarrow> 0 | Some s \<Rightarrow> s)"
  shows "a < b \<and> {a ..< b} \<subseteq> bits_set d \<and> (a = 0 \<or> a - 1 \<notin> bits_set d)"
proof -
  have before: "i \<in> bits_set d" if "i < b" "\<And>q. i div 64 \<le> q \<Longrightarrow> q < j \<Longrightarrow> d ! q = ones" for i
  proof (cases "i div 64 = j")
    case True
    then have i: "i = j * 64 + i mod 64" by (metis div_mult_mod_eq)
    then have "i mod 64 \<le> t" using that(1) unfolding b by linarith
    then have "bit (d ! j) (i mod 64)" using full by simp
    then show ?thesis using in_word [of d j "i mod 64"] i j(1) by simp
  next
    case False
    have "(b - 1) div 64 = j" using j(2) by (simp add: b)
    then have "i div 64 < j" using False div_le_mono [of i "b - 1" 64] that(1) by simp
    then show ?thesis using that(2) [of "i div 64"] j(1) by (simp add: mem_bits_set word_index)
  qed
  show ?thesis
  proof (cases "run_start (j - 1) (rev (take j d))")
    case None
    have o: "d ! q = ones" if "q < j" for q
    proof -
      have "take j d ! q \<in> set (take j d)" by (rule nth_mem) (use that j(1) in simp)
      then show ?thesis using run_start_None [OF None] that by simp
    qed
    show ?thesis unfolding a None option.case using before o by (auto simp: b)
  next
    case (Some x)
    from run_start_word [OF this] j(1) obtain q where q: "q < j" "d ! q \<noteq> ones"
      "\<forall>r. q < r \<and> r < j \<longrightarrow> d ! r = ones" and x: "x = (q + 1) * 64 - countl_one (d ! q)" by auto
    have less: "countl_one (d ! q) < 64" using q(2) by (rule countl_one_less)
    define t0 where "t0 = 63 - countl_one (d ! q)"
    have x': "x = q * 64 + t0 + 1" "t0 < 64" using less by (simp_all add: x t0_def)
    have "(q + 1) * 64 \<le> j * 64" by (rule mult_le_mono1) (use q in simp)
    then have "x < b" using x' by (simp add: b)
    moreover have "x - 1 \<notin> bits_set d" using countl_one_spec(3) [OF less] x' by (simp add: mem_bits_set t0_def)
    moreover have "i \<in> bits_set d" if i: "x \<le> i" "i < b" for i
    proof (cases "i div 64 = q")
      case False
      have "q \<le> i div 64" using div_le_mono [of "q * 64" i 64] i(1) x' by simp
      then show ?thesis using before [OF i(2)] False q by simp
    next
      case True
      then have "i = q * 64 + i mod 64" by (metis div_mult_mod_eq)
      then have "t0 + 1 \<le> i mod 64" using i(1) unfolding x'(1) by linarith
      then have "64 - countl_one (d ! q) \<le> i mod 64" using less by (simp add: t0_def)
      then show ?thesis using countl_one_spec(2) True q(1) j(1) by (simp add: mem_bits_set word_index)
    qed
    ultimately show ?thesis unfolding a Some option.case by auto
  qed
qed

text \<open>The start of the run that ends at a set bit, of a word whose higher bits are masked away.\<close>

lemma run_down_correct:
  assumes j: "j < length d" and v: "v \<noteq> 0" "\<And>b. b \<le> 63 - countl_zero v \<Longrightarrow> bit v b = bit (d ! j) b"
    and c: "c = countl_one (push_bit (countl_zero v) v)" and b: "b = (j + 1) * 64 - countl_zero v"
    and a: "a = (if countl_zero v + c < 64 then b - c
      else case run_start (j - 1) (rev (take j d)) of None \<Rightarrow> 0 | Some s \<Rightarrow> s)"
  shows "a < b \<and> {a ..< b} \<subseteq> bits_set d \<and> (a = 0 \<or> a - 1 \<notin> bits_set d)"
proof -
  note cz = countl_zero_spec [OF v(1)]
  define t where "t = 63 - countl_zero v"
  have t: "t < 64" "countl_zero v = 63 - t" "t \<le> 63" using cz(1) by (simp_all add: t_def)
  note co = countl_one_spec [where w = "push_bit (countl_zero v) v", folded c]
  have bit: "bit (push_bit (countl_zero v) v) i \<longleftrightarrow> 63 - t \<le> i \<and> i < 64 \<and> bit v (i - (63 - t))" for i
    by (auto simp: bit_push_bit_iff t(2))
  have run: "bit v i" if "i \<le> t" "t < i + c" for i
    using co(2) [of "i + (63 - t)"] that t bit by auto
  have top: "bit v t" using cz(2) by (simp add: t_def)
  have b': "b = j * 64 + t + 1" using cz(1) by (simp add: b t_def)
  show ?thesis
  proof (cases "countl_zero v + c < 64")
    case True
    then have c': "c \<le> t" "c < 64" using t by simp_all
    have pos: "0 < c"
    proof (rule ccontr)
      assume "\<not> 0 < c"
      then have "\<not> bit (push_bit (countl_zero v) v) 63" using co(3) by simp
      then show False using bit [of 63] top t by simp
    qed
    have low: "\<not> bit v (t - c)"
    proof -
      have "63 - c - (63 - t) = t - c" "63 - t \<le> 63 - c" "63 - c < 64" using c'(1) t(1) by linarith+
      then show ?thesis using co(3) [OF c'(2)] bit [of "63 - c"] by simp
    qed
    have m: "b - c - 1 = j * 64 + (t - c)" using c' by (simp add: b')
    have "(b - c - 1) div 64 = j" "(b - c - 1) mod 64 = t - c" unfolding m using t by simp_all
    then have out: "b - c - 1 \<notin> bits_set d" using low v(2) [of "t - c"] by (simp add: mem_bits_set t_def)
    have mem: "i \<in> bits_set d" if i: "b - c \<le> i" "i < b" for i
    proof -
      obtain u where u: "i = j * 64 + u" "u \<le> t" "t < u + c"
        using i c' unfolding b' by (intro that [of "i - j * 64"]) linarith+
      have "bit v u" by (rule run [OF u(2,3)])
      then have "bit (d ! j) u" using v(2) [of u] u(2) by (simp add: t_def)
      then show ?thesis unfolding u(1) by (rule in_word) (use u(2) t(1) j in simp_all)
    qed
    have a': "a = b - c" using True by (simp add: a)
    have "a < b" using pos b' by (simp add: a')
    moreover have "{a ..< b} \<subseteq> bits_set d" using mem by (auto simp only: a' atLeastLessThan_iff)
    moreover have "a - 1 \<notin> bits_set d" unfolding a' by (rule out)
    ultimately show ?thesis by blast
  next
    case False
    have "bit (d ! j) i" if "i \<le> t" for i
    proof -
      have "t < i + c" "i \<le> 63 - countl_zero v" using False t that by linarith+
      then show ?thesis using run [OF that] v(2) [of i] by blast
    qed
    then show ?thesis using False by (intro run_start_correct [OF j t(1) _ b']) (simp_all add: a)
  qed
qed

definition is_last_range :: "bit_array \<Rightarrow> nat \<Rightarrow> nat \<times> nat \<Rightarrow> bool" where
  "is_last_range d end r \<longleftrightarrow> (case r of (a, b) \<Rightarrow>
     (if bits_set d \<inter> {..< end} = {} then a = 0 \<and> b = 0
      else a < b \<and> b \<le> end \<and> {a ..< b} \<subseteq> bits_set d
        \<and> bits_set d \<inter> {b ..< end} = {} \<and> (a = 0 \<or> a - 1 \<notin> bits_set d)))"

text \<open>The last set bit before a position.\<close>

lemma search_down_correct:
  assumes e: "0 < end" "end \<le> length d * 64" and wi: "wi = (end - 1) div 64" and m: "m = d ! wi AND end_mask ((end - 1) mod 64)"
  shows "case final_word wi m (rev (take wi d)) of
      None \<Rightarrow> bits_set d \<inter> {..< end} = {}
    | Some (j, v) \<Rightarrow> j < length d \<and> v \<noteq> 0 \<and> (\<forall>b \<le> 63 - countl_zero v. bit v b = bit (d ! j) b)
        \<and> (j + 1) * 64 - countl_zero v \<le> end \<and> bits_set d \<inter> {(j + 1) * 64 - countl_zero v ..< end} = {}"
proof -
  have len: "wi < length d" using final_word_less [of 0 "end" "length d"] e by (simp add: wi)
  define t where "t = (end - 1) mod 64"
  have t: "end = wi * 64 + t + 1" "t < 64" using e(1) div_mult_mod_eq [of "end - 1" 64] by (simp_all add: t_def wi)
  have mask: "bit m b \<longleftrightarrow> bit (d ! wi) b \<and> b \<le> t" for b
    by (simp add: m bit_and_iff t_def)
  let ?w = "\<lambda>k. (m # rev (take wi d)) ! (wi - k)"
  have nth: "?w k = (if k = wi then m else d ! k)" if "k \<le> wi" for k
    using that len by (auto simp: nth_Cons' rev_nth)
  have to_end: "i div 64 \<le> wi" if "i < end" for i using that e(1) by (simp add: wi div_le_mono)
  have set_iff: "i \<in> bits_set d \<longleftrightarrow> bit (?w (i div 64)) (i mod 64)" if "i < end" for i
  proof -
    have "i mod 64 \<le> t" if "i div 64 = wi" using that \<open>i < end\<close> div_mult_mod_eq [of i 64] unfolding t(1) by linarith
    then show ?thesis using mask [of "i mod 64"] nth [OF to_end [OF that]] to_end [OF that] len
      by (auto simp: mem_bits_set word_index)
  qed
  show ?thesis
  proof (cases "final_word wi m (rev (take wi d))")
    case None
    then have z: "\<forall>v \<in> set (m # rev (take wi d)). v = 0" using final_word_None by auto
    have "?w k \<in> set (m # rev (take wi d))" if "k \<le> wi" for k
      using that len by (intro nth_mem) auto
    then have "i \<notin> bits_set d" if "i < end" for i
      using set_iff [OF that] z to_end [OF that] by force
    then show ?thesis using None by auto
  next
    case (Some p)
    obtain j v where p: "p = (j, v)" by force
    have fw: "v \<noteq> 0 \<and> j \<le> wi \<and> v = ?w j \<and> (\<forall>k. j < k \<and> k \<le> wi \<longrightarrow> ?w k = 0)"
      by (rule final_word_Some [OF Some [unfolded p]]) (use len in simp)
    then have "j \<le> wi" "v = ?w j" and v0: "v \<noteq> 0" by blast+
    then have v: "v = (if j = wi then m else d ! j)" "v \<noteq> 0" "j < length d" using nth [of j] len by simp_all
    note cz = countl_zero_spec [OF v(2)]
    define u where "u = 63 - countl_zero v"
    have u: "(j + 1) * 64 - countl_zero v = j * 64 + u + 1" "u < 64" using cz(1) by (simp_all add: u_def)
    have top: "bit v u" using cz(2) by (simp add: u_def)
    have "\<forall>b \<le> u. bit v b = bit (d ! j) b"
      using v(1) mask [of u] top mask by (auto split: if_splits)
    moreover have "j * 64 + u + 1 \<le> end"
    proof (cases "j = wi")
      case True
      then show ?thesis using top v(1) mask [of u] t by simp
    next
      case False
      then have "(j + 1) * 64 \<le> wi * 64" using fw by (intro mult_le_mono1) simp
      then show ?thesis using u(2) t(1) by simp
    qed
    moreover have "i \<notin> bits_set d" if i: "j * 64 + u + 1 \<le> i" "i < end" for i
    proof (cases "i div 64 = j")
      case True
      then have "u < i mod 64" using i(1) div_mult_mod_eq [of i 64] by linarith
      then show ?thesis using cz(3) set_iff [OF i(2)] True fw by (simp add: u_def)
    next
      case False
      moreover have "j \<le> i div 64" using div_le_mono [of "j * 64" i 64] i(1) by simp
      ultimately show ?thesis using set_iff [OF i(2)] fw to_end [OF i(2)] by simp
    qed
    ultimately show ?thesis using v(2,3) unfolding Some p option.case prod.case u(1) u_def by auto
  qed
qed

lemma last_range_correct:
  assumes "d \<noteq> []"
  shows "is_last_range d (min end (array_bits d)) (last_range_from d end)"
proof (cases "end = 0")
  case True
  then show ?thesis by (simp add: is_last_range_def last_range_from_def)
next
  case False
  define n where "n = min end (array_bits d)"
  define wi where "wi = (n - 1) div 64"
  define m where "m = d ! wi AND end_mask ((n - 1) mod 64)"
  have n: "0 < n" "n \<le> length d * 64" "(if end > array_bits d then array_bits d else end) = n" "end \<noteq> 0"
    using False assms by (auto simp: n_def array_bits_def)
  note down = search_down_correct [OF n(1,2) wi_def m_def]
  show ?thesis
  proof (cases "final_word wi m (rev (take wi d))")
    case None
    then have "last_range_from d end = (0, 0)"
      unfolding last_range_from_def n(3) Let_def wi_def [symmetric] m_def [symmetric] using n(4) by simp
    then show ?thesis using None down by (simp add: is_last_range_def n_def [symmetric])
  next
    case (Some p)
    obtain j v where p: "p = (j, v)" by force
    define c where "c = countl_one (push_bit (countl_zero v) v)"
    define b where "b = (j + 1) * 64 - countl_zero v"
    define a where "a = (if countl_zero v + c < 64 then b - c
      else case run_start (j - 1) (rev (take j d)) of None \<Rightarrow> 0 | Some s \<Rightarrow> s)"
    have u: "j < length d" "v \<noteq> 0" "\<And>i. i \<le> 63 - countl_zero v \<Longrightarrow> bit v i = bit (d ! j) i"
      "b \<le> n" "bits_set d \<inter> {b ..< n} = {}"
      using down unfolding Some p option.case prod.case b_def by blast+
    have r: "last_range_from d end = (a, b)"
      unfolding last_range_from_def n(3) Let_def wi_def [symmetric] m_def [symmetric] Some p option.case prod.case
        c_def [symmetric] b_def [symmetric] a_def using n(4) by (simp split: option.split)
    note run = run_down_correct [OF u(1-3) c_def b_def a_def]
    then have "a \<in> bits_set d \<inter> {..< n}" using u(4) by auto
    then have "bits_set d \<inter> {..< n} \<noteq> {}" by blast
    then show ?thesis using run u(4,5) by (simp add: r is_last_range_def n_def [symmetric])
  qed
qed

subsection \<open>Single bits and whole arrays\<close>

lemma single_bit [simp]: "bit (2 ^ k :: 64 word) b \<longleftrightarrow> b = k \<and> b < 64"
  by (auto simp: bit_exp_iff)

lemma ba_get_iff: "i < array_bits d \<Longrightarrow> ba_get d i \<longleftrightarrow> i \<in> bits_set d"
proof -
  assume "i < array_bits d"
  moreover have "d ! (i div 64) AND push_bit (i mod 64) 1 = 0 \<longleftrightarrow> \<not> bit (d ! (i div 64)) (i mod 64)"
    unfolding word_eq_0 bit_and_iff push_bit_of_1 single_bit by (metis mod_less_divisor zero_less_numeral)
  ultimately show ?thesis by (simp add: ba_get_def mem_bits_set array_bits_def)
qed

lemma position_eq: "b < 64 \<Longrightarrow> q * 64 + b = i \<longleftrightarrow> q = i div 64 \<and> b = (i :: nat) mod 64"
  by auto

lemma ba_set_bits: "i < array_bits d \<Longrightarrow> bits_set (ba_set d i) = insert i (bits_set d)"
  by (rule bits_set_eqI)
    (auto simp: ba_set_def nth_list_update bit_or_iff mem_bits_set word_index position_eq array_bits_def)

lemma ba_unset_bits: "i < array_bits d \<Longrightarrow> bits_set (ba_unset d i) = bits_set d - {i}"
  by (rule bits_set_eqI)
    (auto simp: ba_unset_def nth_list_update bit_and_iff bit_not_iff mem_bits_set word_index position_eq array_bits_def)

lemma ba_not_bits: "bits_set (ba_not d) = {..< array_bits d} - bits_set d"
  by (rule bits_set_eqI) (auto simp: ba_not_def mem_bits_set word_index array_bits_def bit_not_iff)

lemma ba_xor_bits:
  "length e = length d \<Longrightarrow> bits_set (ba_xor d e) = (bits_set d - bits_set e) \<union> (bits_set e - bits_set d)"
  by (rule bits_set_eqI) (auto simp: ba_xor_def mem_bits_set word_index array_bits_def bit_xor_iff)

lemma ba_clear_bits: "bits_set (ba_clear d) = {}"
  by (auto simp: mem_bits_set ba_clear_def word_index)

lemma ba_fill_bits: "bits_set (ba_fill d) = {..< array_bits d}"
  by (auto simp: mem_bits_set ba_fill_def word_index array_bits_def)

lemma fold_or_bit: "bit (fold (\<lambda>w c. c OR w) d c0) b \<longleftrightarrow> bit c0 b \<or> (\<exists>w \<in> set d. bit (w :: 64 word) b)"
  by (induction d arbitrary: c0) (auto simp: bit_or_iff)

lemma ba_none_iff: "ba_none d \<longleftrightarrow> bits_set d = {}"
proof -
  have "ba_none d \<longleftrightarrow> (\<forall>w \<in> set d. \<forall>b < 64. \<not> bit w b)"
    unfolding ba_none_def word_eq_0 fold_or_bit by auto
  also have "\<dots> \<longleftrightarrow> (\<forall>q < length d. \<forall>b < 64. q * 64 + b \<notin> bits_set d)"
    by (auto simp: mem_bits_set word_index all_set_conv_all_nth)
  also have "\<dots> \<longleftrightarrow> bits_set d = {}"
  proof
    assume h: "\<forall>q < length d. \<forall>b < 64. q * 64 + b \<notin> bits_set d"
    have "i \<notin> bits_set d" for i
      using h [rule_format, of "i div 64" "i mod 64"] by (auto simp: mem_bits_set word_index)
    then show "bits_set d = {}" by blast
  qed simp
  finally show ?thesis .
qed

subsection \<open>Iteration\<close>

lemma first_range_end: "first_range_from d (array_bits d) = (array_bits d, array_bits d)"
  by (simp add: first_range_from_def Let_def)

lemma iterate_ranges_correct:
  "array_bits d < n + min s (array_bits d) \<Longrightarrow> \<exists>rs. iterate_ranges n d (first_range_from d s) = Some rs
     \<and> (\<forall>(a, b) \<in> set rs. s \<le> a \<and> a < b \<and> b \<notin> bits_set d) \<and> sorted_wrt (\<lambda>(a, b) (a', b'). b < a') rs
     \<and> (\<Union>(a, b) \<in> set rs. {a ..< b}) = bits_set d \<inter> {s..}"
proof (induction n arbitrary: s)
  case 0
  then show ?case by simp
next
  case (Suc n)
  obtain a b where r: "first_range_from d s = (a, b)" by force
  note c = first_range_correct [of d s, unfolded r is_first_range_def prod.case]
  show ?case
  proof (cases "bits_set d \<inter> {s..} = {}")
    case True
    then show ?thesis using c by (simp add: r first_range_end)
  next
    case False
    then have f: "s \<le> a" "a < b" "b \<le> array_bits d" "{a ..< b} \<subseteq> bits_set d" "bits_set d \<inter> {s ..< a} = {}" "b \<notin> bits_set d"
      using c by simp_all
    have "array_bits d < n + min b (array_bits d)" using Suc.prems f(1-3) by simp
    from Suc.IH [OF this] obtain rs where rs: "iterate_ranges n d (first_range_from d b) = Some rs"
      "\<forall>(a, b') \<in> set rs. b \<le> a \<and> a < b' \<and> b' \<notin> bits_set d" "sorted_wrt (\<lambda>(a, b) (a', b'). b < a') rs"
      "(\<Union>(a, b) \<in> set rs. {a ..< b}) = bits_set d \<inter> {b..}" by blast
    have gap: "b < a'" if "(a', b') \<in> set rs" for a' b'
    proof -
      have "b \<le> a'" "a' < b'" using rs(2) that by auto
      then have "a' \<in> (\<Union>(a, b) \<in> set rs. {a ..< b})" using that by force
      then have "a' \<in> bits_set d" unfolding rs(4) by simp
      then show ?thesis using f(6) \<open>b \<le> a'\<close> by (cases "a' = b") auto
    qed
    have "iterate_ranges (Suc n) d (a, b) = Some ((a, b) # rs)"
      using rs(1) f(2,3) by (auto simp: first_range_end)
    moreover have "bits_set d \<inter> {s..} = {a ..< b} \<union> (bits_set d \<inter> {b..})"
    proof (rule set_eqI)
      fix i
      show "i \<in> bits_set d \<inter> {s..} \<longleftrightarrow> i \<in> {a ..< b} \<union> (bits_set d \<inter> {b..})"
        using f(1,2,4,5) by (cases "i < a"; cases "i < b") auto
    qed
    ultimately show ?thesis using rs(2-4) gap f by (auto simp: r) 
  qed
qed

lemma ba_ranges_correct:
  obtains rs where "ba_ranges d = Some rs" "\<forall>(a, b)\<in>set rs. a < b \<and> b \<notin> bits_set d"
    "sorted_wrt (\<lambda>(a, b) (a', b'). b < a') rs" "(\<Union>(a, b)\<in>set rs. {a..<b}) = bits_set d"
proof -
  have "array_bits d < array_bits d + 1 + min 0 (array_bits d)" by simp
  from iterate_ranges_correct [OF this] obtain rs where rs: "ba_ranges d = Some rs"
    "\<forall>(a, b) \<in> set rs. 0 \<le> a \<and> a < b \<and> b \<notin> bits_set d" "sorted_wrt (\<lambda>(a, b) (a', b'). b < a') rs"
    "(\<Union>(a, b) \<in> set rs. {a ..< b}) = bits_set d \<inter> {0..}" unfolding ba_ranges_def by blast
  have "bits_set d \<inter> {0..} = bits_set d" by auto
  moreover have "\<forall>(a, b)\<in>set rs. a < b \<and> b \<notin> bits_set d" using rs(2) by auto
  ultimately show thesis using that rs(1,3,4) by simp
qed

subsection \<open>Properties\<close>

text \<open>
  C31. A bit array is a set of positions below its size: a test asks for membership, setting and
  clearing bits and ranges adds and removes them (a range that is empty or too long does nothing),
  the copy of a range keeps that part, complement and exclusive or are those of sets, and an array has
  none set exactly when the set is empty.
\<close>

theorem bit_array_is_set:
  assumes "i < array_bits d" and "length e = length d"
  shows "(ba_get d i \<longleftrightarrow> i \<in> bits_set d) \<and> bits_set (ba_set d i) = insert i (bits_set d)
    \<and> bits_set (ba_unset d i) = bits_set d - {i}
    \<and> bits_set (set_range d a b) = (if b \<le> array_bits d then bits_set d \<union> {a ..< b} else bits_set d)
    \<and> bits_set (unset_range d a b) = (if b \<le> array_bits d then bits_set d - {a ..< b} else bits_set d)
    \<and> bits_set (ba_copy d a b) = (if b \<le> array_bits d then bits_set d \<inter> {a ..< b} else {})
    \<and> bits_set (ba_not d) = {..< array_bits d} - bits_set d
    \<and> bits_set (ba_xor d e) = (bits_set d - bits_set e) \<union> (bits_set e - bits_set d)
    \<and> bits_set (ba_clear d) = {} \<and> bits_set (ba_fill d) = {..< array_bits d}
    \<and> (ba_none d \<longleftrightarrow> bits_set d = {}) \<and> (ba_any d \<longleftrightarrow> bits_set d \<noteq> {})"
proof -
  have off: "set_range d a b = d" "unset_range d a b = d" "ba_copy d a b = ba_clear d" if "b \<le> a \<or> array_bits d < b"
    using that by (auto simp: set_range_def unset_range_def ba_copy_def ba_clear_def Let_def)
  have "bits_set (set_range d a b) = (if b \<le> array_bits d then bits_set d \<union> {a ..< b} else bits_set d)"
    "bits_set (unset_range d a b) = (if b \<le> array_bits d then bits_set d - {a ..< b} else bits_set d)"
    "bits_set (ba_copy d a b) = (if b \<le> array_bits d then bits_set d \<inter> {a ..< b} else {})"
    using off set_range_bits [of a b d] unset_range_bits [of a b d] ba_copy_bits [of a b d] ba_clear_bits [of d]
    by (cases "a < b \<and> b \<le> array_bits d"; auto)+
  then show ?thesis
    using assms by (simp add: ba_get_iff ba_set_bits ba_unset_bits ba_not_bits ba_xor_bits ba_clear_bits
        ba_fill_bits ba_none_iff ba_any_def)
qed

theorem bit_array_is_set_witness: "bits_set (set_range [0, 0] 60 70) = {60 ..< 70}"
proof -
  have "bits_set [0, 0] = {}" using ba_clear_bits [of "[0, 0]"] by (simp add: ba_clear_def)
  then show ?thesis using bit_array_is_set [of 0 "[0, 0]" "[0, 0]" 60 70] by (simp add: array_bits_def)
qed

text \<open>
  C32. The searches find maximal runs: upwards from a position the first one (cut at the position), from
  the end downwards the last one, the ends of the array where there is none; and the loop over an array
  ends and meets every set bit in one of its runs, in order and with a gap between two runs.
\<close>

theorem bit_array_runs:
  assumes "d \<noteq> []"
  shows "is_first_range d start (first_range_from d start)
    \<and> is_last_range d (min end (array_bits d)) (last_range_from d end)
    \<and> (\<exists>rs. ba_ranges d = Some rs \<and> (\<Union>(a, b) \<in> set rs. {a ..< b}) = bits_set d
         \<and> (\<forall>(a, b) \<in> set rs. a < b \<and> b \<notin> bits_set d) \<and> sorted_wrt (\<lambda>(a, b) (a', b'). b < a') rs)"
proof -
  obtain rs where "ba_ranges d = Some rs" "\<forall>(a, b)\<in>set rs. a < b \<and> b \<notin> bits_set d"
    "sorted_wrt (\<lambda>(a, b) (a', b'). b < a') rs" "(\<Union>(a, b)\<in>set rs. {a..<b}) = bits_set d"
    by (rule ba_ranges_correct)
  then show ?thesis using first_range_correct last_range_correct [OF assms] by simp
qed

theorem bit_array_runs_witness: "is_first_range [6, 0] 0 (first_range_from [6, 0] 0)"
  using bit_array_runs [of "[6, 0]" 0] by blast

end
