(* ===== verification/PooledMemory.thy ===== *)
theory PooledMemory
  imports FreeRanges MemBase
begin

text \<open>
  The class \<open>PooledMemory\<close> of src/kernel/memory.cpp: physical ranges the pool has been given, the parts of
  them that are free, as a sorted vector without adjacent ranges, and the mappings.  Every method holds
  the class mutex throughout.  A range is a pair of its start and its size.
\<close>

record pmapping =
  pl_vaddr :: u64
  pl_size :: u64
  pl_phys :: u64
  pl_gpu :: gpu_mode

record pool =
  p_free :: "(u64 \<times> u64) list"
  p_expansions :: "(u64 \<times> u64) list"
  p_mappings :: "pmapping list"

text \<open>The merging loop of \<open>AddFreeUnlocked\<close>; the ranges merged so far are held back to front.\<close>

fun merge_ranges :: "(u64 \<times> u64) list \<Rightarrow> (u64 \<times> u64) list \<Rightarrow> (u64 \<times> u64) list" where
  "merge_ranges merged [] = rev merged"
| "merge_ranges [] (r # rs) = merge_ranges [r] rs"
| "merge_ranges ((b, n) # merged) ((s, k) # rs) =
     (if s \<le> add64 b n
      then merge_ranges ((b, sub64 (max (add64 b n) (add64 s k)) b) # merged) rs
      else merge_ranges ((s, k) # (b, n) # merged) rs)"

definition add_free_unlocked :: "u64 \<Rightarrow> u64 \<Rightarrow> (u64 \<times> u64) list \<Rightarrow> (u64 \<times> u64) list" where
  "add_free_unlocked start sz free =
     (if sz = 0 then free else merge_ranges [] (sort_key fst (free @ [(start, sz)])))"

definition pool_expand :: "u64 \<Rightarrow> u64 \<Rightarrow> pool \<Rightarrow> pool" where
  "pool_expand phys_addr sz p =
     p\<lparr>p_expansions := p_expansions p @ [(phys_addr, sz)], p_free := add_free_unlocked phys_addr sz (p_free p)\<rparr>"

text \<open>Taking a range out of the free range that holds it; \<open>None\<close> where no free range does.\<close>

definition holds_range :: "u64 \<Rightarrow> u64 \<Rightarrow> u64 \<times> u64 \<Rightarrow> bool" where
  "holds_range phys_addr end r \<longleftrightarrow> phys_addr \<ge> fst r \<and> end \<le> add64 (fst r) (snd r)"

definition take_free :: "u64 \<Rightarrow> u64 \<Rightarrow> (u64 \<times> u64) list \<Rightarrow> (u64 \<times> u64) list option" where
  "take_free phys_addr sz free =
     (let end = add64 phys_addr sz in
      case find (holds_range phys_addr end) free of
        None \<Rightarrow> None
      | Some (start, n) \<Rightarrow>
          (let left_size = sub64 phys_addr start; right_size = sub64 (add64 start n) end
           in Some (sort_key fst (remove_first_where (holds_range phys_addr end) free
                @ (if left_size \<noteq> 0 then [(start, left_size)] else [])
                @ (if right_size \<noteq> 0 then [(end, right_size)] else [])))))"

definition pool_release_expansion :: "u64 \<Rightarrow> u64 \<Rightarrow> pool \<Rightarrow> pool \<times> bool" where
  "pool_release_expansion phys_addr sz p =
     (if (phys_addr, sz) \<notin> set (p_expansions p) then (p, False)
      else if \<exists>m \<in> set (p_mappings p). virtual_ranges_overlap phys_addr sz (pl_phys m) (pl_size m) then (p, False)
      else case take_free phys_addr sz (p_free p) of
             None \<Rightarrow> (p, False)
           | Some free \<Rightarrow> (p\<lparr>p_free := free, p_expansions := remove1 (phys_addr, sz) (p_expansions p)\<rparr>, True))"

text \<open>The loop of \<open>Allocate\<close>: the mappings made, what is left of the free ranges, and of the size.\<close>

fun alloc_parts :: "u64 \<Rightarrow> u64 \<Rightarrow> gpu_mode \<Rightarrow> (u64 \<times> u64) list \<Rightarrow> pmapping list \<times> (u64 \<times> u64) list \<times> u64" where
  "alloc_parts current remaining gpu [] = ([], [], remaining)"
| "alloc_parts current remaining gpu ((s, n) # free) =
     (if remaining = 0 \<or> n = 0
      then (let (ms, free', r) = alloc_parts current remaining gpu free in (ms, (s, n) # free', r))
      else (let part = min n remaining;
                (ms, free', r) = alloc_parts (add64 current part) (sub64 remaining part) gpu free
            in (\<lparr>pl_vaddr = current, pl_size = part, pl_phys = s, pl_gpu = gpu\<rparr> # ms,
                (add64 s part, sub64 n part) # free', r)))"

definition pool_allocate :: "u64 \<Rightarrow> u64 \<Rightarrow> gpu_mode \<Rightarrow> pool \<Rightarrow> pool \<times> pmapping list option" where
  "pool_allocate vaddr sz gpu p =
     (if vaddr = 0 \<or> sz = 0 \<or> U64_MAX - vaddr < sz then (p, None)
      else (let (ms, free, remaining) = alloc_parts vaddr sz gpu (p_free p)
            in if remaining \<noteq> 0 then (p, None)
               else (p\<lparr>p_free := filter (\<lambda>r. snd r \<noteq> 0) free, p_mappings := p_mappings p @ ms\<rparr>, Some ms)))"

definition maps_address :: "u64 \<Rightarrow> pmapping \<Rightarrow> bool" where
  "maps_address a m \<longleftrightarrow> a \<ge> pl_vaddr m \<and> a < add64 (pl_vaddr m) (pl_size m)"

text \<open>The loop of \<open>QueryUnlocked\<close>: the pieces from an address to the end, unless an address is not mapped.\<close>

function query_loop :: "u64 \<Rightarrow> u64 \<Rightarrow> pmapping list \<Rightarrow> pmapping list option" where
  "query_loop current end ms =
     (if \<not> current < end then Some []
      else case find (maps_address current) ms of
             None \<Rightarrow> None
           | Some m \<Rightarrow>
               (let part = min end (add64 (pl_vaddr m) (pl_size m)) - current
                in map_option (Cons \<lparr>pl_vaddr = current, pl_size = part,
                       pl_phys = add64 (pl_phys m) (current - pl_vaddr m), pl_gpu = pl_gpu m\<rparr>)
                     (query_loop (current + part) end ms)))"
  by pat_completeness auto

termination
  by (relation "measure (\<lambda>(current, end, ms). end - current)") (auto simp: maps_address_def find_Some_iff)

declare query_loop.simps [simp del]

definition pool_query :: "u64 \<Rightarrow> u64 \<Rightarrow> pool \<Rightarrow> pmapping list option" where
  "pool_query vaddr sz p =
     (if vaddr = 0 \<or> sz = 0 \<or> U64_MAX - vaddr < sz then None
      else query_loop vaddr (add64 vaddr sz) (p_mappings p))"

text \<open>What \<open>Release\<close> keeps of a mapping.\<close>

definition keep_parts :: "u64 \<Rightarrow> u64 \<Rightarrow> pmapping \<Rightarrow> pmapping list" where
  "keep_parts vaddr end m =
     (let mapping_end = add64 (pl_vaddr m) (pl_size m);
          cut_start = max vaddr (pl_vaddr m);
          cut_end = min end mapping_end
      in if cut_start \<ge> cut_end then [m]
         else (if pl_vaddr m < cut_start then [m\<lparr>pl_size := sub64 cut_start (pl_vaddr m)\<rparr>] else [])
           @ (if cut_end < mapping_end
              then [m\<lparr>pl_vaddr := cut_end, pl_size := sub64 mapping_end cut_end,
                      pl_phys := add64 (pl_phys m) (sub64 cut_end (pl_vaddr m))\<rparr>]
              else []))"

definition pool_release :: "u64 \<Rightarrow> u64 \<Rightarrow> pool \<Rightarrow> pool \<times> gpu_mode option" where
  "pool_release vaddr sz p =
     (case pool_query vaddr sz p of
        None \<Rightarrow> (p, None)
      | Some released \<Rightarrow>
          (p\<lparr>p_mappings := concat (map (keep_parts vaddr (add64 vaddr sz)) (p_mappings p)),
              p_free := fold (\<lambda>m. add_free_unlocked (pl_phys m) (pl_size m)) released (p_free p)\<rparr>,
           Some (pl_gpu (hd released))))"

definition pool_available :: "pool \<Rightarrow> u64" where
  "pool_available p = fold (\<lambda>(s, n) a. add64 a n) (p_free p) 0"

end
