(* ===== verification/RangeLists.thy ===== *)
theory RangeLists
  imports FreeRanges MemBase "HOL-Library.Multiset"
begin

text \<open>
  Lists of address ranges that need not be sorted: how often they cover an address, when they are
  disjoint, and how their sizes add up.  The pool and the flexible memory keep such lists, and their
  accounts of memory are statements about them.
\<close>

subsection \<open>How often a list of ranges covers an address\<close>

definition occ :: "u64 \<Rightarrow> (u64 \<times> u64) list \<Rightarrow> nat" where
  "occ x rs = length (filter (\<lambda>(a, n). x \<in> span a n) rs)"

definition real :: "(u64 \<times> u64) list \<Rightarrow> bool" where
  "real rs \<longleftrightarrow> (\<forall>(a, n)\<in>set rs. 0 < n \<and> a + n < two64)"

lemma occ_simps [simp]:
  "occ x [] = 0"
  "occ x (r # rs) = of_bool (x \<in> span (fst r) (snd r)) + occ x rs"
  "occ x (rs @ qs) = occ x rs + occ x qs"
  by (auto simp: occ_def case_prod_beta simp del: in_span)

lemma real_simps [simp]:
  "real []"
  "real (r # rs) \<longleftrightarrow> 0 < snd r \<and> fst r + snd r < two64 \<and> real rs"
  "real (rs @ qs) \<longleftrightarrow> real rs \<and> real qs"
  by (auto simp: real_def)

lemma occ_mset: "mset rs = mset qs \<Longrightarrow> occ x rs = occ x qs"
  unfolding occ_def by (metis mset_filter size_mset)

lemma real_set: "set rs = set qs \<Longrightarrow> real rs = real qs"
  by (simp add: real_def)

lemma occ_sort [simp]: "occ x (sort_key f rs) = occ x rs"
  by (rule occ_mset) simp

lemma real_sort [simp]: "real (sort_key f rs) = real rs"
  by (rule real_set) simp

lemma occ_cover: "0 < occ x rs \<longleftrightarrow> x \<in> fr_cover rs"
  by (induction rs) auto

lemma occ_member: "(a, n) \<in> set rs \<Longrightarrow> x \<in> span a n \<Longrightarrow> 0 < occ x rs"
  by (induction rs) auto

lemma occ_member': "(\<exists>r\<in>set rs. x \<in> span (fst r) (snd r)) \<longleftrightarrow> 0 < occ x rs"
  by (induction rs) auto

lemma real_in: "real rs \<Longrightarrow> r \<in> set rs \<Longrightarrow> 0 < snd r \<and> fst r + snd r < two64"
  by (auto simp: real_def)

lemma disjoint_occ: "\<forall>(b, k)\<in>set rs. span a n \<inter> span b k = {} \<Longrightarrow> x \<in> span a n \<Longrightarrow> occ x rs = 0"
  by (induction rs) (auto simp del: in_span)

lemma occ_apart:
  assumes "\<forall>x. occ x (us @ r # vs) \<le> 1" and "real (us @ r # vs)" and "q \<in> set us \<union> set vs"
  shows "fst q + snd q \<le> fst r \<or> fst r + snd r \<le> fst q"
proof (rule ccontr)
  assume "\<not> ?thesis"
  moreover have "0 < snd r" "0 < snd q" using real_in [OF assms(2), of r] real_in [OF assms(2), of q] assms(3) by simp_all
  ultimately have x: "max (fst r) (fst q) \<in> span (fst r) (snd r)" "max (fst r) (fst q) \<in> span (fst q) (snd q)" by auto
  have "(fst q, snd q) \<in> set (us @ vs)" using assms(3) by simp
  from occ_member [OF this x(2)] have "0 < occ (max (fst r) (fst q)) us + occ (max (fst r) (fst q)) vs"
    by simp
  then show False using assms(1) [rule_format, of "max (fst r) (fst q)"] x(1) by (simp del: in_span)
qed

text \<open>A list that covers no address twice is pairwise disjoint, and ordered once it is sorted.\<close>

definition ordered :: "(u64 \<times> u64) list \<Rightarrow> bool" where
  "ordered = sorted_wrt (\<lambda>x y. fst x + snd x \<le> fst y)"

lemma occ_separate: "real rs \<Longrightarrow> \<forall>x. occ x rs \<le> 1 \<Longrightarrow> separate rs"
proof (induction rs)
  case (Cons r rs)
  obtain a n where r: "r = (a, n)" by force
  have "span a n \<inter> span b m = {}" if "(b, m) \<in> set rs" for b m
  proof (rule ccontr)
    assume "span a n \<inter> span b m \<noteq> {}"
    then obtain x where "x \<in> span a n" "x \<in> span b m" by blast
    moreover from this have "0 < occ x rs" using occ_member [OF that] by blast
    ultimately show False using Cons.prems(2) [rule_format, of x] r by (simp del: in_span)
  qed
  moreover have "separate rs"
    using Cons.IH Cons.prems by (simp add: r) (meson le_trans le_add2)
  ultimately show ?case using Cons.prems(1) r by (auto simp: separate_def simp del: in_span)
qed (simp add: separate_def)

lemma sorted_ordered:
  "\<lbrakk>sorted (map fst rs); real rs; \<forall>x. occ x rs \<le> 1\<rbrakk> \<Longrightarrow> ordered rs"
proof (induction rs)
  case (Cons r rs)
  have sep: "separate (r # rs)" by (rule occ_separate) (use Cons.prems in simp_all)
  have "fst r + snd r \<le> fst y" if "y \<in> set rs" for y
  proof (rule ccontr)
    assume "\<not> fst r + snd r \<le> fst y"
    moreover have "fst r \<le> fst y" using Cons.prems(1) that by simp
    moreover have "0 < snd y" using Cons.prems(2) that by (auto simp: real_def)
    ultimately have "fst y \<in> span (fst r) (snd r) \<inter> span (fst y) (snd y)" by simp
    then show False using sep that by (fastforce simp: separate_def simp del: in_span)
  qed
  moreover have "\<forall>x. occ x rs \<le> 1" using Cons.prems(3) by (simp) (meson le_trans le_add2)
  ultimately show ?case using Cons by (simp add: ordered_def)
qed (simp add: ordered_def)

lemma fr_ok_occ:
  assumes "fr_ok m"
  shows "occ x m = of_bool (x \<in> fr_cover m)" and "real m" and "sorted (map fst m)"
proof -
  show "occ x m = of_bool (x \<in> fr_cover m)" using assms
  proof (induction m)
    case (Cons r m)
    have "x \<notin> fr_cover m" if "x \<in> span (fst r) (snd r)"
    proof
      assume "x \<in> fr_cover m"
      then obtain k v where "(k, v) \<in> set m" "k \<le> x" by (auto simp: im_cover_def)
      then show False using that Cons.prems by (cases r) (fastforce simp: fr_ok_simps)
    qed
    then show ?case using Cons by (cases r) (auto simp: fr_ok_simps simp del: in_span)
  qed simp
  show "real m" using assms by (auto simp: fr_ok_def real_def)
  show "sorted (map fst m)" using assms
    by (induction m) (fastforce simp: fr_ok_simps)+
qed

lemma fr_ok_gap:
  assumes "fr_ok m" and "r \<in> set m" and "q \<in> set m"
  shows "r = q \<or> fst r + snd r < fst q \<or> fst q + snd q < fst r"
  using assms by (induction m) (auto simp: fr_ok_simps)

subsection \<open>Sizes\<close>

abbreviation sizes :: "(u64 \<times> u64) list \<Rightarrow> nat" where
  "sizes rs \<equiv> sum_list (map snd rs)"

lemma of_bool_split:
  fixes a k n x :: u64
  assumes "k \<le> n"
  shows "of_bool (x \<in> span a n) = (of_bool (x \<in> span a k) + of_bool (x \<in> span (a + k) (n - k)) :: nat)"
  using assms by auto

lemma occ_nonempty: "occ x (filter (\<lambda>r. 0 < snd r) rs) = occ x rs"
  by (induction rs) auto

lemma sizes_nonempty: "sizes (filter (\<lambda>r. 0 < snd r) rs) = sizes rs"
  by (induction rs) auto

lemma sum_span: "a + n \<le> N \<Longrightarrow> (\<Sum>x<N. of_bool (x \<in> span a n)) = n" for N :: nat
proof -
  assume "a + n \<le> N"
  then have "{..<N} \<inter> {x. x \<in> span a n} = {a..<a + n}" by auto
  then show ?thesis by (simp add: of_bool_def sum.If_cases del: in_span)
qed

lemma sizes_sum:
  assumes "\<forall>r\<in>set rs. fst r + snd r \<le> N"
  shows "sizes rs = (\<Sum>x<N. occ x rs)"
  using assms
proof (induction rs)
  case (Cons r rs)
  then show ?case using sum_span [of "fst r" "snd r" N] by (simp add: sum.distrib del: in_span)
qed simp

lemma real_sizes: "real rs \<Longrightarrow> sizes rs = (\<Sum>x<U64_MAX. occ x rs)"
  by (rule sizes_sum) (auto simp: real_def)

subsection \<open>Removing and searching\<close>

lemma occ_remove1: "r \<in> set rs \<Longrightarrow> occ x rs = of_bool (x \<in> span (fst r) (snd r)) + occ x (remove1 r rs)"
  by (induction rs) auto

lemma real_remove1: "real rs \<Longrightarrow> real (remove1 r rs)"
  using set_remove1_subset [of r rs] by (fastforce simp: real_def)

lemma overlap_occ:
  assumes "0 < n" "a + n < two64" "0 < k" "s + k < two64"
  shows "virtual_ranges_overlap a n s k \<longleftrightarrow> (\<exists>x. x \<in> span a n \<and> x \<in> span s k)"
proof
  assume "virtual_ranges_overlap a n s k"
  then have "max a s \<in> span a n" "max a s \<in> span s k"
    using assms by (auto simp: virtual_ranges_overlap_def Let_def split: if_splits)
  then show "\<exists>x. x \<in> span a n \<and> x \<in> span s k" by blast
qed (use assms in \<open>auto simp: virtual_ranges_overlap_def Let_def\<close>)

lemma find_split:
  "find P xs = Some x \<Longrightarrow> \<exists>us vs. xs = us @ x # vs \<and> remove_first_where P xs = us @ vs"
proof (induction xs)
  case (Cons y xs)
  show ?case
  proof (cases "P y")
    case True
    then show ?thesis using Cons.prems by (intro exI [of _ "[]"] exI [of _ xs]) simp
  next
    case False
    then obtain us vs where "xs = us @ x # vs" "remove_first_where P xs = us @ vs"
      using Cons by auto
    then show ?thesis using False by (intro exI [of _ "y # us"] exI [of _ vs]) simp
  qed
qed simp

lemma find_holds: "find P xs = Some x \<Longrightarrow> P x"
  by (induction xs) (auto split: if_splits)

end
