(* ===== verification/PooledFacts.thy ===== *)
theory PooledFacts
  imports PooledMemory RangeLists
begin

text \<open>
  Facts about the pool: merging and carving free ranges keep the interface of a free set, and the
  operations of the class conserve the physical memory the pool was given.
\<close>

subsection \<open>Adding a free range\<close>

lemma merge_ranges_ok:
  "\<lbrakk>ordered (rev merged @ rs); real rs; fr_ok (rev merged)\<rbrakk> \<Longrightarrow>
   fr_ok (merge_ranges merged rs) \<and> occ x (merge_ranges merged rs) = occ x (rev merged) + occ x rs"
proof (induction merged rs rule: merge_ranges.induct)
  case (2 r rs)
  then show ?case by (cases r) (simp add: fr_ok_simps)
next
  case (3 b n merged s k rs)
  have o: "ordered (rev merged)" "b + n \<le> s" "\<forall>y\<in>set rs. b + n \<le> fst y" "\<forall>y\<in>set rs. s + k \<le> fst y"
    "\<forall>y\<in>set merged. fst y + snd y \<le> b" "\<forall>y\<in>set merged. fst y + snd y \<le> s"
    "\<forall>y\<in>set merged. \<forall>z\<in>set rs. fst y + snd y \<le> fst z" "ordered rs"
    using 3(3) by (auto simp: ordered_def sorted_wrt_append)
  have f: "fr_ok (rev merged)" "0 < n" "b + n < two64" "\<forall>y\<in>set merged. fst y + snd y < b"
    using 3(5) by (auto simp: fr_ok_simps)
  have k: "0 < k" "s + k < two64" "real rs" using 3(4) by simp_all
  show ?case
  proof (cases "s \<le> b + n")
    case True
    define e where "e = s + k - b"
    have e: "s = b + n" "e = n + k" using True o(2) by (simp_all add: e_def)
    have "max (add64 b n) (add64 s k) = b + e" using f k e by simp
    then have max: "sub64 (max (add64 b n) (add64 s k)) b = e" using k e by simp
    have "ordered (rev ((b, e) # merged) @ rs)" "fr_ok (rev ((b, e) # merged))"
      using o f k e by (auto simp: ordered_def sorted_wrt_append fr_ok_simps)
    then have "fr_ok (merge_ranges ((b, e) # merged) rs)
        \<and> occ x (merge_ranges ((b, e) # merged) rs) = occ x (rev ((b, e) # merged)) + occ x rs"
      using 3(1) [unfolded max] True f(3) k(3) by (simp only: add64_exact)
    moreover have "of_bool (x \<in> span b e) = (of_bool (x \<in> span b n) + of_bool (x \<in> span s k) :: nat)"
      by (simp add: e)
    moreover have "merge_ranges ((b, n) # merged) ((s, k) # rs) = merge_ranges ((b, e) # merged) rs"
      using True f(3) max by simp
    ultimately show ?thesis by (simp del: merge_ranges.simps in_span)
  next
    case False
    have "fr_ok (rev ((s, k) # (b, n) # merged))"
      using 3(5) False f k by (auto simp: fr_ok_simps)
    then show ?thesis using 3(2) [OF _ _ k(3)] 3(3) False f by simp
  qed
qed simp

lemma add_free_unlocked_ok:
  assumes ok: "fr_ok m" and n: "0 < n" "a + n < two64" and free: "span a n \<inter> fr_cover m = {}"
  shows "fr_ok (add_free_unlocked a n m)"
    and "fr_cover (add_free_unlocked a n m) = fr_cover m \<union> span a n"
proof -
  define rs where "rs = sort_key fst (m @ [(a, n)])"
  have occ: "occ x rs = occ x m + of_bool (x \<in> span a n)" for x by (simp add: rs_def)
  have "ordered rs"
  proof (rule sorted_ordered)
    show "sorted (map fst rs)" by (simp add: rs_def)
    show "real rs" using n fr_ok_occ(2) [OF ok] by (simp add: rs_def)
    show "\<forall>x. occ x rs \<le> 1" using free by (auto simp: occ fr_ok_occ(1) [OF ok] simp del: in_span)
  qed
  moreover have "real rs" using n fr_ok_occ(2) [OF ok] by (simp add: rs_def)
  ultimately have m: "fr_ok (merge_ranges [] rs)" "occ x (merge_ranges [] rs) = occ x rs" for x
    using merge_ranges_ok [of "[]" rs] by (simp_all add: fr_ok_simps)
  have eq: "add_free_unlocked a n m = merge_ranges [] rs" using n by (simp add: add_free_unlocked_def rs_def)
  show "fr_ok (add_free_unlocked a n m)" using m eq by simp
  show "fr_cover (add_free_unlocked a n m) = fr_cover m \<union> span a n"
    unfolding eq set_eq_iff occ_cover [symmetric] m(2) by (auto simp: occ simp del: in_span simp flip: occ_cover)
qed

subsection \<open>Taking a range out of the free ranges\<close>

text \<open>Free ranges have a gap between them, so a range of free addresses lies in one of them.\<close>

lemma free_in_one:
  assumes "fr_ok m" and "0 < n" and "span a n \<subseteq> fr_cover m"
  obtains r where "r \<in> set m" "fst r \<le> a" "a + n \<le> fst r + snd r"
  using fr_contained [OF assms(1,2)] assms(3) by auto

lemma take_free_ok:
  assumes ok: "fr_ok m" and n: "0 < n" "a + n < two64" and free: "span a n \<subseteq> fr_cover m"
  obtains m' where "take_free a n m = Some m'" "fr_ok m'" "fr_cover m' = fr_cover m - span a n"
proof -
  obtain r where r: "r \<in> set m" "fst r \<le> a" "a + n \<le> fst r + snd r" by (rule free_in_one [OF ok n(1) free])
  have b: "fst x + snd x < two64" if "x \<in> set m" for x using ok that by (simp add: fr_ok_def)
  then have "holds_range a (a + n) r" using r by (simp add: holds_range_def)
  then have "find (holds_range a (a + n)) m \<noteq> None" using r(1) unfolding find_None_iff by blast
  then obtain s v where f: "find (holds_range a (a + n)) m = Some (s, v)" by auto
  then obtain us vs where m: "m = us @ (s, v) # vs"
    and rem: "remove_first_where (holds_range a (a + n)) m = us @ vs" using find_split [OF f] by blast
  have sv: "s \<le> a" "a + n \<le> s + v" "s + v < two64"
    using find_holds [OF f] b [of "(s, v)"] m by (simp_all add: holds_range_def)
  define l where "l = (if a - s \<noteq> 0 then [(s, a - s)] else [])"
  define u where "u = (if s + v - (a + n) \<noteq> 0 then [(a + n, s + v - (a + n))] else [])"
  define m' where "m' = us @ l @ u @ vs"
  have p: "pieces a (a + n) (s, v) = l @ u" using sv n by (auto simp: pieces_def l_def u_def)
  have "fst y + snd y \<le> a \<or> a + n \<le> fst y" if "y \<in> set us \<union> set vs" for y
    using ok sv that by (fastforce simp: m fr_ok_simps)
  then have "concat (map (pieces a (a + n)) m) = m'" using pieces_outside p by (simp add: m m'_def)
  then have m': "fr_ok m'" "fr_cover m' = fr_cover m - span a n"
    using concat_pieces_ok [OF ok, of a "a + n"] concat_pieces_cover [of a "a + n" m] n by simp_all
  have "sort_key fst (us @ vs @ l @ u) = m'"
  proof (rule sort_key_inj_key_eq)
    show "mset (us @ vs @ l @ u) = mset m'" by (simp add: m'_def)
    show "sorted (map fst m')" by (rule fr_ok_occ(3) [OF m'(1)])
    have "inj_on fst (set m')" using m'(1) fr_ok_gap [OF m'(1)] by (fastforce intro: inj_onI simp: fr_ok_def)
    then show "inj_on fst (set (us @ vs @ l @ u))" by (simp add: m'_def Un_ac)
  qed
  moreover have "sub64 a s = a - s" "sub64 (add64 s v) (add64 a n) = s + v - (a + n)" "add64 a n = a + n"
    using sv n by simp_all
  ultimately have "take_free a n m = Some m'"
    using f rem unfolding take_free_def Let_def l_def u_def
    by (simp only: option.case prod.case append_assoc)
  then show thesis using that m' by blast
qed

lemma take_free_the:
  assumes "fr_ok m" and "0 < n \<and> a + n < two64 \<and> span a n \<subseteq> fr_cover m"
  shows "fr_ok (the (take_free a n m))"
    and "fr_cover (the (take_free a n m)) = fr_cover m - span a n"
proof -
  obtain m' where "take_free a n m = Some m'" "fr_ok m'" "fr_cover m' = fr_cover m - span a n"
    by (rule take_free_ok [of m n a]) (use assms in blast)+
  then show "fr_ok (the (take_free a n m))" "fr_cover (the (take_free a n m)) = fr_cover m - span a n"
    by simp_all
qed

interpretation pool_free: free_set fr_ok fr_cover "\<lambda>a n m. the (take_free a n m)" add_free_unlocked
    "\<lambda>a n m. 0 < n \<and> a + n < two64 \<and> span a n \<subseteq> fr_cover m"
  by unfold_locales (simp_all add: take_free_the add_free_unlocked_ok del: in_span)

subsection \<open>The invariant of the pool\<close>

abbreviation phys_ranges :: "pmapping list \<Rightarrow> (u64 \<times> u64) list" where
  "phys_ranges \<equiv> map (\<lambda>m. (pl_phys m, pl_size m))"

abbreviation virt_ranges :: "pmapping list \<Rightarrow> (u64 \<times> u64) list" where
  "virt_ranges \<equiv> map (\<lambda>m. (pl_vaddr m, pl_size m))"

definition pool_ok :: "pool \<Rightarrow> bool" where
  "pool_ok p \<longleftrightarrow> fr_ok (p_free p) \<and> real (p_expansions p)
     \<and> real (phys_ranges (p_mappings p)) \<and> real (virt_ranges (p_mappings p))
     \<and> (\<forall>x. of_bool (x \<in> fr_cover (p_free p)) + occ x (phys_ranges (p_mappings p)) = occ x (p_expansions p))
     \<and> (\<forall>x. occ x (p_expansions p) \<le> 1) \<and> (\<forall>x. occ x (virt_ranges (p_mappings p)) \<le> 1)"

lemma pool_okD:
  assumes "pool_ok p"
  shows "fr_ok (p_free p)" "real (p_expansions p)" "real (phys_ranges (p_mappings p))"
    "real (virt_ranges (p_mappings p))"
    "of_bool (x \<in> fr_cover (p_free p)) + occ x (phys_ranges (p_mappings p)) = occ x (p_expansions p)"
    "occ x (p_expansions p) \<le> 1" "occ x (virt_ranges (p_mappings p)) \<le> 1"
  using assms by (simp_all add: pool_ok_def)

lemma pool_expand_ok:
  assumes p: "pool_ok p" and n: "0 < n" "a + n < two64" and new: "\<And>x. x \<in> span a n \<Longrightarrow> occ x (p_expansions p) = 0"
  shows "pool_ok (pool_expand a n p)"
proof -
  note d = pool_okD [OF p]
  have out: "x \<notin> fr_cover (p_free p)" if "x \<in> span a n" for x
    using d(5) [of x] new [OF that] by (simp del: in_span)
  then have dis: "span a n \<inter> fr_cover (p_free p) = {}" by blast
  note f = add_free_unlocked_ok [OF d(1) n dis]
  have "of_bool (x \<in> fr_cover (add_free_unlocked a n (p_free p))) + occ x (phys_ranges (p_mappings p))
      = occ x (p_expansions p @ [(a, n)])" for x
    using d(5) [of x] out [of x] unfolding f(2) by (cases "x \<in> span a n") (simp_all del: in_span)
  moreover have "occ x (p_expansions p @ [(a, n)]) \<le> 1" for x
    using d(6) [of x] new [of x] by (cases "x \<in> span a n") (simp_all del: in_span)
  ultimately show ?thesis
    using d f(1) n by (simp add: pool_ok_def pool_expand_def del: occ_simps in_span)
qed

subsection \<open>Releasing an expansion\<close>

lemma overlap_any:
  assumes "0 < n" "a + n < two64" "real (phys_ranges ms)"
  shows "(\<exists>m\<in>set ms. virtual_ranges_overlap a n (pl_phys m) (pl_size m))
      \<longleftrightarrow> \<not> (\<forall>x\<in>span a n. occ x (phys_ranges ms) = 0)"
  using assms(3)
proof (induction ms)
  case (Cons m ms)
  have "virtual_ranges_overlap a n (pl_phys m) (pl_size m) \<longleftrightarrow> (\<exists>x\<in>span a n. x \<in> span (pl_phys m) (pl_size m))"
    using overlap_occ [OF assms(1,2), of "pl_size m" "pl_phys m"] Cons.prems by (simp add: Bex_def del: in_span)
  then show ?case using Cons by (auto simp del: in_span)
qed simp

text \<open>An expansion is released exactly where it is listed and no mapping uses it.\<close>

lemma release_expansion_cases:
  assumes p: "pool_ok p"
  shows "(snd (pool_release_expansion a n p) \<longleftrightarrow> (a, n) \<in> set (p_expansions p)
           \<and> (\<forall>x\<in>span a n. occ x (phys_ranges (p_mappings p)) = 0))
      \<and> (\<not> snd (pool_release_expansion a n p) \<longrightarrow> fst (pool_release_expansion a n p) = p)
      \<and> (snd (pool_release_expansion a n p) \<longrightarrow>
           p_expansions (fst (pool_release_expansion a n p)) = remove1 (a, n) (p_expansions p))
      \<and> pool_ok (fst (pool_release_expansion a n p))"
proof (cases "(a, n) \<in> set (p_expansions p)")
  case False
  then show ?thesis using p by (simp add: pool_release_expansion_def)
next
  case mem: True
  note d = pool_okD [OF p]
  have n: "0 < n" "a + n < two64" using d(2) mem by (auto simp: real_def)
  have ov: "(\<exists>m\<in>set (p_mappings p). virtual_ranges_overlap a n (pl_phys m) (pl_size m))
      \<longleftrightarrow> \<not> (\<forall>x\<in>span a n. occ x (phys_ranges (p_mappings p)) = 0)"
    by (rule overlap_any [OF n d(3)])
  show ?thesis
  proof (cases "\<forall>x\<in>span a n. occ x (phys_ranges (p_mappings p)) = 0")
    case False
    then show ?thesis using ov p mem by (simp add: pool_release_expansion_def del: in_span)
  next
    case True
    have "x \<in> fr_cover (p_free p)" if "x \<in> span a n" for x
    proof -
      have "0 < occ x (p_expansions p)" using occ_member [OF mem that] .
      then show ?thesis using d(5) [of x] True that by (cases "x \<in> fr_cover (p_free p)") (auto simp del: in_span)
    qed
    then have sub: "span a n \<subseteq> fr_cover (p_free p)" by blast
    obtain f where f: "take_free a n (p_free p) = Some f" "fr_ok f" "fr_cover f = fr_cover (p_free p) - span a n"
      by (rule take_free_ok [OF d(1) n sub])
    define e where "e = remove1 (a, n) (p_expansions p)"
    have e: "occ x (p_expansions p) = of_bool (x \<in> span a n) + occ x e" for x
      using occ_remove1 [OF mem] by (simp add: e_def del: in_span)
    have "real e" using real_remove1 [OF d(2)] by (simp add: e_def)
    moreover have "of_bool (x \<in> fr_cover f) + occ x (phys_ranges (p_mappings p)) = occ x e" for x
      using d(5) [of x] e [of x] sub True unfolding f(3)
      by (cases "x \<in> span a n") (auto simp del: in_span)
    moreover have "occ x e \<le> 1" for x using d(6) [of x] e [of x] by simp
    ultimately have "pool_ok (p\<lparr>p_free := f, p_expansions := e\<rparr>)"
      using d f(2) by (simp add: pool_ok_def del: in_span)
    moreover have "pool_release_expansion a n p = (p\<lparr>p_free := f, p_expansions := e\<rparr>, True)"
      using mem ov True f(1) by (simp add: pool_release_expansion_def e_def del: in_span)
    ultimately show ?thesis using mem True by (simp add: e_def del: in_span)
  qed
qed

end
