(* ===== verification/PooledTheorems.thy ===== *)
theory PooledTheorems
  imports PooledFacts
begin

text \<open>
  Allocating from the pool, querying and releasing mappings, and the invariant of every pool the
  operations reach.
\<close>

subsection \<open>Allocation\<close>

text \<open>The parts follow each other in the virtual range and, with what is left free, make up the free ranges.\<close>

lemma alloc_parts_ok:
  assumes "alloc_parts v n g free = (ms, free', r)" and "\<forall>e\<in>set free. fst e + snd e < two64" and "v + n < two64"
  shows "r = n - sizes free
    \<and> (\<forall>x. occ x (phys_ranges ms) + occ x free' = occ x free)
    \<and> (\<forall>x. occ x (virt_ranges ms) = of_bool (x \<in> span v (n - r)))
    \<and> real (phys_ranges ms) \<and> real (virt_ranges ms)
    \<and> sum_list (map pl_size ms) = n - r \<and> sum_list (map pl_size ms) + sizes free' = sizes free
    \<and> list_all2 (\<lambda>e f. fst e \<le> fst f \<and> fst f + snd f = fst e + snd e) free free'"
  using assms
proof (induction v n g free arbitrary: ms free' r rule: alloc_parts.induct)
  case (2 v n g s k free)
  have sk: "s + k < two64" and rest: "\<forall>e\<in>set free. fst e + snd e < two64" using 2(4) by simp_all
  show ?case
  proof (cases "n = 0 \<or> k = 0")
    case True
    obtain f where f: "alloc_parts v n g free = (ms, f, r)" "free' = (s, k) # f"
      using 2(3) True by (auto split: prod.splits)
    show ?thesis using 2(1) [OF True f(1) rest 2(5)] True f(2) by (auto simp del: in_span sum_list_eq_0_iff)
  next
    case False
    define part where "part = min k n"
    have part: "0 < part" "part \<le> k" "part \<le> n" using False by (simp_all add: part_def)
    have ex: "add64 v part = v + part" "sub64 n part = n - part" "add64 s part = s + part" "sub64 k part = k - part"
      using part sk 2(5) by simp_all
    obtain ms1 f where f: "alloc_parts (v + part) (n - part) g free = (ms1, f, r)"
      "ms = \<lparr>pl_vaddr = v, pl_size = part, pl_phys = s, pl_gpu = g\<rparr> # ms1" "free' = (s + part, k - part) # f"
      using 2(3) False ex by (auto simp: Let_def simp flip: part_def split: prod.splits)
    have v: "v + part + (n - part) < two64" using part 2(5) by simp
    have IH: "r = n - part - sizes free"
      "occ x (phys_ranges ms1) + occ x f = occ x free"
      "occ x (virt_ranges ms1) = of_bool (x \<in> span (v + part) (n - part - r))"
      "real (phys_ranges ms1)" "real (virt_ranges ms1)"
      "sum_list (map pl_size ms1) = n - part - r" "sum_list (map pl_size ms1) + sizes f = sizes free"
      "list_all2 (\<lambda>e f. fst e \<le> fst f \<and> fst f + snd f = fst e + snd e) free f" for x
      using 2(2) [OF False part_def, unfolded ex, OF f(1) rest v] by blast+
    have "r = n - sizes ((s, k) # free)" using IH(1) by (simp add: part_def)
    moreover have r: "part + r \<le> n" using IH(1) part by simp
    moreover have "occ x (phys_ranges ms) + occ x free' = occ x ((s, k) # free)" for x
      using IH(2) [of x] of_bool_split [OF part(2), of x s] by (simp add: f(2,3) del: in_span)
    moreover have "occ x (virt_ranges ms) = of_bool (x \<in> span v (n - r))" for x
      using IH(3) [of x] of_bool_split [of part "n - r" x v] r
      by (simp add: f(2) diff_diff_eq add.commute [of r] del: in_span)
    ultimately show ?thesis
      using IH(4-8) part sk 2(5) by (simp add: f(2,3) del: in_span)
  qed
qed simp

lemma shrunk_free:
  assumes "fr_ok m" and "list_all2 (\<lambda>e f. fst e \<le> fst f \<and> fst f + snd f = fst e + snd e) m m'"
  shows "fr_ok (filter (\<lambda>r. snd r \<noteq> 0) m') \<and> (\<forall>f\<in>set m'. \<exists>e\<in>set m. fst e \<le> fst f)"
  using assms(2,1)
proof (induction rule: list_all2_induct)
  case (Cons e m f m')
  have e: "fr_ok m" "fst e + snd e < two64" "\<forall>y\<in>set m. fst e + snd e < fst y"
    using Cons.prems by (cases e; simp add: fr_ok_simps)+
  have "fst f + snd f < fst y" if "y \<in> set m'" for y
    using Cons.IH [OF e(1)] e(3) Cons.hyps(1) that by fastforce
  moreover have "fst f + snd f < two64" using Cons.hyps(1) e(2) by simp
  ultimately have "fr_ok (filter (\<lambda>r. snd r \<noteq> 0) (f # m'))"
    using Cons.IH [OF e(1)] by (cases f) (auto simp: fr_ok_simps)
  then show ?case using Cons.IH [OF e(1)] Cons.hyps(1) by auto
qed (simp add: fr_ok_simps)

text \<open>Allocation succeeds exactly where the free ranges hold the size, and then maps the virtual range once.\<close>

lemma pool_allocate_cases:
  assumes p: "pool_ok p" and v: "v \<noteq> 0" "n \<noteq> 0" "v + n < two64"
  shows "(snd (pool_allocate v n g p) = None \<longrightarrow> sizes (p_free p) < n \<and> fst (pool_allocate v n g p) = p)
     \<and> (\<forall>ms. snd (pool_allocate v n g p) = Some ms \<longrightarrow>
          n \<le> sizes (p_free p)
          \<and> p_mappings (fst (pool_allocate v n g p)) = p_mappings p @ ms
          \<and> p_expansions (fst (pool_allocate v n g p)) = p_expansions p
          \<and> sizes (p_free (fst (pool_allocate v n g p))) + n = sizes (p_free p)
          \<and> fr_ok (p_free (fst (pool_allocate v n g p)))
          \<and> sum_list (map pl_size ms) = n \<and> real (phys_ranges ms) \<and> real (virt_ranges ms)
          \<and> (\<forall>x. occ x (phys_ranges ms) + of_bool (x \<in> fr_cover (p_free (fst (pool_allocate v n g p))))
              = of_bool (x \<in> fr_cover (p_free p)))
          \<and> (\<forall>x. occ x (virt_ranges ms) = of_bool (x \<in> span v n)))"
proof -
  note f = pool_okD(1) [OF p]
  obtain ms free r where a: "alloc_parts v n g (p_free p) = (ms, free, r)" by (cases "alloc_parts v n g (p_free p)")
  have "\<forall>e\<in>set (p_free p). fst e + snd e < two64" using f by (simp add: fr_ok_def)
  note ok = alloc_parts_ok [OF a this v(3)]
  define free' where "free' = filter (\<lambda>r. snd r \<noteq> 0) free"
  have free': "fr_ok free'" "sizes free' = sizes free" "of_bool (x \<in> fr_cover free') = occ x free" for x
  proof -
    show "fr_ok free'" using shrunk_free [OF f] ok by (simp add: free'_def)
    from fr_ok_occ(1) [OF this, of x] show "of_bool (x \<in> fr_cover free') = occ x free"
      by (simp add: free'_def occ_nonempty)
  qed (simp add: free'_def sizes_nonempty)
  have c: "\<not> (v = 0 \<or> n = 0 \<or> U64_MAX - v < n)" using v by simp
  show ?thesis
  proof (cases "r = 0")
    case False
    then have "pool_allocate v n g p = (p, None)" "sizes (p_free p) < n"
      using c a ok by (simp_all add: pool_allocate_def)
    then show ?thesis by simp
  next
    case True
    have "pool_allocate v n g p = (p\<lparr>p_free := free', p_mappings := p_mappings p @ ms\<rparr>, Some ms)"
      using c a True unfolding pool_allocate_def free'_def by (simp only: if_False if_True Let_def prod.case simp_thms)
    moreover have "n \<le> sizes (p_free p)" using ok True by simp
    moreover have "occ x (phys_ranges ms) + of_bool (x \<in> fr_cover free') = of_bool (x \<in> fr_cover (p_free p))" for x
      using ok fr_ok_occ(1) [OF f, of x] unfolding free'(3) by simp
    ultimately show ?thesis using ok True free' by (simp del: in_span)
  qed
qed

lemma pool_allocate_ok:
  assumes p: "pool_ok p" and new: "\<And>x. x \<in> span v n \<Longrightarrow> occ x (virt_ranges (p_mappings p)) = 0"
  shows "pool_ok (fst (pool_allocate v n g p))"
proof (cases "v = 0 \<or> n = 0 \<or> U64_MAX - v < n")
  case True
  then show ?thesis using p unfolding pool_allocate_def by (simp only: if_True fst_conv)
next
  case False
  then have v: "v \<noteq> 0" "n \<noteq> 0" "v + n < two64" by auto
  note c = pool_allocate_cases [OF p v, of g] and d = pool_okD [OF p]
  show ?thesis
  proof (cases "snd (pool_allocate v n g p)")
    case None
    then show ?thesis using c p by simp
  next
    case (Some ms)
    define q where "q = fst (pool_allocate v n g p)"
    have q: "p_mappings q = p_mappings p @ ms" "p_expansions q = p_expansions p" "fr_ok (p_free q)"
      "real (phys_ranges ms)" "real (virt_ranges ms)"
      "occ x (phys_ranges ms) + of_bool (x \<in> fr_cover (p_free q)) = of_bool (x \<in> fr_cover (p_free p))"
      "occ x (virt_ranges ms) = of_bool (x \<in> span v n)" for x
      using c Some by (simp_all add: q_def del: in_span)
    have "of_bool (x \<in> fr_cover (p_free q)) + occ x (phys_ranges (p_mappings q)) = occ x (p_expansions q)" for x
      using d(5) [of x] q(6) [of x] by (simp add: q(1,2) del: in_span)
    moreover have "occ x (virt_ranges (p_mappings q)) \<le> 1" for x
      using d(7) [of x] new [of x] q(7) [of x] by (cases "x \<in> span v n") (simp_all add: q(1) del: in_span)
    ultimately have "pool_ok q" using d q(2-5) by (simp add: pool_ok_def q(1) del: in_span)
    then show ?thesis by (simp add: q_def)
  qed
qed

subsection \<open>Queries and releases\<close>

text \<open>The part of a mapping that lies in a range of virtual addresses.\<close>

definition range_part :: "u64 \<Rightarrow> u64 \<Rightarrow> pmapping \<Rightarrow> pmapping list" where
  "range_part v e m =
     (let cs = max v (pl_vaddr m); ce = min e (pl_vaddr m + pl_size m)
      in if ce \<le> cs then []
         else [m\<lparr>pl_vaddr := cs, pl_size := ce - cs, pl_phys := pl_phys m + (cs - pl_vaddr m)\<rparr>])"

definition real_mapping :: "pmapping \<Rightarrow> bool" where
  "real_mapping m \<longleftrightarrow> 0 < pl_size m \<and> pl_vaddr m + pl_size m < two64 \<and> pl_phys m + pl_size m < two64"

lemma real_mappings: "(\<forall>m\<in>set ms. real_mapping m) \<longleftrightarrow> real (phys_ranges ms) \<and> real (virt_ranges ms)"
  by (induction ms) (auto simp: real_mapping_def)

lemma keep_parts_eq:
  assumes "real_mapping m" and "v < e" and "e < two64"
  shows "keep_parts v e m =
    (if pl_vaddr m + pl_size m \<le> v \<or> e \<le> pl_vaddr m then [m]
     else (if pl_vaddr m < v then [m\<lparr>pl_size := v - pl_vaddr m\<rparr>] else [])
       @ (if e < pl_vaddr m + pl_size m
          then [m\<lparr>pl_vaddr := e, pl_size := pl_vaddr m + pl_size m - e, pl_phys := pl_phys m + (e - pl_vaddr m)\<rparr>]
          else []))"
proof -
  have r: "0 < pl_size m" "pl_vaddr m + pl_size m < two64" "pl_phys m + pl_size m < two64"
    using assms(1) by (simp_all add: real_mapping_def)
  show ?thesis
  proof (cases "pl_vaddr m + pl_size m \<le> v \<or> e \<le> pl_vaddr m")
    case True
    then have "min e (pl_vaddr m + pl_size m) \<le> max v (pl_vaddr m)" by auto
    then show ?thesis using True r by (simp add: keep_parts_def Let_def)
  next
    case False
    then have "\<not> min e (pl_vaddr m + pl_size m) \<le> max v (pl_vaddr m)" using r assms(2) by auto
    moreover have "max v (pl_vaddr m) = (if pl_vaddr m < v then v else pl_vaddr m)" by simp
    moreover have "min e (pl_vaddr m + pl_size m) = (if e < pl_vaddr m + pl_size m then e else pl_vaddr m + pl_size m)" by simp
    ultimately show ?thesis using False r assms(2,3) by (simp add: keep_parts_def Let_def)
  qed
qed

lemma keep_cut:
  assumes "real_mapping m" and "v < e" and "e < two64"
  shows "occ x (phys_ranges (keep_parts v e m)) + occ x (phys_ranges (range_part v e m)) = of_bool (x \<in> span (pl_phys m) (pl_size m))"
    and "occ x (virt_ranges (keep_parts v e m)) = of_bool (x \<in> span (pl_vaddr m) (pl_size m) \<and> \<not> (v \<le> x \<and> x < e))"
    and "occ x (virt_ranges (range_part v e m)) = of_bool (x \<in> span (pl_vaddr m) (pl_size m) \<and> v \<le> x \<and> x < e)"
    and "\<forall>k\<in>set (keep_parts v e m). real_mapping k" and "\<forall>k\<in>set (range_part v e m). real_mapping k"
proof -
  have r: "0 < pl_size m" "pl_vaddr m + pl_size m < two64" "pl_phys m + pl_size m < two64"
    using assms(1) by (simp_all add: real_mapping_def)
  note k = keep_parts_eq [OF assms]
  define a n p where "a = pl_vaddr m" and "n = pl_size m" and "p = pl_phys m"
  note anp = a_def [symmetric] n_def [symmetric] p_def [symmetric]
  have cut_eq: "range_part v e m = (if a + n \<le> v \<or> e \<le> a then []
      else [m\<lparr>pl_vaddr := max v a, pl_size := min e (a + n) - max v a, pl_phys := p + (max v a - a)\<rparr>])"
    using assms(2) r(1) by (auto simp: range_part_def Let_def anp)
  note eqs = k [unfolded anp] cut_eq
  note r = r [unfolded anp]
  consider (apart) "a + n \<le> v \<or> e \<le> a" | (in_both) "\<not> (a + n \<le> v \<or> e \<le> a)" "a < v" "e < a + n"
    | (left) "\<not> (a + n \<le> v \<or> e \<le> a)" "a < v" "\<not> e < a + n"
    | (right) "\<not> (a + n \<le> v \<or> e \<le> a)" "\<not> a < v" "e < a + n"
    | (whole) "\<not> (a + n \<le> v \<or> e \<le> a)" "\<not> a < v" "\<not> e < a + n" by blast
  note cs = this
  show "occ x (virt_ranges (keep_parts v e m)) = of_bool (x \<in> span (pl_vaddr m) (pl_size m) \<and> \<not> (v \<le> x \<and> x < e))"
    unfolding anp using cs by (cases; use assms(2) in \<open>simp add: eqs anp\<close>; auto)
  show "occ x (virt_ranges (range_part v e m)) = of_bool (x \<in> span (pl_vaddr m) (pl_size m) \<and> v \<le> x \<and> x < e)"
    unfolding anp using cs by (cases; use assms(2) in \<open>simp add: eqs anp\<close>; auto)
  show "\<forall>k\<in>set (keep_parts v e m). real_mapping k"
    using cs by (cases; use assms r in \<open>simp add: eqs anp real_mapping_def\<close>)
  show "\<forall>k\<in>set (range_part v e m). real_mapping k"
    using cs by (cases; use assms r in \<open>simp add: eqs anp real_mapping_def\<close>)
  show "occ x (phys_ranges (keep_parts v e m)) + occ x (phys_ranges (range_part v e m)) = of_bool (x \<in> span (pl_phys m) (pl_size m))"
    unfolding anp using cs by (cases; use assms(2) in \<open>simp add: eqs anp\<close>; auto)
qed

lemma keep_cut_all:
  assumes "\<forall>m\<in>set ms. real_mapping m" and "v < e" and "e < two64"
  shows "occ x (phys_ranges (concat (map (keep_parts v e) ms))) + occ x (phys_ranges (concat (map (range_part v e) ms)))
      = occ x (phys_ranges ms)"
    and "occ x (virt_ranges (concat (map (keep_parts v e) ms))) = (if v \<le> x \<and> x < e then 0 else occ x (virt_ranges ms))"
    and "occ x (virt_ranges (concat (map (range_part v e) ms))) = (if v \<le> x \<and> x < e then occ x (virt_ranges ms) else 0)"
    and "\<forall>k\<in>set (concat (map (keep_parts v e) ms)) \<union> set (concat (map (range_part v e) ms)). real_mapping k"
proof -
  show "occ x (phys_ranges (concat (map (keep_parts v e) ms))) + occ x (phys_ranges (concat (map (range_part v e) ms)))
      = occ x (phys_ranges ms)"
    using assms(1)
  proof (induction ms)
    case (Cons m ms)
    then show ?case using keep_cut(1) [OF _ assms(2,3), of m x] by (simp del: in_span)
  qed simp
  show "occ x (virt_ranges (concat (map (keep_parts v e) ms))) = (if v \<le> x \<and> x < e then 0 else occ x (virt_ranges ms))"
    using assms(1)
    by (induction ms) (simp_all add: keep_cut(2) [OF _ assms(2,3)] del: in_span)
  show "occ x (virt_ranges (concat (map (range_part v e) ms))) = (if v \<le> x \<and> x < e then occ x (virt_ranges ms) else 0)"
    using assms(1)
    by (induction ms) (simp_all add: keep_cut(3) [OF _ assms(2,3)] del: in_span)
  have "(\<forall>k\<in>set (keep_parts v e m). real_mapping k) \<and> (\<forall>k\<in>set (range_part v e m). real_mapping k)"
    if "m \<in> set ms" for m
    using keep_cut(4,5) [OF _ assms(2,3)] assms(1) that by blast
  then show "\<forall>k\<in>set (concat (map (keep_parts v e) ms)) \<union> set (concat (map (range_part v e) ms)). real_mapping k"
    by auto
qed

lemma cut_apart: "pl_vaddr k + pl_size k \<le> v \<or> e' \<le> pl_vaddr k \<Longrightarrow> v \<le> e' \<Longrightarrow> range_part v e k = range_part e' e k"
  by (auto simp: range_part_def Let_def max_def min_def)

text \<open>A query returns the parts of the mappings in its range, and fails exactly where an address is not mapped.\<close>

lemma query_loop_cuts:
  assumes "\<forall>m\<in>set ms. real_mapping m" and "\<forall>x. occ x (virt_ranges ms) \<le> 1" and "e < two64"
  shows "(case query_loop v e ms of
      None \<Rightarrow> (\<exists>x. v \<le> x \<and> x < e \<and> occ x (virt_ranges ms) = 0)
    | Some ps \<Rightarrow> mset ps = mset (concat (map (range_part v e) ms))
        \<and> (\<forall>x. v \<le> x \<and> x < e \<longrightarrow> occ x (virt_ranges ms) = 1))"
  using assms
proof (induction v e ms rule: query_loop.induct)
  case (1 v e ms)
  show ?case
  proof (cases "v < e")
    case False
    then have "range_part v e m = []" for m by (auto simp: range_part_def Let_def)
    then show ?thesis using False by (simp add: query_loop.simps [of v])
  next
    case lt: True
    show ?thesis
    proof (cases "find (maps_address v) ms")
      case None
      have "\<not> maps_address v m" if "m \<in> set ms" for m using None that unfolding find_None_iff by blast
      then have "v \<notin> span (pl_vaddr m) (pl_size m)" if "m \<in> set ms" for m
        using 1(2) that by (auto simp: maps_address_def real_mapping_def)
      then have "\<not> 0 < occ v (virt_ranges ms)" unfolding occ_member' [symmetric] by (simp del: in_span)
      then show ?thesis using lt None by (auto simp: query_loop.simps [of v e])
    next
      case (Some m)
      obtain us vs where ms: "ms = us @ m # vs" using find_split [OF Some] by blast
      have m: "0 < pl_size m" "pl_vaddr m + pl_size m < two64" "pl_phys m + pl_size m < two64"
        using 1(2) ms by (simp_all add: real_mapping_def)
      have v: "pl_vaddr m \<le> v" "v < pl_vaddr m + pl_size m"
        using find_holds [OF Some] m by (simp_all add: maps_address_def)
      define c where "c = min e (pl_vaddr m + pl_size m)"
      have c: "v < c" "c \<le> e" "c \<le> pl_vaddr m + pl_size m" using v lt by (simp_all add: c_def)
      have vc: "v + (c - v) = c" using c by simp
      define q where "q = \<lparr>pl_vaddr = v, pl_size = c - v, pl_phys = pl_phys m + (v - pl_vaddr m), pl_gpu = pl_gpu m\<rparr>"
      have loop: "query_loop v e ms = map_option (Cons q) (query_loop c e ms)"
        using lt Some v m c by (simp add: query_loop.simps [of v e] Let_def q_def flip: c_def)
      have IH: "(case query_loop c e ms of
            None \<Rightarrow> (\<exists>x. c \<le> x \<and> x < e \<and> occ x (virt_ranges ms) = 0)
          | Some ps \<Rightarrow> mset ps = mset (concat (map (range_part c e) ms))
              \<and> (\<forall>x. c \<le> x \<and> x < e \<longrightarrow> occ x (virt_ranges ms) = 1))"
        using 1(1) [OF _ Some, of "c - v", unfolded vc] lt c(1) vc m 1(2-4) by (simp flip: c_def)
      have "range_part v e m = [q]" "range_part c e m = []"
        using v c lt by (simp_all add: range_part_def Let_def q_def c_def max_def)
      moreover have "range_part v e k = range_part c e k" if "k \<in> set us \<union> set vs" for k
      proof (rule cut_apart)
        have "real (virt_ranges ms)" using 1(2) real_mappings by blast
        then show "pl_vaddr k + pl_size k \<le> v \<or> c \<le> pl_vaddr k"
          using occ_apart [of "virt_ranges us" "(pl_vaddr m, pl_size m)" "virt_ranges vs" "(pl_vaddr k, pl_size k)"]
            1(3) that v c by (auto simp: ms)
        show "v \<le> c" using c by simp
      qed
      then have "concat (map (range_part v e) us) = concat (map (range_part c e) us)"
        "concat (map (range_part v e) vs) = concat (map (range_part c e) vs)"
        by (simp_all cong: map_cong)
      ultimately have cuts: "mset (concat (map (range_part v e) ms)) = add_mset q (mset (concat (map (range_part c e) ms)))"
        by (simp add: ms)
      have "occ x (virt_ranges ms) = 1" if "v \<le> x" "x < c" for x
      proof -
        have "0 < occ x (virt_ranges ms)"
          using that v c by (intro occ_member [of "pl_vaddr m" "pl_size m"]) (auto simp: ms)
        then show ?thesis using 1(3) [rule_format, of x] by linarith
      qed
      then have one: "occ x (virt_ranges ms) = 1" if "v \<le> x" "\<not> c \<le> x" for x using that by simp
      show ?thesis
      proof (cases "query_loop c e ms")
        case None
        then obtain x where "c \<le> x" "x < e" "occ x (virt_ranges ms) = 0" using IH by auto
        then show ?thesis using None c(1) by (auto simp: loop intro!: exI [of _ x])
      next
        case (Some ps)
        then show ?thesis using IH one by (simp add: loop cuts) blast
      qed
    qed
  qed
qed

lemma query_loop_ok:
  assumes p: "pool_ok p" and "e < two64"
  shows "(query_loop v e (p_mappings p) = None \<longleftrightarrow> (\<exists>x. v \<le> x \<and> x < e \<and> occ x (virt_ranges (p_mappings p)) = 0))"
    and "query_loop v e (p_mappings p) = Some ps \<Longrightarrow> mset ps = mset (concat (map (range_part v e) (p_mappings p)))"
proof -
  note d = pool_okD [OF p]
  have "\<forall>m\<in>set (p_mappings p). real_mapping m" using d(3,4) by (simp add: real_mappings)
  note q = query_loop_cuts [OF this allI [OF d(7)] assms(2), of v]
  show "(query_loop v e (p_mappings p) = None \<longleftrightarrow> (\<exists>x. v \<le> x \<and> x < e \<and> occ x (virt_ranges (p_mappings p)) = 0))"
    using q by (cases "query_loop v e (p_mappings p)") fastforce+
  show "mset ps = mset (concat (map (range_part v e) (p_mappings p)))" if "query_loop v e (p_mappings p) = Some ps"
    using q that by simp
qed

lemma occ_map_mset: "mset ms = mset ns \<Longrightarrow> occ x (map f ms) = occ x (map f ns)"
  by (rule occ_mset) simp

lemma pool_release_cases:
  assumes p: "pool_ok p" and v: "v \<noteq> 0" "n \<noteq> 0" "v + n < two64"
  shows "(snd (pool_release v n p) \<noteq> None \<longleftrightarrow> (\<forall>x\<in>span v n. occ x (virt_ranges (p_mappings p)) = 1))
    \<and> (snd (pool_release v n p) = None \<longrightarrow> fst (pool_release v n p) = p)
    \<and> (snd (pool_release v n p) \<noteq> None \<longrightarrow> (\<forall>x. occ x (virt_ranges (p_mappings (fst (pool_release v n p))))
         = (if x \<in> span v n then 0 else occ x (virt_ranges (p_mappings p)))))
    \<and> p_expansions (fst (pool_release v n p)) = p_expansions p
    \<and> pool_ok (fst (pool_release v n p))"
proof -
  note d = pool_okD [OF p]
  have real: "\<forall>m\<in>set (p_mappings p). real_mapping m" using d(3,4) by (simp add: real_mappings)
  have vn: "v < v + n" using v by simp
  have c: "\<not> (v = 0 \<or> n = 0 \<or> U64_MAX - v < n)" using v by simp
  have q: "pool_query v n p = query_loop v (v + n) (p_mappings p)"
    using c v(3) unfolding pool_query_def by (simp only: if_False add64_exact)
  note ok = query_loop_ok [OF p v(3), of v]
  have le1: "occ x (virt_ranges (p_mappings p)) = 1 \<longleftrightarrow> occ x (virt_ranges (p_mappings p)) \<noteq> 0" for x
    using d(7) [of x] by linarith
  show ?thesis
  proof (cases "query_loop v (v + n) (p_mappings p)")
    case None
    then have "\<not> (\<forall>x\<in>span v n. occ x (virt_ranges (p_mappings p)) = 1)"
      using ok(1) by (auto simp: le1 Bex_def)
    then show ?thesis using p None by (simp add: pool_release_def q)
  next
    case (Some ps)
    note ps = ok(2) [OF Some] and all = keep_cut_all [OF real vn v(3)]
    define kept where "kept = concat (map (keep_parts v (v + n)) (p_mappings p))"
    define cuts where "cuts = concat (map (range_part v (v + n)) (p_mappings p))"
    define free where "free = fold (\<lambda>(a, n). add_free_unlocked a n) (phys_ranges ps) (p_free p)"
    have sets: "set ps = set cuts" using ps mset_eq_setD by (metis cuts_def)
    have sum: "occ x (phys_ranges kept) + occ x (phys_ranges ps) = occ x (phys_ranges (p_mappings p))" for x
      using all(1) [of x] occ_map_mset [OF ps, of x "\<lambda>m. (pl_phys m, pl_size m)"] by (simp add: kept_def)
    have virt: "occ x (virt_ranges kept) = (if x \<in> span v n then 0 else occ x (virt_ranges (p_mappings p)))" for x
      using all(2) [of x] by (simp add: kept_def)
    have reals: "real (phys_ranges kept)" "real (virt_ranges kept)" "real (phys_ranges ps)"
      using all(4) real_mappings [of kept] real_mappings [of ps] sets by (simp_all add: kept_def cuts_def ball_Un)
    have one: "of_bool (x \<in> fr_cover (p_free p)) + (occ x (phys_ranges kept) + occ x (phys_ranges ps)) = occ x (p_expansions p)"
      "occ x (p_expansions p) \<le> 1" for x
      using d(5,6) [of x] by (simp_all add: sum)
    have "occ x (phys_ranges ps) \<le> 1" for x using one [of x] by linarith
    then have sep: "separate (phys_ranges ps)" using occ_separate [OF reals(3)] by blast
    have dis: "x \<notin> fr_cover (p_free p)" if "0 < occ x (phys_ranges ps)" for x
      using one [of x] that by (cases "x \<in> fr_cover (p_free p)") simp_all
    have "\<forall>(a, k)\<in>set (phys_ranges ps). span a k \<inter> fr_cover (p_free p) = {}"
    proof (clarify, rule ccontr)
      fix a k assume "(a, k) \<in> set (phys_ranges ps)" "span a k \<inter> fr_cover (p_free p) \<noteq> {}"
      then obtain x where x: "x \<in> span a k" "x \<in> fr_cover (p_free p)" by blast
      show False using dis [OF occ_member [OF \<open>(a, k) \<in> _\<close> x(1)]] x(2) by contradiction
    qed
    from pool_free.give_all [OF d(1) sep this]
    have free: "fr_ok free" "fr_cover free = fr_cover (p_free p) \<union> (\<Union>(a, k)\<in>set (phys_ranges ps). span a k)"
      by (simp_all only: free_def)
    have "x \<in> (\<Union>(a, k)\<in>set (phys_ranges ps). span a k) \<longleftrightarrow> 0 < occ x (phys_ranges ps)" for x
      unfolding occ_member' [symmetric] by (auto simp del: in_span)
    then have cover: "x \<in> fr_cover free \<longleftrightarrow> x \<in> fr_cover (p_free p) \<or> 0 < occ x (phys_ranges ps)" for x
      by (simp only: free(2) Un_iff)
    have "of_bool (x \<in> fr_cover free) + occ x (phys_ranges kept) = occ x (p_expansions p)" for x
      using one [of x] dis [of x] unfolding cover by (cases "x \<in> fr_cover (p_free p)"; cases "0 < occ x (phys_ranges ps)") simp_all
    moreover have "occ x (virt_ranges kept) \<le> 1" for x using virt [of x] d(7) [of x] by (simp del: in_span)
    ultimately have inv: "pool_ok (p\<lparr>p_mappings := kept, p_free := free\<rparr>)"
      using d(2) one(2) free(1) reals by (simp add: pool_ok_def del: in_span)
    have fold: "fold (\<lambda>m. add_free_unlocked (pl_phys m) (pl_size m)) ps (p_free p) = free"
      by (simp add: free_def fold_map comp_def)
    have rel: "pool_release v n p = (p\<lparr>p_mappings := kept, p_free := free\<rparr>, Some (pl_gpu (hd ps)))"
      using q Some v(3) by (simp add: pool_release_def fold kept_def)
    have "\<forall>x\<in>span v n. occ x (virt_ranges (p_mappings p)) = 1"
      unfolding le1 using ok(1) Some by simp
    then show ?thesis using inv virt by (simp add: rel del: in_span)
  qed
qed

subsection \<open>Every pool the operations reach\<close>

text \<open>The memory calls give the pool physical ranges it does not have yet, and allocate virtual ranges without mappings.\<close>

inductive pool_reach :: "pool \<Rightarrow> bool" where
  init: "pool_reach \<lparr>p_free = [], p_expansions = [], p_mappings = []\<rparr>"
| expand: "\<lbrakk>pool_reach p; 0 < n; a + n < two64; \<forall>(b, k)\<in>set (p_expansions p). span a n \<inter> span b k = {}\<rbrakk>
    \<Longrightarrow> pool_reach (pool_expand a n p)"
| shrink: "pool_reach p \<Longrightarrow> pool_reach (fst (pool_release_expansion a n p))"
| allocate: "\<lbrakk>pool_reach p; \<forall>m\<in>set (p_mappings p). span v n \<inter> span (pl_vaddr m) (pl_size m) = {}\<rbrakk>
    \<Longrightarrow> pool_reach (fst (pool_allocate v n g p))"
| release: "pool_reach p \<Longrightarrow> pool_reach (fst (pool_release v n p))"

lemma pool_release_refuses:
  "v = 0 \<or> n = 0 \<or> U64_MAX - v < n \<Longrightarrow> pool_release v n p = (p, None)"
  unfolding pool_release_def pool_query_def by (simp only: if_True option.case)

lemma pool_reach_ok: "pool_reach p \<Longrightarrow> pool_ok p"
proof (induction rule: pool_reach.induct)
  case init
  show ?case by (simp add: pool_ok_def fr_ok_simps)
next
  case (expand p n a)
  then show ?case using disjoint_occ [OF expand(4)] by (intro pool_expand_ok) simp_all
next
  case (shrink p a n)
  then show ?case using release_expansion_cases by blast
next
  case (allocate p v n g)
  have "\<forall>(b, k)\<in>set (virt_ranges (p_mappings p)). span v n \<inter> span b k = {}"
    using allocate(2) by auto
  then show ?case using allocate.IH disjoint_occ by (intro pool_allocate_ok) blast+
next
  case (release p v n)
  then show ?case
  proof (cases "v = 0 \<or> n = 0 \<or> U64_MAX - v < n")
    case False
    then have "v \<noteq> 0" "n \<noteq> 0" "v + n < two64" by auto
    then show ?thesis using pool_release_cases [OF release.IH] by blast
  qed (simp add: pool_release_refuses release.IH)
qed

lemma pool_accounting:
  assumes p: "pool_ok p"
  shows "sizes (p_free p) + sum_list (map pl_size (p_mappings p)) = sizes (p_expansions p)"
    and "sizes (p_expansions p) \<le> U64_MAX"
proof -
  note d = pool_okD [OF p]
  have "sizes (p_free p) + sizes (phys_ranges (p_mappings p))
      = (\<Sum>x<U64_MAX. occ x (p_free p) + occ x (phys_ranges (p_mappings p)))"
    by (simp only: real_sizes [OF fr_ok_occ(2) [OF d(1)]] real_sizes [OF d(3)] sum.distrib)
  also have "\<dots> = sizes (p_expansions p)"
    by (simp only: fr_ok_occ(1) [OF d(1)] d(5) real_sizes [OF d(2)])
  finally show "sizes (p_free p) + sum_list (map pl_size (p_mappings p)) = sizes (p_expansions p)"
    by (simp add: comp_def)
  have "(\<Sum>x<U64_MAX. occ x (p_expansions p)) \<le> (\<Sum>x<U64_MAX. 1)"
    by (rule sum_mono) (rule d(6))
  then show "sizes (p_expansions p) \<le> U64_MAX" unfolding real_sizes [OF d(2)] by simp
qed

lemma pool_available_sum: "fold (\<lambda>(s, n) a. add64 a n) rs (acc mod two64) = (acc + sizes rs) mod two64"
proof (induction rs arbitrary: acc)
  case (Cons r rs)
  have "add64 (acc mod two64) (snd r) = (acc + snd r) mod two64" by (simp add: add64_mod)
  then show ?case using Cons [of "acc + snd r"] by (cases r) (simp add: add.assoc)
qed simp

lemma pool_available_sizes: "pool_ok p \<Longrightarrow> pool_available p = sizes (p_free p)"
  using pool_accounting [of p] pool_available_sum [of "p_free p" 0] by (simp add: pool_available_def)

lemma occ_phys_free:
  "(\<forall>x\<in>span a n. occ x (phys_ranges ms) = 0) \<longleftrightarrow> (\<forall>m\<in>set ms. span a n \<inter> span (pl_phys m) (pl_size m) = {})"
  by (induction ms) (auto simp del: in_span)

text \<open>
  C33. In every pool the operations reach the free ranges are sorted with gaps and each address given to
  the pool is free or behind exactly one mapping; what is available and what is mapped add up to what
  was given; allocation succeeds exactly for sizes that are available; a query or release succeeds
  exactly for ranges that are mapped throughout; and an expansion can be taken back exactly when no
  mapping uses it.
\<close>

theorem pool_accounts:
  assumes "pool_reach p"
  shows "pool_ok p
    \<and> pool_available p + sum_list (map pl_size (p_mappings p)) = sum_list (map snd (p_expansions p))
    \<and> (\<forall>v n g. v \<noteq> 0 \<and> n \<noteq> 0 \<and> v + n < two64 \<longrightarrow>
         (snd (pool_allocate v n g p) \<noteq> None \<longleftrightarrow> n \<le> pool_available p)
       \<and> (pool_query v n p \<noteq> None \<longleftrightarrow> (\<forall>x\<in>span v n. \<exists>m\<in>set (p_mappings p). x \<in> span (pl_vaddr m) (pl_size m)))
       \<and> (snd (pool_release v n p) \<noteq> None \<longleftrightarrow> pool_query v n p \<noteq> None))
    \<and> (\<forall>a n. snd (pool_release_expansion a n p) \<longleftrightarrow> (a, n) \<in> set (p_expansions p)
         \<and> (\<forall>m\<in>set (p_mappings p). span a n \<inter> span (pl_phys m) (pl_size m) = {}))"
proof -
  note ok = pool_reach_ok [OF assms]
  have "(snd (pool_allocate v n g p) \<noteq> None \<longleftrightarrow> n \<le> pool_available p)
      \<and> (pool_query v n p \<noteq> None \<longleftrightarrow> (\<forall>x\<in>span v n. \<exists>m\<in>set (p_mappings p). x \<in> span (pl_vaddr m) (pl_size m)))
      \<and> (snd (pool_release v n p) \<noteq> None \<longleftrightarrow> pool_query v n p \<noteq> None)"
    if v: "v \<noteq> 0" "n \<noteq> 0" "v + n < two64" for v n g
  proof (intro conjI)
    show "snd (pool_allocate v n g p) \<noteq> None \<longleftrightarrow> n \<le> pool_available p"
      using pool_allocate_cases [OF ok v, of g] unfolding pool_available_sizes [OF ok] by fastforce
    have "\<not> (v = 0 \<or> n = 0 \<or> U64_MAX - v < n)" using v by simp
    then have "pool_query v n p = query_loop v (v + n) (p_mappings p)"
      using v(3) unfolding pool_query_def by (simp only: if_False add64_exact)
    then have "pool_query v n p \<noteq> None \<longleftrightarrow> (\<forall>x\<in>span v n. 0 < occ x (virt_ranges (p_mappings p)))"
      using query_loop_ok(1) [OF ok v(3), of v] by (auto simp: Ball_def)
    then show "pool_query v n p \<noteq> None \<longleftrightarrow> (\<forall>x\<in>span v n. \<exists>m\<in>set (p_mappings p). x \<in> span (pl_vaddr m) (pl_size m))"
      unfolding occ_member' [symmetric] by (simp del: in_span)
    show "snd (pool_release v n p) \<noteq> None \<longleftrightarrow> pool_query v n p \<noteq> None"
      by (simp add: pool_release_def split: option.split)
  qed
  moreover have "(\<forall>x\<in>span a n. occ x (phys_ranges (p_mappings p)) = 0)
      \<longleftrightarrow> (\<forall>m\<in>set (p_mappings p). span a n \<inter> span (pl_phys m) (pl_size m) = {})" for a n
    by (simp only: occ_phys_free)
  ultimately show ?thesis
    using ok pool_available_sizes pool_accounting release_expansion_cases [OF ok] by auto
qed

definition sample_pool :: pool where
  "sample_pool = fst (pool_allocate 65536 4096 GpuRead
     (pool_expand 8192 12288 \<lparr>p_free = [], p_expansions = [], p_mappings = []\<rparr>))"

lemma sample_pool_state:
  "sample_pool = \<lparr>p_free = [(12288, 8192)], p_expansions = [(8192, 12288)],
     p_mappings = [\<lparr>pl_vaddr = 65536, pl_size = 4096, pl_phys = 8192, pl_gpu = GpuRead\<rparr>]\<rparr>"
  by (simp add: sample_pool_def pool_expand_def add_free_unlocked_def pool_allocate_def Let_def)

theorem pool_accounts_witness:
  "pool_available sample_pool + 4096 = 12288
   \<and> snd (pool_allocate 4194304 8192 GpuRead sample_pool) \<noteq> None
   \<and> \<not> snd (pool_release_expansion 8192 12288 sample_pool)"
proof -
  have "pool_reach sample_pool"
    unfolding sample_pool_def
    by (intro pool_reach.allocate pool_reach.expand pool_reach.init) (simp_all add: pool_expand_def)
  note acc = pool_accounts [OF this]
  have total: "pool_available sample_pool + 4096 = 12288" using acc by (simp add: sample_pool_state)
  moreover have "snd (pool_allocate 4194304 8192 GpuRead sample_pool) \<noteq> None"
    using acc total by simp
  moreover have "8192 \<in> span 8192 12288 \<inter> span 8192 4096" by simp
  then have "\<not> snd (pool_release_expansion 8192 12288 sample_pool)"
    using acc by (auto simp: sample_pool_state simp del: in_span)
  ultimately show ?thesis by blast
qed

end
