(* ===== verification/FlexibleMemory.thy ===== *)
theory FlexibleMemory
  imports FreeRanges MemBase
begin

text \<open>
  The class \<open>FlexibleMemory\<close> of src/kernel/memory.cpp: blocks of guest memory over a backing store, sorted
  by address, the free ranges of the store and the number of bytes in use.  Every method holds the class
  mutex throughout.  The guest address space is asked through the three calls below; what it answers is
  an argument of the operations, and each operation returns the calls it made.  The result \<open>None\<close> of an
  operation is a failed \<open>EXIT_IF\<close>.
\<close>

record fblock =
  f_vaddr :: u64
  f_size :: u64
  f_off :: u64
  f_host_vaddr :: u64
  f_host_size :: u64
  f_prot :: prot
  f_mode :: vm_mode
  f_gpu :: gpu_mode
  f_name :: string

record flex =
  fx_blocks :: "fblock list"
  fx_free :: "u64 omap"
  fx_total :: u64

datatype host_call = ZeroBacking u64 u64 | MapBacking u64 u64 u64 vm_mode | UnmapBacking u64 u64

type_synonym host = "host_call \<Rightarrow> bool"

definition flex_init :: "u64 \<Rightarrow> u64 \<Rightarrow> flex" where
  "flex_init psize fsize = \<lparr>fx_blocks = [], fx_free = om_emplace psize fsize [], fx_total = 0\<rparr>"

definition flex_available :: "u64 \<Rightarrow> flex \<Rightarrow> u64" where
  "flex_available fsize s = (if fsize \<ge> fx_total s then sub64 fsize (fx_total s) else 0)"

definition f_end :: "fblock \<Rightarrow> u64" where
  "f_end b = add64 (f_vaddr b) (f_size b)"

subsection \<open>\<open>Map\<close>\<close>

text \<open>The loop that cuts the length into chunks of free ranges: the blocks and what remains.\<close>

fun flex_chunks :: "fblock \<Rightarrow> u64 \<Rightarrow> u64 \<Rightarrow> u64 omap \<Rightarrow> fblock list \<times> u64" where
  "flex_chunks b current remaining [] = ([], remaining)"
| "flex_chunks b current remaining ((off, n) # free) =
     (if remaining = 0 then ([], remaining)
      else (let chunk = min remaining n;
                (bs, r) = flex_chunks b (add64 current chunk) (sub64 remaining chunk) free
            in (b\<lparr>f_vaddr := current, f_size := chunk, f_off := off\<rparr> # bs, r)))"

text \<open>Unmapping what has been mapped, the last block first.\<close>

fun undo_maps :: "host \<Rightarrow> fblock list \<Rightarrow> host_call list option" where
  "undo_maps host [] = Some []"
| "undo_maps host (b # bs) =
     (let c = UnmapBacking (f_vaddr b) (f_size b)
      in if host c then map_option (Cons c) (undo_maps host bs) else None)"

text \<open>The loop that maps the blocks, in \<open>Map\<close> after clearing their backing and in \<open>Restore\<close> without.\<close>

fun map_blocks :: "host \<Rightarrow> bool \<Rightarrow> fblock list \<Rightarrow> fblock list \<Rightarrow> (host_call list \<times> bool) option" where
  "map_blocks host zero mapped [] = Some ([], True)"
| "map_blocks host zero mapped (b # bs) =
     (let z = ZeroBacking (f_off b) (f_size b);
          m = MapBacking (f_vaddr b) (f_size b) (f_off b) (f_mode b);
          zs = (if zero then [z] else [])
      in if zero \<and> \<not> host z then map_option (\<lambda>cs. (zs @ cs, False)) (undo_maps host mapped)
         else if \<not> host m then map_option (\<lambda>cs. (zs @ m # cs, False)) (undo_maps host mapped)
         else map_option (\<lambda>(cs, ok). (zs @ m # cs, ok)) (map_blocks host zero (b # mapped) bs))"

definition consume_free_range :: "u64 \<Rightarrow> u64 \<Rightarrow> u64 \<Rightarrow> u64 omap \<Rightarrow> u64 omap" where
  "consume_free_range range_start start sz free =
     (let range_end = add64 range_start (the (map_of free range_start));
          m1 = om_erase range_start free;
          m2 = (if range_start < start then om_emplace range_start (sub64 start range_start) m1 else m1)
      in if add64 start sz < range_end
         then om_emplace (add64 start sz) (sub64 (sub64 range_end start) sz) m2 else m2)"

text \<open>The free range a block is taken from, if it holds the block.\<close>

definition range_before :: "u64 \<Rightarrow> u64 omap \<Rightarrow> u64 option" where
  "range_before off free = om_prev (om_upper_bound off free) free"

definition range_holds :: "fblock \<Rightarrow> u64 \<Rightarrow> u64 omap \<Rightarrow> bool" where
  "range_holds b k free \<longleftrightarrow> \<not> (f_off b < k \<or> f_size b > sub64 (add64 k (the (map_of free k))) (f_off b))"

fun consume_blocks :: "bool \<Rightarrow> fblock list \<Rightarrow> u64 omap \<Rightarrow> u64 omap option" where
  "consume_blocks check [] free = Some free"
| "consume_blocks check (b # bs) free =
     (case range_before (f_off b) free of
        None \<Rightarrow> None
      | Some k \<Rightarrow> if check \<and> \<not> range_holds b k free then None
                  else consume_blocks check bs (consume_free_range k (f_off b) (f_size b) free))"

definition flex_map :: "host \<Rightarrow> u64 \<Rightarrow> u64 \<Rightarrow> u64 \<Rightarrow> prot \<Rightarrow> vm_mode \<Rightarrow> gpu_mode \<Rightarrow> string option \<Rightarrow> flex
    \<Rightarrow> (flex \<times> bool \<times> host_call list) option" where
  "flex_map host fsize vaddr len prot mode gpu name s =
     (if len = 0 \<or> len > flex_available fsize s then Some (s, False, [])
      else (let b = \<lparr>f_vaddr = vaddr, f_size = 0, f_off = 0, f_host_vaddr = vaddr, f_host_size = len,
                     f_prot = prot, f_mode = mode, f_gpu = gpu, f_name = copy_virtual_range_name name\<rparr>;
                (blocks, remaining) = flex_chunks b vaddr len (fx_free s)
            in if remaining \<noteq> 0 then Some (s, False, [])
               else case map_blocks host True [] blocks of
                      None \<Rightarrow> None
                    | Some (calls, ok) \<Rightarrow>
                        if \<not> ok then Some (s, False, calls)
                        else case consume_blocks True blocks (fx_free s) of
                               None \<Rightarrow> None
                             | Some free \<Rightarrow>
                                 Some (s\<lparr>fx_blocks := sort_key f_vaddr (fx_blocks s @ blocks), fx_free := free,
                                         fx_total := add64 (fx_total s) len\<rparr>, True, calls)))"

subsection \<open>\<open>Unmap\<close>\<close>

text \<open>The loop that looks for the range: the GPU mode of its first block and how far it is mapped.\<close>

fun unmap_scan :: "u64 \<Rightarrow> u64 \<Rightarrow> gpu_mode option \<Rightarrow> fblock list \<Rightarrow> gpu_mode option \<times> u64" where
  "unmap_scan end current found [] = (found, current)"
| "unmap_scan end current found (b # bs) =
     (if f_end b \<le> current then unmap_scan end current found bs
      else if f_vaddr b > current \<or> f_vaddr b \<ge> end then (found, current)
      else (let found' = (case found of None \<Rightarrow> Some (f_gpu b) | Some g \<Rightarrow> Some g);
                current' = min end (f_end b)
            in if current' = end then (found', current') else unmap_scan end current' found' bs))"

text \<open>The loop that cuts the range out: the blocks that remain, the free ranges, the bytes removed.\<close>

fun unmap_cut :: "u64 \<Rightarrow> u64 \<Rightarrow> fblock list \<Rightarrow> u64 omap \<Rightarrow> u64 \<Rightarrow> fblock list \<times> u64 omap \<times> u64" where
  "unmap_cut vaddr sz [] free removed = ([], free, removed)"
| "unmap_cut vaddr sz (b # bs) free removed =
     (if \<not> virtual_ranges_overlap vaddr sz (f_vaddr b) (f_size b)
      then (let (rest, free', removed') = unmap_cut vaddr sz bs free removed in (b # rest, free', removed'))
      else (let overlap_start = max vaddr (f_vaddr b);
                overlap_end = min (add64 vaddr sz) (f_end b);
                overlap_size = sub64 overlap_end overlap_start;
                (rest, free', removed') =
                  unmap_cut vaddr sz bs
                    (add_free_range (sub64 (add64 (f_off b) overlap_start) (f_vaddr b)) overlap_size free)
                    (add64 removed overlap_size)
            in ((if f_vaddr b < overlap_start then [b\<lparr>f_size := sub64 overlap_start (f_vaddr b)\<rparr>] else [])
                @ (if overlap_end < f_end b
                   then [b\<lparr>f_vaddr := overlap_end, f_size := sub64 (f_end b) overlap_end,
                           f_off := sub64 (add64 (f_off b) overlap_end) (f_vaddr b)\<rparr>] else [])
                @ rest, free', removed')))"

definition flex_unmap :: "host \<Rightarrow> u64 \<Rightarrow> u64 \<Rightarrow> flex \<Rightarrow> (flex \<times> bool \<times> gpu_mode option \<times> host_call list) option" where
  "flex_unmap host vaddr sz s =
     (if sz = 0 \<or> U64_MAX - vaddr < sz then Some (s, False, None, [])
      else (let end = add64 vaddr sz; (found, current) = unmap_scan end vaddr None (fx_blocks s);
                c = UnmapBacking vaddr sz
            in if found = None \<or> current \<noteq> end then Some (s, False, found, [])
               else if \<not> host c then Some (s, False, found, [c])
               else (let (remaining, free, removed) = unmap_cut vaddr sz (fx_blocks s) (fx_free s) 0
                     in if removed \<noteq> sz \<or> removed > fx_total s then None
                        else Some (s\<lparr>fx_blocks := remaining, fx_free := free,
                                     fx_total := sub64 (fx_total s) removed\<rparr>, True, found, [c]))))"

subsection \<open>\<open>Snapshot\<close> and \<open>Restore\<close>\<close>

fun snapshot_loop :: "u64 \<Rightarrow> u64 \<Rightarrow> fblock list \<Rightarrow> fblock list option" where
  "snapshot_loop end current [] = None"
| "snapshot_loop end current (b # bs) =
     (if f_end b \<le> current then snapshot_loop end current bs
      else if f_vaddr b > current \<or> f_vaddr b \<ge> end then None
      else (let part_end = min end (f_end b);
                part = b\<lparr>f_vaddr := current, f_size := sub64 part_end current,
                         f_off := add64 (f_off b) (sub64 current (f_vaddr b))\<rparr>
            in if part_end = end then Some [part] else map_option (Cons part) (snapshot_loop end part_end bs)))"

definition flex_snapshot :: "u64 \<Rightarrow> u64 \<Rightarrow> flex \<Rightarrow> fblock list option" where
  "flex_snapshot vaddr sz s =
     (if sz = 0 \<or> U64_MAX - vaddr < sz then None else snapshot_loop (add64 vaddr sz) vaddr (fx_blocks s))"

definition flex_restore :: "host \<Rightarrow> fblock list \<Rightarrow> flex \<Rightarrow> (flex \<times> bool \<times> host_call list) option" where
  "flex_restore host blocks s =
     (if blocks = [] then Some (s, False, [])
      else if \<not> list_all (\<lambda>b. case range_before (f_off b) (fx_free s) of
                                 None \<Rightarrow> False | Some k \<Rightarrow> range_holds b k (fx_free s)) blocks
      then Some (s, False, [])
      else case map_blocks host False [] blocks of
             None \<Rightarrow> None
           | Some (calls, ok) \<Rightarrow>
               if \<not> ok then Some (s, False, calls)
               else case consume_blocks False blocks (fx_free s) of
                      None \<Rightarrow> None
                    | Some free \<Rightarrow>
                        Some (s\<lparr>fx_blocks := sort_key f_vaddr (fx_blocks s @ blocks), fx_free := free,
                                fx_total := fold (\<lambda>b n. add64 n (f_size b)) blocks (fx_total s)\<rparr>, True, calls))"

subsection \<open>\<open>Protect\<close>, \<open>Find\<close> and names\<close>

definition flex_protect_block :: "u64 \<Rightarrow> u64 \<Rightarrow> prot \<Rightarrow> vm_mode \<Rightarrow> gpu_mode \<Rightarrow> fblock \<Rightarrow> fblock list" where
  "flex_protect_block vaddr sz prot mode gpu b =
     (if \<not> virtual_ranges_overlap vaddr sz (f_vaddr b) (f_size b) then [b]
      else (let overlap_start = max vaddr (f_vaddr b);
                overlap_end = min (add64 vaddr sz) (f_end b)
            in (if f_vaddr b < overlap_start then [b\<lparr>f_size := sub64 overlap_start (f_vaddr b)\<rparr>] else [])
               @ [b\<lparr>f_vaddr := overlap_start, f_size := sub64 overlap_end overlap_start,
                    f_off := sub64 (add64 (f_off b) overlap_start) (f_vaddr b),
                    f_prot := prot, f_mode := mode, f_gpu := gpu\<rparr>]
               @ (if overlap_end < f_end b
                  then [b\<lparr>f_vaddr := overlap_end, f_size := sub64 (f_end b) overlap_end,
                          f_off := sub64 (add64 (f_off b) overlap_end) (f_vaddr b)\<rparr>] else [])))"

definition flex_protect :: "u64 \<Rightarrow> u64 \<Rightarrow> prot \<Rightarrow> vm_mode \<Rightarrow> gpu_mode \<Rightarrow> flex \<Rightarrow> flex" where
  "flex_protect vaddr sz prot mode gpu s =
     (if sz = 0 \<or> U64_MAX - vaddr < sz then s
      else s\<lparr>fx_blocks := concat (map (flex_protect_block vaddr sz prot mode gpu) (fx_blocks s))\<rparr>)"

definition flex_find :: "u64 \<Rightarrow> flex \<Rightarrow> (u64 \<times> u64 \<times> prot \<times> vm_mode \<times> gpu_mode) option" where
  "flex_find vaddr s =
     map_option (\<lambda>b. (f_vaddr b, f_size b, f_prot b, f_mode b, f_gpu b))
       (find (\<lambda>b. vaddr \<ge> f_vaddr b \<and> vaddr < f_end b) (fx_blocks s))"

definition flex_set_name :: "u64 \<Rightarrow> u64 \<Rightarrow> string option \<Rightarrow> flex \<Rightarrow> flex" where
  "flex_set_name vaddr len name s =
     s\<lparr>fx_blocks := map (\<lambda>b. if virtual_ranges_overlap vaddr len (f_vaddr b) (f_size b)
                             then b\<lparr>f_name := copy_virtual_range_name name\<rparr> else b) (fx_blocks s)\<rparr>"

end
