(* ===== verification/FlexibleFacts.thy ===== *)
theory FlexibleFacts
  imports FlexibleMemory PooledTheorems
begin

text \<open>
  Facts about the flexible memory: the parts of blocks, what blocks map addresses to, taking blocks out
  of the free ranges and giving them back, and what the operations do to the host address space.
\<close>

subsection \<open>Blocks and their parts\<close>

abbreviation f_virt :: "fblock list \<Rightarrow> (u64 \<times> u64) list" where
  "f_virt \<equiv> map (\<lambda>b. (f_vaddr b, f_size b))"

abbreviation f_back :: "fblock list \<Rightarrow> (u64 \<times> u64) list" where
  "f_back \<equiv> map (\<lambda>b. (f_off b, f_size b))"

text \<open>The ranges of a block, as those of a mapping of the pool.\<close>

definition geo :: "fblock \<Rightarrow> pmapping" where
  "geo b = \<lparr>pl_vaddr = f_vaddr b, pl_size = f_size b, pl_phys = f_off b, pl_gpu = f_gpu b\<rparr>"

lemma geo_simps [simp]:
  "pl_vaddr (geo b) = f_vaddr b" "pl_size (geo b) = f_size b" "pl_phys (geo b) = f_off b"
  by (simp_all add: geo_def)

lemma geo_ranges: "phys_ranges (map geo bs) = f_back bs" "virt_ranges (map geo bs) = f_virt bs"
  by simp_all

definition real_block :: "fblock \<Rightarrow> bool" where
  "real_block b \<longleftrightarrow> real_mapping (geo b)"

lemma real_blockD:
  assumes "real_block b"
  shows "0 < f_size b" "f_vaddr b + f_size b < two64" "f_off b + f_size b < two64"
    "f_end b = f_vaddr b + f_size b"
  using assms by (simp_all add: real_block_def real_mapping_def f_end_def)

lemma real_blocks: "(\<forall>b\<in>set bs. real_block b) \<longleftrightarrow> real (f_back bs) \<and> real (f_virt bs)"
  using real_mappings [of "map geo bs", unfolded geo_ranges] by (simp add: real_block_def)

text \<open>The part of a block inside a range, and what is left of it outside.\<close>

definition block_part :: "u64 \<Rightarrow> u64 \<Rightarrow> fblock \<Rightarrow> fblock list" where
  "block_part v e b =
     (let cs = max v (f_vaddr b); ce = min e (f_vaddr b + f_size b)
      in if ce \<le> cs then []
         else [b\<lparr>f_vaddr := cs, f_size := ce - cs, f_off := f_off b + (cs - f_vaddr b)\<rparr>])"

definition block_rest :: "u64 \<Rightarrow> u64 \<Rightarrow> fblock \<Rightarrow> fblock list" where
  "block_rest v e b =
     (if f_vaddr b + f_size b \<le> v \<or> e \<le> f_vaddr b then [b]
      else (if f_vaddr b < v then [b\<lparr>f_size := v - f_vaddr b\<rparr>] else [])
        @ (if e < f_vaddr b + f_size b
           then [b\<lparr>f_vaddr := e, f_size := f_vaddr b + f_size b - e, f_off := f_off b + (e - f_vaddr b)\<rparr>]
           else []))"

lemma geo_part: "map geo (block_part v e b) = range_part v e (geo b)"
  by (simp add: block_part_def range_part_def Let_def geo_def)

lemma geo_rest: "\<lbrakk>real_block b; v < e; e < two64\<rbrakk> \<Longrightarrow> map geo (block_rest v e b) = keep_parts v e (geo b)"
  using keep_parts_eq [of "geo b" v e] by (simp add: block_rest_def real_block_def geo_def)

abbreviation blocks_part :: "u64 \<Rightarrow> u64 \<Rightarrow> fblock list \<Rightarrow> fblock list" where
  "blocks_part v e bs \<equiv> concat (map (block_part v e) bs)"

abbreviation blocks_rest :: "u64 \<Rightarrow> u64 \<Rightarrow> fblock list \<Rightarrow> fblock list" where
  "blocks_rest v e bs \<equiv> concat (map (block_rest v e) bs)"

lemma geo_parts: "map geo (blocks_part v e bs) = concat (map (range_part v e) (map geo bs))"
  by (simp add: map_concat comp_def geo_part)

lemma geo_rests:
  "\<lbrakk>\<forall>b\<in>set bs. real_block b; v < e; e < two64\<rbrakk> \<Longrightarrow>
   map geo (blocks_rest v e bs) = concat (map (keep_parts v e) (map geo bs))"
  by (induction bs) (simp_all add: geo_rest)

lemma blocks_parts:
  assumes "\<forall>b\<in>set bs. real_block b" and "v < e" and "e < two64"
  shows "occ x (f_back (blocks_rest v e bs)) + occ x (f_back (blocks_part v e bs)) = occ x (f_back bs)"
    and "occ x (f_virt (blocks_rest v e bs)) = (if v \<le> x \<and> x < e then 0 else occ x (f_virt bs))"
    and "occ x (f_virt (blocks_part v e bs)) = (if v \<le> x \<and> x < e then occ x (f_virt bs) else 0)"
    and "\<forall>b\<in>set (blocks_rest v e bs). real_block b" "\<forall>b\<in>set (blocks_part v e bs). real_block b"
proof -
  have "\<forall>m\<in>set (map geo bs). real_mapping m" using assms(1) by (simp add: real_block_def)
  note kc = keep_cut_all(1-3) [OF this assms(2,3), of x, folded geo_rests [OF assms] geo_parts, unfolded geo_ranges]
    and real = keep_cut_all(4) [OF this assms(2,3), folded geo_rests [OF assms] geo_parts]
  show "occ x (f_back (blocks_rest v e bs)) + occ x (f_back (blocks_part v e bs)) = occ x (f_back bs)"
    and "occ x (f_virt (blocks_rest v e bs)) = (if v \<le> x \<and> x < e then 0 else occ x (f_virt bs))"
    and "occ x (f_virt (blocks_part v e bs)) = (if v \<le> x \<and> x < e then occ x (f_virt bs) else 0)"
    by (rule kc)+
  show "\<forall>b\<in>set (blocks_rest v e bs). real_block b" "\<forall>b\<in>set (blocks_part v e bs). real_block b"
    using real unfolding real_block_def by simp_all
qed

lemma blocks_part_sizes:
  "\<lbrakk>\<forall>b\<in>set bs. real_block b; v < e; e < two64\<rbrakk> \<Longrightarrow>
   sum_list (map f_size (blocks_rest v e bs)) + sum_list (map f_size (blocks_part v e bs)) = sum_list (map f_size bs)"
proof (induction bs)
  case (Cons b bs)
  have "sum_list (map f_size (block_rest v e b)) + sum_list (map f_size (block_part v e b)) = f_size b"
    using Cons.prems real_blockD [of b] by (auto simp: block_rest_def block_part_def Let_def max_def min_def)
  then show ?case using Cons by simp
qed simp

subsection \<open>What blocks map addresses to\<close>

definition f_target :: "fblock \<Rightarrow> u64 \<Rightarrow> u64 \<times> prot \<times> vm_mode \<times> gpu_mode \<times> string" where
  "f_target b x = (f_off b + (x - f_vaddr b), f_prot b, f_mode b, f_gpu b, f_name b)"

definition fx_maps :: "fblock list \<Rightarrow> (u64 \<times> u64 \<times> prot \<times> vm_mode \<times> gpu_mode \<times> string) set" where
  "fx_maps bs = (\<Union>b\<in>set bs. (\<lambda>x. (x, f_target b x)) ` span (f_vaddr b) (f_size b))"

lemma fx_maps_simps [simp]:
  "fx_maps [] = {}"
  "fx_maps (b # bs) = (\<lambda>x. (x, f_target b x)) ` span (f_vaddr b) (f_size b) \<union> fx_maps bs"
  "fx_maps (bs @ cs) = fx_maps bs \<union> fx_maps cs"
  by (auto simp: fx_maps_def simp del: in_span)

lemma fx_maps_set: "set bs = set cs \<Longrightarrow> fx_maps bs = fx_maps cs"
  by (simp add: fx_maps_def)

lemma fx_maps_iff:
  "(x, t) \<in> fx_maps bs \<longleftrightarrow> (\<exists>b\<in>set bs. x \<in> span (f_vaddr b) (f_size b) \<and> t = f_target b x)"
  by (auto simp: fx_maps_def simp del: in_span)

lemma fx_maps_dom: "(\<exists>t. (x, t) \<in> fx_maps bs) \<longleftrightarrow> 0 < occ x (f_virt bs)"
proof -
  have "(\<exists>t. (x, t) \<in> fx_maps bs) \<longleftrightarrow> (\<exists>b\<in>set bs. x \<in> span (f_vaddr b) (f_size b))"
    unfolding fx_maps_iff by blast
  then show ?thesis unfolding occ_member' [symmetric] by (simp del: in_span)
qed

lemma block_maps:
  assumes "v < e"
  shows "fx_maps (block_part v e b) = {(x, t) \<in> fx_maps [b]. v \<le> x \<and> x < e}"
    and "fx_maps (block_rest v e b) = {(x, t) \<in> fx_maps [b]. \<not> (v \<le> x \<and> x < e)}"
proof -
  show "fx_maps (block_part v e b) = {(x, t) \<in> fx_maps [b]. v \<le> x \<and> x < e}"
    by (auto simp: block_part_def Let_def fx_maps_iff f_target_def)
  show "fx_maps (block_rest v e b) = {(x, t) \<in> fx_maps [b]. \<not> (v \<le> x \<and> x < e)}"
    using assms by (auto simp: block_rest_def fx_maps_iff f_target_def)
qed

lemma blocks_maps:
  assumes "v < e"
  shows "fx_maps (blocks_part v e bs) = {(x, t) \<in> fx_maps bs. v \<le> x \<and> x < e}"
    and "fx_maps (blocks_rest v e bs) = {(x, t) \<in> fx_maps bs. \<not> (v \<le> x \<and> x < e)}"
  using block_maps [OF assms] by (induction bs) (auto simp del: in_span)

subsection \<open>Queries over sorted blocks\<close>

text \<open>In sorted blocks the loops over a range meet its parts in order.\<close>

lemma ordered_Cons: "ordered ((a, n) # rs) \<longleftrightarrow> ordered rs \<and> (\<forall>r\<in>set rs. a + n \<le> fst r)"
  by (auto simp: ordered_def)

lemma part_later:
  assumes "\<forall>b\<in>set bs. c \<le> f_vaddr b" and "v \<le> c"
  shows "blocks_part v e bs = blocks_part c e bs"
proof -
  have "block_part v e b = block_part c e b" if "b \<in> set bs" for b
    using assms that by (auto simp: block_part_def Let_def max_def)
  then show ?thesis by (metis map_cong)
qed

lemma part_beyond: "\<forall>b\<in>set bs. e \<le> f_vaddr b \<Longrightarrow> blocks_part v e bs = []"
  by (auto simp: block_part_def Let_def)

lemma virt_beyond: "\<forall>b\<in>set bs. x < f_vaddr b \<Longrightarrow> occ x (f_virt bs) = 0"
  by (induction bs) auto

lemma covered_from:
  fixes c d e :: nat
  assumes "c \<le> d" and "\<And>x. \<lbrakk>c \<le> x; x < d\<rbrakk> \<Longrightarrow> 0 < f x" and "\<And>x. d \<le> x \<Longrightarrow> f x = (g x :: nat)"
  shows "(\<forall>x. c \<le> x \<and> x < e \<longrightarrow> 0 < f x) \<longleftrightarrow> (\<forall>x. d \<le> x \<and> x < e \<longrightarrow> 0 < g x)"
proof
  assume all: "\<forall>x. c \<le> x \<and> x < e \<longrightarrow> 0 < f x"
  show "\<forall>x. d \<le> x \<and> x < e \<longrightarrow> 0 < g x"
  proof (intro allI impI)
    fix x assume "d \<le> x \<and> x < e"
    then show "0 < g x" using assms(1) assms(3) [of x] all [rule_format, of x] by simp
  qed
next
  assume all: "\<forall>x. d \<le> x \<and> x < e \<longrightarrow> 0 < g x"
  show "\<forall>x. c \<le> x \<and> x < e \<longrightarrow> 0 < f x"
  proof (intro allI impI)
    fix x assume "c \<le> x \<and> x < e"
    then show "0 < f x" using assms(2,3) [of x] all by (cases "x < d") simp_all
  qed
qed

lemma snapshot_loop_parts:
  assumes "\<forall>b\<in>set bs. real_block b" and "ordered (f_virt bs)" and "c < e" and "e < two64"
  shows "snapshot_loop e c bs =
    (if \<forall>x. c \<le> x \<and> x < e \<longrightarrow> 0 < occ x (f_virt bs) then Some (blocks_part c e bs) else None)"
  using assms
proof (induction e c bs rule: snapshot_loop.induct)
  case (2 e c b bs)
  have b: "0 < f_size b" "f_vaddr b + f_size b < two64" "f_off b + f_size b < two64"
    "f_end b = f_vaddr b + f_size b" using real_blockD [of b] 2(3) by simp_all
  have bs: "\<forall>b\<in>set bs. real_block b" "ordered (f_virt bs)" "\<forall>d\<in>set bs. f_vaddr b + f_size b \<le> f_vaddr d"
    using 2(3,4) by (simp_all add: ordered_Cons)
  consider (before) "f_vaddr b + f_size b \<le> c" | (gap) "c < f_vaddr b"
    | (last) "f_vaddr b \<le> c" "c < f_vaddr b + f_size b" "e \<le> f_vaddr b + f_size b"
    | (more) "f_vaddr b \<le> c" "c < f_vaddr b + f_size b" "f_vaddr b + f_size b < e" by linarith
  then show ?case
  proof cases
    case before
    have "block_part c e b = []" using before by (simp add: block_part_def Let_def)
    moreover have "occ x (f_virt (b # bs)) = occ x (f_virt bs)" if "c \<le> x" for x using before that by simp
    moreover have "snapshot_loop e c (b # bs) = snapshot_loop e c bs" using before b(4) by simp
    moreover have "snapshot_loop e c bs =
        (if \<forall>x. c \<le> x \<and> x < e \<longrightarrow> 0 < occ x (f_virt bs) then Some (blocks_part c e bs) else None)"
      by (rule 2(1)) (use before b(4) bs 2(5,6) in simp_all)
    moreover have "(\<forall>x. c \<le> x \<and> x < e \<longrightarrow> 0 < occ x (f_virt (b # bs)))
        \<longleftrightarrow> (\<forall>x. c \<le> x \<and> x < e \<longrightarrow> 0 < occ x (f_virt bs))"
      using calculation(2) by (metis (no_types, lifting))
    ultimately show ?thesis by (simp del: occ_simps)
  next
    case gap
    have "\<forall>d\<in>set bs. c < f_vaddr d" using bs(3) gap by fastforce
    then have "occ c (f_virt (b # bs)) = 0" using gap virt_beyond [of bs c] by simp
    then have "\<not> (\<forall>x. c \<le> x \<and> x < e \<longrightarrow> 0 < occ x (f_virt (b # bs)))" using 2(5) by (metis le_refl less_irrefl)
    moreover have "snapshot_loop e c (b # bs) = None" using gap b(4) by simp
    ultimately show ?thesis by simp
  next
    case last
    have "block_part c e b = [b\<lparr>f_vaddr := c, f_size := e - c, f_off := f_off b + (c - f_vaddr b)\<rparr>]"
      using last 2(5) by (simp add: block_part_def Let_def)
    moreover have "blocks_part c e bs = []" using bs(3) last(3) by (intro part_beyond) fastforce
    moreover have "snapshot_loop e c (b # bs) = Some [b\<lparr>f_vaddr := c, f_size := e - c, f_off := f_off b + (c - f_vaddr b)\<rparr>]"
      using last b 2(5,6) by (simp add: Let_def)
    moreover have "\<forall>x. c \<le> x \<and> x < e \<longrightarrow> 0 < occ x (f_virt (b # bs))" using last by simp
    ultimately show ?thesis by simp
  next
    case more
    define d where "d = f_vaddr b + f_size b"
    define q where "q = b\<lparr>f_vaddr := c, f_size := d - c, f_off := f_off b + (c - f_vaddr b)\<rparr>"
    have d: "c < d" "d < e" using more by (simp_all add: d_def)
    have "block_part c e b = [q]" using more by (simp add: block_part_def Let_def q_def d_def)
    moreover have "blocks_part c e bs = blocks_part d e bs"
      using bs(3) d by (intro part_later) (simp_all add: d_def)
    ultimately have parts: "blocks_part c e (b # bs) = q # blocks_part d e bs" by simp
    have IH: "snapshot_loop e d bs =
        (if \<forall>x. d \<le> x \<and> x < e \<longrightarrow> 0 < occ x (f_virt bs) then Some (blocks_part d e bs) else None)"
      by (rule 2(2) [OF _ _ _ refl]) (use more b bs(1,2) d 2(6) in \<open>simp_all add: q_def d_def\<close>)
    have loop: "snapshot_loop e c (b # bs) = map_option (Cons q) (snapshot_loop e d bs)"
      using more b d by (simp add: Let_def q_def d_def)
    have "0 < occ x (f_virt (b # bs))" if "c \<le> x" "x < d" for x using that more by (simp add: d_def)
    moreover have "occ x (f_virt (b # bs)) = occ x (f_virt bs)" if "d \<le> x" for x using that by (simp add: d_def)
    ultimately have "(\<forall>x. c \<le> x \<and> x < e \<longrightarrow> 0 < occ x (f_virt (b # bs)))
        \<longleftrightarrow> (\<forall>x. d \<le> x \<and> x < e \<longrightarrow> 0 < occ x (f_virt bs))"
      by (rule covered_from [OF less_imp_le [OF d(1)]])
    then show ?thesis unfolding loop IH parts by (simp del: occ_simps)
  qed
next
  case (1 e c)
  then have "\<not> (\<forall>x. c \<le> x \<and> x < e \<longrightarrow> 0 < occ x (f_virt []))" by (auto intro!: exI [of _ c])
  then show ?case by simp
qed

lemma unmap_scan_snapshot:
  assumes "c < e"
  shows "(case snapshot_loop e c bs of
      None \<Rightarrow> snd (unmap_scan e c g bs) \<noteq> e
    | Some ps \<Rightarrow> ps \<noteq> [] \<and> unmap_scan e c g bs = ((case g of None \<Rightarrow> Some (f_gpu (hd ps)) | Some g \<Rightarrow> Some g), e))"
  using assms
proof (induction e c g bs rule: unmap_scan.induct)
  case (2 e c g b bs)
  show ?case
  proof (cases "f_end b \<le> c \<or> f_vaddr b > c \<or> f_vaddr b \<ge> e \<or> e \<le> f_end b")
    case True
    then show ?thesis using 2 by (auto simp: Let_def split: option.split)
  next
    case False
    then have "min e (f_end b) = f_end b" "f_end b \<noteq> e" "f_end b < e" by simp_all
    then show ?thesis using 2(2) [OF _ _ refl refl] False
      by (auto simp: Let_def split: option.split option.split_asm)
  qed
qed simp

subsection \<open>Taking blocks out of the free ranges\<close>

lemma fr_ok_members: "\<lbrakk>fr_ok m; (k, n) \<in> set m\<rbrakk> \<Longrightarrow> 0 < n \<and> k + n < two64 \<and> map_of m k = Some n"
proof -
  assume ok: "fr_ok m" and mem: "(k, n) \<in> set m"
  obtain us vs where "m = us @ (k, n) # vs" using split_list mem by metis
  then have "map_of m k = Some n" using om_node_find [of us k n vs] fr_ok_om [OF ok] by simp
  then show ?thesis using ok mem by (auto simp: fr_ok_def)
qed

text \<open>The node before the upper bound of an address is the free range that holds the address, if one does.\<close>

lemma range_before_holds:
  assumes ok: "fr_ok m" and b: "real_block b" and sub: "span (f_off b) (f_size b) \<subseteq> fr_cover m"
  obtains k n us vs where "m = us @ (k, n) # vs" "range_before (f_off b) m = Some k" "map_of m k = Some n"
    "k \<le> f_off b" "f_off b + f_size b \<le> k + n" "k + n < two64" "range_holds b k m"
proof -
  obtain r where r: "r \<in> set m" "fst r \<le> f_off b" "f_off b + f_size b \<le> fst r + snd r"
    by (rule free_in_one [OF ok real_blockD(1) [OF b] sub])
  obtain k n where kn: "r = (k, n)" by force
  obtain us vs where m: "m = us @ (k, n) # vs" using split_list r(1) kn by metis
  have n: "0 < n" "k + n < two64" "map_of m k = Some n" using fr_ok_members [OF ok] r(1) kn by blast+
  have "\<forall>e\<in>set vs. f_off b < fst e" using ok r(2,3) kn real_blockD(1) [OF b] by (fastforce simp: m fr_ok_simps)
  moreover have "\<forall>e\<in>set us. fst e < k" using ok by (fastforce simp: m fr_ok_simps)
  moreover have om: "om_ok ((us @ [(k, n)]) @ vs)" using ok m by simp
  ultimately have "om_upper_bound (f_off b) ((us @ [(k, n)]) @ vs) = om_begin vs"
    using r(2) kn by (intro om_upper_bound_append) auto
  then have "range_before (f_off b) m = Some k"
    using om_prev_append [OF om] by (simp add: range_before_def m)
  then show thesis using that [OF m] n r(2,3) kn by (simp add: range_holds_def)
qed

lemma consume_is_remove:
  assumes ok: "fr_ok m" and m: "m = us @ (k, n) # vs" and a: "k \<le> a" "0 < z" "a + z \<le> k + n"
  shows "consume_free_range k a z m = remove_free_range a z m"
proof -
  have om: "om_ok (us @ (k, n) # vs)" using ok m by simp
  have kn: "k + n < two64" "map_of m k = Some n" using fr_ok_members [OF ok, of k n] m by simp_all
  have up: "\<forall>e\<in>set us. fst e + snd e < k" "\<forall>e\<in>set vs. k + n < fst e" using ok by (auto simp: m fr_ok_simps)
  have out: "concat (map (pieces a (a + z)) us) = us" "concat (map (pieces a (a + z)) vs) = vs"
    by (rule pieces_outside, use up a in fastforce)+
  define l where "l = (if k < a then [(k, a - k)] else [])"
  define u where "u = (if a + z < k + n then [(a + z, k + n - (a + z))] else [])"
  have rem: "remove_free_range a z m = us @ l @ u @ vs"
    using remove_free_range_eq [OF ok, of z a] a kn out by (simp add: m pieces_def l_def u_def)
  have m1: "om_erase k m = us @ vs" unfolding m by (rule om_erase_node [OF om])
  have lo: "\<forall>e\<in>set us. fst e < k" "\<forall>e\<in>set vs. k < fst e" "\<forall>e\<in>set vs. a + z < fst e"
  proof -
    show "\<forall>e\<in>set us. fst e < k" using up(1) by fastforce
    show "\<forall>e\<in>set vs. k < fst e" using up(2) by fastforce
    show "\<forall>e\<in>set vs. a + z < fst e" using up(2) a(3) by fastforce
  qed
  define m2 where "m2 = (if k < a then om_emplace k (sub64 a k) (us @ vs) else us @ vs)"
  have m2: "m2 = (us @ l) @ vs"
    using om_emplace_node [OF lo(1,2), of "a - k"] a kn by (simp add: m2_def l_def)
  have "\<forall>e\<in>set (us @ l). fst e < a + z" using lo(1) a by (fastforce simp: l_def)
  then have m3: "om_emplace (a + z) v ((us @ l) @ vs) = (us @ l) @ (a + z, v) # vs" for v
    by (rule om_emplace_node [OF _ lo(3)])
  have "consume_free_range k a z m = (if a + z < k + n then om_emplace (a + z) (k + n - (a + z)) m2 else m2)"
    using a kn by (simp add: consume_free_range_def m1 m2_def Let_def)
  then show ?thesis unfolding rem m2 m3 by (cases "a + z < k + n") (simp_all add: u_def)
qed

text \<open>Consuming disjoint blocks that lie in free ranges is removing their ranges one after another.\<close>

lemma consume_blocks_ok:
  assumes "fr_ok m" and "\<forall>b\<in>set bs. real_block b \<and> span (f_off b) (f_size b) \<subseteq> fr_cover m"
    and "separate (f_back bs)"
  shows "\<exists>m'. consume_blocks check bs m = Some m' \<and> fr_ok m'
    \<and> fr_cover m' = fr_cover m - (\<Union>b\<in>set bs. span (f_off b) (f_size b))"
  using assms
proof (induction bs arbitrary: m)
  case (Cons b bs)
  have b: "real_block b" "span (f_off b) (f_size b) \<subseteq> fr_cover m" using Cons.prems(2) by simp_all
  note z = real_blockD [OF b(1)]
  obtain k n us vs where r: "m = us @ (k, n) # vs" "range_before (f_off b) m = Some k"
    "k \<le> f_off b" "f_off b + f_size b \<le> k + n" "range_holds b k m"
    by (rule range_before_holds [OF Cons.prems(1) b])
  define m1 where "m1 = remove_free_range (f_off b) (f_size b) m"
  have m1: "fr_ok m1" "fr_cover m1 = fr_cover m - span (f_off b) (f_size b)"
    using remove_free_range_ok [OF Cons.prems(1) z(1,3)] by (simp_all add: m1_def)
  have sep: "separate (f_back bs)" "\<forall>d\<in>set bs. span (f_off b) (f_size b) \<inter> span (f_off d) (f_size d) = {}"
    using Cons.prems(3) by (auto simp: separate_def simp del: in_span)
  have "\<forall>d\<in>set bs. real_block d \<and> span (f_off d) (f_size d) \<subseteq> fr_cover m1"
    using Cons.prems(2) sep(2) unfolding m1(2) by (auto simp del: in_span)
  from Cons.IH [OF m1(1) this sep(1)]
  obtain m' where m': "consume_blocks check bs m1 = Some m'" "fr_ok m'"
    "fr_cover m' = fr_cover m1 - (\<Union>d\<in>set bs. span (f_off d) (f_size d))" by blast
  have "consume_blocks check (b # bs) m = Some m'"
    using r(2,5) m'(1) consume_is_remove [OF Cons.prems(1) r(1,3) z(1) r(4)] by (simp add: m1_def)
  moreover have "fr_cover m' = fr_cover m - (\<Union>d\<in>set (b # bs). span (f_off d) (f_size d))"
    unfolding m'(3) m1(2) by (simp add: Diff_eq Int_assoc)
  ultimately show ?case using m'(2) by blast
qed simp

end
