(* ===== verification/FlexibleOps.thy ===== *)
theory FlexibleOps
  imports FlexibleFacts
begin

text \<open>
  The invariant of the flexible memory and what each operation does to the map from addresses to the
  backing store and to the host address space.
\<close>

subsection \<open>The invariant\<close>

abbreviation f_sizes :: "fblock list \<Rightarrow> nat" where
  "f_sizes bs \<equiv> sum_list (map f_size bs)"

definition flex_ok :: "u64 \<Rightarrow> u64 \<Rightarrow> flex \<Rightarrow> bool" where
  "flex_ok psize fsize s \<longleftrightarrow> fr_ok (fx_free s) \<and> (\<forall>b\<in>set (fx_blocks s). real_block b)
     \<and> ordered (f_virt (fx_blocks s))
     \<and> (\<forall>x. of_bool (x \<in> fr_cover (fx_free s)) + occ x (f_back (fx_blocks s)) = (of_bool (x \<in> span psize fsize) :: nat))
     \<and> fx_total s = f_sizes (fx_blocks s)"

lemma flex_okD:
  assumes "flex_ok psize fsize s"
  shows "fr_ok (fx_free s)" "\<forall>b\<in>set (fx_blocks s). real_block b" "ordered (f_virt (fx_blocks s))"
    "of_bool (x \<in> fr_cover (fx_free s)) + occ x (f_back (fx_blocks s)) = (of_bool (x \<in> span psize fsize) :: nat)"
    "fx_total s = f_sizes (fx_blocks s)"
  using assms by (simp_all add: flex_ok_def del: in_span)

lemma ordered_occ: "\<lbrakk>ordered rs; real rs\<rbrakk> \<Longrightarrow> occ x rs \<le> 1"
proof (induction rs)
  case (Cons r rs)
  have "occ x rs = 0" if "x \<in> span (fst r) (snd r)"
  proof -
    have "x \<notin> span (fst q) (snd q)" if "q \<in> set rs" for q
      using Cons.prems(1) that \<open>x \<in> span (fst r) (snd r)\<close> by (fastforce simp: ordered_def)
    then show ?thesis using occ_member' [of rs x] by auto
  qed
  then show ?case using Cons by (cases "x \<in> span (fst r) (snd r)") (simp_all add: ordered_def del: in_span)
qed simp

lemma flex_virt_le:
  assumes "flex_ok psize fsize s"
  shows "occ x (f_virt (fx_blocks s)) \<le> 1"
  using flex_okD(2,3) [OF assms] real_blocks by (intro ordered_occ) blast+

lemma flex_accounting:
  assumes ok: "flex_ok psize fsize s" and size: "psize + fsize < two64"
  shows "sizes (fx_free s) + fx_total s = fsize" and "flex_available fsize s = sizes (fx_free s)"
proof -
  note d = flex_okD [OF ok]
  have rb: "real (f_back (fx_blocks s))" using d(2) real_blocks by blast
  have "sizes (fx_free s) + sizes (f_back (fx_blocks s))
      = (\<Sum>x<U64_MAX. occ x (fx_free s) + occ x (f_back (fx_blocks s)))"
    by (simp only: real_sizes [OF fr_ok_occ(2) [OF d(1)]] real_sizes [OF rb] sum.distrib)
  also have "\<dots> = (\<Sum>x<U64_MAX. of_bool (x \<in> span psize fsize))"
    by (simp only: fr_ok_occ(1) [OF d(1)] d(4))
  also have "\<dots> = fsize" by (rule sum_span) (use size in simp)
  finally show eq: "sizes (fx_free s) + fx_total s = fsize" by (simp add: d(5) comp_def)
  have "sub64 fsize (fx_total s) = fsize - fx_total s" using eq size by simp
  then show "flex_available fsize s = sizes (fx_free s)" using eq by (simp add: flex_available_def)
qed

text \<open>Blocks are sorted again after new ones are appended.\<close>

lemma sorted_blocks:
  assumes "\<forall>b\<in>set bs. real_block b" and "\<And>x. occ x (f_virt bs) \<le> 1"
  defines "cs \<equiv> sort_key f_vaddr bs"
  shows "ordered (f_virt cs)" and "occ x (f_back cs) = occ x (f_back bs)"
    and "f_sizes cs = f_sizes bs" and "fx_maps cs = fx_maps bs" and "\<forall>b\<in>set cs. real_block b"
proof -
  have ms: "mset (map f cs) = mset (map f bs)" for f :: "fblock \<Rightarrow> 'b" by (simp add: cs_def)
  have occ: "occ x (map f cs) = occ x (map f bs)" for f x by (rule occ_mset) (rule ms)
  show "occ x (f_back cs) = occ x (f_back bs)" by (rule occ)
  show "f_sizes cs = f_sizes bs" by (metis ms sum_mset_sum_list)
  show "fx_maps cs = fx_maps bs" by (rule fx_maps_set) (simp add: cs_def)
  show real: "\<forall>b\<in>set cs. real_block b" using assms(1) by (simp add: cs_def)
  show "ordered (f_virt cs)"
  proof (rule sorted_ordered)
    show "sorted (map fst (f_virt cs))" by (simp add: cs_def comp_def)
    show "real (f_virt cs)" using real real_blocks by blast
    show "\<forall>x. occ x (f_virt cs) \<le> 1" using assms(2) by (simp only: occ) simp
  qed
qed

lemma flex_init_ok:
  assumes "0 < fsize" and "psize + fsize < two64"
  shows "flex_ok psize fsize (flex_init psize fsize)"
  using assms by (simp add: flex_ok_def flex_init_def fr_ok_simps ordered_def)

subsection \<open>The host address space\<close>

text \<open>The ranges the host has mapped after some calls, the latest first.\<close>

fun host_effect :: "host \<Rightarrow> host_call list \<Rightarrow> (u64 \<times> u64) list \<Rightarrow> (u64 \<times> u64) list" where
  "host_effect host [] rs = rs"
| "host_effect host (c # cs) rs =
     host_effect host cs
       (case c of
          ZeroBacking off n \<Rightarrow> rs
        | MapBacking v n off m \<Rightarrow> if host c then (v, n) # rs else rs
        | UnmapBacking v n \<Rightarrow> if host c then remove1 (v, n) rs else rs)"

lemma host_effect_append: "host_effect host (cs @ ds) rs = host_effect host ds (host_effect host cs rs)"
  by (induction cs arbitrary: rs) auto

lemma undo_maps_effect: "undo_maps host bs = Some cs \<Longrightarrow> host_effect host cs (f_virt bs @ rs) = rs"
  by (induction bs arbitrary: cs) (auto simp: Let_def split: if_splits)

text \<open>A failed attempt leaves the host as it was, a successful one has mapped every block.\<close>

lemma map_blocks_effect:
  "map_blocks host zero mapped bs = Some (cs, ok) \<Longrightarrow>
   host_effect host cs (f_virt mapped @ rs) = (if ok then f_virt (rev bs @ mapped) @ rs else rs)"
proof (induction host zero mapped bs arbitrary: cs rule: map_blocks.induct)
  case (2 host zero mapped b bs)
  define z where "z = ZeroBacking (f_off b) (f_size b)"
  define m where "m = MapBacking (f_vaddr b) (f_size b) (f_off b) (f_mode b)"
  define zs where "zs = (if zero then [z] else [])"
  have zs: "host_effect host (zs @ ds) ts = host_effect host ds ts" for ds ts
    by (simp add: zs_def z_def)
  consider (zero) "zero \<and> \<not> host z" | (map) "\<not> (zero \<and> \<not> host z)" "\<not> host m"
    | (go) "\<not> (zero \<and> \<not> host z)" "host m" by blast
  then show ?case
  proof cases
    case zero
    then obtain ds where "undo_maps host mapped = Some ds" "cs = zs @ ds" "\<not> ok"
      using 2(2) by (auto simp: Let_def z_def zs_def)
    then show ?thesis using undo_maps_effect by (simp add: zs)
  next
    case map
    then obtain ds where "undo_maps host mapped = Some ds" "cs = zs @ m # ds" "\<not> ok"
      using 2(2) by (auto simp: Let_def z_def zs_def m_def)
    then show ?thesis using undo_maps_effect map by (simp add: zs m_def)
  next
    case go
    then obtain ds where ds: "map_blocks host zero (b # mapped) bs = Some (ds, ok)" "cs = zs @ m # ds"
      using 2(2) by (auto simp: Let_def z_def zs_def m_def)
    have "host_effect host ds (f_virt (b # mapped) @ rs) = (if ok then f_virt (rev bs @ b # mapped) @ rs else rs)"
      using 2(1) [OF refl refl refl] go ds(1) by (simp add: z_def m_def)
    then show ?thesis using go ds(2) by (simp add: zs m_def)
  qed
qed simp

text \<open>The host refuses to unmap nothing it has mapped, so the operation does not stop the program.\<close>

lemma map_blocks_total:
  assumes "\<And>v n. host (UnmapBacking v n)"
  shows "map_blocks host zero mapped bs \<noteq> None"
proof -
  have undo: "undo_maps host bs \<noteq> None" for bs using assms by (induction bs) simp_all
  then show ?thesis using assms
  proof (induction host zero mapped bs rule: map_blocks.induct)
    case (2 host zero mapped b bs)
    have "map_blocks host zero (b # mapped) bs \<noteq> None"
      if "\<not> (zero \<and> \<not> host (ZeroBacking (f_off b) (f_size b)))"
        "host (MapBacking (f_vaddr b) (f_size b) (f_off b) (f_mode b))"
      using 2(1) [OF refl refl refl] that 2(2,3) by blast
    then show ?case using 2(2) by (auto simp: Let_def)
  qed simp
qed

lemma map_blocks_accept: "(\<And>c. host c) \<Longrightarrow> \<exists>cs. map_blocks host zero mapped bs = Some (cs, True)"
proof (induction host zero mapped bs rule: map_blocks.induct)
  case (2 host zero mapped b bs)
  then obtain cs where "map_blocks host zero (b # mapped) bs = Some (cs, True)" by blast
  then show ?case
    using 2(2) [of "ZeroBacking (f_off b) (f_size b)"] 2(2) [of "MapBacking (f_vaddr b) (f_size b) (f_off b) (f_mode b)"]
    by (simp add: Let_def)
qed simp

subsection \<open>Mapping\<close>

text \<open>The chunks lie in free ranges, apart from each other, and follow each other in the guest.\<close>

lemma flex_chunks_ok:
  assumes "flex_chunks p v n free = (bs, r)" and "real free" and "v + n < two64"
  shows "r = n - sizes free \<and> f_sizes bs = n - r
    \<and> (\<forall>x. occ x (f_back bs) \<le> occ x free)
    \<and> (\<forall>x. occ x (f_virt bs) = of_bool (x \<in> span v (n - r)))
    \<and> (\<forall>b\<in>set bs. real_block b \<and> f_prot b = f_prot p \<and> f_mode b = f_mode p \<and> f_gpu b = f_gpu p \<and> f_name b = f_name p)"
  using assms
proof (induction p v n free arbitrary: bs r rule: flex_chunks.induct)
  case (2 p v n s k free)
  have sk: "0 < k" "s + k < two64" and rest: "real free" using 2(3) by simp_all
  show ?case
  proof (cases "n = 0")
    case True
    then show ?thesis using 2(2) by simp
  next
    case False
    define part where "part = min n k"
    have part: "0 < part" "part \<le> k" "part \<le> n" using False sk by (simp_all add: part_def)
    have ex: "add64 v part = v + part" "sub64 n part = n - part" using part 2(4) by simp_all
    obtain cs where f: "flex_chunks p (v + part) (n - part) free = (cs, r)"
      "bs = p\<lparr>f_vaddr := v, f_size := part, f_off := s\<rparr> # cs"
      using 2(2) False ex by (auto simp: Let_def simp flip: part_def split: prod.splits)
    have v: "v + part + (n - part) < two64" using part 2(4) by simp
    have IH: "r = n - part - sizes free" "f_sizes cs = n - part - r"
      "occ x (f_back cs) \<le> occ x free"
      "occ x (f_virt cs) = of_bool (x \<in> span (v + part) (n - part - r))"
      "\<forall>b\<in>set cs. real_block b \<and> f_prot b = f_prot p \<and> f_mode b = f_mode p \<and> f_gpu b = f_gpu p \<and> f_name b = f_name p" for x
      using 2(1) [OF False part_def, unfolded ex, OF f(1) rest v] by blast+
    have "r = n - sizes ((s, k) # free)" using IH(1) by (simp add: part_def)
    moreover have r: "part + r \<le> n" using IH(1) part by simp
    moreover have "f_sizes bs = n - r" using IH(2) r by (simp add: f(2))
    moreover have "occ x (f_back bs) \<le> occ x ((s, k) # free)" for x
      using IH(3) [of x] of_bool_split [OF part(2), of x s] by (simp add: f(2) del: in_span)
    moreover have "occ x (f_virt bs) = of_bool (x \<in> span v (n - r))" for x
      using IH(4) [of x] of_bool_split [of part "n - r" x v] r
      by (simp add: f(2) diff_diff_eq add.commute [of r] del: in_span)
    moreover have "real_block (p\<lparr>f_vaddr := v, f_size := part, f_off := s\<rparr>)"
      using part sk 2(4) by (simp add: real_block_def real_mapping_def)
    ultimately show ?thesis using IH(5) by (simp add: f(2) del: in_span)
  qed
qed simp

lemma real_union: "(\<Union>b\<in>set bs. span (f_off b) (f_size b)) = fr_cover (f_back bs)"
  by (induction bs) auto

text \<open>Appending blocks that take free backing and unmapped addresses keeps the invariant.\<close>

lemma flex_add_blocks:
  assumes ok: "flex_ok psize fsize s" and size: "psize + fsize < two64"
    and bs: "\<forall>b\<in>set bs. real_block b" "\<And>x. occ x (f_back bs) \<le> of_bool (x \<in> fr_cover (fx_free s))"
    and virt: "\<And>x. occ x (f_virt bs) + occ x (f_virt (fx_blocks s)) \<le> 1"
  obtains free where "consume_blocks check bs (fx_free s) = Some free"
    "\<And>s'. \<lbrakk>fx_blocks s' = sort_key f_vaddr (fx_blocks s @ bs); fx_free s' = free; fx_total s' = fx_total s + f_sizes bs\<rbrakk>
      \<Longrightarrow> flex_ok psize fsize s' \<and> fx_maps (fx_blocks s') = fx_maps (fx_blocks s) \<union> fx_maps bs"
    "fx_total s + f_sizes bs < two64" "fr_ok free" "fr_cover free = fr_cover (fx_free s) - fr_cover (f_back bs)"
proof -
  note d = flex_okD [OF ok]
  have sub: "span (f_off b) (f_size b) \<subseteq> fr_cover (fx_free s)" if "b \<in> set bs" for b
  proof
    fix x assume x: "x \<in> span (f_off b) (f_size b)"
    have "(f_off b, f_size b) \<in> set (f_back bs)" using that by force
    from occ_member [OF this x] show "x \<in> fr_cover (fx_free s)" using bs(2) [of x] by (cases "x \<in> fr_cover (fx_free s)") simp_all
  qed
  have rb: "real (f_back bs)" using bs(1) real_blocks by blast
  have "occ x (f_back bs) \<le> 1" for x using bs(2) [of x] by (meson le_trans of_bool_less_eq_one)
  then have "separate (f_back bs)" using occ_separate [OF rb] by blast
  then obtain free where free: "consume_blocks check bs (fx_free s) = Some free" "fr_ok free"
    "fr_cover free = fr_cover (fx_free s) - fr_cover (f_back bs)"
    using consume_blocks_ok [OF d(1), of bs check] bs(1) sub unfolding real_union by blast
  have cov: "of_bool (x \<in> fr_cover free) + occ x (f_back bs) = (of_bool (x \<in> fr_cover (fx_free s)) :: nat)" for x
    using bs(2) [of x] unfolding free(3) occ_cover [symmetric, of x "f_back bs"] Diff_iff
    by (cases "x \<in> fr_cover (fx_free s)"; cases "occ x (f_back bs) = 0") simp_all
  define cs where "cs = sort_key f_vaddr (fx_blocks s @ bs)"
  have real: "\<forall>b\<in>set (fx_blocks s @ bs). real_block b" using d(2) bs(1) by auto
  have le: "occ x (f_virt (fx_blocks s @ bs)) \<le> 1" for x using virt [of x] by simp
  note cs = sorted_blocks [OF real le, folded cs_def]
  have inv: "flex_ok psize fsize s'" "fx_maps (fx_blocks s') = fx_maps (fx_blocks s) \<union> fx_maps bs"
    if s': "fx_blocks s' = cs" "fx_free s' = free" "fx_total s' = fx_total s + f_sizes bs" for s'
  proof -
    have "of_bool (x \<in> fr_cover free) + occ x (f_back cs) = (of_bool (x \<in> span psize fsize) :: nat)" for x
      using d(4) [of x] cov [of x] cs(2) [of x] by (simp del: in_span)
    then show "flex_ok psize fsize s'"
      using free(2) cs(1,3,5) d(5) by (simp add: flex_ok_def s' del: in_span)
    show "fx_maps (fx_blocks s') = fx_maps (fx_blocks s) \<union> fx_maps bs" using cs(4) by (simp add: s')
  qed
  have "fx_total s + f_sizes bs < two64"
    using flex_accounting(1) [OF inv(1) [of "\<lparr>fx_blocks = cs, fx_free = free, fx_total = fx_total s + f_sizes bs\<rparr>"] size]
      size by simp
  then show thesis using that [OF free(1)] inv free(2,3) by (simp add: cs_def)
qed

text \<open>What mapping promises: all of the range with the given attributes, or nothing at all.\<close>

definition flex_map_post :: "host \<Rightarrow> u64 \<Rightarrow> u64 \<Rightarrow> u64 \<Rightarrow> prot \<Rightarrow> vm_mode \<Rightarrow> gpu_mode \<Rightarrow> string option \<Rightarrow> flex
    \<Rightarrow> flex \<times> bool \<times> host_call list \<Rightarrow> bool" where
  "flex_map_post host fsize v n p md g name s = (\<lambda>(s', succ, cs).
     if succ
     then 0 < n \<and> n \<le> flex_available fsize s \<and> fx_total s' = fx_total s + n
       \<and> (\<exists>bs. fx_maps (fx_blocks s') = fx_maps (fx_blocks s) \<union> fx_maps bs
            \<and> host_effect host cs [] = f_virt (rev bs) \<and> f_sizes bs = n
            \<and> (\<forall>x. occ x (f_virt bs) = of_bool (x \<in> span v n))
            \<and> (\<forall>b\<in>set bs. f_prot b = p \<and> f_mode b = md \<and> f_gpu b = g \<and> f_name b = copy_virtual_range_name name))
     else s' = s \<and> host_effect host cs [] = []
       \<and> ((\<forall>c. host c) \<longrightarrow> n = 0 \<or> n > flex_available fsize s))"

lemma flex_map_ok:
  assumes ok: "flex_ok psize fsize s" and size: "psize + fsize < two64"
    and host: "\<forall>v n. host (UnmapBacking v n)"
    and v: "v + n < two64" and new: "\<And>x. x \<in> span v n \<Longrightarrow> occ x (f_virt (fx_blocks s)) = 0"
  obtains res where "flex_map host fsize v n p md g name s = Some res"
    "flex_ok psize fsize (fst res)" "flex_map_post host fsize v n p md g name s res"
proof (cases "n = 0 \<or> n > flex_available fsize s")
  case True
  then have "flex_map host fsize v n p md g name s = Some (s, False, [])" by (simp add: flex_map_def)
  moreover have "flex_map_post host fsize v n p md g name s (s, False, [])" using True by (simp add: flex_map_post_def)
  ultimately show ?thesis using that ok by simp
next
  case False
  note d = flex_okD [OF ok]
  define b where "b = \<lparr>f_vaddr = v, f_size = 0, f_off = 0, f_host_vaddr = v, f_host_size = n,
    f_prot = p, f_mode = md, f_gpu = g, f_name = copy_virtual_range_name name\<rparr>"
  obtain bs r where c: "flex_chunks b v n (fx_free s) = (bs, r)" by force
  note ch = flex_chunks_ok [OF c fr_ok_occ(2) [OF d(1)] v]
  have r: "r = 0" using ch False flex_accounting(2) [OF ok size] by simp
  have bs: "\<forall>d\<in>set bs. real_block d" "f_sizes bs = n"
    "\<forall>d\<in>set bs. f_prot d = p \<and> f_mode d = md \<and> f_gpu d = g \<and> f_name d = copy_virtual_range_name name"
    "occ x (f_virt bs) = of_bool (x \<in> span v n)" "occ x (f_back bs) \<le> of_bool (x \<in> fr_cover (fx_free s))" for x
  proof -
    show "occ x (f_back bs) \<le> of_bool (x \<in> fr_cover (fx_free s))" using ch by (simp only: fr_ok_occ(1) [OF d(1)])
  qed (use ch r in \<open>simp_all add: b_def del: in_span\<close>)
  obtain cs succ where m: "map_blocks host True [] bs = Some (cs, succ)"
    using map_blocks_total [of host True "[]" bs] host by (cases "map_blocks host True [] bs") auto
  have acc: "succ" if "\<forall>c. host c"
    using map_blocks_accept [of host True "[]" bs] that m by auto
  note eff = map_blocks_effect [OF m, of "[]"]
  have start: "flex_map host fsize v n p md g name s =
      (if \<not> succ then Some (s, False, cs)
       else case consume_blocks True bs (fx_free s) of
              None \<Rightarrow> None
            | Some free \<Rightarrow> Some (s\<lparr>fx_blocks := sort_key f_vaddr (fx_blocks s @ bs), fx_free := free,
                                  fx_total := add64 (fx_total s) n\<rparr>, True, cs))"
    using False c r m unfolding flex_map_def Let_def b_def [symmetric] by simp
  show ?thesis
  proof (cases "succ")
    case no: False
    then have "flex_map_post host fsize v n p md g name s (s, False, cs)" using eff acc by (auto simp: flex_map_post_def)
    then show ?thesis using that start ok no by simp
  next
    case yes: True
    have virt: "occ x (f_virt bs) + occ x (f_virt (fx_blocks s)) \<le> 1" for x
      using new [of x] flex_virt_le [OF ok, of x] bs(4) [of x] by (cases "x \<in> span v n") (simp_all del: in_span)
    obtain free where f: "consume_blocks True bs (fx_free s) = Some free"
      and inv: "\<And>s'. \<lbrakk>fx_blocks s' = sort_key f_vaddr (fx_blocks s @ bs); fx_free s' = free; fx_total s' = fx_total s + f_sizes bs\<rbrakk>
        \<Longrightarrow> flex_ok psize fsize s' \<and> fx_maps (fx_blocks s') = fx_maps (fx_blocks s) \<union> fx_maps bs"
      and t: "fx_total s + f_sizes bs < two64"
      by (rule flex_add_blocks [OF ok size bs(1,5) virt, of True]) (rule that)
    define s' where "s' = s\<lparr>fx_blocks := sort_key f_vaddr (fx_blocks s @ bs), fx_free := free, fx_total := fx_total s + n\<rparr>"
    have res: "flex_map host fsize v n p md g name s = Some (s', True, cs)"
      using start yes f t bs(2) by (simp add: s'_def)
    have inv': "flex_ok psize fsize s'" "fx_maps (fx_blocks s') = fx_maps (fx_blocks s) \<union> fx_maps bs"
      using inv [of s'] bs(2) by (simp_all add: s'_def)
    have "host_effect host cs [] = f_virt (rev bs)" using eff yes by simp
    moreover have "fx_total s' = fx_total s + n" by (simp add: s'_def)
    ultimately have "flex_map_post host fsize v n p md g name s (s', True, cs)"
      using False bs(2-4) inv'(2) unfolding flex_map_post_def prod.case if_True by (intro conjI exI [of _ bs]) simp_all
    then show ?thesis using that res inv'  by simp
  qed
qed

subsection \<open>Unmapping\<close>

lemma sub_add64:
  assumes "b + z < two64" and "v \<le> y" and "y \<le> v + z" and v: "v < two64"
  shows "sub64 (add64 b y) v = b + (y - v)"
proof -
  have "sub64 ((b + (y - v) + v) mod two64) v = (b + (y - v)) mod two64"
    by (rule sub64_mod) (use v in simp)
  then show ?thesis using assms by (simp add: add64_def)
qed

lemma block_overlap:
  assumes "real_block b" and "0 < n" and "v + n < two64"
  shows "virtual_ranges_overlap v n (f_vaddr b) (f_size b)
    \<longleftrightarrow> \<not> (f_vaddr b + f_size b \<le> v \<or> v + n \<le> f_vaddr b)"
proof -
  note b = real_blockD [OF assms(1)]
  have "virtual_ranges_overlap v n (f_vaddr b) (f_size b)
      \<longleftrightarrow> (\<exists>x. x \<in> span v n \<and> x \<in> span (f_vaddr b) (f_size b))"
    by (rule overlap_occ) (use assms(2,3) b in simp_all)
  also have "\<dots> \<longleftrightarrow> \<not> (f_vaddr b + f_size b \<le> v \<or> v + n \<le> f_vaddr b)"
  proof
    assume "\<not> (f_vaddr b + f_size b \<le> v \<or> v + n \<le> f_vaddr b)"
    then have "max v (f_vaddr b) \<in> span v n" "max v (f_vaddr b) \<in> span (f_vaddr b) (f_size b)"
      using assms(2) b(1) by auto
    then show "\<exists>x. x \<in> span v n \<and> x \<in> span (f_vaddr b) (f_size b)" by blast
  qed auto
  finally show ?thesis .
qed

lemma unmap_cut_Cons:
  assumes "virtual_ranges_overlap v n (f_vaddr b) (f_size b)"
  defines "os \<equiv> max v (f_vaddr b)" and "oe \<equiv> min (add64 v n) (f_end b)"
  shows "unmap_cut v n (b # bs) free removed =
    (let (rest, free', removed') =
       unmap_cut v n bs (add_free_range (sub64 (add64 (f_off b) os) (f_vaddr b)) (sub64 oe os) free)
         (add64 removed (sub64 oe os))
     in ((if f_vaddr b < os then [b\<lparr>f_size := sub64 os (f_vaddr b)\<rparr>] else [])
         @ (if oe < f_end b
            then [b\<lparr>f_vaddr := oe, f_size := sub64 (f_end b) oe, f_off := sub64 (add64 (f_off b) oe) (f_vaddr b)\<rparr>]
            else []) @ rest, free', removed'))"
  using assms(1) unfolding os_def oe_def by (simp add: Let_def)

lemma unmap_cut_eq:
  assumes "\<forall>b\<in>set bs. real_block b" and "0 < n" and "v + n < two64"
    and "removed + f_sizes (blocks_part v (v + n) bs) < two64"
  shows "unmap_cut v n bs free removed =
    (blocks_rest v (v + n) bs, fold (\<lambda>(a, n). add_free_range a n) (f_back (blocks_part v (v + n) bs)) free,
     removed + f_sizes (blocks_part v (v + n) bs))"
  using assms
proof (induction v n bs free removed rule: unmap_cut.induct)
  case (2 v n b bs free removed)
  have rb: "real_block b" using 2(3) by simp
  note b = real_blockD [OF rb] and ov = block_overlap [OF rb 2(4,5)]
  show ?case
  proof (cases "f_vaddr b + f_size b \<le> v \<or> v + n \<le> f_vaddr b")
    case True
    then have "block_part v (v + n) b = []" "block_rest v (v + n) b = [b]"
      by (auto simp: block_part_def block_rest_def Let_def)
    then show ?thesis using 2(1) True ov 2(3-6) by simp
  next
    case False
    define os oe where "os = max v (f_vaddr b)" and "oe = min (v + n) (f_vaddr b + f_size b)"
    have o: "os < oe" "f_vaddr b \<le> os" "oe \<le> f_vaddr b + f_size b" using False b(1) 2(4) by (auto simp: os_def oe_def)
    have part: "block_part v (v + n) b = [b\<lparr>f_vaddr := os, f_size := oe - os, f_off := f_off b + (os - f_vaddr b)\<rparr>]"
      using o by (simp add: block_part_def Let_def flip: os_def oe_def)
    have ss: "sub64 (add64 (f_off b) os) (f_vaddr b) = f_off b + (os - f_vaddr b)"
      "sub64 (add64 (f_off b) oe) (f_vaddr b) = f_off b + (oe - f_vaddr b)" "sub64 oe os = oe - os"
      "sub64 os (f_vaddr b) = os - f_vaddr b" "sub64 (f_end b) oe = f_vaddr b + f_size b - oe"
      using sub_add64 [OF b(3), of "f_vaddr b" os] sub_add64 [OF b(3), of "f_vaddr b" oe] o b by simp_all
    have rest: "block_rest v (v + n) b =
        (if f_vaddr b < os then [b\<lparr>f_size := os - f_vaddr b\<rparr>] else [])
        @ (if oe < f_vaddr b + f_size b
           then [b\<lparr>f_vaddr := oe, f_size := f_vaddr b + f_size b - oe, f_off := f_off b + (oe - f_vaddr b)\<rparr>] else [])"
    proof -
      have "f_vaddr b < os \<longleftrightarrow> f_vaddr b < v" "oe < f_vaddr b + f_size b \<longleftrightarrow> v + n < f_vaddr b + f_size b"
        "f_vaddr b < v \<Longrightarrow> os = v" "v + n < f_vaddr b + f_size b \<Longrightarrow> oe = v + n"
        by (auto simp: os_def oe_def)
      then show ?thesis using False unfolding block_rest_def by (simp split: if_split)
    qed
    have sz: "removed + (oe - os) + f_sizes (blocks_part v (v + n) bs) < two64" using 2(6) part by simp
    have ends: "max v (f_vaddr b) = os" "min (add64 v n) (f_end b) = oe" "f_vaddr b + f_size b = f_end b"
      using 2(5) b(4) by (simp_all add: os_def oe_def)
    have over: "virtual_ranges_overlap v n (f_vaddr b) (f_size b)" using False ov by blast
    then have nn: "\<not> \<not> virtual_ranges_overlap v n (f_vaddr b) (f_size b)" by blast
    have rem: "add64 removed (oe - os) = removed + (oe - os)" using sz by simp
    have real: "\<forall>b\<in>set bs. real_block b" using 2(3) by simp
    have IH: "unmap_cut v n bs (add_free_range (f_off b + (os - f_vaddr b)) (oe - os) free) (add64 removed (oe - os))
      = (blocks_rest v (v + n) bs,
         fold (\<lambda>(a, n). add_free_range a n) (f_back (blocks_part v (v + n) bs))
           (add_free_range (f_off b + (os - f_vaddr b)) (oe - os) free),
         removed + (oe - os) + f_sizes (blocks_part v (v + n) bs))"
      using 2(2) [OF nn refl refl refl, unfolded ends(1,2) ss(1,3) rem, OF real 2(4,5) sz] by (simp only: rem)
    have "unmap_cut v n (b # bs) free removed =
      (let (rest, free', removed') =
         unmap_cut v n bs (add_free_range (f_off b + (os - f_vaddr b)) (oe - os) free) (add64 removed (oe - os))
       in (block_rest v (v + n) b @ rest, free', removed'))"
      unfolding rest ends(3) ss(1-3) [symmetric] ss(5) [symmetric, unfolded ends(3)]
      by (subst unmap_cut_Cons [OF over]) (simp only: ends(1,2) ss(4) append_assoc)
    then show ?thesis by (simp add: IH part)
  qed
qed simp

text \<open>Replacing blocks by parts of them keeps the order.\<close>

lemma ordered_concat:
  assumes "ordered (f_virt bs)"
    and "\<And>b. b \<in> set bs \<Longrightarrow> ordered (f_virt (f b))
      \<and> (\<forall>q\<in>set (f b). f_vaddr b \<le> f_vaddr q \<and> f_vaddr q + f_size q \<le> f_vaddr b + f_size b)"
  shows "ordered (f_virt (concat (map f bs)))"
  using assms
proof (induction bs)
  case (Cons b bs)
  have "f_vaddr q + f_size q \<le> f_vaddr r" if qr: "q \<in> set (f b)" "r \<in> set (concat (map f bs))" for q r
  proof -
    obtain d where d: "d \<in> set bs" "r \<in> set (f d)" using qr(2) by auto
    have "f_vaddr b + f_size b \<le> f_vaddr d" using Cons.prems(1) d(1) by (simp add: ordered_Cons)
    moreover have "f_vaddr q + f_size q \<le> f_vaddr b + f_size b" "f_vaddr d \<le> f_vaddr r"
      using Cons.prems(2) qr(1) d by auto
    ultimately show ?thesis by simp
  qed
  then show ?case using Cons by (auto simp: ordered_def sorted_wrt_append)
qed (simp add: ordered_def)

lemma ordered_rest: "ordered (f_virt bs) \<Longrightarrow> v < e \<Longrightarrow> ordered (f_virt (blocks_rest v e bs))"
  by (rule ordered_concat) (auto simp: block_rest_def ordered_def)

abbreviation fully_mapped :: "u64 \<Rightarrow> u64 \<Rightarrow> flex \<Rightarrow> bool" where
  "fully_mapped v n s \<equiv> (\<forall>x\<in>span v n. 0 < occ x (f_virt (fx_blocks s)))"

lemma flex_snapshot_ok:
  assumes ok: "flex_ok psize fsize s" and n: "0 < n" "v + n < two64"
  shows "flex_snapshot v n s =
    (if fully_mapped v n s then Some (blocks_part v (v + n) (fx_blocks s)) else None)"
proof -
  have c: "\<not> (n = 0 \<or> U64_MAX - v < n)" using n by simp
  have "flex_snapshot v n s = snapshot_loop (v + n) v (fx_blocks s)"
    using c n(2) unfolding flex_snapshot_def by (simp only: if_False add64_exact)
  then show ?thesis
    using snapshot_loop_parts [OF flex_okD(2,3) [OF ok], of v "v + n"] n by (simp add: Ball_def)
qed

lemma mapped_sizes:
  assumes ok: "flex_ok psize fsize s" and n: "0 < n" "v + n < two64" and all: "fully_mapped v n s"
  shows "f_sizes (blocks_part v (v + n) (fx_blocks s)) = n"
proof -
  have "v < v + n" using n by simp
  note bp = blocks_parts [OF flex_okD(2) [OF ok] this n(2)]
  have "occ x (f_virt (fx_blocks s)) = 1" if "x \<in> span v n" for x
    using all flex_virt_le [OF ok, of x] that by fastforce
  then have one: "occ x (f_virt (blocks_part v (v + n) (fx_blocks s))) = of_bool (x \<in> span v n)" for x
    using bp(3) [of x] by simp
  have "real (f_virt (blocks_part v (v + n) (fx_blocks s)))" using bp(5) real_blocks by blast
  from real_sizes [OF this] have "sizes (f_virt (blocks_part v (v + n) (fx_blocks s))) = (\<Sum>x<U64_MAX. of_bool (x \<in> span v n))"
    by (simp only: one)
  also have "\<dots> = n" by (rule sum_span) (use n in simp)
  finally show ?thesis by (simp add: comp_def)
qed

lemma snapshot_hd: "snapshot_loop e c bs = Some ps \<Longrightarrow> f_vaddr (hd ps) = c"
  by (induction e c bs arbitrary: ps rule: snapshot_loop.induct) (auto simp: Let_def split: if_splits)

text \<open>Unmapping succeeds exactly on ranges that are mapped throughout, if the host agrees, and removes the range.\<close>

definition flex_unmap_post :: "host \<Rightarrow> u64 \<Rightarrow> u64 \<Rightarrow> flex \<Rightarrow> flex \<times> bool \<times> gpu_mode option \<times> host_call list \<Rightarrow> bool" where
  "flex_unmap_post host v n s = (\<lambda>(s', succ, g, cs).
     if 0 < n \<and> v + n < two64 \<and> fully_mapped v n s \<and> host (UnmapBacking v n)
     then succ \<and> cs = [UnmapBacking v n] \<and> fx_total s' + n = fx_total s
       \<and> fx_maps (fx_blocks s') = {(x, t) \<in> fx_maps (fx_blocks s). x \<notin> span v n}
       \<and> (\<exists>a p m nm. (v, a, p, m, the g, nm) \<in> fx_maps (fx_blocks s))
     else \<not> succ \<and> s' = s \<and> (cs = [] \<or> cs = [UnmapBacking v n] \<and> \<not> host (UnmapBacking v n)))"

lemma flex_unmap_ok:
  assumes ok: "flex_ok psize fsize s" and size: "psize + fsize < two64"
  obtains res where "flex_unmap host v n s = Some res" "flex_ok psize fsize (fst res)"
    "flex_unmap_post host v n s res"
    "fst (snd res) \<Longrightarrow> fx_blocks (fst res) = blocks_rest v (v + n) (fx_blocks s)
      \<and> fr_cover (fx_free (fst res)) = fr_cover (fx_free s) \<union> fr_cover (f_back (blocks_part v (v + n) (fx_blocks s)))"
proof (cases "n = 0 \<or> U64_MAX - v < n")
  case True
  then have "flex_unmap host v n s = Some (s, False, None, [])" unfolding flex_unmap_def by (simp only: if_True)
  moreover have "\<not> (0 < n \<and> v + n < two64)" using True by auto
  then have "flex_unmap_post host v n s (s, False, None, [])" by (auto simp: flex_unmap_post_def)
  ultimately show ?thesis using that ok by simp
next
  case False
  then have n: "0 < n" "v + n < two64" "v < v + n" by auto
  note d = flex_okD [OF ok]
  define e where "e = v + n"
  have start: "flex_unmap host v n s =
      (let (found, current) = unmap_scan e v None (fx_blocks s)
       in if found = None \<or> current \<noteq> e then Some (s, False, found, [])
          else if \<not> host (UnmapBacking v n) then Some (s, False, found, [UnmapBacking v n])
          else (let (remaining, free, removed) = unmap_cut v n (fx_blocks s) (fx_free s) 0
                in if removed \<noteq> n \<or> removed > fx_total s then None
                   else Some (s\<lparr>fx_blocks := remaining, fx_free := free, fx_total := sub64 (fx_total s) removed\<rparr>,
                     True, found, [UnmapBacking v n])))"
    using False n(2) unfolding flex_unmap_def e_def by (simp only: if_False add64_exact Let_def)
  have snap: "snapshot_loop e v (fx_blocks s) = (if fully_mapped v n s then Some (blocks_part v e (fx_blocks s)) else None)"
    using snapshot_loop_parts [OF d(2,3), of v e] n by (simp add: Ball_def e_def)
  note scan = unmap_scan_snapshot [where c = v and e = e and bs = "fx_blocks s" and g = None]
  show ?thesis
  proof (cases "fully_mapped v n s")
    case no: False
    obtain found c where fc: "unmap_scan e v None (fx_blocks s) = (found, c)" by force
    have "c \<noteq> e" using scan snap no n(3) fc by (simp add: e_def)
    then have "flex_unmap host v n s = Some (s, False, found, [])" using start fc by simp
    moreover have "flex_unmap_post host v n s (s, False, found, [])" using no by (simp add: flex_unmap_post_def)
    ultimately show ?thesis using that ok by simp
  next
    case yes: True
    define ps where "ps = blocks_part v e (fx_blocks s)"
    have scan': "ps \<noteq> []" "unmap_scan e v None (fx_blocks s) = (Some (f_gpu (hd ps)), e)"
      using scan snap yes n(3) by (simp_all add: e_def ps_def)
    show ?thesis
    proof (cases "host (UnmapBacking v n)")
      case no: False
      then have "flex_unmap host v n s = Some (s, False, Some (f_gpu (hd ps)), [UnmapBacking v n])"
        using start scan' by simp
      moreover have "flex_unmap_post host v n s (s, False, Some (f_gpu (hd ps)), [UnmapBacking v n])"
        using no by (simp add: flex_unmap_post_def)
      ultimately show ?thesis using that ok by simp
    next
      case host: True
      note bp = blocks_parts [OF d(2) n(3,2), folded e_def, folded ps_def] and bm = blocks_maps [OF n(3), of "fx_blocks s", folded e_def, folded ps_def]
      define rs where "rs = blocks_rest v e (fx_blocks s)"
      define free where "free = fold (\<lambda>(a, n). add_free_range a n) (f_back ps) (fx_free s)"
      have sz: "f_sizes ps = n" using mapped_sizes [OF ok n(1,2) yes] by (simp add: ps_def e_def)
      have total: "f_sizes rs + n = fx_total s"
        using blocks_part_sizes [OF d(2) n(3,2)] sz d(5) by (simp add: rs_def ps_def e_def)
      have "f_sizes (blocks_part v (v + n) (fx_blocks s)) < two64" using sz n(2) by (simp add: ps_def e_def)
      then have cut: "unmap_cut v n (fx_blocks s) (fx_free s) 0 = (rs, free, n)"
        using unmap_cut_eq [OF d(2) n(1,2), of 0 "fx_free s"] sz by (simp add: rs_def free_def ps_def e_def)
      define s' where "s' = s\<lparr>fx_blocks := rs, fx_free := free, fx_total := f_sizes rs\<rparr>"
      have tot2: "sub64 (fx_total s) n = f_sizes rs" using total flex_accounting(1) [OF ok size] size by simp
      have res: "flex_unmap host v n s = Some (s', True, Some (f_gpu (hd ps)), [UnmapBacking v n])"
        using start scan' cut host total by (simp add: s'_def tot2)
      have one: "of_bool (x \<in> fr_cover (fx_free s)) + (occ x (f_back rs) + occ x (f_back ps)) = (of_bool (x \<in> span psize fsize) :: nat)" for x
        using d(4) [of x] bp(1) [of x] by (simp only: rs_def)
      then have le: "of_bool (x \<in> fr_cover (fx_free s)) + (occ x (f_back rs) + occ x (f_back ps)) \<le> 1" for x
        by (simp only: of_bool_less_eq_one)
      have rb: "real (f_back ps)" using bp(5) real_blocks by blast
      have "occ x (f_back ps) \<le> 1" for x using le [of x] by linarith
      then have sep: "separate (f_back ps)" using occ_separate [OF rb] by blast
      have dis: "x \<notin> fr_cover (fx_free s)" if "0 < occ x (f_back ps)" for x
        using le [of x] that by (cases "x \<in> fr_cover (fx_free s)") simp_all
      have "\<forall>(a, k)\<in>set (f_back ps). span a k \<inter> fr_cover (fx_free s) = {}"
      proof (clarify, rule ccontr)
        fix a k assume "(a, k) \<in> set (f_back ps)" "span a k \<inter> fr_cover (fx_free s) \<noteq> {}"
        then obtain x where x: "x \<in> span a k" "x \<in> fr_cover (fx_free s)" by blast
        show False using dis [OF occ_member [OF \<open>(a, k) \<in> _\<close> x(1)]] x(2) by contradiction
      qed
      from fr.give_all [OF d(1) sep this]
      have free: "fr_ok free" "fr_cover free = fr_cover (fx_free s) \<union> fr_cover (f_back ps)"
        by (simp_all only: free_def im_cover_def)
      have cov: "x \<in> fr_cover free \<longleftrightarrow> x \<in> fr_cover (fx_free s) \<or> 0 < occ x (f_back ps)" for x
        by (simp only: free(2) Un_iff occ_cover)
      have "of_bool (x \<in> fr_cover free) + occ x (f_back rs) = (of_bool (x \<in> span psize fsize) :: nat)" for x
        using one [of x] dis [of x] le [of x] unfolding cov
        by (cases "x \<in> fr_cover (fx_free s)"; cases "0 < occ x (f_back ps)") simp_all
      moreover have "ordered (f_virt rs)" using ordered_rest [OF d(3) n(3)] by (simp add: rs_def e_def)
      moreover have "\<forall>b\<in>set rs. real_block b" using bp(4) by (simp add: rs_def)
      ultimately have inv: "flex_ok psize fsize s'" using free(1) by (simp add: flex_ok_def s'_def del: in_span)
      have "fx_maps rs = {(x, t) \<in> fx_maps (fx_blocks s). x \<notin> span v n}"
        using bm(2) by (simp add: rs_def e_def)
      moreover have "\<exists>a p m nm. (v, a, p, m, f_gpu (hd ps), nm) \<in> fx_maps (fx_blocks s)"
      proof -
        have "hd ps \<in> set ps" using scan'(1) by simp
        then have "0 < f_size (hd ps)" using bp(5) real_blockD(1) by blast
        moreover have "f_vaddr (hd ps) = v" using snapshot_hd [of e v "fx_blocks s" ps] snap yes by (simp add: ps_def)
        ultimately have "(v, f_target (hd ps) v) \<in> fx_maps ps"
          unfolding fx_maps_iff using \<open>hd ps \<in> set ps\<close> by (intro bexI [of _ "hd ps"]) simp_all
        then have "(v, f_target (hd ps) v) \<in> fx_maps (fx_blocks s)" unfolding bm(1) by blast
        then show ?thesis by (auto simp: f_target_def)
      qed
      ultimately have "flex_unmap_post host v n s (s', True, Some (f_gpu (hd ps)), [UnmapBacking v n])"
        using n yes host total by (simp add: flex_unmap_post_def s'_def del: in_span)
      then show ?thesis using that [OF res] inv free(2) by (simp add: s'_def rs_def ps_def e_def)
    qed
  qed
qed

subsection \<open>Restoring a snapshot\<close>

lemma fold_total:
  "t + f_sizes bs < two64 \<Longrightarrow> fold (\<lambda>b n. add64 n (f_size b)) bs t = t + f_sizes bs"
  by (induction bs arbitrary: t) simp_all

lemma flex_restore_ok:
  assumes ok: "flex_ok psize fsize s" and size: "psize + fsize < two64"
    and host: "\<forall>v n. host (UnmapBacking v n)"
    and bs: "\<forall>b\<in>set bs. real_block b" "\<And>x. occ x (f_back bs) \<le> of_bool (x \<in> fr_cover (fx_free s))"
    and virt: "\<And>x. occ x (f_virt bs) + occ x (f_virt (fx_blocks s)) \<le> 1"
  obtains s' succ cs where "flex_restore host bs s = Some (s', succ, cs)" "flex_ok psize fsize s'"
    "succ \<Longrightarrow> fx_maps (fx_blocks s') = fx_maps (fx_blocks s) \<union> fx_maps bs
       \<and> fr_cover (fx_free s') = fr_cover (fx_free s) - fr_cover (f_back bs) \<and> fx_total s' = fx_total s + f_sizes bs
       \<and> host_effect host cs [] = f_virt (rev bs)"
    "\<not> succ \<Longrightarrow> s' = s \<and> host_effect host cs [] = []"
    "bs \<noteq> [] \<Longrightarrow> \<forall>c. host c \<Longrightarrow> succ"
proof (cases "bs = []")
  case True
  then have "flex_restore host bs s = Some (s, False, [])" by (simp add: flex_restore_def)
  then show ?thesis using that [of s False "[]"] ok True by simp
next
  case False
  note d = flex_okD [OF ok]
  have check: "list_all (\<lambda>b. case range_before (f_off b) (fx_free s) of
      None \<Rightarrow> False | Some k \<Rightarrow> range_holds b k (fx_free s)) bs"
    unfolding list_all_iff
  proof
    fix b assume b: "b \<in> set bs"
    have "span (f_off b) (f_size b) \<subseteq> fr_cover (fx_free s)"
    proof
      fix x assume x: "x \<in> span (f_off b) (f_size b)"
      have "(f_off b, f_size b) \<in> set (f_back bs)" using b by force
      from occ_member [OF this x] show "x \<in> fr_cover (fx_free s)"
        using bs(2) [of x] by (cases "x \<in> fr_cover (fx_free s)") simp_all
    qed
    then obtain k where "range_before (f_off b) (fx_free s) = Some k" "range_holds b k (fx_free s)"
      using range_before_holds [OF d(1)] bs(1) b by metis
    then show "case range_before (f_off b) (fx_free s) of None \<Rightarrow> False | Some k \<Rightarrow> range_holds b k (fx_free s)" by simp
  qed
  obtain cs succ where m: "map_blocks host False [] bs = Some (cs, succ)"
    using map_blocks_total [of host False "[]" bs] host by (cases "map_blocks host False [] bs") auto
  note eff = map_blocks_effect [OF m, of "[]"]
  have acc: "succ" if "\<forall>c. host c" using map_blocks_accept [of host False "[]" bs] that m by auto
  obtain free where f: "consume_blocks False bs (fx_free s) = Some free"
    and inv: "\<And>s'. \<lbrakk>fx_blocks s' = sort_key f_vaddr (fx_blocks s @ bs); fx_free s' = free; fx_total s' = fx_total s + f_sizes bs\<rbrakk>
      \<Longrightarrow> flex_ok psize fsize s' \<and> fx_maps (fx_blocks s') = fx_maps (fx_blocks s) \<union> fx_maps bs"
    and t: "fx_total s + f_sizes bs < two64"
    and cov: "fr_cover free = fr_cover (fx_free s) - fr_cover (f_back bs)"
    by (rule flex_add_blocks [OF ok size bs virt, of False]) (rule that)
  have res: "flex_restore host bs s =
      (if \<not> succ then Some (s, False, cs)
       else Some (s\<lparr>fx_blocks := sort_key f_vaddr (fx_blocks s @ bs), fx_free := free,
              fx_total := fx_total s + f_sizes bs\<rparr>, True, cs))"
    unfolding flex_restore_def using False check m f fold_total [OF t] by simp
  show ?thesis
  proof (cases succ)
    case no: False
    moreover have "\<not> (\<forall>c. host c)" using acc no by blast
    ultimately show ?thesis using that [of s False cs] res ok eff by auto
  next
    case yes: True
    define s' where "s' = s\<lparr>fx_blocks := sort_key f_vaddr (fx_blocks s @ bs), fx_free := free,
      fx_total := fx_total s + f_sizes bs\<rparr>"
    have "flex_ok psize fsize s'" "fx_maps (fx_blocks s') = fx_maps (fx_blocks s) \<union> fx_maps bs"
      using inv [of s'] by (simp_all add: s'_def)
    moreover have "flex_restore host bs s = Some (s', True, cs)" using res yes by (simp add: s'_def)
    moreover have "fx_free s' = free" "fx_total s' = fx_total s + f_sizes bs" by (simp_all add: s'_def)
    ultimately show ?thesis using that [of s' True cs] eff yes cov by simp
  qed
qed

text \<open>Free ranges with gaps between them are determined by the addresses they cover.\<close>

lemma fr_ok_least: "fr_ok ((k, n) # m) \<Longrightarrow> x \<in> fr_cover ((k, n) # m) \<Longrightarrow> k \<le> x"
  by (fastforce simp: fr_ok_simps im_cover_def)

lemma fr_ok_gap_end: "fr_ok ((k, n) # m) \<Longrightarrow> k + n \<notin> fr_cover ((k, n) # m)"
  by (fastforce simp: fr_ok_simps im_cover_def)

lemma fr_ok_end:
  assumes "fr_ok ((k, n) # m)" and "fr_ok ((k, n') # m')" and "fr_cover ((k, n) # m) = fr_cover ((k, n') # m')"
  shows "n \<le> n'"
proof (rule ccontr)
  assume "\<not> n \<le> n'"
  then have "k + n' \<in> span k n" by simp
  then have "k + n' \<in> fr_cover ((k, n') # m')" unfolding assms(3) [symmetric] by (simp del: in_span)
  then show False using fr_ok_gap_end [OF assms(2)] by contradiction
qed

lemma fr_ok_unique: "\<lbrakk>fr_ok m; fr_ok m'; fr_cover m = fr_cover m'\<rbrakk> \<Longrightarrow> m = m'"
proof (induction m arbitrary: m')
  case Nil
  then show ?case by (cases m') (auto simp: fr_ok_simps)
next
  case (Cons r m)
  obtain k n where r: "r = (k, n)" by force
  have "k \<in> fr_cover m'" using Cons.prems by (auto simp: r fr_ok_simps)
  then obtain r' ms where m': "m' = r' # ms" by (cases m') auto
  obtain k' n' where r': "r' = (k', n')" by force
  have "k' \<le> k" using fr_ok_least Cons.prems(2) \<open>k \<in> fr_cover m'\<close> by (simp only: m' r')
  moreover have "k' \<in> fr_cover (r # m)" using Cons.prems(2,3) by (auto simp: m' r' fr_ok_simps)
  then have "k \<le> k'" using fr_ok_least Cons.prems(1) by (simp only: r)
  ultimately have k: "k' = k" by simp
  have "n' = n" using fr_ok_end [of k n m n' ms] fr_ok_end [of k n' ms n m] Cons.prems by (simp add: m' r' r k)
  moreover have "fr_cover m = fr_cover ms"
  proof -
    have "fr_cover m = fr_cover (r # m) - span k n" "fr_cover ms = fr_cover m' - span k n"
      using Cons.prems(1,2) by (fastforce simp: r m' r' k \<open>n' = n\<close> fr_ok_simps im_cover_def)+
    then show ?thesis using Cons.prems(3) by simp
  qed
  ultimately show ?case using Cons.IH [of ms] Cons.prems(1,2) by (simp add: m' r' r k fr_ok_simps)
qed

subsection \<open>Protection and names\<close>

definition set_modes :: "prot \<Rightarrow> vm_mode \<Rightarrow> gpu_mode \<Rightarrow> fblock \<Rightarrow> fblock" where
  "set_modes p md g b = b\<lparr>f_prot := p, f_mode := md, f_gpu := g\<rparr>"

lemma set_modes_simps [simp]:
  "f_vaddr (set_modes p md g b) = f_vaddr b" "f_size (set_modes p md g b) = f_size b"
  "f_off (set_modes p md g b) = f_off b" "real_block (set_modes p md g b) = real_block b"
  by (simp_all add: set_modes_def real_block_def real_mapping_def)

text \<open>Protecting cuts a block as unmapping does, and keeps the part inside with the new modes.\<close>

lemma flex_protect_block_eq:
  assumes b: "real_block b" and n: "0 < n" "v + n < two64"
  shows "\<exists>l u. block_rest v (v + n) b = l @ u \<and>
    flex_protect_block v n p md g b = l @ map (set_modes p md g) (block_part v (v + n) b) @ u
    \<and> (\<forall>q\<in>set l. f_vaddr b \<le> f_vaddr q \<and> f_vaddr q + f_size q \<le> max v (f_vaddr b)
          \<and> f_vaddr q + f_size q \<le> f_vaddr b + f_size b)
    \<and> (\<forall>q\<in>set u. min (v + n) (f_vaddr b + f_size b) \<le> f_vaddr q \<and> f_vaddr b \<le> f_vaddr q
          \<and> f_vaddr q + f_size q \<le> f_vaddr b + f_size b)
    \<and> length l \<le> 1 \<and> length u \<le> 1"
proof (cases "f_vaddr b + f_size b \<le> v \<or> v + n \<le> f_vaddr b")
  case True
  have "flex_protect_block v n p md g b = [b]"
    using block_overlap [OF b n] True unfolding flex_protect_block_def by simp
  moreover have "block_part v (v + n) b = []" "block_rest v (v + n) b = [b]"
    using True by (auto simp: block_part_def block_rest_def Let_def)
  ultimately show ?thesis using True
    by (cases "f_vaddr b + f_size b \<le> v") (fastforce intro: exI [of _ "[b]"] exI [of _ "[]"])+
next
  case False
  note bb = real_blockD [OF b]
  define os oe where "os = max v (f_vaddr b)" and "oe = min (v + n) (f_vaddr b + f_size b)"
  have o: "os < oe" "f_vaddr b \<le> os" "oe \<le> f_vaddr b + f_size b" using False bb(1) n(1) by (auto simp: os_def oe_def)
  have eqs: "f_vaddr b < os \<longleftrightarrow> f_vaddr b < v" "oe < f_vaddr b + f_size b \<longleftrightarrow> v + n < f_vaddr b + f_size b"
    "f_vaddr b < v \<Longrightarrow> os = v" "v + n < f_vaddr b + f_size b \<Longrightarrow> oe = v + n"
    by (auto simp: os_def oe_def)
  have ss: "sub64 (add64 (f_off b) os) (f_vaddr b) = f_off b + (os - f_vaddr b)"
    "sub64 (add64 (f_off b) oe) (f_vaddr b) = f_off b + (oe - f_vaddr b)" "sub64 oe os = oe - os"
    "sub64 os (f_vaddr b) = os - f_vaddr b" "sub64 (f_end b) oe = f_vaddr b + f_size b - oe"
    using sub_add64 [OF bb(3), of "f_vaddr b" os] sub_add64 [OF bb(3), of "f_vaddr b" oe] o bb by simp_all
  have ends: "max v (f_vaddr b) = os" "min (add64 v n) (f_end b) = oe"
    using n(2) bb(4) by (simp_all add: os_def oe_def)
  define l where "l = (if f_vaddr b < os then [b\<lparr>f_size := os - f_vaddr b\<rparr>] else [])"
  define u where "u = (if oe < f_vaddr b + f_size b
    then [b\<lparr>f_vaddr := oe, f_size := f_vaddr b + f_size b - oe, f_off := f_off b + (oe - f_vaddr b)\<rparr>] else [])"
  have ov: "virtual_ranges_overlap v n (f_vaddr b) (f_size b)" using block_overlap [OF b n] False by blast
  have part: "map (set_modes p md g) (block_part v (v + n) b) =
      [b\<lparr>f_vaddr := os, f_size := oe - os, f_off := f_off b + (os - f_vaddr b), f_prot := p, f_mode := md, f_gpu := g\<rparr>]"
    using o by (simp add: block_part_def Let_def set_modes_def flip: os_def oe_def)
  have prot: "flex_protect_block v n p md g b = l @ map (set_modes p md g) (block_part v (v + n) b) @ u"
    unfolding flex_protect_block_def Let_def ends ss unfolding part l_def u_def bb(4) using ov by simp
  have rest: "block_rest v (v + n) b = l @ u"
    using False eqs unfolding block_rest_def l_def u_def by (simp split: if_split)
  show ?thesis
    by (intro exI [of _ l] exI [of _ u] conjI rest prot)
      (use o in \<open>simp_all add: l_def u_def flip: os_def oe_def\<close>)
qed

lemma flex_protect_blocks:
  assumes "\<forall>b\<in>set bs. real_block b" and "0 < n" and "v + n < two64"
  shows "mset (concat (map (flex_protect_block v n p md g) bs))
    = mset (blocks_rest v (v + n) bs) + mset (map (set_modes p md g) (blocks_part v (v + n) bs))"
  using assms(1)
proof (induction bs)
  case (Cons b bs)
  have "real_block b" using Cons.prems by simp
  from flex_protect_block_eq [OF this assms(2,3), of p md g] obtain l u where
    "block_rest v (v + n) b = l @ u"
    "flex_protect_block v n p md g b = l @ map (set_modes p md g) (block_part v (v + n) b) @ u" by blast
  then show ?case using Cons by simp
qed simp

lemma protect_target:
  "(\<lambda>x. (x, f_target (set_modes p md g b) x)) ` A
    = (\<lambda>(x, a, q, m, h, nm). (x, a, p, md, g, nm)) ` (\<lambda>x. (x, f_target b x)) ` A"
  by (auto simp: image_image f_target_def set_modes_def)

lemma fx_maps_modes:
  "fx_maps (map (set_modes p md g) bs) = (\<lambda>(x, a, q, m, h, nm). (x, a, p, md, g, nm)) ` fx_maps bs"
  by (induction bs) (simp_all add: image_Un protect_target del: in_span)

lemma block_part_within:
  "\<forall>q\<in>set (block_part v e b). max v (f_vaddr b) \<le> f_vaddr q \<and> f_vaddr q + f_size q \<le> min e (f_vaddr b + f_size b)"
  "length (block_part v e b) \<le> 1"
  by (auto simp: block_part_def Let_def min_def max_def)

lemma ordered_short: "length bs \<le> 1 \<Longrightarrow> ordered (f_virt bs)"
  by (cases bs) (simp_all add: ordered_def)

lemma flex_protect_ok:
  fixes p :: prot and md :: vm_mode and g :: gpu_mode and v n :: u64
  assumes ok: "flex_ok psize fsize s"
  defines "s' \<equiv> flex_protect v n p md g s"
  shows "flex_ok psize fsize s'" and "fx_free s' = fx_free s" and "fx_total s' = fx_total s"
    and "occ x (f_virt (fx_blocks s')) = occ x (f_virt (fx_blocks s))"
    and "0 < n \<Longrightarrow> v + n < two64 \<Longrightarrow> fx_maps (fx_blocks s') =
      {(x, t) \<in> fx_maps (fx_blocks s). x \<notin> span v n}
      \<union> (\<lambda>(x, a, q, m, h, nm). (x, a, p, md, g, nm)) ` {(x, t) \<in> fx_maps (fx_blocks s). x \<in> span v n}"
proof -
  note d = flex_okD [OF ok]
  have "flex_ok psize fsize s' \<and> fx_free s' = fx_free s \<and> fx_total s' = fx_total s
    \<and> (\<forall>x. occ x (f_virt (fx_blocks s')) = occ x (f_virt (fx_blocks s)))
    \<and> (0 < n \<and> v + n < two64 \<longrightarrow> fx_maps (fx_blocks s') =
        {(x, t) \<in> fx_maps (fx_blocks s). x \<notin> span v n}
        \<union> (\<lambda>(x, a, q, m, h, nm). (x, a, p, md, g, nm)) ` {(x, t) \<in> fx_maps (fx_blocks s). x \<in> span v n})"
  proof (cases "n = 0 \<or> U64_MAX - v < n")
    case True
    then have "s' = s" unfolding s'_def flex_protect_def by (simp only: if_True)
    moreover have "\<not> (0 < n \<and> v + n < two64)" using True by auto
    ultimately show ?thesis using ok by blast
  next
    case False
    then have n: "0 < n" "v + n < two64" "v < v + n" by auto
    define e where "e = v + n"
    define cs where "cs = concat (map (flex_protect_block v n p md g) (fx_blocks s))"
    define rs ps where "rs = blocks_rest v e (fx_blocks s)" and "ps = blocks_part v e (fx_blocks s)"
    have s': "s' = s\<lparr>fx_blocks := cs\<rparr>"
      using False unfolding s'_def flex_protect_def cs_def by (simp only: if_False)
    have ms: "mset cs = mset (rs @ map (set_modes p md g) ps)"
      using flex_protect_blocks [OF d(2) n(1,2), of p md g] by (simp add: cs_def rs_def ps_def e_def)
    then have sets: "set cs = set rs \<union> set_modes p md g ` set ps" by (metis mset_eq_setD set_append set_map)
    note bp = blocks_parts [OF d(2) n(3,2), folded e_def, folded ps_def rs_def]
      and bm = blocks_maps [OF n(3), of "fx_blocks s", folded e_def, folded ps_def rs_def]
    have occs: "occ x (f_back cs) = occ x (f_back (fx_blocks s))" "occ x (f_virt cs) = occ x (f_virt (fx_blocks s))" for x
      using occ_map_mset [OF ms] bp(1-3) by (simp_all add: comp_def)
    have "f_sizes cs = f_sizes (rs @ map (set_modes p md g) ps)" using ms by (metis mset_map sum_mset_sum_list)
    then have sz: "f_sizes cs = f_sizes (fx_blocks s)"
      using blocks_part_sizes [OF d(2) n(3,2), folded e_def, folded ps_def rs_def] by (simp add: comp_def)
    have "ordered (f_virt cs)"
      unfolding cs_def
    proof (rule ordered_concat [OF d(3)])
      fix b assume "b \<in> set (fx_blocks s)"
      then have b: "real_block b" using d(2) by blast
      obtain l u where lu: "flex_protect_block v n p md g b = l @ map (set_modes p md g) (block_part v (v + n) b) @ u"
        "\<forall>q\<in>set l. f_vaddr b \<le> f_vaddr q \<and> f_vaddr q + f_size q \<le> max v (f_vaddr b)
          \<and> f_vaddr q + f_size q \<le> f_vaddr b + f_size b"
        "\<forall>q\<in>set u. min (v + n) (f_vaddr b + f_size b) \<le> f_vaddr q \<and> f_vaddr b \<le> f_vaddr q
          \<and> f_vaddr q + f_size q \<le> f_vaddr b + f_size b"
        "length l \<le> 1" "length u \<le> 1"
        using flex_protect_block_eq [OF b n(1,2), of p md g] by blast
      show "ordered (f_virt (flex_protect_block v n p md g b))
        \<and> (\<forall>q\<in>set (flex_protect_block v n p md g b). f_vaddr b \<le> f_vaddr q \<and> f_vaddr q + f_size q \<le> f_vaddr b + f_size b)"
        unfolding lu(1)
      proof (intro conjI)
        note pt = block_part_within [of v "v + n" b]
        have "f_vaddr q + f_size q \<le> f_vaddr r" if "q \<in> set l" "r \<in> set u" for q r
        proof (cases "f_vaddr b + f_size b \<le> v + n")
          case True
          then show ?thesis using lu(2,3) that by fastforce
        next
          case False
          then have "max v (f_vaddr b) \<le> v + n \<or> v + n \<le> f_vaddr b" by auto
          then show ?thesis using lu(2,3) that False by fastforce
        qed
        moreover have "f_vaddr q + f_size q \<le> f_vaddr r" if "q \<in> set l" "r \<in> set (block_part v (v + n) b)" for q r
          using lu(2) pt(1) that by fastforce
        moreover have "f_vaddr q + f_size q \<le> f_vaddr r" if "q \<in> set (block_part v (v + n) b)" "r \<in> set u" for q r
          using lu(3) pt(1) that by fastforce
        ultimately show "ordered (f_virt (l @ map (set_modes p md g) (block_part v (v + n) b) @ u))"
          using ordered_short [OF lu(4)] ordered_short [OF lu(5)] ordered_short [OF pt(2)]
          by (auto simp: ordered_def sorted_wrt_append comp_def)
        show "\<forall>q\<in>set (l @ map (set_modes p md g) (block_part v (v + n) b) @ u).
            f_vaddr b \<le> f_vaddr q \<and> f_vaddr q + f_size q \<le> f_vaddr b + f_size b"
          using lu(2,3) pt(1) by fastforce
      qed
    qed
    then have inv: "flex_ok psize fsize s'"
      using d sets bp(4,5) occs(1) sz by (auto simp: flex_ok_def s' simp del: in_span)
    have "fx_maps cs = fx_maps (rs @ map (set_modes p md g) ps)"
      by (rule fx_maps_set) (simp add: sets)
    also have "\<dots> = {(x, t) \<in> fx_maps (fx_blocks s). x \<notin> span v n}
        \<union> (\<lambda>(x, a, q, m, h, nm). (x, a, p, md, g, nm)) ` {(x, t) \<in> fx_maps (fx_blocks s). x \<in> span v n}"
      unfolding fx_maps_simps fx_maps_modes bm by (simp add: e_def)
    finally show ?thesis using inv occs by (simp add: s' del: in_span)
  qed
  then show "flex_ok psize fsize s'" "fx_free s' = fx_free s" "fx_total s' = fx_total s"
    "occ x (f_virt (fx_blocks s')) = occ x (f_virt (fx_blocks s))"
    "0 < n \<Longrightarrow> v + n < two64 \<Longrightarrow> fx_maps (fx_blocks s') =
      {(x, t) \<in> fx_maps (fx_blocks s). x \<notin> span v n}
      \<union> (\<lambda>(x, a, q, m, h, nm). (x, a, p, md, g, nm)) ` {(x, t) \<in> fx_maps (fx_blocks s). x \<in> span v n}"
    by blast+
qed

text \<open>A name is set on every block that the range touches.\<close>

lemma flex_set_name_ok:
  fixes v n :: u64 and nm :: "string option"
  assumes ok: "flex_ok psize fsize s"
  defines "s' \<equiv> flex_set_name v n nm s"
  shows "flex_ok psize fsize s'" and "f_virt (fx_blocks s') = f_virt (fx_blocks s)"
proof -
  define h :: "fblock \<Rightarrow> fblock" where "h = (\<lambda>b. if virtual_ranges_overlap v n (f_vaddr b) (f_size b)
    then b\<lparr>f_name := copy_virtual_range_name nm\<rparr> else b)"
  have h: "f_vaddr (h b) = f_vaddr b" "f_size (h b) = f_size b" "f_off (h b) = f_off b" for b
    by (simp_all add: h_def)
  have s': "s' = s\<lparr>fx_blocks := map h (fx_blocks s)\<rparr>" by (simp add: s'_def flex_set_name_def h_def)
  have same: "f_virt (map h bs) = f_virt bs" "f_back (map h bs) = f_back bs" "f_sizes (map h bs) = f_sizes bs" for bs
    by (induction bs) (simp_all add: h)
  have "real_block (h b) = real_block b" for b by (simp add: real_block_def real_mapping_def h)
  then have real: "\<forall>b\<in>set (map h (fx_blocks s)). real_block b" using flex_okD(2) [OF ok] by simp
  have f: "fx_blocks s' = map h (fx_blocks s)" "fx_free s' = fx_free s" "fx_total s' = fx_total s" by (simp_all add: s')
  show "flex_ok psize fsize s'"
    unfolding flex_ok_def f same using flex_okD [OF ok] real by blast
  show "f_virt (fx_blocks s') = f_virt (fx_blocks s)" by (simp only: f same)
qed

end
