(* ===== verification/FlexibleTheorems.thy ===== *)
theory FlexibleTheorems
  imports FlexibleOps
begin

text \<open>
  The states of the flexible memory that the operations reach, the properties that hold in all of them,
  undoing an unmapping with a snapshot, and what \<open>Restore\<close> does not check.
\<close>

subsection \<open>Every state the operations reach\<close>

text \<open>
  The memory calls map ranges they have found unmapped, and restore snapshots whose backing is free and
  whose addresses are unmapped.  The host unmaps what it has mapped, and may refuse anything else.
\<close>

inductive flex_reach :: "u64 \<Rightarrow> u64 \<Rightarrow> flex \<Rightarrow> bool" for psize fsize where
  init: "flex_reach psize fsize (flex_init psize fsize)"
| map: "\<lbrakk>flex_reach psize fsize s; \<forall>v n. host (UnmapBacking v n); v + n < two64;
     \<forall>b\<in>set (fx_blocks s). span v n \<inter> span (f_vaddr b) (f_size b) = {};
     flex_map host fsize v n p md g name s = Some (s', succ, cs)\<rbrakk> \<Longrightarrow> flex_reach psize fsize s'"
| unmap: "\<lbrakk>flex_reach psize fsize s; flex_unmap host v n s = Some (s', succ, mode, cs)\<rbrakk> \<Longrightarrow> flex_reach psize fsize s'"
| restore: "\<lbrakk>flex_reach psize fsize s; \<forall>v n. host (UnmapBacking v n); \<forall>b\<in>set bs. real_block b;
     \<forall>x. occ x (f_back bs) \<le> of_bool (x \<in> fr_cover (fx_free s));
     \<forall>x. occ x (f_virt bs) + occ x (f_virt (fx_blocks s)) \<le> 1;
     flex_restore host bs s = Some (s', succ, cs)\<rbrakk> \<Longrightarrow> flex_reach psize fsize s'"
| protect: "flex_reach psize fsize s \<Longrightarrow> flex_reach psize fsize (flex_protect v n p md g s)"
| name: "flex_reach psize fsize s \<Longrightarrow> flex_reach psize fsize (flex_set_name v n nm s)"

lemma apart_occ: "\<forall>b\<in>set bs. span v n \<inter> span (f_vaddr b) (f_size b) = {} \<Longrightarrow> x \<in> span v n \<Longrightarrow> occ x (f_virt bs) = 0"
  by (rule disjoint_occ) auto

lemma flex_reach_ok:
  assumes "flex_reach psize fsize s" and fs: "0 < fsize" and size: "psize + fsize < two64"
  shows "flex_ok psize fsize s"
  using assms(1)
proof (induction rule: flex_reach.induct)
  case init
  show ?case by (rule flex_init_ok [OF fs size])
next
  case (map s host v n p md g name s' succ cs)
  obtain res where "flex_map host fsize v n p md g name s = Some res" "flex_ok psize fsize (fst res)"
    by (rule flex_map_ok [OF map.IH size map(2,3) apart_occ [OF map(4)], of p md g name]) (simp, rule that)
  then show ?case using map(5) by force
next
  case (unmap s host v n s' succ mode cs)
  obtain res where "flex_unmap host v n s = Some res" "flex_ok psize fsize (fst res)"
    by (rule flex_unmap_ok [OF unmap.IH size, of host v n]) (rule that)
  then show ?case using unmap(2) by force
next
  case (restore s host bs s' succ cs)
  have pre: "\<And>x. occ x (f_back bs) \<le> of_bool (x \<in> fr_cover (fx_free s))"
    "\<And>x. occ x (f_virt bs) + occ x (f_virt (fx_blocks s)) \<le> 1"
    using restore(4,5) by blast+
  obtain s1 succ' cs' where "flex_restore host bs s = Some (s1, succ', cs')" "flex_ok psize fsize s1"
    by (rule flex_restore_ok [OF restore.IH size restore(2,3) pre]) (rule that)
  then show ?case using restore(6) by simp
next
  case (protect s v n p md g)
  then show ?case by (intro flex_protect_ok(1))
next
  case (name s v n nm)
  then show ?case by (intro flex_set_name_ok(1))
qed

subsection \<open>The properties\<close>

lemma occ_one:
  "\<lbrakk>occ x (map f bs) \<le> 1; b \<in> set bs; c \<in> set bs; x \<in> span (fst (f b)) (snd (f b));
    x \<in> span (fst (f c)) (snd (f c))\<rbrakk> \<Longrightarrow> b = c"
proof (induction bs)
  case (Cons d bs)
  have "occ x (map f bs) \<le> 1" using Cons.prems(1) by (simp del: in_span)
  moreover have "0 < occ x (map f bs)" if "e \<in> set bs" "x \<in> span (fst (f e)) (snd (f e))" for e
    using occ_member' [of "map f bs" x] that by auto
  ultimately show ?case
    using Cons by (cases "x \<in> span (fst (f d)) (snd (f d))") (auto simp del: in_span)
qed simp

lemma flex_find_maps:
  assumes ok: "flex_ok psize fsize s" and t: "(x, a, p, m, g, nm) \<in> fx_maps (fx_blocks s)"
  shows "\<exists>base len. flex_find x s = Some (base, len, p, m, g) \<and> x \<in> span base len"
proof -
  obtain b where b: "b \<in> set (fx_blocks s)" "x \<in> span (f_vaddr b) (f_size b)" "(a, p, m, g, nm) = f_target b x"
    using t unfolding fx_maps_iff by blast
  define P where "P = (\<lambda>b. x \<ge> f_vaddr b \<and> x < f_end b)"
  have P: "P c \<longleftrightarrow> x \<in> span (f_vaddr c) (f_size c)" if "c \<in> set (fx_blocks s)" for c
    using real_blockD(4) flex_okD(2) [OF ok] that by (simp add: P_def)
  have "find P (fx_blocks s) \<noteq> None" using b P unfolding find_None_iff by blast
  then obtain c where c: "find P (fx_blocks s) = Some c" by blast
  then have "c \<in> set (fx_blocks s)" using find_split by fastforce
  moreover from this have "x \<in> span (f_vaddr c) (f_size c)" using P find_holds [OF c] by blast
  ultimately have "c = b"
    using occ_one [OF flex_virt_le [OF ok, of x], of c b] b by simp
  then show ?thesis
    using c b(2,3) unfolding flex_find_def P_def [symmetric] by (simp add: f_target_def del: in_span)
qed

lemma flex_find_none:
  assumes ok: "flex_ok psize fsize s"
  shows "flex_find x s = None \<longleftrightarrow> \<not> (\<exists>t. (x, t) \<in> fx_maps (fx_blocks s))"
proof -
  have "(\<exists>b\<in>set (fx_blocks s). x \<ge> f_vaddr b \<and> x < f_end b) \<longleftrightarrow> (\<exists>t. (x, t) \<in> fx_maps (fx_blocks s))"
    using real_blockD(4) flex_okD(2) [OF ok] unfolding fx_maps_iff by fastforce
  then show ?thesis unfolding flex_find_def by (auto simp: find_None_iff)
qed

lemma fx_maps_single:
  assumes ok: "flex_ok psize fsize s"
    and t: "(x, a, u) \<in> fx_maps (fx_blocks s)" "(y, b, w) \<in> fx_maps (fx_blocks s)"
  shows "x = y \<longleftrightarrow> a = b" and "x = y \<Longrightarrow> u = w" and "a \<in> span psize fsize"
proof -
  obtain c d where c: "c \<in> set (fx_blocks s)" "x \<in> span (f_vaddr c) (f_size c)" "(a, u) = f_target c x"
    and d: "d \<in> set (fx_blocks s)" "y \<in> span (f_vaddr d) (f_size d)" "(b, w) = f_target d y"
    using t unfolding fx_maps_iff by blast
  have ab: "a \<in> span (f_off c) (f_size c)" "b \<in> span (f_off d) (f_size d)" "a = f_off c + (x - f_vaddr c)"
    "b = f_off d + (y - f_vaddr d)"
    using c(2,3) d(2,3) by (auto simp: f_target_def)
  have le: "occ z (f_back (fx_blocks s)) \<le> 1" for z
    using flex_okD(4) [OF ok, of z] of_bool_less_eq_one [of "z \<in> span psize fsize", where 'a = nat] by linarith
  have same: "c = d" if "x = y"
    using occ_one [where f = "\<lambda>b. (f_vaddr b, f_size b)", OF flex_virt_le [OF ok] c(1) d(1), of x] c(2) d(2) that
    by (simp del: in_span)
  have same': "c = d" if "a = b"
    using occ_one [where f = "\<lambda>b. (f_off b, f_size b)", OF le c(1) d(1), of a] ab(1,2) that
    by (simp del: in_span)
  show "x = y \<longleftrightarrow> a = b"
  proof
    assume "x = y"
    then show "a = b" using same ab(3,4) by simp
  next
    assume eq: "a = b"
    then have cd: "c = d" by (rule same')
    have "f_vaddr d \<le> x" "f_vaddr d \<le> y" using c(2) d(2) cd by simp_all
    moreover have "f_off d + (x - f_vaddr d) = f_off d + (y - f_vaddr d)" using eq ab(3,4) cd by simp
    ultimately show "x = y" by linarith
  qed
  show "u = w" if "x = y"
  proof -
    have "(a, u) = (b, w)" using c(3) d(3) same [OF that] that by metis
    then show ?thesis by simp
  qed
  have "0 < occ a (f_back (fx_blocks s))"
    by (rule occ_member [of "f_off c" "f_size c"]) (use ab(1) c(1) in auto)
  then show "a \<in> span psize fsize" using flex_okD(4) [OF ok, of a] by (cases "a \<in> span psize fsize") (simp_all del: in_span)
qed

text \<open>A small memory for the witnesses: 12288 bytes of backing from address 4096, with one mapping.\<close>

definition flex_example :: flex where
  "flex_example =
     \<lparr>fx_blocks = [\<lparr>f_vaddr = 65536, f_size = 8192, f_off = 4096, f_host_vaddr = 65536, f_host_size = 8192,
                    f_prot = 3, f_mode = ReadWrite, f_gpu = GpuNoAccess, f_name = ''heap''\<rparr>],
      fx_free = [(12288, 4096)], fx_total = 8192\<rparr>"

lemma flex_example_map:
  "flex_map (\<lambda>c. True) 12288 65536 8192 3 ReadWrite GpuNoAccess (Some ''heap'') (flex_init 4096 12288)
    = Some (flex_example, True, [ZeroBacking 4096 8192, MapBacking 65536 8192 4096 ReadWrite])"
  by (simp add: flex_map_def flex_init_def flex_available_def flex_example_def Let_def copy_virtual_range_name_def
      range_before_def om_upper_bound_def om_after_def om_begin_def om_prev.simps range_holds_def consume_free_range_def)

lemma flex_example_reach: "flex_reach 4096 12288 flex_example"
  by (rule flex_reach.map [OF flex_reach.init _ _ _ flex_example_map]) (simp_all add: flex_init_def)

text \<open>
  C34. In every flexible memory the operations reach the free ranges and the blocks share out the backing
  store, the bytes add up, \<open>Find\<close> reports what an address is mapped to and fails elsewhere, and two
  addresses never share a byte of the store.
\<close>

theorem flex_reach_invariant:
  assumes "flex_reach psize fsize s" and "0 < fsize" and "psize + fsize < two64"
  shows "flex_ok psize fsize s
    \<and> flex_available fsize s = sizes (fx_free s)
    \<and> flex_available fsize s + f_sizes (fx_blocks s) = fsize
    \<and> (\<forall>x. flex_find x s = None \<longleftrightarrow> \<not> (\<exists>t. (x, t) \<in> fx_maps (fx_blocks s)))
    \<and> (\<forall>x a p m g nm. (x, a, p, m, g, nm) \<in> fx_maps (fx_blocks s) \<longrightarrow> a \<in> span psize fsize
         \<and> (\<exists>base len. flex_find x s = Some (base, len, p, m, g) \<and> x \<in> span base len))
    \<and> (\<forall>x a u y b w. (x, a, u) \<in> fx_maps (fx_blocks s) \<and> (y, b, w) \<in> fx_maps (fx_blocks s) \<longrightarrow>
         (x = y \<longleftrightarrow> a = b) \<and> (x = y \<longrightarrow> u = w))"
proof -
  note ok = flex_reach_ok [OF assms]
  show ?thesis
  proof (intro conjI allI impI)
    show "flex_available fsize s + f_sizes (fx_blocks s) = fsize"
      using flex_accounting [OF ok assms(3)] flex_okD(5) [OF ok] by simp
    show "flex_ok psize fsize s" "flex_available fsize s = sizes (fx_free s)"
      using ok flex_accounting(2) [OF ok assms(3)] by blast+
    show "flex_find x s = None \<longleftrightarrow> \<not> (\<exists>t. (x, t) \<in> fx_maps (fx_blocks s))" for x
      by (rule flex_find_none [OF ok])
  next
    fix x a p m g nm assume t: "(x, a, p, m, g, nm) \<in> fx_maps (fx_blocks s)"
    show "a \<in> span psize fsize" by (rule fx_maps_single(3) [OF ok t t])
    show "\<exists>base len. flex_find x s = Some (base, len, p, m, g) \<and> x \<in> span base len"
      by (rule flex_find_maps [OF ok t])
  next
    fix x a u y b w assume "(x, a, u) \<in> fx_maps (fx_blocks s) \<and> (y, b, w) \<in> fx_maps (fx_blocks s)"
    then have t: "(x, a, u) \<in> fx_maps (fx_blocks s)" "(y, b, w) \<in> fx_maps (fx_blocks s)" by blast+
    show "x = y \<longleftrightarrow> a = b" by (rule fx_maps_single(1) [OF ok t])
    show "x = y \<Longrightarrow> u = w" by (rule fx_maps_single(2) [OF ok t])
  qed
qed

theorem flex_reach_invariant_witness:
  "flex_available 12288 flex_example + 8192 = 12288 \<and> flex_find 0 flex_example = None"
proof -
  have "\<not> (\<exists>t. (0, t) \<in> fx_maps (fx_blocks flex_example))"
    unfolding fx_maps_iff by (simp add: flex_example_def)
  moreover have "f_sizes (fx_blocks flex_example) = 8192" by (simp add: flex_example_def)
  ultimately show ?thesis using flex_reach_invariant [OF flex_example_reach] by simp
qed

text \<open>
  C35. \<open>Map\<close> of an unmapped range maps all of it with the given attributes or changes nothing, neither in
  the blocks nor in the host, and it fails only where the bytes are not available or the host refuses;
  \<open>Unmap\<close> succeeds exactly on ranges that are mapped throughout, if the host agrees, and removes exactly
  the range.  Neither stops the program.
\<close>

theorem flex_map_unmap_exact:
  assumes "flex_reach psize fsize s" and "0 < fsize" and "psize + fsize < two64"
  shows "(\<forall>host v n p md g name. (\<forall>w k. host (UnmapBacking w k)) \<and> v + n < two64
        \<and> (\<forall>b\<in>set (fx_blocks s). span v n \<inter> span (f_vaddr b) (f_size b) = {}) \<longrightarrow>
        (\<exists>r. flex_map host fsize v n p md g name s = Some r \<and> flex_map_post host fsize v n p md g name s r))
    \<and> (\<forall>host v n. \<exists>r. flex_unmap host v n s = Some r \<and> flex_unmap_post host v n s r)"
proof -
  note ok = flex_reach_ok [OF assms]
  have "\<exists>r. flex_map host fsize v n p md g name s = Some r \<and> flex_map_post host fsize v n p md g name s r"
    if h: "\<forall>w k. host (UnmapBacking w k)" "v + n < two64"
      "\<forall>b\<in>set (fx_blocks s). span v n \<inter> span (f_vaddr b) (f_size b) = {}" for host v n p md g name
  proof -
    obtain r where "flex_map host fsize v n p md g name s = Some r" "flex_map_post host fsize v n p md g name s r"
      by (rule flex_map_ok [OF ok assms(3) h(1,2) apart_occ [OF h(3)], of p md g name]) (simp, rule that)
    then show ?thesis by blast
  qed
  moreover have "\<exists>r. flex_unmap host v n s = Some r \<and> flex_unmap_post host v n s r" for host v n
  proof -
    obtain r where "flex_unmap host v n s = Some r" "flex_unmap_post host v n s r"
      by (rule flex_unmap_ok [OF ok assms(3), of host v n]) (rule that)
    then show ?thesis by blast
  qed
  ultimately show ?thesis by blast
qed

theorem flex_map_unmap_exact_witness:
  "\<exists>r. flex_unmap (\<lambda>c. True) 65536 4096 flex_example = Some r
     \<and> flex_unmap_post (\<lambda>c. True) 65536 4096 flex_example r"
  using flex_map_unmap_exact [OF flex_example_reach] by simp

text \<open>
  C36. Restoring the snapshot of a range after the range has been unmapped gives every address its byte of
  the store, protection, modes and name back, and leaves the free ranges and the total as they were.
\<close>

theorem flex_snapshot_restore:
  assumes "flex_reach psize fsize s" and "0 < fsize" and "psize + fsize < two64"
    and "flex_snapshot v n s = Some bs" and "flex_unmap host v n s = Some (s1, True, g, cs)" and "\<forall>c. host' c"
  shows "\<exists>s2 ds. flex_restore host' bs s1 = Some (s2, True, ds) \<and> flex_ok psize fsize s2
    \<and> fx_maps (fx_blocks s2) = fx_maps (fx_blocks s) \<and> fx_free s2 = fx_free s \<and> fx_total s2 = fx_total s"
proof -
  note ok = flex_reach_ok [OF assms(1-3)]
  have n: "0 < n" "v + n < two64" "v < v + n"
    using assms(4) by (auto simp: flex_snapshot_def split: if_splits)
  have bs: "bs = blocks_part v (v + n) (fx_blocks s)" and all: "fully_mapped v n s"
    using assms(4) flex_snapshot_ok [OF ok n(1,2)] by (simp_all split: if_splits)
  obtain res where r: "flex_unmap host v n s = Some res" "flex_ok psize fsize (fst res)" "flex_unmap_post host v n s res"
    and cut: "fst (snd res) \<Longrightarrow> fx_blocks (fst res) = blocks_rest v (v + n) (fx_blocks s)
      \<and> fr_cover (fx_free (fst res)) = fr_cover (fx_free s) \<union> fr_cover (f_back (blocks_part v (v + n) (fx_blocks s)))"
    by (rule flex_unmap_ok [OF ok assms(3), of host v n]) (rule that)
  have res: "res = (s1, True, g, cs)" using r(1) assms(5) by simp
  have un: "flex_ok psize fsize s1" "fx_blocks s1 = blocks_rest v (v + n) (fx_blocks s)"
    "fr_cover (fx_free s1) = fr_cover (fx_free s) \<union> fr_cover (f_back bs)" "fx_total s1 + n = fx_total s"
  proof -
    have c: "fx_blocks s1 = blocks_rest v (v + n) (fx_blocks s)
      \<and> fr_cover (fx_free s1) = fr_cover (fx_free s) \<union> fr_cover (f_back bs)"
      using cut unfolding res bs fst_conv snd_conv by blast
    have "flex_unmap_post host v n s (s1, True, g, cs)" using r(3) unfolding res .
    then show "fx_total s1 + n = fx_total s" unfolding flex_unmap_post_def prod.case by (simp only: simp_thms not_True_eq_False split: if_splits)
    show "flex_ok psize fsize s1" using r(2) by (simp add: res)
    show "fx_blocks s1 = blocks_rest v (v + n) (fx_blocks s)"
      "fr_cover (fx_free s1) = fr_cover (fx_free s) \<union> fr_cover (f_back bs)" using c by blast+
  qed
  note bp = blocks_parts [OF flex_okD(2) [OF ok] n(3,2), folded bs]
  have le: "occ x (f_back bs) \<le> of_bool (x \<in> fr_cover (fx_free s1))" for x
  proof -
    have "occ x (f_back bs) \<le> 1"
      using bp(1) [of x] flex_okD(4) [OF ok, of x] of_bool_less_eq_one [of "x \<in> span psize fsize", where 'a = nat]
      by linarith
    moreover have "x \<in> fr_cover (fx_free s1)" if "0 < occ x (f_back bs)"
      using that unfolding un(3) occ_cover by blast
    ultimately show ?thesis by (cases "occ x (f_back bs) = 0") simp_all
  qed
  have virt: "occ x (f_virt bs) + occ x (f_virt (fx_blocks s1)) \<le> 1" for x
    using bp(2,3) [of x] flex_virt_le [OF ok, of x] unfolding un(2) by simp
  have "\<forall>v n. host' (UnmapBacking v n)" using assms(6) by blast
  note restore = flex_restore_ok [OF un(1) assms(3) this bp(5) le virt]
  obtain s2 succ ds where d: "flex_restore host' bs s1 = Some (s2, succ, ds)" "flex_ok psize fsize s2"
    and eff: "succ \<Longrightarrow> fx_maps (fx_blocks s2) = fx_maps (fx_blocks s1) \<union> fx_maps bs
       \<and> fr_cover (fx_free s2) = fr_cover (fx_free s1) - fr_cover (f_back bs) \<and> fx_total s2 = fx_total s1 + f_sizes bs
       \<and> host_effect host' ds [] = f_virt (rev bs)"
    and go: "bs \<noteq> [] \<Longrightarrow> \<forall>c. host' c \<Longrightarrow> succ"
    by (rule restore) (rule that)
  have sz: "f_sizes bs = n" using mapped_sizes [OF ok n(1,2) all] by (simp add: bs)
  then have "bs \<noteq> []" using n(1) by auto
  then have succ: succ using go assms(6) by blast
  have "fx_maps (fx_blocks s2) = fx_maps (fx_blocks s)"
  proof -
    have "fx_maps (blocks_rest v (v + n) (fx_blocks s)) \<union> fx_maps bs = fx_maps (fx_blocks s)"
      unfolding blocks_maps [OF n(3), of "fx_blocks s", folded bs] by auto
    then show ?thesis using eff [OF succ] unfolding un(2) by simp
  qed
  moreover have "fx_free s2 = fx_free s"
  proof (rule fr_ok_unique)
    have "fr_cover (fx_free s) \<inter> fr_cover (f_back bs) = {}"
    proof (rule ccontr)
      assume "fr_cover (fx_free s) \<inter> fr_cover (f_back bs) \<noteq> {}"
      then obtain x where "x \<in> fr_cover (fx_free s)" "0 < occ x (f_back bs)" unfolding occ_cover by blast
      then show False
        using bp(1) [of x] flex_okD(4) [OF ok, of x] of_bool_less_eq_one [of "x \<in> span psize fsize", where 'a = nat]
        by simp
    qed
    then show "fr_cover (fx_free s2) = fr_cover (fx_free s)" using eff [OF succ] un(3) by blast
  qed (use flex_okD(1) ok d(2) in blast)+
  moreover have "fx_total s2 = fx_total s" using eff [OF succ] sz un(4) by simp
  ultimately show ?thesis using d succ by (intro exI [of _ s2] exI [of _ ds]) simp
qed

theorem flex_snapshot_restore_witness:
  "\<exists>bs s1 g cs s2 ds. flex_snapshot 65536 4096 flex_example = Some bs
    \<and> flex_unmap (\<lambda>c. True) 65536 4096 flex_example = Some (s1, True, g, cs)
    \<and> flex_restore (\<lambda>c. True) bs s1 = Some (s2, True, ds) \<and> fx_free s2 = [(12288, 4096)]"
proof -
  have "flex_snapshot 65536 4096 flex_example \<noteq> None"
    by (simp add: flex_snapshot_def flex_example_def f_end_def)
  then obtain bs where bs: "flex_snapshot 65536 4096 flex_example = Some bs" by blast
  obtain s1 g cs where un: "flex_unmap (\<lambda>c. True) 65536 4096 flex_example = Some (s1, True, g, cs)"
    by (simp add: flex_unmap_def flex_example_def f_end_def virtual_ranges_overlap_def Let_def)
  obtain s2 ds where "flex_restore (\<lambda>c. True) bs s1 = Some (s2, True, ds)" "fx_free s2 = fx_free flex_example"
    using flex_snapshot_restore [OF flex_example_reach _ _ bs un, of "\<lambda>c. True"] by auto
  then show ?thesis using bs un by (intro exI conjI) (assumption | simp add: flex_example_def)+
qed

subsection \<open>What \<open>Restore\<close> does not check\<close>

text \<open>
  The test of \<open>Restore\<close> subtracts the offset of a block from the end of the free range before it; where that
  range ends before the block the difference wraps around and the test passes.  A block whose byte of the
  store has been given to another mapping is then mapped a second time.
\<close>

definition flex_taken :: flex where
  "flex_taken =
     \<lparr>fx_blocks = [\<lparr>f_vaddr = 65536, f_size = 8192, f_off = 8192, f_host_vaddr = 65536, f_host_size = 8192,
                    f_prot = 3, f_mode = ReadWrite, f_gpu = GpuNoAccess, f_name = ''heap''\<rparr>],
      fx_free = [(4096, 4096)], fx_total = 8192\<rparr>"

definition stale_block :: fblock where
  "stale_block = \<lparr>f_vaddr = 131072, f_size = 4096, f_off = 12288, f_host_vaddr = 131072, f_host_size = 4096,
     f_prot = 3, f_mode = ReadWrite, f_gpu = GpuNoAccess, f_name = ''old''\<rparr>"

theorem flex_restore_unchecked:
  "flex_ok 4096 12288 flex_taken
   \<and> (\<exists>s' cs. flex_restore (\<lambda>c. True) [stale_block] flex_taken = Some (s', True, cs)
        \<and> fx_free s' = [(4096, 8192)] \<and> \<not> flex_ok 4096 12288 s')"
proof -
  have "flex_ok 4096 12288 flex_taken"
    by (auto simp: flex_ok_def flex_taken_def fr_ok_simps real_block_def real_mapping_def ordered_def)
  moreover have "\<exists>s' cs. flex_restore (\<lambda>c. True) [stale_block] flex_taken = Some (s', True, cs) \<and> fx_free s' = [(4096, 8192)]
      \<and> fx_blocks s' = fx_blocks flex_taken @ [stale_block]"
    by (simp add: flex_restore_def flex_taken_def stale_block_def range_before_def om_upper_bound_def om_after_def
        om_begin_def om_prev.simps range_holds_def consume_free_range_def Let_def sub64_def)
  moreover have "\<not> flex_ok 4096 12288 s'" if "fx_free s' = [(4096, 8192)]" "fx_blocks s' = fx_blocks flex_taken @ [stale_block]" for s'
    using flex_okD(4) [of 4096 12288 s' 8192] that by (auto simp: flex_taken_def stale_block_def)
  ultimately show ?thesis by blast
qed

end
