(* ===== verification/RangeSet.thy ===== *)
theory RangeSet
  imports FreeRanges
begin

text \<open>
  The class \<open>RangeSet\<close> of src/graphics/host_gpu/rangeSet.h: a set of addresses as an ordered map from the
  starts of its ranges to their ends.  The result \<open>None\<close> of an operation is the \<open>EXIT\<close> on an empty range or
  on one that reaches past the last address.  The visits of \<open>ForEach\<close> and \<open>ForEachInRange\<close> are returned as
  the list of their arguments.
\<close>

definition rs_end :: "u64 \<Rightarrow> u64 \<Rightarrow> u64 option" where
  "rs_end address sz = (if sz = 0 \<or> sz > U64_MAX - address then None else Some (add64 address sz))"

text \<open>The node before an iterator, if it satisfies a condition on its end; else the iterator itself.\<close>

definition rs_step_back :: "(u64 \<Rightarrow> bool) \<Rightarrow> iter \<Rightarrow> u64 omap \<Rightarrow> iter" where
  "rs_step_back cond it m =
     (case om_prev it m of None \<Rightarrow> it | Some p \<Rightarrow> if cond (the (map_of m p)) then Some p else it)"

fun rs_add_loop :: "u64 \<Rightarrow> u64 \<Rightarrow> u64 omap \<Rightarrow> u64 omap \<Rightarrow> u64 \<times> u64 \<times> u64 omap" where
  "rs_add_loop start stop [] m = (start, stop, m)"
| "rs_add_loop start stop ((k, e) # rest) m =
     (if k \<le> stop then rs_add_loop (min start k) (max stop e) rest (om_erase k m) else (start, stop, m))"

definition rs_add :: "u64 \<Rightarrow> u64 \<Rightarrow> u64 omap \<Rightarrow> u64 omap option" where
  "rs_add address sz m =
     (case rs_end address sz of
        None \<Rightarrow> None
      | Some end \<Rightarrow>
          (let it = rs_step_back (\<lambda>e. e \<ge> address) (om_lower_bound address m) m;
               (start, stop, m') = rs_add_loop address end (om_iter_from it m) m
           in Some (om_emplace start stop m')))"

fun rs_subtract_loop :: "u64 \<Rightarrow> u64 \<Rightarrow> u64 omap \<Rightarrow> u64 omap \<Rightarrow> u64 omap" where
  "rs_subtract_loop address end [] m = m"
| "rs_subtract_loop address end ((k, stop) # rest) m =
     (if \<not> k < end then m
      else (let m1 = om_erase k m;
                m2 = (if k < address then om_emplace k address m1 else m1)
            in if stop > end then om_emplace end stop m2 else rs_subtract_loop address end rest m2))"

definition rs_subtract :: "u64 \<Rightarrow> u64 \<Rightarrow> u64 omap \<Rightarrow> u64 omap option" where
  "rs_subtract address sz m =
     (case rs_end address sz of
        None \<Rightarrow> None
      | Some end \<Rightarrow>
          (let it = rs_step_back (\<lambda>e. e > address) (om_lower_bound address m) m
           in Some (rs_subtract_loop address end (om_iter_from it m) m)))"

definition rs_clear :: "u64 omap" where
  "rs_clear = []"

definition rs_for_each :: "u64 omap \<Rightarrow> (u64 \<times> u64) list" where
  "rs_for_each m = m"

definition rs_intersects :: "u64 \<Rightarrow> u64 \<Rightarrow> u64 omap \<Rightarrow> bool option" where
  "rs_intersects address sz m =
     (case rs_end address sz of
        None \<Rightarrow> None
      | Some end \<Rightarrow>
          (let it = om_lower_bound address m
           in Some (case om_prev it m of
                Some p \<Rightarrow> the (map_of m p) > address \<or> (case it of None \<Rightarrow> False | Some k \<Rightarrow> k < end)
              | None \<Rightarrow> (case it of None \<Rightarrow> False | Some k \<Rightarrow> k < end))))"

definition rs_contains :: "u64 \<Rightarrow> u64 \<Rightarrow> u64 omap \<Rightarrow> bool option" where
  "rs_contains address sz m =
     (case rs_end address sz of
        None \<Rightarrow> None
      | Some end \<Rightarrow>
          Some (case om_prev (om_upper_bound address m) m of
                  None \<Rightarrow> False
                | Some k \<Rightarrow> k \<le> address \<and> the (map_of m k) \<ge> end))"

fun rs_visit :: "u64 \<Rightarrow> u64 \<Rightarrow> u64 omap \<Rightarrow> (u64 \<times> u64) list" where
  "rs_visit address end [] = []"
| "rs_visit address end ((k, e) # rest) =
     (if \<not> k < end then []
      else (let start = max address k; stop = min end e
            in (if start < stop then [(start, stop)] else []) @ rs_visit address end rest))"

definition rs_for_each_in_range :: "u64 \<Rightarrow> u64 \<Rightarrow> u64 omap \<Rightarrow> (u64 \<times> u64) list option" where
  "rs_for_each_in_range address sz m =
     (case rs_end address sz of
        None \<Rightarrow> None
      | Some end \<Rightarrow>
          (let it = om_upper_bound address m;
               it' = (case om_prev it m of None \<Rightarrow> it | Some p \<Rightarrow> Some p)
           in Some (rs_visit address end (om_iter_from it' m))))"

definition rs_empty :: "u64 omap \<Rightarrow> bool" where
  "rs_empty m \<longleftrightarrow> m = []"

end
