(* ===== verification/RangeSetFacts.thy ===== *)
theory RangeSetFacts
  imports RangeSet
begin

text \<open>
  The range set behaves as a set of addresses.  Every operation starts at the first range that reaches the
  address it is given, so that the map splits into the ranges before, which stay, and the ranges from
  there, which the loops go through.
\<close>

subsection \<open>The invariant and the addresses in the set\<close>

definition rs_ok :: "u64 omap \<Rightarrow> bool" where
  "rs_ok m \<longleftrightarrow> sorted_wrt (\<lambda>x y. snd x < fst y) m \<and> (\<forall>r\<in>set m. fst r < snd r \<and> snd r < two64)"

definition rs_set :: "u64 omap \<Rightarrow> u64 set" where
  "rs_set m = (\<Union>r\<in>set m. {fst r..<snd r})"

lemma rs_set_simps [simp]:
  "rs_set [] = {}" "rs_set ((k, e) # m) = {k..<e} \<union> rs_set m" "rs_set (m @ m') = rs_set m \<union> rs_set m'"
  by (auto simp: rs_set_def)

lemma rs_ok_simps:
  "rs_ok []"
  "rs_ok ((k, e) # m) \<longleftrightarrow> rs_ok m \<and> k < e \<and> e < two64 \<and> (\<forall>r\<in>set m. e < fst r)"
  "rs_ok (xs @ ys) \<longleftrightarrow> rs_ok xs \<and> rs_ok ys \<and> (\<forall>x\<in>set xs. \<forall>y\<in>set ys. snd x < fst y)"
  by (auto simp: rs_ok_def sorted_wrt_append)

lemma rs_ok_range: "\<lbrakk>rs_ok m; r \<in> set m\<rbrakk> \<Longrightarrow> fst r < snd r \<and> snd r < two64"
  by (simp add: rs_ok_def)

lemma rs_om: "rs_ok m \<Longrightarrow> om_ok m"
proof (induction m)
  case (Cons r m)
  then show ?case by (cases r) (auto simp: rs_ok_simps om_ok_Cons)
qed simp

lemma rs_set_above: "\<forall>z\<in>set m. e \<le> fst z \<Longrightarrow> rs_set m \<inter> {a..<e} = {}"
  by (induction m) (auto simp: rs_set_def)

lemma rs_set_before: "\<forall>z\<in>set m. snd z \<le> a \<Longrightarrow> rs_set m \<inter> {a..<e} = {}"
  by (induction m) (auto simp: rs_set_def)

lemma rs_set_below: "x \<in> rs_set m \<Longrightarrow> rs_ok m \<Longrightarrow> x < two64"
  by (force simp: rs_set_def rs_ok_def)

subsection \<open>The first range that reaches an address\<close>

text \<open>The two conditions of the code differ only in what they say of a range that ends at the address.\<close>

definition reaches :: "u64 \<Rightarrow> (u64 \<Rightarrow> bool) \<Rightarrow> bool" where
  "reaches a cond \<longleftrightarrow> (\<forall>e. (a < e \<longrightarrow> cond e) \<and> (e < a \<longrightarrow> \<not> cond e))"

lemma reaches_simps [simp]: "reaches a (\<lambda>e. e \<ge> a)" "reaches a (\<lambda>e. e > a)"
  by (auto simp: reaches_def)

lemma rs_lower_bound_split:
  assumes "rs_ok m"
  obtains xs ys where "m = xs @ ys" "om_lower_bound a m = om_begin ys" "om_prev (om_begin ys) m =
      (if xs = [] then None else Some (fst (last xs)))" "om_iter_from (om_begin ys) m = ys"
    "\<forall>x\<in>set xs. fst x < a" "\<forall>z\<in>set ys. a \<le> fst z"
proof (rule that)
  have om: "om_ok m" "om_ok (om_before a m @ om_from a m)" using rs_om [OF assms] om_split_at [of m a] by simp_all
  show "m = om_before a m @ om_from a m" by (rule om_split_at)
  show "om_lower_bound a m = om_begin (om_from a m)" by (simp add: om_lower_bound_def)
  show "om_prev (om_begin (om_from a m)) m = (if om_before a m = [] then None else Some (fst (last (om_before a m))))"
    using om_prev_append [OF om(2)] by (simp flip: om_split_at)
  show "om_iter_from (om_begin (om_from a m)) m = om_from a m"
    using om_iter_from_append [OF om(2)] by (simp flip: om_split_at)
  show "\<forall>x\<in>set (om_before a m). fst x < a" "\<forall>z\<in>set (om_from a m). a \<le> fst z"
    using om(1) by (simp_all add: om_before_set om_from_set)
qed

lemma rs_step_back_split:
  assumes ok: "rs_ok m" and cond: "reaches a cond"
  obtains pre rest where "m = pre @ rest" "om_iter_from (rs_step_back cond (om_lower_bound a m) m) m = rest"
    "\<forall>x\<in>set pre. \<not> cond (snd x)" "\<forall>z\<in>set rest. cond (snd z)"
proof -
  obtain xs ys where s: "m = xs @ ys" "om_lower_bound a m = om_begin ys"
    "om_prev (om_begin ys) m = (if xs = [] then None else Some (fst (last xs)))" "om_iter_from (om_begin ys) m = ys"
    "\<forall>x\<in>set xs. fst x < a" "\<forall>z\<in>set ys. a \<le> fst z"
    by (rule rs_lower_bound_split [OF ok, of a])
  have up: "\<forall>z\<in>set ys. cond (snd z)"
    using cond s(6) rs_ok_range [OF ok] by (fastforce simp: s(1) reaches_def)
  note sb = rs_step_back_def [of cond "om_begin ys" m, unfolded s(3), folded s(2)]
  show thesis
  proof (cases xs rule: rev_cases)
    case Nil
    then show ?thesis using that [of "[]" ys] s(1,2,4) up sb by simp
  next
    case (snoc us r)
    obtain k e where r: "r = (k, e)" by force
    have om: "om_ok (us @ (k, e) # ys)" using rs_om [OF ok] by (simp add: s(1) snoc r)
    have m: "m = us @ (k, e) # ys" by (simp add: s(1) snoc r)
    have f: "map_of m k = Some e" unfolding m by (rule om_node_find [OF om])
    have us: "\<forall>x\<in>set us. \<not> cond (snd x)"
      using ok cond s(5) by (fastforce simp: m snoc r rs_ok_simps reaches_def)
    show ?thesis
    proof (cases "cond e")
      case True
      have "om_iter_from (Some k) m = (k, e) # ys" using om_node_from [OF om] by (simp add: m)
      then show ?thesis using that [OF m] us up True sb f by (simp add: snoc r)
    next
      case False
      then have "\<forall>x\<in>set xs. \<not> cond (snd x)" using us by (simp add: snoc r)
      then show ?thesis using that [OF s(1)] s(2,4) up False sb f by (simp add: snoc r)
    qed
  qed
qed

subsection \<open>Adding\<close>

lemma rs_add_loop_lists:
  assumes "om_ok (pre @ rest)" and "rs_ok rest" and "b < e" and "e < two64" and "\<forall>z\<in>set rest. b \<le> snd z"
  shows "\<exists>us vs b' e'. rest = us @ vs \<and> rs_add_loop b e rest (pre @ rest) = (b', e', pre @ vs)
    \<and> b' < e' \<and> e' < two64 \<and> (\<forall>z\<in>set vs. e' < fst z) \<and> (b' = b \<or> (\<exists>z\<in>set rest. b' = fst z))
    \<and> {b'..<e'} = {b..<e} \<union> rs_set us"
  using assms
proof (induction rest arbitrary: b e)
  case Nil
  then show ?case by simp
next
  case (Cons r rest)
  obtain k l where r: "r = (k, l)" by force
  have l: "k < l" "l < two64" "\<forall>z\<in>set rest. l < fst z" "rs_ok rest" "b \<le> l"
    using Cons.prems(2,5) by (simp_all add: r rs_ok_simps)
  have om: "om_ok (pre @ (k, l) # rest)" using Cons.prems(1) r by simp
  show ?case
  proof (cases "k \<le> e")
    case True
    have o: "om_ok (pre @ rest)" using om by (auto simp: om_ok_append om_ok_Cons)
    have s: "min b k < max e l" "max e l < two64" "\<forall>z\<in>set rest. min b k \<le> snd z"
      using Cons.prems(3,4,5) l by auto
    obtain us vs b' e' where IH: "rest = us @ vs"
      "rs_add_loop (min b k) (max e l) rest (pre @ rest) = (b', e', pre @ vs)" "b' < e'" "e' < two64"
      "\<forall>z\<in>set vs. e' < fst z" "b' = min b k \<or> (\<exists>z\<in>set rest. b' = fst z)"
      "{b'..<e'} = {min b k..<max e l} \<union> rs_set us"
      using Cons.IH [OF o l(4) s] by blast
    have "{min b k..<max e l} = {b..<e} \<union> {k..<l}" using True l Cons.prems(3) by auto
    then have "{b'..<e'} = {b..<e} \<union> rs_set (r # us)" using IH(7) by (simp add: r Un_assoc)
    moreover have "rs_add_loop b e (r # rest) (pre @ r # rest) = (b', e', pre @ vs)"
      using True IH(2) om_erase_node [OF om] by (simp add: r)
    moreover have "b' = b \<or> (\<exists>z\<in>set (r # rest). b' = fst z)" using IH(6) by (auto simp: r min_def)
    ultimately show ?thesis
      using IH(1,3,4,5) by (intro exI [of _ "r # us"] exI [of _ vs] exI [of _ b'] exI [of _ e']) simp
  next
    case False
    then have "\<forall>z\<in>set (r # rest). e < fst z" using l(1,3) r by fastforce
    then show ?thesis
      using False Cons.prems(3,4)
      by (intro exI [of _ "[]"] exI [of _ "r # rest"] exI [of _ b] exI [of _ e]) (simp add: r)
  qed
qed

lemma rs_end_Some: "rs_end a n = Some e \<longleftrightarrow> 0 < n \<and> a + n < two64 \<and> e = a + n"
  by (auto simp: rs_end_def)

lemma rs_end_None: "rs_end a n = None \<longleftrightarrow> n = 0 \<or> two64 \<le> a + n"
  by (auto simp: rs_end_def)

lemma rs_add_ok:
  assumes ok: "rs_ok m" and n: "0 < n" "a + n < two64"
  shows "\<exists>m'. rs_add a n m = Some m' \<and> rs_ok m' \<and> rs_set m' = rs_set m \<union> {a..<a + n}"
proof -
  obtain pre rest where s: "m = pre @ rest"
    "om_iter_from (rs_step_back (\<lambda>e. e \<ge> a) (om_lower_bound a m) m) m = rest"
    "\<forall>x\<in>set pre. \<not> a \<le> snd x" "\<forall>z\<in>set rest. a \<le> snd z"
    by (rule rs_step_back_split [OF ok reaches_simps(1)])
  have okr: "rs_ok pre" "rs_ok rest" "\<forall>x\<in>set pre. \<forall>z\<in>set rest. snd x < fst z"
    using ok by (simp_all add: s(1) rs_ok_simps)
  have om: "om_ok (pre @ rest)" using rs_om [OF ok] s(1) by simp
  have "a < a + n" using n by simp
  obtain us vs b e where L: "rest = us @ vs" "rs_add_loop a (a + n) rest (pre @ rest) = (b, e, pre @ vs)"
    "b < e" "e < two64" "\<forall>z\<in>set vs. e < fst z" "b = a \<or> (\<exists>z\<in>set rest. b = fst z)"
    "{b..<e} = {a..<a + n} \<union> rs_set us"
    using rs_add_loop_lists [OF om okr(2) \<open>a < a + n\<close> n(2) s(4)] by blast
  have pb: "\<forall>x\<in>set pre. snd x < b" using L(6) s(3) okr(3) by fastforce
  have k1: "\<forall>x\<in>set pre. fst x < b" using pb rs_ok_range [OF okr(1)] by fastforce
  have k2: "\<forall>z\<in>set vs. b < fst z" using L(3,5) by fastforce
  have "rs_add a n m = Some (pre @ (b, e) # vs)"
    using L(2) om_emplace_node [OF k1 k2] n by (simp add: rs_add_def rs_end_def s(2) Let_def flip: s(1))
  moreover have "rs_ok (pre @ (b, e) # vs)"
    using okr L(1,3,4,5) pb by (simp add: rs_ok_simps)
  moreover have "rs_set (pre @ (b, e) # vs) = rs_set m \<union> {a..<a + n}"
    using L(7) by (simp add: s(1) L(1) Un_ac)
  ultimately show ?thesis by blast
qed

subsection \<open>Subtracting\<close>

lemma rs_subtract_loop_lists:
  assumes "om_ok (pre @ rest)" and "rs_ok rest" and "a < e" and "e < two64" and "\<forall>z\<in>set rest. a < snd z"
    and "\<forall>x\<in>set pre. fst x < a"
  shows "\<exists>out. rs_subtract_loop a e rest (pre @ rest) = pre @ out \<and> rs_ok out
    \<and> rs_set out = rs_set rest - {a..<e} \<and> (\<forall>x\<in>set out. \<exists>z\<in>set rest. fst z \<le> fst x)"
  using assms
proof (induction rest arbitrary: pre)
  case Nil
  then show ?case by (simp add: rs_ok_simps)
next
  case (Cons r rest)
  obtain k l where r: "r = (k, l)" by force
  have l: "k < l" "l < two64" "\<forall>z\<in>set rest. l < fst z" "rs_ok rest" "a < l"
    using Cons.prems(2,5) by (simp_all add: r rs_ok_simps)
  have om: "om_ok (pre @ (k, l) # rest)" using Cons.prems(1) r by simp
  have o: "om_ok (pre @ rest)" using om by (auto simp: om_ok_append om_ok_Cons)
  have pk: "\<forall>x\<in>set pre. fst x < k" and kr: "\<forall>z\<in>set rest. k < fst z"
    using om l by (auto simp: om_ok_node)
  show ?case
  proof (cases "k < e")
    case False
    have "\<forall>z\<in>set (r # rest). e \<le> fst z" using False l(1,3) by (fastforce simp: r)
    then have "rs_set (r # rest) \<inter> {a..<e} = {}" by (rule rs_set_above)
    then have "rs_set (r # rest) - {a..<e} = rs_set (r # rest)" by blast
    then show ?thesis using False Cons.prems(2) by (intro exI [of _ "r # rest"]) (auto simp: r)
  next
    case True
    define left where "left = (if k < a then [(k, a)] else [])"
    define m2 where "m2 = (if k < a then om_emplace k a (om_erase k (pre @ r # rest)) else om_erase k (pre @ r # rest))"
    have er: "om_erase k (pre @ r # rest) = pre @ rest" unfolding r by (rule om_erase_node [OF om])
    have m2: "m2 = (pre @ left) @ rest" by (simp add: m2_def left_def er om_emplace_node [OF pk kr])
    have step: "rs_subtract_loop a e (r # rest) (pre @ r # rest)
        = (if l > e then om_emplace e l m2 else rs_subtract_loop a e rest m2)"
      using True by (simp add: r m2_def Let_def)
    have left: "rs_ok left" "rs_set left = {k..<a}" "\<forall>x\<in>set left. fst x = k \<and> snd x = a"
      using l Cons.prems(3,4) by (auto simp: left_def rs_ok_simps)
    show ?thesis
    proof (cases "l > e")
      case e: True
      have "\<forall>x\<in>set (pre @ left). fst x < e" using pk True left(3) by auto
      moreover have "\<forall>z\<in>set rest. e < fst z" using l(3) e by fastforce
      ultimately have "om_emplace e l m2 = (pre @ left) @ (e, l) # rest" unfolding m2 by (rule om_emplace_node)
      moreover have "rs_ok (left @ (e, l) # rest)"
        using left l e Cons.prems(3) by (auto simp: rs_ok_simps)
      moreover have "rs_set (left @ (e, l) # rest) = rs_set (r # rest) - {a..<e}"
      proof -
        have "\<forall>z\<in>set rest. e \<le> fst z" using l(3) e by fastforce
        then have "rs_set rest \<inter> {a..<e} = {}" by (rule rs_set_above)
        moreover have "{k..<a} \<union> {e..<l} = {k..<l} - {a..<e}" using True e Cons.prems(3) by auto
        ultimately show ?thesis unfolding r rs_set_simps left(2) by blast
      qed
      moreover have "\<forall>x\<in>set (left @ (e, l) # rest). \<exists>z\<in>set (r # rest). fst z \<le> fst x"
        using left(3) True by (auto simp: r)
      ultimately show ?thesis using step e by (intro exI [of _ "left @ (e, l) # rest"]) simp
    next
      case e: False
      have "om_ok ((pre @ left) @ rest)"
        using o pk kr left(3) by (auto simp: om_ok_append left_def om_ok_Cons)
      moreover have "\<forall>x\<in>set (pre @ left). fst x < a" using Cons.prems(6) by (auto simp: left_def)
      moreover have "\<forall>z\<in>set rest. a < snd z" using Cons.prems(5) by simp
      ultimately obtain out where IH: "rs_subtract_loop a e rest ((pre @ left) @ rest) = (pre @ left) @ out"
        "rs_ok out" "rs_set out = rs_set rest - {a..<e}" "\<forall>x\<in>set out. \<exists>z\<in>set rest. fst z \<le> fst x"
        using Cons.IH [OF _ l(4) Cons.prems(3,4)] by blast
      have lo: "\<forall>x\<in>set out. l < fst x" using IH(4) l(3) by fastforce
      have "rs_ok (left @ out)" using left IH(2) lo l(5) by (auto simp: rs_ok_simps)
      moreover have "rs_set (left @ out) = rs_set (r # rest) - {a..<e}"
      proof -
        have "{k..<a} = {k..<l} - {a..<e}" using e l(5) by auto
        then show ?thesis unfolding r rs_set_simps left(2) IH(3) by blast
      qed
      moreover have "\<forall>x\<in>set (left @ out). \<exists>z\<in>set (r # rest). fst z \<le> fst x"
        using left(3) IH(4) by (auto simp: r)
      ultimately show ?thesis using step e IH(1) by (intro exI [of _ "left @ out"]) (simp add: m2)
    qed
  qed
qed

lemma rs_subtract_ok:
  assumes ok: "rs_ok m" and n: "0 < n" "a + n < two64"
  shows "\<exists>m'. rs_subtract a n m = Some m' \<and> rs_ok m' \<and> rs_set m' = rs_set m - {a..<a + n}"
proof -
  obtain pre rest where s: "m = pre @ rest"
    "om_iter_from (rs_step_back (\<lambda>e. e > a) (om_lower_bound a m) m) m = rest"
    "\<forall>x\<in>set pre. \<not> a < snd x" "\<forall>z\<in>set rest. a < snd z"
    by (rule rs_step_back_split [OF ok reaches_simps(2)])
  have okr: "rs_ok pre" "rs_ok rest" "\<forall>x\<in>set pre. \<forall>z\<in>set rest. snd x < fst z"
    using ok by (simp_all add: s(1) rs_ok_simps)
  have om: "om_ok (pre @ rest)" using rs_om [OF ok] s(1) by simp
  have "a < a + n" and pa: "\<forall>x\<in>set pre. fst x < a" using n s(3) rs_ok_range [OF okr(1)] by fastforce+
  obtain out where L: "rs_subtract_loop a (a + n) rest (pre @ rest) = pre @ out" "rs_ok out"
    "rs_set out = rs_set rest - {a..<a + n}" "\<forall>x\<in>set out. \<exists>z\<in>set rest. fst z \<le> fst x"
    using rs_subtract_loop_lists [OF om okr(2) \<open>a < a + n\<close> n(2) s(4) pa] by blast
  have "\<forall>x\<in>set pre. \<forall>z\<in>set out. snd x < fst z" using okr(3) L(4) by fastforce
  then have "rs_ok (pre @ out)" using okr L(2) by (simp add: rs_ok_simps)
  moreover have "\<forall>x\<in>set pre. snd x \<le> a" using s(3) by fastforce
  then have "rs_set pre \<inter> {a..<a + n} = {}" by (rule rs_set_before)
  then have "rs_set (pre @ out) = rs_set m - {a..<a + n}" unfolding s(1) rs_set_simps L(3) by blast
  moreover have "rs_subtract a n m = Some (pre @ out)"
    using L(1) n by (simp add: rs_subtract_def rs_end_def s(2) Let_def flip: s(1))
  ultimately show ?thesis by blast
qed

subsection \<open>Questions\<close>

lemma rs_intersects_ok:
  assumes ok: "rs_ok m" and n: "0 < n" "a + n < two64"
  shows "rs_intersects a n m = Some (rs_set m \<inter> {a..<a + n} \<noteq> {})"
proof -
  obtain xs ys where s: "m = xs @ ys" "om_lower_bound a m = om_begin ys"
    "om_prev (om_begin ys) m = (if xs = [] then None else Some (fst (last xs)))" "om_iter_from (om_begin ys) m = ys"
    "\<forall>x\<in>set xs. fst x < a" "\<forall>z\<in>set ys. a \<le> fst z"
    by (rule rs_lower_bound_split [OF ok, of a])
  have okx: "rs_ok xs" "rs_ok ys" using ok by (simp_all add: s(1) rs_ok_simps)
  have Y: "(case om_begin ys of None \<Rightarrow> False | Some k \<Rightarrow> k < a + n) \<longleftrightarrow> rs_set ys \<inter> {a..<a + n} \<noteq> {}"
  proof (cases ys)
    case (Cons y zs)
    have y: "a \<le> fst y" "fst y < snd y" using s(6) rs_ok_range [OF okx(2)] by (simp_all add: Cons)
    show ?thesis
    proof (cases "fst y < a + n")
      case True
      then have "fst y \<in> rs_set ys \<inter> {a..<a + n}" using y by (simp add: Cons rs_set_def)
      then show ?thesis using True by (auto simp: Cons)
    next
      case False
      have "\<forall>z\<in>set ys. a + n \<le> fst z" using False okx(2) y(2) by (cases y) (fastforce simp: Cons rs_ok_simps)
      then show ?thesis using False rs_set_above [of ys "a + n" a] by (simp add: Cons)
    qed
  qed simp
  have X: "rs_set xs \<inter> {a..<a + n} \<noteq> {} \<longleftrightarrow> xs \<noteq> [] \<and> a < snd (last xs)"
  proof (cases xs rule: rev_cases)
    case (snoc us r)
    have us: "\<forall>x\<in>set us. snd x \<le> a" using okx(1) s(5) by (fastforce simp: snoc rs_ok_def sorted_wrt_append)
    have r: "fst r < a" "fst r < snd r" using s(5) rs_ok_range [OF okx(1)] by (simp_all add: snoc)
    have "rs_set xs = rs_set us \<union> {fst r..<snd r}" by (simp add: snoc rs_set_def Un_ac)
    then have "rs_set xs \<inter> {a..<a + n} = {fst r..<snd r} \<inter> {a..<a + n}"
      using rs_set_before [OF us, of "a + n"] by blast
    moreover have "{fst r..<snd r} \<inter> {a..<a + n} \<noteq> {} \<longleftrightarrow> a < snd r" using r n by auto
    ultimately show ?thesis by (simp add: snoc)
  qed simp
  have XY: "rs_set m \<inter> {a..<a + n} \<noteq> {} \<longleftrightarrow> (xs \<noteq> [] \<and> a < snd (last xs)) \<or> rs_set ys \<inter> {a..<a + n} \<noteq> {}"
    unfolding s(1) rs_set_simps X [symmetric] by blast
  show ?thesis
  proof (cases xs rule: rev_cases)
    case Nil
    then show ?thesis using s(3) XY Y n by (simp add: rs_intersects_def rs_end_def s(2) Let_def)
  next
    case (snoc us r)
    have om: "om_ok (us @ (fst r, snd r) # ys)" using rs_om [OF ok] by (simp add: s(1) snoc)
    have "map_of m (fst r) = Some (snd r)" using om_node_find [OF om] by (simp add: s(1) snoc)
    then show ?thesis using s(3) XY Y n by (simp add: rs_intersects_def rs_end_def s(2) Let_def snoc)
  qed
qed

lemma rs_upper_bound_split:
  assumes "rs_ok m"
  obtains xs ys where "m = xs @ ys" "om_upper_bound a m = om_begin ys"
    "om_prev (om_begin ys) m = (if xs = [] then None else Some (fst (last xs)))" "om_iter_from (om_begin ys) m = ys"
    "\<forall>x\<in>set xs. fst x \<le> a" "\<forall>z\<in>set ys. a < fst z"
proof (rule that)
  define xs where "xs = takeWhile (\<lambda>e. fst e \<le> a) m"
  have m: "m = xs @ om_after a m" by (simp add: xs_def om_after_def)
  have om: "om_ok m" "om_ok (xs @ om_after a m)" using rs_om [OF assms] m by simp_all
  show "m = xs @ om_after a m" by (rule m)
  show "om_upper_bound a m = om_begin (om_after a m)" by (simp add: om_upper_bound_def)
  show "om_prev (om_begin (om_after a m)) m = (if xs = [] then None else Some (fst (last xs)))"
    using om_prev_append [OF om(2)] by (simp flip: m)
  show "om_iter_from (om_begin (om_after a m)) m = om_after a m"
    using om_iter_from_append [OF om(2)] by (simp flip: m)
  show "\<forall>x\<in>set xs. fst x \<le> a" "\<forall>z\<in>set (om_after a m). a < fst z"
    using om(1) by (auto simp: xs_def om_after_set dest: set_takeWhileD)
qed

text \<open>A span lies inside the set exactly if it lies inside one range.\<close>

lemma rs_contained:
  assumes ok: "rs_ok m" and ae: "a < e" and sub: "{a..<e} \<subseteq> rs_set m"
  obtains k l where "(k, l) \<in> set m" "k \<le> a" "e \<le> l"
proof -
  have "a \<in> rs_set m" using sub ae by auto
  then obtain k l where kl: "(k, l) \<in> set m" "k \<le> a" "a < l" by (auto simp: rs_set_def)
  have "e \<le> l"
  proof (rule ccontr)
    assume "\<not> e \<le> l"
    then have "l \<in> rs_set m" using sub kl(3) by auto
    then obtain j i where ji: "(j, i) \<in> set m" "j \<le> l" "l < i" by (auto simp: rs_set_def)
    obtain xs ys where m: "m = xs @ (k, l) # ys" using split_list [OF kl(1)] by blast
    have "i < k \<or> j = k \<and> i = l \<or> l < j" using ok ji(1) by (auto simp: m rs_ok_simps)
    then show False using ji kl by auto
  qed
  then show thesis using that kl by blast
qed

lemma rs_contains_ok:
  assumes ok: "rs_ok m" and n: "0 < n" "a + n < two64"
  shows "rs_contains a n m = Some ({a..<a + n} \<subseteq> rs_set m)"
proof -
  obtain xs ys where s: "m = xs @ ys" "om_upper_bound a m = om_begin ys"
    "om_prev (om_begin ys) m = (if xs = [] then None else Some (fst (last xs)))" "om_iter_from (om_begin ys) m = ys"
    "\<forall>x\<in>set xs. fst x \<le> a" "\<forall>z\<in>set ys. a < fst z"
    by (rule rs_upper_bound_split [OF ok, of a])
  have key: "{a..<a + n} \<subseteq> rs_set m \<longleftrightarrow> xs \<noteq> [] \<and> a + n \<le> snd (last xs)"
  proof
    assume "{a..<a + n} \<subseteq> rs_set m"
    then obtain k l where kl: "(k, l) \<in> set m" "k \<le> a" "a + n \<le> l"
      using rs_contained [OF ok, of a "a + n"] n by auto
    then have "(k, l) \<in> set xs" using s(6) by (fastforce simp: s(1))
    moreover have "(k, l) = last xs" if "xs = us @ [r]" for us r
    proof (rule ccontr)
      assume "(k, l) \<noteq> last xs"
      then have "l < fst r" using \<open>(k, l) \<in> set xs\<close> ok by (auto simp: that s(1) rs_ok_simps)
      then show False using s(5) kl(3) that by fastforce
    qed
    ultimately show "xs \<noteq> [] \<and> a + n \<le> snd (last xs)" using kl(3) by (metis append_butlast_last_id empty_iff empty_set snd_conv)
  next
    assume l: "xs \<noteq> [] \<and> a + n \<le> snd (last xs)"
    then have "last xs \<in> set m" "fst (last xs) \<le> a" using s(5) by (simp_all add: s(1))
    moreover have "{a..<a + n} \<subseteq> {fst (last xs)..<snd (last xs)}" using l calculation(2) by auto
    ultimately show "{a..<a + n} \<subseteq> rs_set m" unfolding rs_set_def by blast
  qed
  show ?thesis
  proof (cases xs rule: rev_cases)
    case Nil
    then show ?thesis using s(3) key n by (simp add: rs_contains_def rs_end_def s(2))
  next
    case (snoc us r)
    have om: "om_ok (us @ (fst r, snd r) # ys)" using rs_om [OF ok] by (simp add: s(1) snoc)
    have "map_of m (fst r) = Some (snd r)" using om_node_find [OF om] by (simp add: s(1) snoc)
    moreover have "fst r \<le> a" using s(5) by (simp add: snoc)
    ultimately show ?thesis using s(3) key n by (simp add: rs_contains_def rs_end_def s(2) snoc)
  qed
qed

subsection \<open>Visits\<close>

lemma rs_visit_ok:
  assumes "rs_ok m" and "a < e" and "e < two64"
  shows "rs_ok (rs_visit a e m) \<and> rs_set (rs_visit a e m) = rs_set m \<inter> {a..<e}
    \<and> (\<forall>x\<in>set (rs_visit a e m). \<exists>z\<in>set m. fst z \<le> fst x)"
  using assms
proof (induction m)
  case (Cons r m)
  obtain k l where r: "r = (k, l)" by force
  have l: "k < l" "l < two64" "\<forall>z\<in>set m. l < fst z" "rs_ok m" using Cons.prems(1) by (simp_all add: r rs_ok_simps)
  note IH = Cons.IH [OF l(4) Cons.prems(2,3)]
  show ?case
  proof (cases "k < e")
    case False
    then have "\<forall>z\<in>set (r # m). e \<le> fst z" using l(1,3) by (fastforce simp: r)
    then have "rs_set (r # m) \<inter> {a..<e} = {}" by (rule rs_set_above)
    then show ?thesis using False by (simp add: r rs_ok_simps)
  next
    case True
    define p where "p = (if max a k < min e l then [(max a k, min e l)] else [])"
    have v: "rs_visit a e (r # m) = p @ rs_visit a e m" using True by (simp add: r p_def Let_def)
    have p: "rs_ok p" "rs_set p = {k..<l} \<inter> {a..<e}" "\<forall>x\<in>set p. snd x \<le> l \<and> k \<le> fst x"
      using Cons.prems(3) by (auto simp: p_def rs_ok_simps)
    have "\<forall>x\<in>set (rs_visit a e m). l < fst x" using IH l(3) by fastforce
    then have "\<forall>x\<in>set p. \<forall>z\<in>set (rs_visit a e m). snd x < fst z" using p(3) by fastforce
    then have "rs_ok (p @ rs_visit a e m)" using p(1) IH by (simp add: rs_ok_simps)
    moreover have "rs_set (p @ rs_visit a e m) = rs_set (r # m) \<inter> {a..<e}"
      using IH by (simp add: r p(2) Int_Un_distrib2)
    moreover have "\<forall>x\<in>set (p @ rs_visit a e m). \<exists>z\<in>set (r # m). fst z \<le> fst x"
      using p(3) IH by (auto simp: r)
    ultimately show ?thesis unfolding v by blast
  qed
qed (simp add: rs_ok_simps)

lemma rs_for_each_in_range_ok:
  assumes ok: "rs_ok m" and n: "0 < n" "a + n < two64"
  shows "\<exists>vs. rs_for_each_in_range a n m = Some vs \<and> rs_ok vs \<and> rs_set vs = rs_set m \<inter> {a..<a + n}"
proof -
  obtain xs ys where s: "m = xs @ ys" "om_upper_bound a m = om_begin ys"
    "om_prev (om_begin ys) m = (if xs = [] then None else Some (fst (last xs)))" "om_iter_from (om_begin ys) m = ys"
    "\<forall>x\<in>set xs. fst x \<le> a" "\<forall>z\<in>set ys. a < fst z"
    by (rule rs_upper_bound_split [OF ok, of a])
  obtain us zs where z: "m = us @ zs" "rs_for_each_in_range a n m = Some (rs_visit a (a + n) zs)"
    "\<forall>x\<in>set us. snd x \<le> a"
  proof (cases xs rule: rev_cases)
    case Nil
    then show ?thesis using that [of "[]" ys] s n by (simp add: rs_for_each_in_range_def rs_end_def Let_def)
  next
    case (snoc us r)
    have m: "m = us @ (fst r, snd r) # ys" by (simp add: s(1) snoc)
    have om: "om_ok (us @ (fst r, snd r) # ys)" using rs_om [OF ok] by (simp add: s(1) snoc)
    have it: "om_iter_from (Some (fst r)) m = (fst r, snd r) # ys" using om_node_from [OF om] by (simp add: m)
    have "\<forall>x\<in>set us. snd x \<le> a" using ok s(5) by (fastforce simp: m snoc rs_ok_simps)
    then show ?thesis
      using that [OF m] it s(2,3) n by (simp add: rs_for_each_in_range_def rs_end_def Let_def snoc)
  qed
  have okz: "rs_ok zs" using ok by (simp add: z(1) rs_ok_simps)
  have "rs_set zs \<inter> {a..<a + n} = rs_set m \<inter> {a..<a + n}"
    using rs_set_before [OF z(3), of "a + n"] unfolding z(1) rs_set_simps by blast
  then show ?thesis using rs_visit_ok [OF okz, of a "a + n"] n z(2) by auto
qed

lemma rs_empty_ok: "rs_ok m \<Longrightarrow> rs_empty m \<longleftrightarrow> rs_set m = {}"
  by (cases m) (auto simp: rs_empty_def rs_ok_def rs_set_def)

subsection \<open>The map is determined by the addresses\<close>

lemma rs_set_start:
  assumes "rs_ok ((k, e) # m)"
  shows "x \<in> rs_set ((k, e) # m) \<Longrightarrow> k \<le> x" and "k \<in> rs_set ((k, e) # m)" and "e \<notin> rs_set ((k, e) # m)"
    and "{k..<e} \<subseteq> rs_set ((k, e) # m)" and "rs_set m = rs_set ((k, e) # m) - {k..<e}"
proof -
  have ke: "k < e" and above: "\<forall>z\<in>set m. e < fst z" using assms by (simp_all add: rs_ok_simps)
  have lt: "e < y" if "y \<in> rs_set m" for y using above that by (force simp: rs_set_def)
  have in_iff: "y \<in> rs_set ((k, e) # m) \<longleftrightarrow> k \<le> y \<and> y < e \<or> y \<in> rs_set m" for y by simp
  show "x \<in> rs_set ((k, e) # m) \<Longrightarrow> k \<le> x" using lt [of x] ke unfolding in_iff by linarith
  show "k \<in> rs_set ((k, e) # m)" unfolding in_iff using ke by simp
  show "e \<notin> rs_set ((k, e) # m)" unfolding in_iff using lt [of e] by auto
  show "{k..<e} \<subseteq> rs_set ((k, e) # m)" by simp
  have "\<forall>z\<in>set m. e \<le> fst z" using above by auto
  then have "rs_set m \<inter> {k..<e} = {}" by (rule rs_set_above)
  then show "rs_set m = rs_set ((k, e) # m) - {k..<e}" by (simp add: Un_Diff Diff_triv)
qed

lemma rs_canonical: "\<lbrakk>rs_ok m; rs_ok m'; rs_set m = rs_set m'\<rbrakk> \<Longrightarrow> m = m'"
proof (induction m arbitrary: m')
  case Nil
  then show ?case using rs_empty_ok [of m'] by (simp add: rs_empty_def)
next
  case (Cons r m)
  obtain k e where r: "r = (k, e)" by force
  note S = rs_set_start [OF Cons.prems(1) [unfolded r]]
  have "m' \<noteq> []" using S(2) Cons.prems(3) by (auto simp: r)
  then obtain j i n where m': "m' = (j, i) # n" by (metis list.exhaust surj_pair)
  note T = rs_set_start [OF Cons.prems(2) [unfolded m']]
  have eq: "rs_set ((k, e) # m) = rs_set ((j, i) # n)" using Cons.prems(3) by (simp only: r m')
  have "j \<in> rs_set ((k, e) # m)" "k \<in> rs_set ((j, i) # n)" using S(2) T(2) by (simp_all only: eq)
  then have kj: "k = j" using S(1) [of j] T(1) [of k] by (blast intro: le_antisym)
  have "k < e" "j < i" using Cons.prems(1,2) by (simp_all add: r m' rs_ok_simps)
  then have "\<not> e < i" "\<not> i < e" using S(3,4) T(3,4) eq kj
    by (metis atLeastLessThan_iff less_imp_le_nat subsetD)+
  then have ei: "e = i" by simp
  have "rs_set m = rs_set n" by (subst S(5), subst T(5), subst eq) (simp only: kj ei)
  then show ?case using Cons.IH [of n] Cons.prems(1,2) kj ei by (simp add: r m' rs_ok_simps)
qed

subsection \<open>A set of addresses, as the owners of range sets use it\<close>

text \<open>
  The memory tracker and the caches only add and subtract ranges and clear the set.  Any implementation
  that follows the laws below behaves as a set under every sequence of these operations.
\<close>

datatype rs_op = OpAdd u64 u64 | OpSubtract u64 u64 | OpClear

primrec op_valid :: "rs_op \<Rightarrow> bool" where
  "op_valid (OpAdd a n) \<longleftrightarrow> 0 < n \<and> a + n < two64"
| "op_valid (OpSubtract a n) \<longleftrightarrow> 0 < n \<and> a + n < two64"
| "op_valid OpClear \<longleftrightarrow> True"

primrec op_effect :: "rs_op \<Rightarrow> u64 set \<Rightarrow> u64 set" where
  "op_effect (OpAdd a n) A = A \<union> {a..<a + n}"
| "op_effect (OpSubtract a n) A = A - {a..<a + n}"
| "op_effect OpClear A = {}"

primrec op_run :: "(rs_op \<Rightarrow> 's \<Rightarrow> 's option) \<Rightarrow> rs_op list \<Rightarrow> 's \<Rightarrow> 's option" where
  "op_run exec [] s = Some s"
| "op_run exec (c # cs) s = (case exec c s of None \<Rightarrow> None | Some s' \<Rightarrow> op_run exec cs s')"

primrec rs_exec :: "rs_op \<Rightarrow> u64 omap \<Rightarrow> u64 omap option" where
  "rs_exec (OpAdd a n) m = rs_add a n m"
| "rs_exec (OpSubtract a n) m = rs_subtract a n m"
| "rs_exec OpClear m = Some rs_clear"

locale address_set =
  fixes inv :: "'s \<Rightarrow> bool" and elems :: "'s \<Rightarrow> u64 set" and exec :: "rs_op \<Rightarrow> 's \<Rightarrow> 's option"
  assumes exec_valid: "\<lbrakk>inv s; op_valid c\<rbrakk> \<Longrightarrow> \<exists>s'. exec c s = Some s' \<and> inv s' \<and> elems s' = op_effect c (elems s)"
    and exec_invalid: "\<not> op_valid c \<Longrightarrow> exec c s = None"
begin

lemma run_valid:
  assumes "inv s" and "list_all op_valid cs"
  shows "\<exists>s'. op_run exec cs s = Some s' \<and> inv s' \<and> elems s' = fold op_effect cs (elems s)"
  using assms
proof (induction cs arbitrary: s)
  case (Cons c cs)
  then obtain s1 where "exec c s = Some s1" "inv s1" "elems s1 = op_effect c (elems s)"
    using exec_valid [of s c] by auto
  then show ?case using Cons.IH [of s1] Cons.prems(2) by simp
qed simp

lemma run_invalid: "\<lbrakk>inv s; \<not> list_all op_valid cs\<rbrakk> \<Longrightarrow> op_run exec cs s = None"
proof (induction cs arbitrary: s)
  case (Cons c cs)
  show ?case
  proof (cases "op_valid c")
    case True
    then obtain s1 where "exec c s = Some s1" "inv s1" using exec_valid [OF Cons.prems(1)] by blast
    then show ?thesis using Cons.IH [of s1] Cons.prems(2) True by simp
  qed (simp add: exec_invalid)
qed simp

end

interpretation rs: address_set rs_ok rs_set rs_exec
proof
  fix m c
  assume "rs_ok m" "op_valid c"
  then show "\<exists>m'. rs_exec c m = Some m' \<and> rs_ok m' \<and> rs_set m' = op_effect c (rs_set m)"
    using rs_add_ok [of m] rs_subtract_ok [of m] by (cases c) (simp_all add: rs_clear_def rs_ok_simps)
next
  fix m c
  show "\<not> op_valid c \<Longrightarrow> rs_exec c m = None"
    by (cases c) (auto simp: rs_add_def rs_subtract_def rs_end_def)
qed

text \<open>
  C37. A range set is the set of addresses its operations say: after any sequence of additions,
  subtractions and clearings the ranges are sorted, nonempty and apart, hold exactly the addresses of the
  corresponding set operations, and are the only such list of ranges; the questions and the visits answer
  for that set; a sequence with an empty range or one past the last address stops.
\<close>

theorem range_set_is_set:
  assumes "A = fold op_effect cs {}"
  shows "if list_all op_valid cs
    then (\<exists>m. op_run rs_exec cs rs_clear = Some m
      \<and> rs_ok m \<and> rs_set m = A \<and> (\<forall>m'. rs_ok m' \<and> rs_set m' = A \<longrightarrow> m' = m)
      \<and> rs_for_each m = m \<and> (rs_empty m \<longleftrightarrow> A = {})
      \<and> (\<forall>a n. 0 < n \<and> a + n < two64 \<longrightarrow>
            rs_intersects a n m = Some (A \<inter> {a..<a + n} \<noteq> {})
          \<and> rs_contains a n m = Some ({a..<a + n} \<subseteq> A)
          \<and> (\<exists>vs. rs_for_each_in_range a n m = Some vs \<and> rs_ok vs \<and> rs_set vs = A \<inter> {a..<a + n})))
    else op_run rs_exec cs rs_clear = None"
proof -
  have c: "rs_ok rs_clear" "rs_set rs_clear = {}" by (simp_all add: rs_clear_def rs_ok_simps)
  show ?thesis
  proof (cases "list_all op_valid cs")
    case True
    obtain m where m: "op_run rs_exec cs rs_clear = Some m" "rs_ok m" "rs_set m = A"
      using rs.run_valid [OF c(1) True] c(2) by (auto simp: assms)
    have uniq: "\<forall>m'. rs_ok m' \<and> rs_set m' = A \<longrightarrow> m' = m" using rs_canonical [OF _ m(2)] m(3) by simp
    have questions: "\<forall>a n. 0 < n \<and> a + n < two64 \<longrightarrow>
            rs_intersects a n m = Some (A \<inter> {a..<a + n} \<noteq> {})
          \<and> rs_contains a n m = Some ({a..<a + n} \<subseteq> A)
          \<and> (\<exists>vs. rs_for_each_in_range a n m = Some vs \<and> rs_ok vs \<and> rs_set vs = A \<inter> {a..<a + n})"
      by (intro allI impI conjI; elim conjE)
        (rule rs_intersects_ok [OF m(2), unfolded m(3)] rs_contains_ok [OF m(2), unfolded m(3)]
          rs_for_each_in_range_ok [OF m(2), unfolded m(3)]; assumption)+
    have "op_run rs_exec cs rs_clear = Some m
      \<and> rs_ok m \<and> rs_set m = A \<and> (\<forall>m'. rs_ok m' \<and> rs_set m' = A \<longrightarrow> m' = m)
      \<and> rs_for_each m = m \<and> (rs_empty m \<longleftrightarrow> A = {})
      \<and> (\<forall>a n. 0 < n \<and> a + n < two64 \<longrightarrow>
            rs_intersects a n m = Some (A \<inter> {a..<a + n} \<noteq> {})
          \<and> rs_contains a n m = Some ({a..<a + n} \<subseteq> A)
          \<and> (\<exists>vs. rs_for_each_in_range a n m = Some vs \<and> rs_ok vs \<and> rs_set vs = A \<inter> {a..<a + n}))"
      using m uniq questions rs_empty_ok [OF m(2), unfolded m(3)]
      unfolding rs_for_each_def by (intro conjI) (assumption | rule refl)+
    then show ?thesis unfolding if_P [OF True] by (rule exI [of _ m])
  qed (use rs.run_invalid [OF c(1)] in simp)
qed

text \<open>Two ranges that touch become one, and a hole is cut into it.\<close>

theorem range_set_is_set_witness:
  "\<exists>m. op_run rs_exec [OpAdd 16 16, OpAdd 32 16, OpSubtract 24 4] rs_clear = Some m
     \<and> rs_set m = {16..<24} \<union> {28..<48} \<and> rs_contains 30 8 m = Some True"
proof -
  define A where "A = fold op_effect [OpAdd 16 16, OpAdd 32 16, OpSubtract 24 4] {}"
  have A: "A = {16..<24} \<union> {28..<48}" by (auto simp: A_def)
  have "list_all op_valid [OpAdd 16 16, OpAdd 32 16, OpSubtract 24 4]" by simp
  note E = range_set_is_set [OF A_def, unfolded if_P [OF this]]
  then obtain m where m: "op_run rs_exec [OpAdd 16 16, OpAdd 32 16, OpSubtract 24 4] rs_clear = Some m"
    "rs_set m = A" "\<forall>a n. 0 < n \<and> a + n < two64 \<longrightarrow> rs_contains a n m = Some ({a..<a + n} \<subseteq> A)"
    by (elim exE conjE) (rule that, assumption+, blast)
  have "rs_contains 30 8 m = Some ({30..<30 + 8} \<subseteq> A)" using m(3) [rule_format, of 8 30] by simp
  then show ?thesis using m(1,2) unfolding A by (intro exI [of _ m]) auto
qed

end
