(* ===== verification/PageManager.thy ===== *)
theory PageManager
  imports BitArray MemBase
begin

text \<open>
  The page manager of src/graphics/host_gpu/pageManager.cpp, with the constants and ranges of
  regionDefinitions.h and the rounding of src/common/alignment.h.  Each page of the guest has a count of
  write watchers and of access watchers, kept in regions that are created on demand; a change of the
  counts protects the pages of the host accordingly, with as few calls as possible.  What the host
  answers to a call is an argument, and the operations return the calls they make.  The result \<open>None\<close> is
  one of the fatal errors, which end the program.

  The regions are reached through atomic pointers and changed under a lock each, so that one call of
  \<open>UpdateRegionWatchers\<close> is one step.  \<open>ValidateRange\<close> keeps every address below \<open>2 ^ 44\<close>, so the sums
  below do not wrap around.
\<close>

abbreviation PAGE_SIZE :: u64 where "PAGE_SIZE \<equiv> 4096"
abbreviation REGION_SIZE :: u64 where "REGION_SIZE \<equiv> 4194304"
abbreviation ADDRESS_SIZE :: u64 where "ADDRESS_SIZE \<equiv> 17592186044416"
abbreviation LOWER_ADDRESS_SIZE :: u64 where "LOWER_ADDRESS_SIZE \<equiv> 1099511627776"
abbreviation EXTENDED_BASE :: u64 where "EXTENDED_BASE \<equiv> 8796093022208"
abbreviation EXTENDED_SIZE :: u64 where "EXTENDED_SIZE \<equiv> 549755813888"
abbreviation REGION_PAGES :: nat where "REGION_PAGES \<equiv> 1024"

definition guest_range_valid :: "u64 \<Rightarrow> u64 \<Rightarrow> bool" where
  "guest_range_valid address sz =
     (if address = 0 \<or> sz = 0 then False
      else if address < LOWER_ADDRESS_SIZE then sz \<le> LOWER_ADDRESS_SIZE - address
      else address \<ge> EXTENDED_BASE \<and> address - EXTENDED_BASE < EXTENDED_SIZE
           \<and> sz \<le> EXTENDED_SIZE - (address - EXTENDED_BASE))"

definition align_down :: "u64 \<Rightarrow> u64 \<Rightarrow> u64" where
  "align_down v sz = v - v mod sz"

definition align_up :: "u64 \<Rightarrow> u64 \<Rightarrow> u64" where
  "align_up v sz = (let m = v mod sz; w = v - m in if m = 0 then w else w + sz)"

subsection \<open>Pages\<close>

text \<open>The counts are bit fields of 7 bits and of 1 bit; the checks keep them in range.\<close>

record page_state =
  write_watchers :: nat
  access_watchers :: nat

definition unwatched_page :: page_state where
  "unwatched_page = \<lparr>write_watchers = 0, access_watchers = 0\<rparr>"

definition perms :: "page_state \<Rightarrow> vm_mode" where
  "perms p = (if access_watchers p \<noteq> 0 then NoAccess else if write_watchers p \<noteq> 0 then MRead else ReadWrite)"

datatype delta = Inc | Dec | Same

fun add_delta :: "delta \<Rightarrow> bool \<Rightarrow> page_state \<Rightarrow> (page_state \<times> nat) option" where
  "add_delta Inc True p =
     (if access_watchers p \<noteq> 0 then None
      else Some (p\<lparr>access_watchers := access_watchers p + 1\<rparr>, access_watchers p + 1))"
| "add_delta Dec True p =
     (if access_watchers p = 0 then None
      else Some (p\<lparr>access_watchers := access_watchers p - 1\<rparr>, access_watchers p - 1))"
| "add_delta Same True p = Some (p, access_watchers p)"
| "add_delta Inc False p =
     (if write_watchers p = 127 then None
      else Some (p\<lparr>write_watchers := write_watchers p + 1\<rparr>, write_watchers p + 1))"
| "add_delta Dec False p =
     (if write_watchers p = 0 then None
      else Some (p\<lparr>write_watchers := write_watchers p - 1\<rparr>, write_watchers p - 1))"
| "add_delta Same False p = Some (p, write_watchers p)"

subsection \<open>One region\<close>

datatype protect_call = Protect u64 u64 vm_mode

type_synonym protector = "protect_call \<Rightarrow> bool"

text \<open>The variables of the loop of \<open>UpdateRegionWatchers\<close>, with the pages and the calls made.\<close>

record watch =
  wt_pages :: "page_state list"
  wt_perms :: vm_mode
  wt_begin :: nat
  wt_bytes :: u64
  wt_potential :: u64
  wt_calls :: "protect_call list"

definition release_pending :: "protector \<Rightarrow> u64 \<Rightarrow> watch \<Rightarrow> watch option" where
  "release_pending host base w =
     (if wt_bytes w \<noteq> 0
      then (let c = Protect (base + wt_begin w * PAGE_SIZE) (wt_bytes w) (wt_perms w)
            in if host c then Some (w\<lparr>wt_bytes := 0, wt_potential := 0, wt_calls := wt_calls w @ [c]\<rparr>) else None)
      else Some w)"

definition watch_page :: "protector \<Rightarrow> bool \<Rightarrow> bool \<Rightarrow> (nat \<Rightarrow> bool) \<Rightarrow> u64 \<Rightarrow> nat \<Rightarrow> watch \<Rightarrow> watch option" where
  "watch_page host track is_read selected base i w =
     (let page = wt_pages w ! i; update = selected i; old_perms = perms page in
      case add_delta (if update then if track then Inc else Dec else Same) is_read page of
        None \<Rightarrow> None
      | Some (page', new_count) \<Rightarrow>
          (let new_perms = perms page'; w1 = w\<lparr>wt_pages := (wt_pages w)[i := page']\<rparr> in
           case (if new_perms \<noteq> wt_perms w
                 then map_option (\<lambda>w2. w2\<lparr>wt_perms := new_perms\<rparr>) (release_pending host base w1)
                 else if wt_bytes w \<noteq> 0 then Some (w1\<lparr>wt_potential := wt_potential w + PAGE_SIZE\<rparr>)
                 else Some w1) of
             None \<Rightarrow> None
           | Some w3 \<Rightarrow>
               if \<not> update then Some w3
               else if (track \<and> new_count = 1 \<or> \<not> track \<and> new_count = 0) \<and> old_perms \<noteq> new_perms
               then (let w4 = (if wt_bytes w3 = 0 then w3\<lparr>wt_begin := i, wt_potential := PAGE_SIZE\<rparr> else w3)
                     in Some (w4\<lparr>wt_bytes := wt_potential w4\<rparr>))
               else Some w3))"

fun watch_loop :: "protector \<Rightarrow> bool \<Rightarrow> bool \<Rightarrow> (nat \<Rightarrow> bool) \<Rightarrow> u64 \<Rightarrow> nat list \<Rightarrow> watch \<Rightarrow> watch option" where
  "watch_loop host track is_read selected base [] w = Some w"
| "watch_loop host track is_read selected base (i # is) w =
     (case watch_page host track is_read selected base i w of
        None \<Rightarrow> None | Some w' \<Rightarrow> watch_loop host track is_read selected base is w')"

text \<open>Without a mask every page of the range is selected.\<close>

definition mask_selects :: "bit_array option \<Rightarrow> nat \<Rightarrow> bool" where
  "mask_selects bits i = (case bits of None \<Rightarrow> True | Some m \<Rightarrow> ba_get m i)"

definition update_region_watchers :: "protector \<Rightarrow> bool \<Rightarrow> bool \<Rightarrow> page_state list \<Rightarrow> u64 \<Rightarrow> nat \<Rightarrow> nat
    \<Rightarrow> bit_array option \<Rightarrow> (page_state list \<times> protect_call list) option" where
  "update_region_watchers host track is_read pages base first_page last_page bits =
     (let w = \<lparr>wt_pages = pages, wt_perms = perms (pages ! first_page), wt_begin = 0, wt_bytes = 0,
               wt_potential = 0, wt_calls = []\<rparr>
      in case watch_loop host track is_read (mask_selects bits) base [first_page..<last_page] w of
           None \<Rightarrow> None
         | Some w1 \<Rightarrow> map_option (\<lambda>w2. (wt_pages w2, wt_calls w2)) (release_pending host base w1))"

subsection \<open>All regions\<close>

type_synonym page_manager = "u64 \<Rightarrow> page_state list option"

definition find_region :: "u64 \<Rightarrow> page_manager \<Rightarrow> page_state list option" where
  "find_region vaddr pm = (if vaddr < ADDRESS_SIZE then pm (vaddr div REGION_SIZE) else None)"

definition get_or_create_region :: "u64 \<Rightarrow> page_manager \<Rightarrow> page_state list" where
  "get_or_create_region vaddr pm =
     (case pm (vaddr div REGION_SIZE) of Some ps \<Rightarrow> ps | None \<Rightarrow> replicate REGION_PAGES unwatched_page)"

definition watched_region :: "bool \<Rightarrow> u64 \<Rightarrow> page_manager \<Rightarrow> page_state list option" where
  "watched_region track vaddr pm = (if track then Some (get_or_create_region vaddr pm) else find_region vaddr pm)"

lemma align_up_above:
  assumes "0 < sz"
  shows "v \<le> align_up v sz"
proof -
  have "v mod sz < sz" using assms by simp
  then show ?thesis by (simp add: align_up_def Let_def) linarith
qed

function update_chunks :: "protector \<Rightarrow> bool \<Rightarrow> bool \<Rightarrow> u64 \<Rightarrow> u64 \<Rightarrow> page_manager
    \<Rightarrow> (page_manager \<times> protect_call list) option" where
  "update_chunks host track is_read chunk_begin end pm =
     (if chunk_begin < end
      then (let chunk_end = min end (align_up (chunk_begin + 1) REGION_SIZE);
                region_base = align_down chunk_begin REGION_SIZE in
            case watched_region track chunk_begin pm of
              None \<Rightarrow> None
            | Some region \<Rightarrow>
                (case update_region_watchers host track is_read region region_base
                        ((chunk_begin - region_base) div PAGE_SIZE) ((chunk_end - region_base) div PAGE_SIZE) None of
                   None \<Rightarrow> None
                 | Some (region', calls) \<Rightarrow>
                     map_option (\<lambda>(pm', calls'). (pm', calls @ calls'))
                       (update_chunks host track is_read chunk_end end (pm(chunk_begin div REGION_SIZE \<mapsto> region')))))
      else Some (pm, []))"
  by pat_completeness auto
termination
  using align_up_above [of REGION_SIZE]
  by (relation "measure (\<lambda>(_, _, _, chunk_begin, end, _). end - chunk_begin)")
    (auto simp: min_def intro!: diff_less_mono2 intro: less_le_trans [OF lessI])

declare update_chunks.simps [simp del]

definition update_page_watchers :: "protector \<Rightarrow> bool \<Rightarrow> bool \<Rightarrow> u64 \<Rightarrow> u64 \<Rightarrow> page_manager
    \<Rightarrow> (page_manager \<times> protect_call list) option" where
  "update_page_watchers host track is_read vaddr sz pm =
     (if \<not> guest_range_valid vaddr sz then None
      else update_chunks host track is_read (align_down vaddr PAGE_SIZE) (align_up (vaddr + sz) PAGE_SIZE) pm)"

definition update_watchers_for_region :: "protector \<Rightarrow> bool \<Rightarrow> bool \<Rightarrow> u64 \<Rightarrow> bit_array \<Rightarrow> page_manager
    \<Rightarrow> (page_manager \<times> protect_call list) option" where
  "update_watchers_for_region host track is_read base bits pm =
     (if base mod REGION_SIZE \<noteq> 0 \<or> base \<ge> ADDRESS_SIZE \<or> REGION_SIZE > ADDRESS_SIZE - base then None
      else (let start_range = first_range bits; end_range = last_range bits in
            if fst start_range = REGION_PAGES then None
            else (let first_page = fst start_range; last_page = snd end_range in
                  if snd start_range = snd end_range
                  then update_page_watchers host track is_read (base + first_page * PAGE_SIZE)
                         ((last_page - first_page) * PAGE_SIZE) pm
                  else case watched_region track base pm of
                         None \<Rightarrow> None
                       | Some region \<Rightarrow>
                           map_option (\<lambda>(region', calls). (pm(base div REGION_SIZE \<mapsto> region'), calls))
                             (update_region_watchers host track is_read region base first_page last_page (Some bits)))))"

text \<open>The destructor ends the program while a page is watched.\<close>

definition pages_live :: "page_state list \<Rightarrow> bool" where
  "pages_live ps \<longleftrightarrow> list_ex (\<lambda>p. write_watchers p \<noteq> 0 \<or> access_watchers p \<noteq> 0) ps"

end
