(* ===== verification/PageManagerFacts.thy ===== *)
theory PageManagerFacts
  imports PageManager BitArrayFacts
begin

text \<open>
  The protections of the host follow the counts: whatever calls the page manager saves, after each of its
  operations every page has the protection its counts ask for, if it had before.
\<close>

subsection \<open>Pages\<close>

text \<open>What the operations do to a page: one more or one fewer watcher, unless the count is at its end.\<close>

definition bump :: "bool \<Rightarrow> bool \<Rightarrow> page_state \<Rightarrow> page_state option" where
  "bump track is_read p = map_option fst (add_delta (if track then Inc else Dec) is_read p)"

definition page_ok :: "page_state \<Rightarrow> bool" where
  "page_ok p \<longleftrightarrow> write_watchers p \<le> 127 \<and> access_watchers p \<le> 1"

lemma unwatched_page_simps [simp]: "page_ok unwatched_page" "perms unwatched_page = ReadWrite"
  by (simp_all add: page_ok_def unwatched_page_def perms_def)

lemma bump_simps:
  "bump True True p = (if access_watchers p = 0 then Some (p\<lparr>access_watchers := 1\<rparr>) else None)"
  "bump False True p = (if access_watchers p = 0 then None else Some (p\<lparr>access_watchers := access_watchers p - 1\<rparr>))"
  "bump True False p = (if write_watchers p = 127 then None else Some (p\<lparr>write_watchers := write_watchers p + 1\<rparr>))"
  "bump False False p = (if write_watchers p = 0 then None else Some (p\<lparr>write_watchers := write_watchers p - 1\<rparr>))"
  by (simp_all add: bump_def)

lemma bump_ok: "\<lbrakk>page_ok p; bump track is_read p = Some p'\<rbrakk> \<Longrightarrow> page_ok p'"
  by (cases track; cases is_read) (auto simp: bump_simps page_ok_def split: if_splits)

lemma bump_fresh: "bump False is_read unwatched_page = None"
  by (cases is_read) (simp_all add: bump_simps unwatched_page_def)

text \<open>No protection is needed where the count does not reach its edge.\<close>

lemma no_edge_same_perms:
  assumes "add_delta (if track then Inc else Dec) is_read p = Some (p', n)"
    and "\<not> ((track \<and> n = 1 \<or> \<not> track \<and> n = 0) \<and> perms p \<noteq> perms p')"
  shows "perms p = perms p'"
  using assms by (cases track; cases is_read) (auto simp: perms_def split: if_splits)

subsection \<open>Calls and their effect on the host\<close>

fun apply_protect :: "protect_call \<Rightarrow> (u64 \<Rightarrow> vm_mode) \<Rightarrow> u64 \<Rightarrow> vm_mode" where
  "apply_protect (Protect a n m) h = (\<lambda>x. if x \<in> span a n then m else h x)"

definition protect_effect :: "protect_call list \<Rightarrow> (u64 \<Rightarrow> vm_mode) \<Rightarrow> u64 \<Rightarrow> vm_mode" where
  "protect_effect calls h = fold apply_protect calls h"

lemma protect_effect_simps [simp]:
  "protect_effect [] h = h"
  "protect_effect (calls @ calls') h = protect_effect calls' (protect_effect calls h)"
  by (simp_all add: protect_effect_def)

lemma protect_effect_one: "protect_effect [Protect a n m] h = (\<lambda>x. if x \<in> span a n then m else h x)"
  by (simp add: protect_effect_def)

text \<open>The address \<open>x\<close> lies on page \<open>j\<close> of the region at \<open>base\<close>, or on one of the pages \<open>a\<close> up to \<open>b\<close>.\<close>

definition on_page :: "u64 \<Rightarrow> nat \<Rightarrow> u64 \<Rightarrow> bool" where
  "on_page base j x \<longleftrightarrow> base \<le> x \<and> (x - base) div PAGE_SIZE = j"

definition on_pages :: "u64 \<Rightarrow> nat \<Rightarrow> nat \<Rightarrow> u64 \<Rightarrow> bool" where
  "on_pages base a b x \<longleftrightarrow> base \<le> x \<and> a \<le> (x - base) div PAGE_SIZE \<and> (x - base) div PAGE_SIZE < b"

lemma on_pages_span: "x \<in> span (base + b * PAGE_SIZE) (k * PAGE_SIZE) \<longleftrightarrow> on_pages base b (b + k) x"
proof -
  have "base + b * PAGE_SIZE \<le> x \<longleftrightarrow> base \<le> x \<and> b \<le> (x - base) div PAGE_SIZE"
    by (cases "base \<le> x") (auto simp: less_eq_div_iff_mult_less_eq)
  moreover have "x < base + b * PAGE_SIZE + k * PAGE_SIZE \<longleftrightarrow> (x - base) div PAGE_SIZE < b + k" if "base \<le> x"
    using that by (auto simp: div_less_iff_less_mult add_mult_distrib)
  ultimately show ?thesis by (auto simp: on_pages_def)
qed

lemma on_pages_page: "on_pages base a b x \<longleftrightarrow> (\<exists>j. a \<le> j \<and> j < b \<and> on_page base j x)"
  by (auto simp: on_pages_def on_page_def)

lemma on_page_unique: "\<lbrakk>on_page base j x; on_page base i x\<rbrakk> \<Longrightarrow> j = i"
  by (simp add: on_page_def)

subsection \<open>The loop\<close>

text \<open>
  After the pages up to \<open>i\<close>, whose new states are \<open>new\<close>: the pages of a pending range, which reaches from
  its start to at most \<open>i\<close>, all have the loop's protection; every other page done has its protection on the
  host already, and nothing else has changed there.
\<close>

definition watch_inv :: "(nat \<Rightarrow> page_state) \<Rightarrow> page_state list \<Rightarrow> u64 \<Rightarrow> (u64 \<Rightarrow> vm_mode) \<Rightarrow> nat \<Rightarrow> nat \<Rightarrow> watch \<Rightarrow> bool"
  where
  "watch_inv new pages base h a i w \<longleftrightarrow>
     wt_pages w = map (\<lambda>j. if a \<le> j \<and> j < i then new j else pages ! j) [0..<length pages]
   \<and> (\<exists>k q. wt_bytes w = k * PAGE_SIZE \<and> wt_potential w = q * PAGE_SIZE
        \<and> (0 < k \<longrightarrow> wt_begin w + q = i \<and> k \<le> q \<and> a \<le> wt_begin w
             \<and> (\<forall>j. wt_begin w \<le> j \<and> j < i \<longrightarrow> perms (new j) = wt_perms w))
        \<and> (\<forall>j x. a \<le> j \<and> j < i \<and> \<not> (wt_begin w \<le> j \<and> j < wt_begin w + k) \<and> on_page base j x
             \<longrightarrow> protect_effect (wt_calls w) h x = perms (new j))
        \<and> (\<forall>x. \<not> on_pages base a i x \<longrightarrow> protect_effect (wt_calls w) h x = h x))"

lemma watch_invI:
  assumes "wt_pages w = map (\<lambda>j. if a \<le> j \<and> j < i then new j else pages ! j) [0..<length pages]"
    and "wt_bytes w = k * PAGE_SIZE" "wt_potential w = q * PAGE_SIZE"
    and "0 < k \<Longrightarrow> wt_begin w + q = i \<and> k \<le> q \<and> a \<le> wt_begin w"
    and "\<And>j. \<lbrakk>0 < k; wt_begin w \<le> j; j < i\<rbrakk> \<Longrightarrow> perms (new j) = wt_perms w"
    and "\<And>j x. \<lbrakk>a \<le> j; j < i; \<not> (wt_begin w \<le> j \<and> j < wt_begin w + k); on_page base j x\<rbrakk>
           \<Longrightarrow> protect_effect (wt_calls w) h x = perms (new j)"
    and "\<And>x. \<not> on_pages base a i x \<Longrightarrow> protect_effect (wt_calls w) h x = h x"
  shows "watch_inv new pages base h a i w"
proof -
  have A: "0 < k \<longrightarrow> wt_begin w + q = i \<and> k \<le> q \<and> a \<le> wt_begin w
      \<and> (\<forall>j. wt_begin w \<le> j \<and> j < i \<longrightarrow> perms (new j) = wt_perms w)"
    using assms(4,5) by blast
  have B: "\<forall>j x. a \<le> j \<and> j < i \<and> \<not> (wt_begin w \<le> j \<and> j < wt_begin w + k) \<and> on_page base j x
      \<longrightarrow> protect_effect (wt_calls w) h x = perms (new j)"
    using assms(6) by blast
  have C: "\<forall>x. \<not> on_pages base a i x \<longrightarrow> protect_effect (wt_calls w) h x = h x" using assms(7) by blast
  show ?thesis unfolding watch_inv_def by (intro conjI exI [of _ k] exI [of _ q] assms(1,2,3) A B C)
qed

lemma release_pending_pages:
  "release_pending host base (w\<lparr>wt_pages := ps\<rparr>) = map_option (\<lambda>w2. w2\<lparr>wt_pages := ps\<rparr>) (release_pending host base w)"
  by (simp add: release_pending_def Let_def)

lemma release_pending_inv:
  assumes inv: "watch_inv new pages base h a i w" and host: "\<forall>c. host c"
  obtains w2 where "release_pending host base w = Some w2" "watch_inv new pages base h a i w2" "wt_bytes w2 = 0"
    "wt_perms w2 = wt_perms w"
proof -
  obtain k q where I: "wt_pages w = map (\<lambda>j. if a \<le> j \<and> j < i then new j else pages ! j) [0..<length pages]"
    "wt_bytes w = k * PAGE_SIZE" "wt_potential w = q * PAGE_SIZE"
    "0 < k \<longrightarrow> wt_begin w + q = i \<and> k \<le> q \<and> a \<le> wt_begin w
       \<and> (\<forall>j. wt_begin w \<le> j \<and> j < i \<longrightarrow> perms (new j) = wt_perms w)"
    "\<And>j x. \<lbrakk>a \<le> j; j < i; \<not> (wt_begin w \<le> j \<and> j < wt_begin w + k); on_page base j x\<rbrakk>
       \<Longrightarrow> protect_effect (wt_calls w) h x = perms (new j)"
    "\<And>x. \<not> on_pages base a i x \<Longrightarrow> protect_effect (wt_calls w) h x = h x"
    using inv unfolding watch_inv_def by auto
  show thesis
  proof (cases "k = 0")
    case True
    then show ?thesis using that [of w] inv I(2) by (simp add: release_pending_def)
  next
    case False
    define w2 where "w2 = w\<lparr>wt_bytes := 0, wt_potential := 0,
      wt_calls := wt_calls w @ [Protect (base + wt_begin w * PAGE_SIZE) (wt_bytes w) (wt_perms w)]\<rparr>"
    have pend: "wt_begin w + q = i" "k \<le> q" "a \<le> wt_begin w"
      "\<And>j. \<lbrakk>wt_begin w \<le> j; j < i\<rbrakk> \<Longrightarrow> perms (new j) = wt_perms w" using I(4) False by simp_all
    have eff: "protect_effect (wt_calls w2) h x
        = (if on_pages base (wt_begin w) (wt_begin w + k) x then wt_perms w else protect_effect (wt_calls w) h x)" for x
      by (simp add: w2_def protect_effect_one I(2) on_pages_span del: in_span)
    have "protect_effect (wt_calls w2) h x = perms (new j)" if "a \<le> j" "j < i" "on_page base j x" for j x
    proof (cases "wt_begin w \<le> j \<and> j < wt_begin w + k")
      case True
      then have "on_pages base (wt_begin w) (wt_begin w + k) x" using that by (auto simp: on_pages_page)
      then show ?thesis using eff pend(4) True that by simp
    next
      case n: False
      then have "\<not> on_pages base (wt_begin w) (wt_begin w + k) x" using that(3) by (auto simp: on_pages_def on_page_def)
      then show ?thesis using eff I(5) [OF that(1,2) n that(3)] by simp
    qed
    moreover have "protect_effect (wt_calls w2) h x = h x" if "\<not> on_pages base a i x" for x
    proof -
      have "\<not> on_pages base (wt_begin w) (wt_begin w + k) x" using that pend(1-3) by (auto simp: on_pages_def)
      then show ?thesis using eff I(6) [OF that] by simp
    qed
    ultimately have "watch_inv new pages base h a i w2"
      unfolding watch_inv_def by (intro conjI exI [of _ 0]) (simp_all add: w2_def I(1))
    moreover have "release_pending host base w = Some w2"
      using False host by (simp add: release_pending_def Let_def w2_def I(2))
    ultimately show ?thesis using that [of w2] by (simp add: w2_def)
  qed
qed

lemma map_update_one:
  "\<lbrakk>a \<le> i; i < n\<rbrakk> \<Longrightarrow> (map (\<lambda>j. if a \<le> j \<and> j < i then f j else ps ! j) [0..<n])[i := f i]
    = map (\<lambda>j. if a \<le> j \<and> j < i + 1 then f j else ps ! j) [0..<n]"
  by (rule nth_equalityI) (auto simp: nth_list_update)

text \<open>A page whose protection does not change, or that starts or extends a pending range.\<close>

lemma watch_step:
  assumes inv: "watch_inv new pages base h a i w" and a: "a \<le> i" "i < length pages" and host: "\<forall>c. host c"
    and add: "add_delta (if sel i then if track then Inc else Dec else Same) is_read (pages ! i) = Some (new i, n)"
    and h: "\<And>x. on_page base i x \<Longrightarrow> h x = perms (pages ! i)"
  obtains w' where "watch_page host track is_read sel base i w = Some w'" "watch_inv new pages base h a (i + 1) w'"
proof -
  define ps where "ps = map (\<lambda>j. if a \<le> j \<and> j < i + 1 then new j else pages ! j) [0..<length pages]"
  have wp: "wt_pages w = map (\<lambda>j. if a \<le> j \<and> j < i then new j else pages ! j) [0..<length pages]"
    using inv by (simp add: watch_inv_def)
  have page: "wt_pages w ! i = pages ! i" using a by (simp add: wp)
  have upd: "(wt_pages w)[i := new i] = ps" unfolding wp ps_def by (rule map_update_one [OF a])
  define moved where "moved \<longleftrightarrow> (track \<and> n = 1 \<or> \<not> track \<and> n = 0) \<and> perms (pages ! i) \<noteq> perms (new i)"
  define edge where "edge \<longleftrightarrow> sel i \<and> moved"
  have quiet: "perms (pages ! i) = perms (new i)" if "\<not> edge"
    using that add no_edge_same_perms [of track is_read "pages ! i" "new i" n]
    by (cases "sel i"; cases is_read) (auto simp: edge_def moved_def)
  text \<open>The state before the edge is looked at: either nothing is pending, or the range goes on.\<close>
  define w3 where "w3 = (if perms (new i) \<noteq> wt_perms w
      then map_option (\<lambda>w2. w2\<lparr>wt_pages := ps, wt_perms := perms (new i)\<rparr>) (release_pending host base w)
      else Some (w\<lparr>wt_pages := ps, wt_potential := (if wt_bytes w \<noteq> 0 then wt_potential w + PAGE_SIZE else wt_potential w)\<rparr>))"
  have step: "watch_page host track is_read sel base i w = (case w3 of None \<Rightarrow> None | Some v \<Rightarrow>
      if edge then (let v4 = (if wt_bytes v = 0 then v\<lparr>wt_begin := i, wt_potential := PAGE_SIZE\<rparr> else v)
                    in Some (v4\<lparr>wt_bytes := wt_potential v4\<rparr>)) else Some v)"
    unfolding watch_page_def Let_def page add option.case prod.case upd release_pending_pages moved_def [symmetric]
    by (cases "perms (new i) \<noteq> wt_perms w"; cases "release_pending host base w"; cases "sel i"; cases moved)
      (simp_all add: w3_def edge_def)
  obtain w0 where w0: "watch_inv new pages base h a i w0" "wt_perms w0 = wt_perms w"
    "perms (new i) \<noteq> wt_perms w \<Longrightarrow> wt_bytes w0 = 0"
    "w3 = Some (w0\<lparr>wt_pages := ps, wt_perms := perms (new i),
       wt_potential := (if wt_bytes w0 \<noteq> 0 then wt_potential w0 + PAGE_SIZE else wt_potential w0)\<rparr>)"
  proof (cases "perms (new i) \<noteq> wt_perms w")
    case True
    obtain w2 where "release_pending host base w = Some w2" "watch_inv new pages base h a i w2" "wt_bytes w2 = 0"
      "wt_perms w2 = wt_perms w" by (rule release_pending_inv [OF inv host])
    then show ?thesis using that [of w2] True by (simp add: w3_def)
  next
    case False
    then show ?thesis using that [of w] inv by (simp add: w3_def)
  qed
  obtain k q where I: "wt_bytes w0 = k * PAGE_SIZE" "wt_potential w0 = q * PAGE_SIZE"
    "0 < k \<longrightarrow> wt_begin w0 + q = i \<and> k \<le> q \<and> a \<le> wt_begin w0
       \<and> (\<forall>j. wt_begin w0 \<le> j \<and> j < i \<longrightarrow> perms (new j) = wt_perms w0)"
    "\<And>j x. \<lbrakk>a \<le> j; j < i; \<not> (wt_begin w0 \<le> j \<and> j < wt_begin w0 + k); on_page base j x\<rbrakk>
       \<Longrightarrow> protect_effect (wt_calls w0) h x = perms (new j)"
    "\<And>x. \<not> on_pages base a i x \<Longrightarrow> protect_effect (wt_calls w0) h x = h x"
    using w0(1) unfolding watch_inv_def by auto
  have same: "perms (new i) = wt_perms w0" if "0 < k" using that w0(2,3) I(1) by auto
  have out: "protect_effect (wt_calls w0) h x = h x" if "\<not> on_pages base a (i + 1) x" for x
    using I(5) that by (auto simp: on_pages_def)
  have here: "protect_effect (wt_calls w0) h x = perms (pages ! i)" if "on_page base i x" for x
    using I(5) [of x] h [OF that] that by (auto simp: on_pages_def on_page_def)
  define b where "b = (if k = 0 then i else wt_begin w0)"
  define r where "r = (if k = 0 then 1 else q + 1)"
  define w' where "w' = (if edge
      then w0\<lparr>wt_pages := ps, wt_perms := perms (new i), wt_begin := b, wt_bytes := r * PAGE_SIZE, wt_potential := r * PAGE_SIZE\<rparr>
      else w0\<lparr>wt_pages := ps, wt_perms := perms (new i),
         wt_potential := (if k = 0 then wt_potential w0 else (q + 1) * PAGE_SIZE)\<rparr>)"
  have res: "watch_page host track is_read sel base i w = Some w'"
    unfolding step w0(4) w'_def option.case Let_def by (simp add: I(1,2) b_def r_def)
  have "watch_inv new pages base h a (i + 1) w'"
  proof (cases edge)
    case True
    have br: "b + r = i + 1" "a \<le> b" using I(3) a by (auto simp: b_def r_def)
    have s: "perms (new j) = perms (new i)" if "b \<le> j" "j < i + 1" for j
      using that I(3) same by (cases "j = i"; cases "k = 0") (auto simp: b_def)
    have p: "protect_effect (wt_calls w0) h x = perms (new j)"
      if "a \<le> j" "j < i + 1" "\<not> (b \<le> j \<and> j < b + r)" "on_page base j x" for j x
    proof -
      have "j < i" "\<not> (wt_begin w0 \<le> j \<and> j < wt_begin w0 + k)" using that I(3) by (auto simp: b_def r_def split: if_splits)
      then show ?thesis using I(4) that by blast
    qed
    have w': "wt_pages w' = ps" "wt_perms w' = perms (new i)" "wt_begin w' = b" "wt_calls w' = wt_calls w0"
      "wt_bytes w' = r * PAGE_SIZE" "wt_potential w' = r * PAGE_SIZE"
      by (simp_all add: w'_def True)
    show ?thesis
    proof (rule watch_invI [where k = r and q = r], unfold w')
      show "ps = map (\<lambda>j. if a \<le> j \<and> j < i + 1 then new j else pages ! j) [0..<length pages]" by (rule ps_def)
      show "b + r = i + 1 \<and> r \<le> r \<and> a \<le> b" using br by simp
      show "perms (new j) = perms (new i)" if "b \<le> j" "j < i + 1" for j using s that by blast
      show "protect_effect (wt_calls w0) h x = perms (new j)"
        if "a \<le> j" "j < i + 1" "\<not> (b \<le> j \<and> j < b + r)" "on_page base j x" for j x using p that by blast
      show "protect_effect (wt_calls w0) h x = h x" if "\<not> on_pages base a (i + 1) x" for x using out that by blast
    qed (rule refl)+
  next
    case False
    have p: "protect_effect (wt_calls w0) h x = perms (new j)"
      if "a \<le> j" "j < i + 1" "\<not> (wt_begin w0 \<le> j \<and> j < wt_begin w0 + k)" "on_page base j x" for j x
      using that I(4) [of j x] here [of x] quiet [OF False] by (cases "j = i") auto
    have s: "perms (new j) = perms (new i)" if "0 < k" "wt_begin w0 \<le> j" "j < i + 1" for j
      using that I(3) same by (cases "j = i") auto
    have w': "wt_pages w' = ps" "wt_perms w' = perms (new i)" "wt_begin w' = wt_begin w0" "wt_calls w' = wt_calls w0"
      "wt_bytes w' = k * PAGE_SIZE" "wt_potential w' = (if k = 0 then q else q + 1) * PAGE_SIZE"
      by (simp_all add: w'_def False I(1,2))
    show ?thesis
    proof (rule watch_invI [where k = k and q = "if k = 0 then q else q + 1"], unfold w')
      show "ps = map (\<lambda>j. if a \<le> j \<and> j < i + 1 then new j else pages ! j) [0..<length pages]" by (rule ps_def)
      show "wt_begin w0 + (if k = 0 then q else q + 1) = i + 1 \<and> k \<le> (if k = 0 then q else q + 1) \<and> a \<le> wt_begin w0"
        if "0 < k" using I(3) that by simp
      show "perms (new j) = perms (new i)" if "0 < k" "wt_begin w0 \<le> j" "j < i + 1" for j using s that by blast
      show "protect_effect (wt_calls w0) h x = perms (new j)"
        if "a \<le> j" "j < i + 1" "\<not> (wt_begin w0 \<le> j \<and> j < wt_begin w0 + k)" "on_page base j x" for j x using p that by blast
      show "protect_effect (wt_calls w0) h x = h x" if "\<not> on_pages base a (i + 1) x" for x using out that by blast
    qed (rule refl)+
  qed
  then show thesis using that res by blast
qed

lemma watch_loop_ok:
  assumes new: "new = (\<lambda>j. if sel j then the (bump track is_read (pages ! j)) else pages ! j)"
    and host: "\<forall>c. host c" and b: "b \<le> length pages"
    and h: "\<And>j x. \<lbrakk>a \<le> j; j < b; on_page base j x\<rbrakk> \<Longrightarrow> h x = perms (pages ! j)"
    and inv: "watch_inv new pages base h a i w" and i: "a \<le> i" "i \<le> b"
  shows "if \<exists>j. i \<le> j \<and> j < b \<and> sel j \<and> bump track is_read (pages ! j) = None
    then watch_loop host track is_read sel base [i..<b] w = None
    else \<exists>w'. watch_loop host track is_read sel base [i..<b] w = Some w' \<and> watch_inv new pages base h a b w'"
  using inv i
proof (induction "b - i" arbitrary: i w)
  case 0
  then have "\<not> (\<exists>j. i \<le> j \<and> j < b \<and> sel j \<and> bump track is_read (pages ! j) = None)" "i = b" by auto
  then show ?case using 0 by simp
next
  case (Suc m)
  then have ib: "i < b" "[i..<b] = i # [i + 1..<b]" "m = b - (i + 1)" "a \<le> i + 1" "i + 1 \<le> b" "i < length pages"
    using upt_conv_Cons [of i b] b by auto
  have page: "wt_pages w ! i = pages ! i" using Suc.prems(1) ib(6) by (simp add: watch_inv_def)
  show ?case
  proof (cases "sel i \<and> bump track is_read (pages ! i) = None")
    case True
    then have "watch_page host track is_read sel base i w = None"
      by (simp add: watch_page_def Let_def page bump_def)
    then have "watch_loop host track is_read sel base [i..<b] w = None" by (simp add: ib(2))
    moreover have "\<exists>j. i \<le> j \<and> j < b \<and> sel j \<and> bump track is_read (pages ! j) = None" using True ib(1) by blast
    ultimately show ?thesis by simp
  next
    case False
    obtain n where n: "add_delta (if sel i then if track then Inc else Dec else Same) is_read (pages ! i) = Some (new i, n)"
      using False by (cases is_read; cases "sel i") (auto simp: new bump_def)
    have hi: "\<And>x. on_page base i x \<Longrightarrow> h x = perms (pages ! i)" using h Suc.prems(2) ib(1) by blast
    obtain w1 where w1: "watch_page host track is_read sel base i w = Some w1" "watch_inv new pages base h a (i + 1) w1"
      by (rule watch_step [where sel = sel, OF Suc.prems(1) Suc.prems(2) ib(6) host n hi])
    have ex: "(\<exists>j. i \<le> j \<and> j < b \<and> sel j \<and> bump track is_read (pages ! j) = None)
        \<longleftrightarrow> (\<exists>j. i + 1 \<le> j \<and> j < b \<and> sel j \<and> bump track is_read (pages ! j) = None)"
    proof -
      have le: "i \<le> j \<longleftrightarrow> j = i \<or> i + 1 \<le> j" for j by auto
      show ?thesis unfolding le using False by blast
    qed
    show ?thesis using Suc.hyps(1) [OF ib(3) w1(2) ib(4,5)] unfolding ex ib(2) watch_loop.simps w1(1) option.case .
  qed
qed

text \<open>One region: either a count is at its end, or the selected pages are counted and the host follows.\<close>

lemma update_region_ok:
  assumes host: "\<forall>c. host c" and b: "b \<le> length pages" "a \<le> b"
    and h: "\<And>j x. \<lbrakk>a \<le> j; j < b; on_page base j x\<rbrakk> \<Longrightarrow> h x = perms (pages ! j)"
    and new_def: "new = (\<lambda>j. if a \<le> j \<and> j < b \<and> mask_selects bits j then the (bump track is_read (pages ! j))
      else pages ! j)"
  shows "if \<exists>j. a \<le> j \<and> j < b \<and> mask_selects bits j \<and> bump track is_read (pages ! j) = None
    then update_region_watchers host track is_read pages base a b bits = None
    else \<exists>calls. update_region_watchers host track is_read pages base a b bits = Some (map new [0..<length pages], calls)
      \<and> (\<forall>j x. a \<le> j \<and> j < b \<and> on_page base j x \<longrightarrow> protect_effect calls h x = perms (new j))
      \<and> (\<forall>x. \<not> on_pages base a b x \<longrightarrow> protect_effect calls h x = h x)"
proof -
  define nw where "nw = (\<lambda>j. if mask_selects bits j then the (bump track is_read (pages ! j)) else pages ! j)"
  define w where "w = \<lparr>wt_pages = pages, wt_perms = perms (pages ! a), wt_begin = 0, wt_bytes = 0,
    wt_potential = 0, wt_calls = []\<rparr>"
  have "(\<lambda>j. if a \<le> j \<and> j < a then nw j else pages ! j) = (!) pages" by auto
  then have init: "watch_inv nw pages base h a a w"
    by (intro watch_invI [where k = 0 and q = 0]) (simp_all add: w_def map_nth)
  note L = watch_loop_ok [where sel = "mask_selects bits", OF nw_def host b(1) h init order_refl b(2)]
  note R = update_region_watchers_def [of host track is_read pages base a b bits, folded w_def, unfolded Let_def]
  show ?thesis
  proof (cases "\<exists>j. a \<le> j \<and> j < b \<and> mask_selects bits j \<and> bump track is_read (pages ! j) = None")
    case True
    then show ?thesis using L R by simp
  next
    case False
    then obtain w1 where w1: "watch_loop host track is_read (mask_selects bits) base [a..<b] w = Some w1"
      "watch_inv nw pages base h a b w1" using L unfolding if_not_P [OF False] by blast
    obtain w2 where w2: "release_pending host base w1 = Some w2" "watch_inv nw pages base h a b w2" "wt_bytes w2 = 0"
      by (rule release_pending_inv [OF w1(2) host])
    have eq: "(if a \<le> j \<and> j < b then nw j else pages ! j) = new j" for j by (simp add: nw_def new_def)
    have new: "nw j = new j" if "a \<le> j" "j < b" for j using that by (simp add: nw_def new_def)
    have "wt_pages w2 = map new [0..<length pages]" using w2(2) by (simp add: watch_inv_def eq)
    moreover have "\<forall>j x. a \<le> j \<and> j < b \<and> on_page base j x \<longrightarrow> protect_effect (wt_calls w2) h x = perms (new j)"
      using w2(2,3) new unfolding watch_inv_def by auto
    moreover have "\<forall>x. \<not> on_pages base a b x \<longrightarrow> protect_effect (wt_calls w2) h x = h x"
      using w2(2) unfolding watch_inv_def by blast
    ultimately show ?thesis unfolding if_not_P [OF False]
      by (intro exI [of _ "wt_calls w2"]) (simp add: R w1(1) w2(1))
  qed
qed

subsection \<open>All pages\<close>

text \<open>Pages of the whole address space, by number; a page of a region not yet created is fresh.\<close>

definition page_at :: "page_manager \<Rightarrow> nat \<Rightarrow> page_state" where
  "page_at pm P = (case pm (P div REGION_PAGES) of None \<Rightarrow> unwatched_page | Some ps \<Rightarrow> ps ! (P mod REGION_PAGES))"

definition pages_ok :: "page_manager \<Rightarrow> bool" where
  "pages_ok pm \<longleftrightarrow> (\<forall>r ps. pm r = Some ps \<longrightarrow> length ps = REGION_PAGES \<and> (\<forall>p\<in>set ps. page_ok p))"

definition host_follows :: "page_manager \<Rightarrow> (u64 \<Rightarrow> vm_mode) \<Rightarrow> bool" where
  "host_follows pm h \<longleftrightarrow> (\<forall>x. h x = perms (page_at pm (x div PAGE_SIZE)))"

definition page_span :: "u64 \<Rightarrow> u64 \<Rightarrow> nat set" where
  "page_span v n = {v div PAGE_SIZE..<(v + n + 4095) div PAGE_SIZE}"

text \<open>
  What an operation on a set of pages does: it stops the program exactly if a count is at its end, and else
  counts the pages, leaves all others, and makes the host follow.
\<close>

definition watches :: "bool \<Rightarrow> bool \<Rightarrow> nat set \<Rightarrow> page_manager \<Rightarrow> (u64 \<Rightarrow> vm_mode)
    \<Rightarrow> (page_manager \<times> protect_call list) option \<Rightarrow> bool" where
  "watches track is_read S pm h r \<longleftrightarrow>
     (\<exists>P\<in>S. bump track is_read (page_at pm P) = None) \<and> r = None
   \<or> (\<forall>P\<in>S. bump track is_read (page_at pm P) \<noteq> None)
     \<and> (\<exists>pm' calls. r = Some (pm', calls) \<and> pages_ok pm' \<and> host_follows pm' (protect_effect calls h)
         \<and> (\<forall>P. page_at pm' P = (if P \<in> S then the (bump track is_read (page_at pm P)) else page_at pm P)))"

lemma watches_none: "\<lbrakk>P \<in> S; bump track is_read (page_at pm P) = None; r = None\<rbrakk> \<Longrightarrow> watches track is_read S pm h r"
  unfolding watches_def by (rule disjI1) (rule conjI, rule bexI)

lemma watches_some:
  assumes "\<And>P. P \<in> S \<Longrightarrow> bump track is_read (page_at pm P) \<noteq> None" and "r = Some (pm', calls)" and "pages_ok pm'"
    and "host_follows pm' (protect_effect calls h)"
    and "\<And>P. page_at pm' P = (if P \<in> S then the (bump track is_read (page_at pm P)) else page_at pm P)"
  shows "watches track is_read S pm h r"
  unfolding watches_def
  by (rule disjI2, rule conjI, rule ballI, rule assms(1), assumption,
      rule exI [of _ pm'], rule exI [of _ calls], intro conjI allI assms(2-5))

lemma watchesE:
  assumes "watches track is_read S pm h r"
  obtains P where "P \<in> S" "bump track is_read (page_at pm P) = None" "r = None"
  | pm' calls where "\<And>P. P \<in> S \<Longrightarrow> bump track is_read (page_at pm P) \<noteq> None" "r = Some (pm', calls)" "pages_ok pm'"
      "host_follows pm' (protect_effect calls h)"
      "\<And>P. page_at pm' P = (if P \<in> S then the (bump track is_read (page_at pm P)) else page_at pm P)"
  using assms unfolding watches_def
proof (elim disjE conjE exE bexE)
  fix P
  assume "P \<in> S" "bump track is_read (page_at pm P) = None" "r = None"
  then show thesis by (rule that(1))
next
  fix pm' calls
  assume c: "\<forall>P\<in>S. bump track is_read (page_at pm P) \<noteq> None" "r = Some (pm', calls)" "pages_ok pm'"
    "host_follows pm' (protect_effect calls h)"
    "\<forall>P. page_at pm' P = (if P \<in> S then the (bump track is_read (page_at pm P)) else page_at pm P)"
  show thesis by (rule that(2) [OF _ c(2-4)]) (erule bspec [OF c(1)], rule spec [OF c(5)])
qed

lemma page_at_ok: "pages_ok pm \<Longrightarrow> page_ok (page_at pm P)"
  by (auto simp: page_at_def pages_ok_def split: option.split)

lemma page_of_region: "j < REGION_PAGES \<Longrightarrow> (r * REGION_PAGES + j) div REGION_PAGES = r \<and> (r * REGION_PAGES + j) mod REGION_PAGES = j"
  by simp

lemma quotient_shift:
  fixes k p x :: nat
  assumes "0 < p"
  shows "k * p \<le> x \<and> (x - k * p) div p = j \<longleftrightarrow> x div p = k + j"
proof (cases "k * p \<le> x")
  case True
  then obtain y where "x = k * p + y" using le_Suc_ex by blast
  then show ?thesis using assms by (simp add: div_add1_eq)
next
  case False
  then have "x div p < k" using assms by (simp add: div_less_iff_less_mult not_le)
  then show ?thesis using False by simp
qed

lemma on_page_global: "on_page (r * REGION_SIZE) j x \<longleftrightarrow> x div PAGE_SIZE = r * REGION_PAGES + j"
proof -
  have m: "r * REGION_SIZE = (r * REGION_PAGES) * PAGE_SIZE" by simp
  show ?thesis unfolding on_page_def m by (rule quotient_shift) simp
qed

text \<open>The pages \<open>a\<close> up to \<open>b\<close> of a region that a mask selects.\<close>

definition region_pages :: "nat \<Rightarrow> nat \<Rightarrow> nat \<Rightarrow> bit_array option \<Rightarrow> nat set" where
  "region_pages r a b bits = {P. \<exists>j. a \<le> j \<and> j < b \<and> mask_selects bits j \<and> P = r * REGION_PAGES + j}"

lemma region_update_watches:
  assumes ok: "pages_ok pm" and host: "\<forall>c. host c" and h: "host_follows pm h" and ab: "a \<le> b" "b \<le> REGION_PAGES"
    and region: "length region = REGION_PAGES" "\<And>j. j < REGION_PAGES \<Longrightarrow> region ! j = page_at pm (r * REGION_PAGES + j)"
    and res: "res = map_option (\<lambda>(region', calls). (pm(r \<mapsto> region'), calls))
      (update_region_watchers host track is_read region (r * REGION_SIZE) a b bits)"
  shows "watches track is_read (region_pages r a b bits) pm h res"
proof -
  define new where "new = (\<lambda>j. if a \<le> j \<and> j < b \<and> mask_selects bits j then the (bump track is_read (region ! j)) else region ! j)"
  have hr: "h x = perms (region ! j)" if "a \<le> j" "j < b" "on_page (r * REGION_SIZE) j x" for j x
  proof -
    have j: "j < REGION_PAGES" using that ab by simp
    show ?thesis using h that(3) by (simp only: host_follows_def region(2) [OF j] on_page_global)
  qed
  have bl: "b \<le> length region" using ab region(1) by simp
  note U = update_region_ok [of host b region a "r * REGION_SIZE" h new bits track is_read, OF host bl ab(1) hr new_def]
  show ?thesis
  proof (cases "\<exists>j. a \<le> j \<and> j < b \<and> mask_selects bits j \<and> bump track is_read (region ! j) = None")
    case True
    then obtain j where j: "a \<le> j" "j < b" "mask_selects bits j" "bump track is_read (region ! j) = None" by blast
    have "r * REGION_PAGES + j \<in> region_pages r a b bits" using j unfolding region_pages_def by blast
    moreover have "bump track is_read (page_at pm (r * REGION_PAGES + j)) = None"
      using j ab region(2) [of j] by simp
    moreover have "res = None" using U True by (simp add: res)
    ultimately show ?thesis by (rule watches_none)
  next
    case False
    then obtain calls where c: "update_region_watchers host track is_read region (r * REGION_SIZE) a b bits = Some (map new [0..<length region], calls)"
      "\<And>j x. \<lbrakk>a \<le> j; j < b; on_page (r * REGION_SIZE) j x\<rbrakk> \<Longrightarrow> protect_effect calls h x = perms (new j)"
      "\<And>x. \<not> on_pages (r * REGION_SIZE) a b x \<Longrightarrow> protect_effect calls h x = h x"
      using U unfolding if_not_P [OF False] by blast
    define pm' where "pm' = pm(r \<mapsto> map new [0..<length region])"
    have bump: "bump track is_read (page_at pm P) \<noteq> None" if "P \<in> region_pages r a b bits" for P
      using that False ab region(2) by (force simp: region_pages_def)
    have at: "page_at pm' P = (if P \<in> region_pages r a b bits then the (bump track is_read (page_at pm P)) else page_at pm P)" for P
    proof (cases "P div REGION_PAGES = r")
      case True
      define j where "j = P mod REGION_PAGES"
      have P: "P = r * REGION_PAGES + j" "j < REGION_PAGES" using True div_mult_mod_eq [of P REGION_PAGES] by (simp_all add: j_def)
      have "P \<in> region_pages r a b bits \<longleftrightarrow> a \<le> j \<and> j < b \<and> mask_selects bits j" by (auto simp: region_pages_def P(1))
      moreover have "page_at pm' P = new j" using P region(1) by (simp add: page_at_def pm'_def)
      ultimately show ?thesis using region(2) [OF P(2)] by (simp add: new_def P(1))
    next
      case False
      then have "P \<notin> region_pages r a b bits" using ab(2) by (auto simp: region_pages_def)
      then show ?thesis using False by (simp add: page_at_def pm'_def)
    qed
    have "pages_ok pm'"
    proof -
      have "page_ok (new j)" if "j < REGION_PAGES" for j
      proof -
        have "page_ok (region ! j)" using region(2) [OF that] page_at_ok [OF ok] by simp
        then show ?thesis using False bump_ok by (auto simp: new_def)
      qed
      then show ?thesis using ok region(1) by (auto simp: pages_ok_def pm'_def)
    qed
    moreover have "host_follows pm' (protect_effect calls h)"
      unfolding host_follows_def
    proof
      fix x
      show "protect_effect calls h x = perms (page_at pm' (x div PAGE_SIZE))"
      proof (cases "on_pages (r * REGION_SIZE) a b x")
        case True
        then obtain j where j: "a \<le> j" "j < b" "on_page (r * REGION_SIZE) j x" by (auto simp: on_pages_page)
        then have "x div PAGE_SIZE = r * REGION_PAGES + j" "j < REGION_PAGES" using ab on_page_global [of r j x] by simp_all
        then have "page_at pm' (x div PAGE_SIZE) = new j" using region(1) by (simp add: page_at_def pm'_def)
        then show ?thesis using c(2) [OF j] by simp
      next
        case out: False
        have "x div PAGE_SIZE \<notin> region_pages r a b bits"
        proof
          assume "x div PAGE_SIZE \<in> region_pages r a b bits"
          then obtain j where j: "a \<le> j" "j < b" "x div PAGE_SIZE = r * REGION_PAGES + j" by (auto simp: region_pages_def)
          then have "on_page (r * REGION_SIZE) j x" using ab on_page_global [of r j x] by simp
          then show False using out j on_pages_page by blast
        qed
        then show ?thesis using c(3) [OF out] h at by (simp add: host_follows_def)
      qed
    qed
    ultimately show ?thesis
      by (intro watches_some [of _ _ _ _ _ pm' calls]) (use bump at in \<open>auto simp: res c(1) pm'_def\<close>)
  qed
qed

lemma watches_seq:
  assumes one: "watches track is_read S pm h (Some (pm1, calls))"
    and two: "watches track is_read T pm1 (protect_effect calls h) r" and "S \<inter> T = {}"
  shows "watches track is_read (S \<union> T) pm h (map_option (\<lambda>(pm', calls'). (pm', calls @ calls')) r)"
proof -
  have S: "\<And>P. P \<in> S \<Longrightarrow> bump track is_read (page_at pm P) \<noteq> None"
    "\<And>P. page_at pm1 P = (if P \<in> S then the (bump track is_read (page_at pm P)) else page_at pm P)"
    by (rule watchesE [OF one]; simp)+
  have T: "page_at pm1 P = page_at pm P" if "P \<in> T" for P using S(2) that assms(3) by auto
  from two show ?thesis
  proof (cases rule: watchesE)
    case (1 P)
    then show ?thesis using T [of P] by (intro watches_none [of P]) simp_all
  next
    case (2 pm' calls')
    show ?thesis
    proof (rule watches_some [of _ _ _ _ _ pm' "calls @ calls'"])
      show "bump track is_read (page_at pm P) \<noteq> None" if "P \<in> S \<union> T" for P
        using that S(1) [of P] 2(1) [of P] T [of P] by auto
      show "page_at pm' P = (if P \<in> S \<union> T then the (bump track is_read (page_at pm P)) else page_at pm P)" for P
        using 2(5) [of P] S(2) [of P] T [of P] assms(3) by auto
    qed (use 2 in simp_all)
  qed
qed

lemma watched_region_some:
  assumes "pages_ok pm" and "watched_region track v pm = Some region" and "v div REGION_SIZE = r"
  shows "length region = REGION_PAGES" and "j < REGION_PAGES \<Longrightarrow> region ! j = page_at pm (r * REGION_PAGES + j)"
  using assms by (auto simp: watched_region_def find_region_def get_or_create_region_def pages_ok_def page_at_def
      split: if_splits option.splits)

lemma watched_region_none:
  assumes "watched_region track v pm = None" and "v < ADDRESS_SIZE"
  shows "bump track is_read (page_at pm (v div PAGE_SIZE)) = None"
proof -
  have "v div PAGE_SIZE div REGION_PAGES = v div REGION_SIZE" by (simp add: div_mult2_eq [symmetric])
  moreover have "\<not> track" "pm (v div REGION_SIZE) = None"
    using assms by (auto simp: watched_region_def find_region_def split: if_splits)
  ultimately show ?thesis using bump_fresh by (simp add: page_at_def)
qed

lemma chunk_arith:
  fixes q e :: nat
  assumes "q < e"
  defines "r \<equiv> q div REGION_PAGES"
  defines "c \<equiv> min e ((r + 1) * REGION_PAGES)"
  shows "q * PAGE_SIZE div REGION_SIZE = r" and "align_down (q * PAGE_SIZE) REGION_SIZE = r * REGION_SIZE"
    and "min (e * PAGE_SIZE) (align_up (q * PAGE_SIZE + 1) REGION_SIZE) = c * PAGE_SIZE"
    and "(q * PAGE_SIZE - r * REGION_SIZE) div PAGE_SIZE = q - r * REGION_PAGES"
    and "(c * PAGE_SIZE - r * REGION_SIZE) div PAGE_SIZE = c - r * REGION_PAGES"
    and "r * REGION_PAGES \<le> q" and "q < c" and "c \<le> e" and "c \<le> r * REGION_PAGES + REGION_PAGES"
proof -
  define m where "m = q mod REGION_PAGES"
  have q: "q = r * REGION_PAGES + m" "m < REGION_PAGES" by (simp_all add: m_def r_def)
  have qa: "q * PAGE_SIZE = r * REGION_SIZE + m * PAGE_SIZE" by (simp add: q(1) add_mult_distrib)
  have ma: "m * PAGE_SIZE < REGION_SIZE" "m * PAGE_SIZE + 1 < REGION_SIZE" using q(2) by simp_all
  show "q * PAGE_SIZE div REGION_SIZE = r" using ma unfolding qa by simp
  have md: "q * PAGE_SIZE mod REGION_SIZE = m * PAGE_SIZE" using ma unfolding qa by simp
  show "align_down (q * PAGE_SIZE) REGION_SIZE = r * REGION_SIZE" unfolding align_down_def md unfolding qa by simp
  have mu: "(q * PAGE_SIZE + 1) mod REGION_SIZE = m * PAGE_SIZE + 1" using ma unfolding qa by (simp add: add.assoc)
  have up: "align_up (q * PAGE_SIZE + 1) REGION_SIZE = ((r + 1) * REGION_PAGES) * PAGE_SIZE"
    unfolding align_up_def Let_def mu unfolding qa by simp
  show "min (e * PAGE_SIZE) (align_up (q * PAGE_SIZE + 1) REGION_SIZE) = c * PAGE_SIZE"
    unfolding up c_def by (simp only: nat_mult_min_left)
  have shift: "(k * PAGE_SIZE - r * REGION_SIZE) div PAGE_SIZE = k - r * REGION_PAGES" for k
  proof -
    have "k * PAGE_SIZE - r * REGION_SIZE = (k - r * REGION_PAGES) * PAGE_SIZE" by (simp add: diff_mult_distrib)
    then show ?thesis by simp
  qed
  show "(q * PAGE_SIZE - r * REGION_SIZE) div PAGE_SIZE = q - r * REGION_PAGES"
    "(c * PAGE_SIZE - r * REGION_SIZE) div PAGE_SIZE = c - r * REGION_PAGES" by (rule shift)+
  show "r * REGION_PAGES \<le> q" "q < c" "c \<le> e" "c \<le> r * REGION_PAGES + REGION_PAGES"
    using assms(1) q by (simp_all add: c_def)
qed

lemma update_chunks_watches:
  assumes host: "\<forall>c. host c" and e: "e * PAGE_SIZE \<le> ADDRESS_SIZE"
  shows "\<lbrakk>pages_ok pm; host_follows pm h\<rbrakk>
    \<Longrightarrow> watches track is_read {q..<e} pm h (update_chunks host track is_read (q * PAGE_SIZE) (e * PAGE_SIZE) pm)"
proof (induction "e - q" arbitrary: q pm h rule: less_induct)
  case less
  show ?case
  proof (cases "q < e")
    case False
    then show ?thesis
      using less.prems by (intro watches_some [of _ _ _ _ _ pm "[]"]) (simp_all add: update_chunks.simps)
  next
    case True
    define r where "r = q div REGION_PAGES"
    define c where "c = min e ((r + 1) * REGION_PAGES)"
    note A = chunk_arith [OF True, folded r_def, folded c_def]
    have lt: "q * PAGE_SIZE < e * PAGE_SIZE" using True by simp
    define v where "v = q * PAGE_SIZE"
    have v: "v < ADDRESS_SIZE" "v div PAGE_SIZE = q" "v div REGION_SIZE = r" using lt e A(1) by (simp_all add: v_def)
    note step = update_chunks.simps [of host track is_read "q * PAGE_SIZE" "e * PAGE_SIZE" pm, unfolded Let_def
        A(2,3), unfolded A(1,4,5), folded v_def]
    have vlt: "v < e * PAGE_SIZE" using lt by (simp only: v_def)
    show ?thesis
    proof (cases "watched_region track v pm")
      case None
      have "update_chunks host track is_read v (e * PAGE_SIZE) pm = None"
        unfolding step if_P [OF vlt] None option.case ..
      then show ?thesis
        using watched_region_none [OF None v(1), of is_read] True
        by (intro watches_none [of q]) (simp_all add: v(2) flip: v_def)
    next
      case (Some region)
      define res where "res = update_region_watchers host track is_read region (r * REGION_SIZE)
        (q - r * REGION_PAGES) (c - r * REGION_PAGES) None"
      have "watches track is_read (region_pages r (q - r * REGION_PAGES) (c - r * REGION_PAGES) None) pm h
          (map_option (\<lambda>(region', calls). (pm(r \<mapsto> region'), calls)) res)"
        by (rule region_update_watches [OF less.prems(1) host less.prems(2) _ _ watched_region_some [OF less.prems(1) Some v(3)]])
          (use A(6-9) in \<open>simp_all add: res_def\<close>)
      moreover have "region_pages r (q - r * REGION_PAGES) (c - r * REGION_PAGES) None = {q..<c}"
      proof (rule set_eqI)
        fix P
        have "P \<in> region_pages r (q - r * REGION_PAGES) (c - r * REGION_PAGES) None
            \<longleftrightarrow> (\<exists>j. q - r * REGION_PAGES \<le> j \<and> j < c - r * REGION_PAGES \<and> P = r * REGION_PAGES + j)"
          by (simp add: region_pages_def mask_selects_def)
        also have "\<dots> \<longleftrightarrow> q \<le> P \<and> P < c"
        proof
          assume P: "q \<le> P \<and> P < c"
          then show "\<exists>j. q - r * REGION_PAGES \<le> j \<and> j < c - r * REGION_PAGES \<and> P = r * REGION_PAGES + j"
            using A(6) by (intro exI [of _ "P - r * REGION_PAGES"]) linarith
        qed (use A(6) in linarith)
        finally show "P \<in> region_pages r (q - r * REGION_PAGES) (c - r * REGION_PAGES) None \<longleftrightarrow> P \<in> {q..<c}" by simp
      qed
      ultimately have one: "watches track is_read {q..<c} pm h (map_option (\<lambda>(region', calls). (pm(r \<mapsto> region'), calls)) res)"
        by simp
      have rec: "update_chunks host track is_read v (e * PAGE_SIZE) pm = (case res of None \<Rightarrow> None
        | Some (region', calls) \<Rightarrow> map_option (\<lambda>(pm', calls'). (pm', calls @ calls'))
            (update_chunks host track is_read (c * PAGE_SIZE) (e * PAGE_SIZE) (pm(r \<mapsto> region'))))"
        unfolding step if_P [OF vlt] Some option.case v(3) res_def ..
      have split: "{q..<e} = {q..<c} \<union> {c..<e}" "{q..<c} \<inter> {c..<e} = {}" using A(7,8) by auto
      show ?thesis
      proof (cases res)
        case None
        from one show ?thesis
        proof (cases rule: watchesE)
          case (1 P)
          then show ?thesis using None rec split by (intro watches_none [of P]) (simp_all flip: v_def)
        qed (simp add: None)
      next
        case (Some y)
        obtain region' calls where y: "y = (region', calls)" by force
        have one': "watches track is_read {q..<c} pm h (Some (pm(r \<mapsto> region'), calls))" using one by (simp add: Some y)
        have ok: "pages_ok (pm(r \<mapsto> region'))" "host_follows (pm(r \<mapsto> region')) (protect_effect calls h)"
          using one' by (cases rule: watchesE; simp)+
        have "e - c < e - q" using A(7) True by simp
        from watches_seq [OF one' less.hyps [OF this ok] split(2)]
        show ?thesis unfolding split(1) v_def [symmetric] rec Some y by simp
      qed
    qed
  qed
qed


subsection \<open>Ranges and masks\<close>

text \<open>The pages that lie in the guest's memory as a whole.\<close>

definition page_valid :: "nat \<Rightarrow> bool" where
  "page_valid P \<longleftrightarrow> guest_range_valid (P * PAGE_SIZE) PAGE_SIZE"

lemma page_valid_iff: "page_valid P \<longleftrightarrow> 0 < P \<and> P < 268435456 \<or> 2147483648 \<le> P \<and> P < 2281701376"
  unfolding page_valid_def guest_range_valid_def by (simp split: if_splits) linarith

lemma page_ceiling: "align_up w PAGE_SIZE = (w + 4095) div PAGE_SIZE * PAGE_SIZE"
proof -
  define q m where "q = w div PAGE_SIZE" and "m = w mod PAGE_SIZE"
  have w: "w = q * PAGE_SIZE + m" "m < PAGE_SIZE" by (simp_all add: q_def m_def)
  have mod: "w mod PAGE_SIZE = m" by (simp add: m_def)
  have "(m + 4095) div PAGE_SIZE = (if m = 0 then 0 else 1)"
    using w(2) by (auto intro: div_nat_eqI)
  then have "(w + 4095) div PAGE_SIZE = (if m = 0 then q else q + 1)"
    unfolding w(1) by (simp add: add.assoc)
  then show ?thesis unfolding align_up_def Let_def mod using w(1) by simp
qed

lemma page_floor: "align_down v PAGE_SIZE = v div PAGE_SIZE * PAGE_SIZE"
  by (simp add: align_down_def minus_mod_eq_div_mult)

lemma page_span_valid:
  assumes "guest_range_valid v n" and "PAGE_SIZE \<le> v" and "P \<in> page_span v n"
  shows "page_valid P"
proof -
  have P: "v div PAGE_SIZE \<le> P" "P < (v + n + 4095) div PAGE_SIZE" using assms(3) by (simp_all add: page_span_def)
  have lo: "c \<le> v \<Longrightarrow> c div PAGE_SIZE \<le> P" for c using div_le_mono [of c v PAGE_SIZE] P(1) by simp
  have hi: "v + n \<le> c * PAGE_SIZE \<Longrightarrow> P < c" for c
  proof -
    assume "v + n \<le> c * PAGE_SIZE"
    then have "v + n + 4095 < (c + 1) * PAGE_SIZE" by simp
    then have "(v + n + 4095) div PAGE_SIZE < c + 1" by (simp only: div_less_iff_less_mult)
    then show "P < c" using P(2) by simp
  qed
  show ?thesis
    using assms(1,2) lo [of PAGE_SIZE] lo [of EXTENDED_BASE] hi [of 268435456] hi [of 2281701376]
    unfolding page_valid_iff guest_range_valid_def by (auto split: if_splits)
qed

lemma mask_run_valid:
  assumes "a < b" and "\<And>P. \<lbrakk>a \<le> P; P < b\<rbrakk> \<Longrightarrow> page_valid P"
  shows "guest_range_valid (a * PAGE_SIZE) ((b - a) * PAGE_SIZE)"
proof -
  have a: "page_valid a" and b: "page_valid (b - 1)" using assms by simp_all
  have n: "\<not> (a \<le> 268435456 \<and> 268435456 < b)" using assms(2) [of 268435456] by (auto simp: page_valid_iff)
  show ?thesis using a b n assms(1) unfolding page_valid_iff guest_range_valid_def by auto
qed

lemma update_page_watchers_watches:
  assumes host: "\<forall>c. host c" and valid: "guest_range_valid v n" and ok: "pages_ok pm" "host_follows pm h"
  shows "watches track is_read (page_span v n) pm h (update_page_watchers host track is_read v n pm)"
proof -
  have "v + n \<le> ADDRESS_SIZE" using valid by (auto simp: guest_range_valid_def split: if_splits)
  then have "v + n + 4095 < (4294967296 + 1) * PAGE_SIZE" by simp
  then have "(v + n + 4095) div PAGE_SIZE < 4294967296 + 1" by (simp only: div_less_iff_less_mult)
  then have "(v + n + 4095) div PAGE_SIZE * PAGE_SIZE \<le> ADDRESS_SIZE" by simp
  from update_chunks_watches [OF host this ok] valid show ?thesis
    unfolding update_page_watchers_def page_floor page_ceiling page_span_def by (simp only: simp_thms if_False)
qed

text \<open>The pages a mask of the region \<open>r\<close> selects.\<close>

definition mask_pages :: "nat \<Rightarrow> bit_array \<Rightarrow> nat set" where
  "mask_pages r bits = (\<lambda>j. r * REGION_PAGES + j) ` bits_set bits"

lemma bits_set_runs:
  assumes "length bits = 16" and "bits_set bits \<noteq> {}"
  obtains a b c d where "first_range bits = (a, b)" "last_range bits = (c, d)" "a < b" "b \<le> d" "d \<le> REGION_PAGES"
    "bits_set bits \<subseteq> {a..<d}" "{a..<b} \<subseteq> bits_set bits" "b \<notin> bits_set bits" "a \<in> bits_set bits"
proof -
  obtain a b where f: "first_range bits = (a, b)" by force
  obtain c d where l: "last_range bits = (c, d)" by force
  have n: "array_bits bits = REGION_PAGES" using assms(1) by (simp add: array_bits_def)
  have below: "i < REGION_PAGES" if "i \<in> bits_set bits" for i using that n by (simp add: bits_set_def)
  have F: "a < b" "b \<le> REGION_PAGES" "{a..<b} \<subseteq> bits_set bits" "bits_set bits \<inter> {0..<a} = {}" "b \<notin> bits_set bits"
    using first_range_correct [of bits 0] f assms(2) n by (auto simp: first_range_def is_first_range_def)
  have "bits \<noteq> []" using assms(1) by auto
  then have L: "c < d" "d \<le> REGION_PAGES" "{c..<d} \<subseteq> bits_set bits" "bits_set bits \<inter> {d..<REGION_PAGES} = {}"
    using last_range_correct [of bits "array_bits bits"] l assms(2) below n
    by (auto simp: last_range_def is_last_range_def split: if_splits)
  have sub: "bits_set bits \<subseteq> {a..<d}"
  proof
    fix i
    assume i: "i \<in> bits_set bits"
    have "i \<notin> {0..<a}" "i \<notin> {d..<REGION_PAGES}" using i F(4) L(4) by blast+
    then show "i \<in> {a..<d}" using below [OF i] by auto
  qed
  have "b - 1 \<in> {a..<b}" using F(1) by auto
  then have "b - 1 \<in> {a..<d}" using F(3) sub by blast
  then have "b \<le> d" using F(1) by auto
  moreover have "a \<in> bits_set bits" using F(1,3) by auto
  ultimately show thesis using that [OF f l F(1)] L(2) sub F(3,5) by blast
qed

lemma update_watchers_for_region_watches:
  assumes host: "\<forall>c. host c" and ok: "pages_ok pm" "host_follows pm h"
    and bits: "length bits = 16" "bits_set bits \<noteq> {}" and valid: "\<And>P. P \<in> mask_pages r bits \<Longrightarrow> page_valid P"
  shows "watches track is_read (mask_pages r bits) pm h (update_watchers_for_region host track is_read (r * REGION_SIZE) bits pm)"
proof -
  obtain a b c d where R: "first_range bits = (a, b)" "last_range bits = (c, d)" "a < b" "b \<le> d" "d \<le> REGION_PAGES"
    "bits_set bits \<subseteq> {a..<d}" "{a..<b} \<subseteq> bits_set bits" "b \<notin> bits_set bits" "a \<in> bits_set bits"
    by (rule bits_set_runs [OF bits])
  have n: "array_bits bits = REGION_PAGES" using bits(1) by (simp add: array_bits_def)
  have aP: "r * REGION_PAGES + a \<in> mask_pages r bits" using R(9) by (simp add: mask_pages_def)
  have "r * REGION_PAGES + a < 2281701376" using valid [OF aP] unfolding page_valid_iff by linarith
  then have r: "r < 4194304" by simp
  then have base: "\<not> (r * REGION_SIZE mod REGION_SIZE \<noteq> 0 \<or> r * REGION_SIZE \<ge> ADDRESS_SIZE
      \<or> REGION_SIZE > ADDRESS_SIZE - r * REGION_SIZE)" by simp
  have a: "fst (first_range bits) \<noteq> REGION_PAGES" using R(1,3-5) by simp
  note D = update_watchers_for_region_def [of host track is_read "r * REGION_SIZE" bits pm, unfolded if_not_P [OF base]
      Let_def if_not_P [OF a], unfolded R(1,2) fst_conv snd_conv]
  show ?thesis
  proof (cases "b = d")
    case True
    have set: "bits_set bits = {a..<d}" using R(6,7) True by blast
    have pages: "mask_pages r bits = {r * REGION_PAGES + a..<r * REGION_PAGES + d}"
      unfolding mask_pages_def set by (simp only: image_add_atLeastLessThan add.commute)
    have addr: "r * REGION_SIZE + a * PAGE_SIZE = (r * REGION_PAGES + a) * PAGE_SIZE"
      "d - a = (r * REGION_PAGES + d) - (r * REGION_PAGES + a)" by simp_all
    have lt: "r * REGION_PAGES + a < r * REGION_PAGES + d" using R(3) True by simp
    have gv: "guest_range_valid ((r * REGION_PAGES + a) * PAGE_SIZE)
        ((r * REGION_PAGES + d - (r * REGION_PAGES + a)) * PAGE_SIZE)"
      by (rule mask_run_valid [OF lt]) (rule valid, simp add: pages)
    have span: "page_span (A * PAGE_SIZE) ((B - A) * PAGE_SIZE) = {A..<B}" if "A < B" for A B
    proof -
      have "A * PAGE_SIZE + (B - A) * PAGE_SIZE = B * PAGE_SIZE" using that by (simp flip: add_mult_distrib)
      then show ?thesis by (simp add: page_span_def)
    qed
    show ?thesis unfolding D if_P [OF True] addr pages span [OF lt, symmetric]
      by (rule update_page_watchers_watches [OF host gv ok])
  next
    case False
    have "region_pages r a d (Some bits) = mask_pages r bits"
    proof -
      have "a \<le> j \<and> j < d \<and> ba_get bits j \<longleftrightarrow> j \<in> bits_set bits" for j
        using R(5,6) ba_get_iff [of j bits] n by auto
      then show ?thesis by (auto simp: region_pages_def mask_selects_def mask_pages_def)
    qed
    note pages = this
    have div: "r * REGION_SIZE div REGION_SIZE = r" by simp
    show ?thesis
    proof (cases "watched_region track (r * REGION_SIZE) pm")
      case None
      have "\<not> track" "pm r = None" using None r
        by (auto simp: watched_region_def find_region_def split: if_splits)
      moreover have "(r * REGION_PAGES + a) div REGION_PAGES = r" using R(3-5) by simp
      ultimately have "bump track is_read (page_at pm (r * REGION_PAGES + a)) = None"
        using bump_fresh by (simp add: page_at_def)
      then show ?thesis using aP by (intro watches_none [of "r * REGION_PAGES + a"]) (simp_all add: D False None)
    next
      case (Some region)
      have "watches track is_read (region_pages r a d (Some bits)) pm h
          (map_option (\<lambda>(region', calls). (pm(r \<mapsto> region'), calls))
            (update_region_watchers host track is_read region (r * REGION_SIZE) a d (Some bits)))"
        by (rule region_update_watches [OF ok(1) host ok(2) _ _ watched_region_some [OF ok(1) Some div]]) (use R(3-5) in simp_all)
      then show ?thesis unfolding D if_not_P [OF False] Some option.case div pages .
    qed
  qed
qed

end
