(* ===== verification/PageManagerTheorems.thy ===== *)
theory PageManagerTheorems
  imports PageManagerFacts
begin

text \<open>
  Sequences of calls of the page manager: the counts of the pages decide alone whether a call ends the
  program and what the host's protections are.
\<close>

text \<open>\<open>UpdatePageWatchers\<close> and \<open>UpdatePageWatchersForRegion\<close>, the latter on the region of an index.\<close>

datatype page_op =
  Pages bool bool u64 u64
  | Masked bool bool nat bit_array

primrec page_exec :: "protector \<Rightarrow> page_op \<Rightarrow> page_manager \<Rightarrow> (page_manager \<times> protect_call list) option" where
  "page_exec host (Pages track is_read v n) pm = update_page_watchers host track is_read v n pm"
| "page_exec host (Masked track is_read r bits) pm = update_watchers_for_region host track is_read (r * REGION_SIZE) bits pm"

fun page_run :: "protector \<Rightarrow> page_op list \<Rightarrow> page_manager \<Rightarrow> (page_manager \<times> protect_call list) option" where
  "page_run host [] pm = Some (pm, [])"
| "page_run host (c # cs) pm =
     (case page_exec host c pm of
        None \<Rightarrow> None
      | Some (pm', calls) \<Rightarrow> map_option (\<lambda>(pm'', calls'). (pm'', calls @ calls')) (page_run host cs pm'))"

text \<open>Their use as intended: a range of the guest's memory, a mask with some page, all pages of it valid.\<close>

primrec page_op_ok :: "page_op \<Rightarrow> bool" where
  "page_op_ok (Pages track is_read v n) \<longleftrightarrow> guest_range_valid v n"
| "page_op_ok (Masked track is_read r bits) \<longleftrightarrow>
     length bits = 16 \<and> bits_set bits \<noteq> {} \<and> (\<forall>P\<in>mask_pages r bits. page_valid P)"

text \<open>The pages a call is about, and what it does to the counts of every page.\<close>

primrec op_pages :: "page_op \<Rightarrow> nat set" where
  "op_pages (Pages track is_read v n) = page_span v n"
| "op_pages (Masked track is_read r bits) = mask_pages r bits"

primrec op_bump :: "page_op \<Rightarrow> page_state \<Rightarrow> page_state option" where
  "op_bump (Pages track is_read v n) = bump track is_read"
| "op_bump (Masked track is_read r bits) = bump track is_read"

fun counts_run :: "page_op list \<Rightarrow> (nat \<Rightarrow> page_state) \<Rightarrow> (nat \<Rightarrow> page_state) option" where
  "counts_run [] f = Some f"
| "counts_run (c # cs) f =
     (if \<exists>P\<in>op_pages c. op_bump c (f P) = None then None
      else counts_run cs (\<lambda>P. if P \<in> op_pages c then the (op_bump c (f P)) else f P))"

lemma page_exec_watches:
  assumes "\<forall>c. host c" and "page_op_ok c" and "pages_ok pm" and "host_follows pm h"
  shows "(\<exists>P\<in>op_pages c. op_bump c (page_at pm P) = None) \<and> page_exec host c pm = None
    \<or> (\<forall>P\<in>op_pages c. op_bump c (page_at pm P) \<noteq> None)
      \<and> (\<exists>pm' calls. page_exec host c pm = Some (pm', calls) \<and> pages_ok pm' \<and> host_follows pm' (protect_effect calls h)
          \<and> (\<forall>P. page_at pm' P = (if P \<in> op_pages c then the (op_bump c (page_at pm P)) else page_at pm P)))"
proof (cases c)
  case (Pages track is_read v n)
  have "watches track is_read (page_span v n) pm h (update_page_watchers host track is_read v n pm)"
    by (rule update_page_watchers_watches [OF assms(1) _ assms(3,4)]) (use assms(2) Pages in simp)
  then show ?thesis unfolding watches_def Pages op_pages.simps op_bump.simps page_exec.simps .
next
  case (Masked track is_read r bits)
  have "watches track is_read (mask_pages r bits) pm h (update_watchers_for_region host track is_read (r * REGION_SIZE) bits pm)"
    by (rule update_watchers_for_region_watches [OF assms(1,3,4)]) (use assms(2) Masked in simp_all)
  then show ?thesis unfolding watches_def Masked op_pages.simps op_bump.simps page_exec.simps .
qed

lemma page_run_ok:
  assumes "\<forall>c. host c" and "\<forall>c\<in>set cs. page_op_ok c" and "pages_ok pm" and "host_follows pm h"
  shows "case counts_run cs (page_at pm) of
      None \<Rightarrow> page_run host cs pm = None
    | Some f \<Rightarrow> \<exists>pm' calls. page_run host cs pm = Some (pm', calls) \<and> pages_ok pm' \<and> page_at pm' = f
        \<and> host_follows pm' (protect_effect calls h)"
  using assms(2-)
proof (induction cs arbitrary: pm h)
  case (Cons c cs)
  from page_exec_watches [OF assms(1) _ Cons.prems(2,3), of c] Cons.prems(1) consider
      P where "P \<in> op_pages c" "op_bump c (page_at pm P) = None" "page_exec host c pm = None"
    | pm1 calls1 where "\<forall>P\<in>op_pages c. op_bump c (page_at pm P) \<noteq> None" "page_exec host c pm = Some (pm1, calls1)"
      "pages_ok pm1" "host_follows pm1 (protect_effect calls1 h)"
      "\<forall>P. page_at pm1 P = (if P \<in> op_pages c then the (op_bump c (page_at pm P)) else page_at pm P)"
    by fastforce
  then show ?case
  proof cases
    case 1
    then show ?thesis by auto
  next
    case 2
    have f: "(\<lambda>P. if P \<in> op_pages c then the (op_bump c (page_at pm P)) else page_at pm P) = page_at pm1" using 2(5) by auto
    have ok: "\<not> (\<exists>P\<in>op_pages c. op_bump c (page_at pm P) = None)" using 2(1) by blast
    from Cons.IH [OF _ 2(3,4)] Cons.prems(1) show ?thesis
      by (cases "counts_run cs (page_at pm1)") (auto simp: ok f 2(2))
  qed
qed simp

text \<open>
  C40. The counts of the pages alone decide what the page manager does.  Any sequence of calls on ranges and on
  masks, from no regions, ends the program exactly if a count would leave its field (a second access watcher,
  128 write watchers, or taking one from a page that has none); else every page has exactly the counts the
  calls add up to, and the calls to the host leave every address with the protection of its page's counts.
\<close>

theorem page_protection_follows:
  assumes "\<forall>c. host c" and "\<forall>c\<in>set cs. page_op_ok c"
  shows "case counts_run cs (\<lambda>_. unwatched_page) of
      None \<Rightarrow> page_run host cs (\<lambda>_. None) = None
    | Some f \<Rightarrow> \<exists>pm calls. page_run host cs (\<lambda>_. None) = Some (pm, calls) \<and> page_at pm = f
        \<and> (\<forall>a. protect_effect calls (\<lambda>_. ReadWrite) a = perms (f (a div PAGE_SIZE)))
        \<and> (\<forall>P. write_watchers (f P) \<le> 127 \<and> access_watchers (f P) \<le> 1)"
proof -
  have p: "page_at (\<lambda>_. None) = (\<lambda>_. unwatched_page)" by (simp add: page_at_def fun_eq_iff)
  have "pages_ok (\<lambda>_. None)" "host_follows (\<lambda>_. None) (\<lambda>_. ReadWrite)" by (simp_all add: pages_ok_def host_follows_def p)
  from page_run_ok [OF assms this] show ?thesis
  proof (cases "counts_run cs (\<lambda>_. unwatched_page)")
    case (Some f)
    then obtain pm calls where r: "page_run host cs (\<lambda>_. None) = Some (pm, calls)" "pages_ok pm" "page_at pm = f"
      "host_follows pm (protect_effect calls (\<lambda>_. ReadWrite))"
      using page_run_ok [OF assms \<open>pages_ok (\<lambda>_. None)\<close> \<open>host_follows (\<lambda>_. None) (\<lambda>_. ReadWrite)\<close>] p by auto
    have "page_ok (f P)" for P using page_at_ok [OF r(2), of P] r(3) by simp
    then show ?thesis using Some r(1,3,4) by (simp add: host_follows_def page_ok_def)
  qed (simp add: p)
qed

lemma page_protection_follows_witness:
  "\<exists>pm calls. page_run (\<lambda>_. True) [Pages True False 8192 8192, Masked True True 0 (set_range (set_range (replicate 16 0) 3 4) 6 7)]
       (\<lambda>_. None) = Some (pm, calls)
     \<and> protect_effect calls (\<lambda>_. ReadWrite) 8200 = MRead \<and> protect_effect calls (\<lambda>_. ReadWrite) 12300 = NoAccess
     \<and> protect_effect calls (\<lambda>_. ReadWrite) 20000 = ReadWrite"
proof -
  define bits where "bits = set_range (set_range (replicate 16 0) 3 4) 6 7"
  define cs where "cs = [Pages True False 8192 8192, Masked True True 0 bits]"
  have none: "bits_set (replicate 16 0) = {}" using ba_clear_bits [of "replicate 16 0"] by (simp add: ba_clear_def)
  have bits: "length bits = 16" "bits_set bits = {3, 6}"
    by (simp_all add: bits_def set_range_bits array_bits_def none) auto
  have span: "page_span 8192 8192 = {2, 3}" "mask_pages 0 bits = {3, 6}" by (auto simp: page_span_def mask_pages_def bits)
  have ok: "\<forall>c\<in>set cs. page_op_ok c" by (simp add: cs_def bits span guest_range_valid_def page_valid_def)
  have "counts_run cs (\<lambda>_. unwatched_page) \<noteq> None" "\<And>f. counts_run cs (\<lambda>_. unwatched_page) = Some f \<Longrightarrow>
      perms (f 2) = MRead \<and> perms (f 3) = NoAccess \<and> perms (f 4) = ReadWrite"
    by (auto simp: cs_def span bump_simps unwatched_page_def perms_def)
  then show ?thesis
    using page_protection_follows [of "\<lambda>_. True" cs, OF _ ok] unfolding cs_def [symmetric] bits_def [symmetric]
    by (cases "counts_run cs (\<lambda>_. unwatched_page)") auto
qed

end
