(* ===== verification/RegionManager.thy ===== *)
theory RegionManager
  imports PageManager
begin

text \<open>
  The class \<open>RegionManager\<close> of src/graphics/host_gpu/regionManager.h: for the pages of one region of 4 MiB,
  which the CPU and which the GPU has modified, and the protections last asked for.  The page manager it
  refers to and its answers are passed along; \<open>None\<close> is an \<open>EXIT\<close> or a fatal error of the page manager.  The
  owner holds the region's lock during each operation.
\<close>

datatype dirty_source = FromCpu | FromGpu

record region_manager =
  rg_addr :: u64
  rg_cpu_dirty :: bit_array
  rg_gpu_dirty :: bit_array
  rg_writable :: bit_array
  rg_readable :: bit_array

abbreviation no_bits :: bit_array where
  "no_bits \<equiv> replicate 16 0"

definition region_init :: "u64 \<Rightarrow> region_manager option" where
  "region_init cpu_addr =
     (if cpu_addr mod REGION_SIZE \<noteq> 0 then None
      else Some \<lparr>rg_addr = cpu_addr, rg_cpu_dirty = ba_fill no_bits, rg_gpu_dirty = no_bits,
                 rg_writable = ba_fill no_bits, rg_readable = ba_fill no_bits\<rparr>)"

definition get_page_range :: "region_manager \<Rightarrow> u64 \<Rightarrow> u64 \<Rightarrow> (nat \<times> nat) option" where
  "get_page_range rg vaddr sz =
     (if sz = 0 \<or> vaddr < rg_addr rg \<or> vaddr \<ge> rg_addr rg + REGION_SIZE \<or> sz > rg_addr rg + REGION_SIZE - vaddr
      then None
      else (let offset = vaddr - rg_addr rg
            in Some (offset div PAGE_SIZE, (offset + sz + PAGE_SIZE - 1) div PAGE_SIZE)))"

fun get_bits :: "dirty_source \<Rightarrow> region_manager \<Rightarrow> bit_array" where
  "get_bits FromCpu rg = rg_cpu_dirty rg"
| "get_bits FromGpu rg = rg_gpu_dirty rg"

fun set_bits :: "dirty_source \<Rightarrow> bit_array \<Rightarrow> region_manager \<Rightarrow> region_manager" where
  "set_bits FromCpu d rg = rg\<lparr>rg_cpu_dirty := d\<rparr>"
| "set_bits FromGpu d rg = rg\<lparr>rg_gpu_dirty := d\<rparr>"

definition is_modified :: "dirty_source \<Rightarrow> u64 \<Rightarrow> u64 \<Rightarrow> region_manager \<Rightarrow> bool option" where
  "is_modified source offset sz rg =
     map_option (\<lambda>(start, end). fst (first_range_from (get_bits source rg) start) < end)
       (get_page_range rg (rg_addr rg + offset) sz)"

definition update_protection :: "protector \<Rightarrow> bool \<Rightarrow> bool \<Rightarrow> region_manager \<Rightarrow> page_manager
    \<Rightarrow> (region_manager \<times> page_manager \<times> protect_call list) option" where
  "update_protection host track is_read rg pm =
     (let protection = (if is_read then ba_not (rg_gpu_dirty rg) else rg_cpu_dirty rg);
          previous = (if is_read then rg_readable rg else rg_writable rg);
          changed = ba_xor protection previous
      in if ba_none changed then Some (rg, pm, [])
         else (let rg' = (if is_read then rg\<lparr>rg_readable := protection\<rparr> else rg\<lparr>rg_writable := protection\<rparr>)
               in map_option (\<lambda>(pm', calls). (rg', pm', calls))
                    (update_watchers_for_region host track is_read (rg_addr rg) changed pm)))"

definition change_state :: "protector \<Rightarrow> dirty_source \<Rightarrow> bool \<Rightarrow> u64 \<Rightarrow> u64 \<Rightarrow> region_manager \<Rightarrow> page_manager
    \<Rightarrow> (region_manager \<times> page_manager \<times> protect_call list) option" where
  "change_state host source enable vaddr sz rg pm =
     (case get_page_range rg vaddr sz of
        None \<Rightarrow> None
      | Some (start, end) \<Rightarrow>
          if source = FromCpu \<and> enable \<and> ba_any (ba_copy (rg_gpu_dirty rg) start end) then None
          else if source = FromGpu \<and> enable \<and> ba_any (ba_copy (rg_cpu_dirty rg) start end) then None
          else (let bits = get_bits source rg;
                    rg1 = set_bits source (if enable then set_range bits start end else unset_range bits start end) rg
                in if source = FromCpu then update_protection host (\<not> enable) False rg1 pm
                   else update_protection host enable True rg1 pm))"

text \<open>The function the caller passes gets one call for each modified range: the list of its arguments.\<close>

definition for_each_modified :: "protector \<Rightarrow> dirty_source \<Rightarrow> bool \<Rightarrow> u64 \<Rightarrow> u64 \<Rightarrow> region_manager \<Rightarrow> page_manager
    \<Rightarrow> ((u64 \<times> u64) list \<times> region_manager \<times> page_manager \<times> protect_call list) option" where
  "for_each_modified host source clear vaddr sz rg pm =
     (case get_page_range rg vaddr sz of
        None \<Rightarrow> None
      | Some (start, end) \<Rightarrow>
          (let bits = get_bits source rg in
           if fst (first_range_from bits start) \<ge> end then Some ([], rg, pm, [])
           else (let modified = ba_copy bits start end in
                 case (if \<not> clear then Some (rg, pm, [])
                       else (let rg1 = set_bits source (unset_range bits start end) rg
                             in if source = FromCpu then update_protection host True False rg1 pm
                                else update_protection host False True rg1 pm)) of
                   None \<Rightarrow> None
                 | Some (rg', pm', calls) \<Rightarrow>
                     map_option (\<lambda>rs. (map (\<lambda>(first, stop). (rg_addr rg + first * PAGE_SIZE, (stop - first) * PAGE_SIZE)) rs,
                                       rg', pm', calls))
                       (ba_ranges modified))))"

end
