(* ===== verification/MemoryTracker.thy ===== *)
theory MemoryTracker
  imports RegionManager RangeSet
begin

text \<open>
  The class \<open>MemoryTracker\<close> of src/graphics/host_gpu/memoryTracker.h and memoryTracker.cpp: region managers
  by index, created on demand, over one page manager, and the set of ranges whose device addresses must be
  synchronised.  The state holds the page manager and the list of all protection calls made so far; the
  flag says that the thread is between the two halves of an upload.  The loop \<open>Iterate\<close> passes a value of
  the caller along (what the caller's function collects).  \<open>None\<close> is an \<open>EXIT\<close> or a fatal error.
\<close>

record tracker =
  tr_regions :: "nat \<Rightarrow> region_manager option"
  tr_bda :: "u64 omap"
  tr_upload :: bool
  tr_pm :: page_manager
  tr_calls :: "protect_call list"

definition tracker_init :: "page_manager \<Rightarrow> tracker" where
  "tracker_init pm = \<lparr>tr_regions = (\<lambda>_. None), tr_bda = rs_clear, tr_upload = False, tr_pm = pm, tr_calls = []\<rparr>"

definition store_region :: "nat \<Rightarrow> region_manager \<Rightarrow> page_manager \<Rightarrow> protect_call list \<Rightarrow> tracker \<Rightarrow> tracker" where
  "store_region index rg pm calls s =
     s\<lparr>tr_regions := (tr_regions s)(index \<mapsto> rg), tr_pm := pm, tr_calls := tr_calls s @ calls\<rparr>"

definition tracker_create :: "nat \<Rightarrow> tracker \<Rightarrow> tracker option" where
  "tracker_create index s =
     (case tr_regions s index of
        Some _ \<Rightarrow> Some s
      | None \<Rightarrow> map_option (\<lambda>rg. s\<lparr>tr_regions := (tr_regions s)(index \<mapsto> rg)\<rparr>) (region_init (index * REGION_SIZE)))"

type_synonym 'a tracker_body = "nat \<Rightarrow> region_manager \<Rightarrow> u64 \<Rightarrow> u64 \<Rightarrow> tracker \<times> 'a \<Rightarrow> (bool \<times> tracker \<times> 'a) option"

definition visit_region :: "bool \<Rightarrow> 'a tracker_body \<Rightarrow> nat \<Rightarrow> u64 \<Rightarrow> u64 \<Rightarrow> tracker \<times> 'a \<Rightarrow> (bool \<times> tracker \<times> 'a) option" where
  "visit_region create body index offset bytes = (\<lambda>(s, a).
     case (if create then tracker_create index s else Some s) of
       None \<Rightarrow> None
     | Some s1 \<Rightarrow> (case tr_regions s1 index of
                     None \<Rightarrow> Some (False, s1, a)
                   | Some rg \<Rightarrow> body index rg offset bytes (s1, a)))"

partial_function (option) iterate_regions :: "bool \<Rightarrow> 'a tracker_body \<Rightarrow> u64 \<Rightarrow> nat \<Rightarrow> u64 \<Rightarrow> tracker \<times> 'a
    \<Rightarrow> (bool \<times> tracker \<times> 'a) option" where
  "iterate_regions create body remaining index offset sa =
     (if remaining = 0 then Some (False, sa)
      else (let bytes = min (REGION_SIZE - offset) remaining in
            case visit_region create body index offset bytes sa of
              None \<Rightarrow> None
            | Some r \<Rightarrow>
                if fst r then Some r
                else iterate_regions create body (remaining - bytes) (index + 1) 0 (snd r)))"

definition tracker_iterate :: "bool \<Rightarrow> 'a tracker_body \<Rightarrow> u64 \<Rightarrow> u64 \<Rightarrow> tracker \<times> 'a \<Rightarrow> (bool \<times> tracker \<times> 'a) option" where
  "tracker_iterate create body vaddr sz sa =
     (if \<not> guest_range_valid vaddr sz then None
      else iterate_regions create body sz (vaddr div REGION_SIZE) (vaddr mod REGION_SIZE) sa)"

subsection \<open>The functions the operations pass\<close>

definition modified_body :: "dirty_source \<Rightarrow> unit tracker_body" where
  "modified_body source index rg offset bytes sa = map_option (\<lambda>m. (m, sa)) (is_modified source offset bytes rg)"

definition change_body :: "protector \<Rightarrow> dirty_source \<Rightarrow> bool \<Rightarrow> unit tracker_body" where
  "change_body host source enable index rg offset bytes = (\<lambda>(s, a).
     map_option (\<lambda>(rg', pm', calls). (False, store_region index rg' pm' calls s, a))
       (change_state host source enable (rg_addr rg + offset) bytes rg (tr_pm s)))"

definition visit_body :: "protector \<Rightarrow> dirty_source \<Rightarrow> bool \<Rightarrow> (u64 \<times> u64) list tracker_body" where
  "visit_body host source clear index rg offset bytes = (\<lambda>(s, a).
     map_option (\<lambda>(vs, rg', pm', calls). (False, store_region index rg' pm' calls s, a @ vs))
       (for_each_modified host source clear (rg_addr rg + offset) bytes rg (tr_pm s)))"

text \<open>The function of a download with \<open>clear\<close>: the visits come before the pages are cleared.\<close>

definition download_body :: "protector \<Rightarrow> bool \<Rightarrow> (u64 \<times> u64) list tracker_body" where
  "download_body host clear index rg offset bytes sa =
     (case visit_body host FromGpu False index rg offset bytes sa of
        None \<Rightarrow> None
      | Some (stop, s, a) \<Rightarrow>
          if \<not> clear then Some (stop, s, a)
          else (case tr_regions s index of
                  None \<Rightarrow> None
                | Some rg' \<Rightarrow>
                    map_option (\<lambda>(rg'', pm', calls). (False, store_region index rg'' pm' calls s, a))
                      (change_state host FromGpu False (rg_addr rg + offset) bytes rg' (tr_pm s))))"

text \<open>The function of an invalidation; the flush is the caller's and works on the tracker.\<close>

definition invalidate_body :: "protector \<Rightarrow> (tracker \<Rightarrow> tracker option) \<Rightarrow> unit tracker_body" where
  "invalidate_body host on_flush index rg offset bytes = (\<lambda>(s, a).
     case is_modified FromGpu offset bytes rg of
       None \<Rightarrow> None
     | Some True \<Rightarrow> map_option (\<lambda>s'. (False, s', a)) (on_flush s)
     | Some False \<Rightarrow> change_body host FromCpu True index rg offset bytes (s, a))"

subsection \<open>Operations\<close>

definition queue_bda_sync :: "u64 \<Rightarrow> u64 \<Rightarrow> tracker \<Rightarrow> tracker option" where
  "queue_bda_sync vaddr sz s =
     (let begin = align_down vaddr PAGE_SIZE; end = align_up (vaddr + sz) PAGE_SIZE
      in map_option (\<lambda>m. s\<lparr>tr_bda := m\<rparr>) (rs_add begin (end - begin) (tr_bda s)))"

definition take_bda_sync :: "tracker \<Rightarrow> u64 omap \<times> tracker" where
  "take_bda_sync s = (tr_bda s, s\<lparr>tr_bda := rs_clear\<rparr>)"

definition is_region_modified :: "dirty_source \<Rightarrow> u64 \<Rightarrow> u64 \<Rightarrow> tracker \<Rightarrow> (bool \<times> tracker) option" where
  "is_region_modified source vaddr sz s =
     (if tr_upload s then None
      else map_option (\<lambda>(m, s', _). (m, s')) (tracker_iterate (source = FromCpu) (modified_body source) vaddr sz (s, ())))"

definition mark_cpu_modified :: "protector \<Rightarrow> u64 \<Rightarrow> u64 \<Rightarrow> tracker \<Rightarrow> tracker option" where
  "mark_cpu_modified host vaddr sz s =
     (if tr_upload s then None
      else case tracker_iterate True (change_body host FromCpu True) vaddr sz (s, ()) of
             None \<Rightarrow> None | Some (_, s', _) \<Rightarrow> queue_bda_sync vaddr sz s')"

definition mark_gpu_modified :: "protector \<Rightarrow> u64 \<Rightarrow> u64 \<Rightarrow> tracker \<Rightarrow> tracker option" where
  "mark_gpu_modified host vaddr sz s =
     (if tr_upload s then None
      else map_option (\<lambda>(_, s', _). s') (tracker_iterate True (change_body host FromGpu True) vaddr sz (s, ())))"

definition unmark_gpu_modified :: "protector \<Rightarrow> u64 \<Rightarrow> u64 \<Rightarrow> tracker \<Rightarrow> tracker option" where
  "unmark_gpu_modified host vaddr sz s =
     (if tr_upload s then None
      else map_option (\<lambda>(_, s', _). s') (tracker_iterate False (change_body host FromGpu False) vaddr sz (s, ())))"

definition untrack_memory :: "protector \<Rightarrow> u64 \<Rightarrow> u64 \<Rightarrow> tracker \<Rightarrow> tracker option" where
  "untrack_memory host vaddr sz s =
     (if tr_upload s then None
      else case tracker_iterate False (modified_body FromGpu) vaddr sz (s, ()) of
             None \<Rightarrow> None
           | Some (dirty, s1, _) \<Rightarrow>
               if dirty then None
               else (case tracker_iterate False (change_body host FromCpu True) vaddr sz (s1, ()) of
                       None \<Rightarrow> None | Some (_, s2, _) \<Rightarrow> queue_bda_sync vaddr sz s2))"

definition invalidate_region :: "protector \<Rightarrow> (tracker \<Rightarrow> tracker option) \<Rightarrow> u64 \<Rightarrow> u64 \<Rightarrow> tracker \<Rightarrow> tracker option" where
  "invalidate_region host on_flush vaddr sz s =
     (if tr_upload s then None
      else case tracker_iterate False (invalidate_body host on_flush) vaddr sz (s, ()) of
             None \<Rightarrow> None | Some (_, s', _) \<Rightarrow> queue_bda_sync vaddr sz s')"

definition download_ranges :: "protector \<Rightarrow> bool \<Rightarrow> u64 \<Rightarrow> u64 \<Rightarrow> tracker \<Rightarrow> ((u64 \<times> u64) list \<times> tracker) option" where
  "download_ranges host clear vaddr sz s =
     (if tr_upload s then None
      else map_option (\<lambda>(_, s', vs). (vs, s')) (tracker_iterate False (download_body host clear) vaddr sz (s, [])))"

text \<open>
  \<open>ForEachUploadRange\<close> up to the call of \<open>upload_func\<close>, with the ranges handed to \<open>range_func\<close>, and from
  there on.  In between the thread may call operations of the tracker, which check the flag.
\<close>

definition upload_begin :: "protector \<Rightarrow> u64 \<Rightarrow> u64 \<Rightarrow> tracker \<Rightarrow> ((u64 \<times> u64) list \<times> tracker) option" where
  "upload_begin host vaddr sz s =
     (if tr_upload s then None
      else map_option (\<lambda>(_, s', vs). (vs, s'))
             (tracker_iterate True (visit_body host FromCpu True) vaddr sz (s\<lparr>tr_upload := True\<rparr>, [])))"

definition upload_end :: "protector \<Rightarrow> bool \<Rightarrow> u64 \<Rightarrow> u64 \<Rightarrow> tracker \<Rightarrow> tracker option" where
  "upload_end host is_written vaddr sz s =
     (if is_written
      then map_option (\<lambda>(_, s', _). s'\<lparr>tr_upload := False\<rparr>)
             (tracker_iterate False (change_body host FromGpu True) vaddr sz (s, ()))
      else Some (s\<lparr>tr_upload := False\<rparr>))"

end
