(* ===== verification/RegionManagerFacts.thy ===== *)
theory RegionManagerFacts
  imports RegionManager PageManagerFacts
begin

text \<open>
  A region manager keeps the page manager in step with what it records: a page the CPU has not modified
  has one write watcher more than others hold on it, a page the GPU has modified has the access watcher.
\<close>

subsection \<open>The page manager as the region managers see it\<close>

text \<open>
  The watchers that other clients hold (the texture cache watches the pages of its images) are a function
  of the page; \<open>cpu\<close> and \<open>gpu\<close> are the pages modified by either side.
\<close>

definition world :: "(nat \<Rightarrow> nat) \<Rightarrow> nat set \<Rightarrow> nat set \<Rightarrow> page_manager \<Rightarrow> protect_call list \<Rightarrow> bool" where
  "world others cpu gpu pm calls \<longleftrightarrow>
     pages_ok pm \<and> host_follows pm (protect_effect calls (\<lambda>_. ReadWrite))
   \<and> (\<forall>P. write_watchers (page_at pm P) = others P + of_bool (P \<notin> cpu))
   \<and> (\<forall>P. access_watchers (page_at pm P) = of_bool (P \<in> gpu))"

definition new_cpu :: "dirty_source \<Rightarrow> bool \<Rightarrow> nat set \<Rightarrow> nat set \<Rightarrow> nat set" where
  "new_cpu source enable S cpu = (if source = FromCpu then if enable then cpu \<union> S else cpu - S else cpu)"

definition new_gpu :: "dirty_source \<Rightarrow> bool \<Rightarrow> nat set \<Rightarrow> nat set \<Rightarrow> nat set" where
  "new_gpu source enable S gpu = (if source = FromGpu then if enable then gpu \<union> S else gpu - S else gpu)"

lemma new_simps [simp]:
  "new_cpu FromCpu True S cpu = cpu \<union> S" "new_cpu FromCpu False S cpu = cpu - S" "new_cpu FromGpu e S cpu = cpu"
  "new_gpu FromGpu True S cpu = cpu \<union> S" "new_gpu FromGpu False S cpu = cpu - S" "new_gpu FromCpu e S cpu = cpu"
  by (simp_all add: new_cpu_def new_gpu_def)

text \<open>Counting the pages whose record changes never finds a count at its end.\<close>

lemma bump_world:
  assumes w: "world others cpu gpu pm calls" and o: "others P < 127"
    and S: "source = FromCpu \<Longrightarrow> (P \<in> cpu) = (\<not> enable)" "source = FromGpu \<Longrightarrow> (P \<in> gpu) = (\<not> enable)"
    and t: "track = (if source = FromCpu then \<not> enable else enable)" and r: "is_read = (source = FromGpu)"
  shows "\<exists>p. bump track is_read (page_at pm P) = Some p
    \<and> write_watchers p = (if source = FromCpu then others P + of_bool (\<not> enable) else write_watchers (page_at pm P))
    \<and> access_watchers p = (if source = FromGpu then of_bool enable else access_watchers (page_at pm P))"
proof -
  have c: "write_watchers (page_at pm P) = others P + of_bool (P \<notin> cpu)" "access_watchers (page_at pm P) = of_bool (P \<in> gpu)"
    using w by (simp_all add: world_def)
  show ?thesis using c o S by (cases source; cases enable) (auto simp: t r bump_simps)
qed

lemma world_watches:
  assumes w: "world others cpu gpu pm calls" and o: "\<And>P. P \<in> S \<Longrightarrow> others P < 127"
    and S: "source = FromCpu \<Longrightarrow> (if enable then S \<inter> cpu = {} else S \<subseteq> cpu)"
      "source = FromGpu \<Longrightarrow> (if enable then S \<inter> gpu = {} else S \<subseteq> gpu)"
    and t: "track = (if source = FromCpu then \<not> enable else enable)" and r: "is_read = (source = FromGpu)"
    and res: "watches track is_read S pm (protect_effect calls (\<lambda>_. ReadWrite)) res"
  shows "\<exists>pm' calls'. res = Some (pm', calls')
    \<and> world others (new_cpu source enable S cpu) (new_gpu source enable S gpu) pm' (calls @ calls')"
proof -
  have b: "\<exists>p. bump track is_read (page_at pm P) = Some p
    \<and> write_watchers p = (if source = FromCpu then others P + of_bool (\<not> enable) else write_watchers (page_at pm P))
    \<and> access_watchers p = (if source = FromGpu then of_bool enable else access_watchers (page_at pm P))" if "P \<in> S" for P
    by (rule bump_world [OF w o [OF that] _ _ t r]) (use S that in \<open>auto split: if_splits\<close>)
  have c: "write_watchers (page_at pm P) = others P + of_bool (P \<notin> cpu)" "access_watchers (page_at pm P) = of_bool (P \<in> gpu)" for P
    using w by (simp_all add: world_def)
  from res show ?thesis
  proof (cases rule: watchesE)
    case (1 P)
    then show ?thesis using b [of P] by simp
  next
    case (2 pm' calls')
    have "write_watchers (page_at pm' P) = others P + of_bool (P \<notin> new_cpu source enable S cpu)
        \<and> access_watchers (page_at pm' P) = of_bool (P \<in> new_gpu source enable S gpu)" for P
    proof (cases "P \<in> S")
      case True
      obtain p where p: "bump track is_read (page_at pm P) = Some p"
        "write_watchers p = (if source = FromCpu then others P + of_bool (\<not> enable) else write_watchers (page_at pm P))"
        "access_watchers p = (if source = FromGpu then of_bool enable else access_watchers (page_at pm P))"
        using b [OF True] by blast
      have "page_at pm' P = p" using 2(5) [of P] True p(1) by simp
      then show ?thesis using p(2,3) c [of P] True by (cases source; cases enable) simp_all
    next
      case False
      then have "page_at pm' P = page_at pm P" using 2(5) [of P] by simp
      then show ?thesis using c [of P] False by (cases source; cases enable) simp_all
    qed
    then have "world others (new_cpu source enable S cpu) (new_gpu source enable S gpu) pm' (calls @ calls')"
      using 2(3,4) by (simp add: world_def)
    then show ?thesis using 2(2) by blast
  qed
qed

subsection \<open>One region\<close>

definition region_page :: "nat \<Rightarrow> nat \<Rightarrow> nat" where
  "region_page r j = r * REGION_PAGES + j"

text \<open>The records of a region, and that they are the parts of \<open>cpu\<close> and \<open>gpu\<close> in the region.\<close>

definition arrays_ok :: "nat \<Rightarrow> region_manager \<Rightarrow> bool" where
  "arrays_ok r rg \<longleftrightarrow> rg_addr rg = r * REGION_SIZE \<and> length (rg_cpu_dirty rg) = 16 \<and> length (rg_gpu_dirty rg) = 16
     \<and> length (rg_writable rg) = 16 \<and> length (rg_readable rg) = 16"

definition holds_part :: "nat \<Rightarrow> nat set \<Rightarrow> nat set \<Rightarrow> bool" where
  "holds_part r A B \<longleftrightarrow> (\<forall>j < REGION_PAGES. region_page r j \<in> A \<longleftrightarrow> j \<in> B)"

definition region_ok :: "nat \<Rightarrow> region_manager \<Rightarrow> nat set \<Rightarrow> nat set \<Rightarrow> bool" where
  "region_ok r rg cpu gpu \<longleftrightarrow> arrays_ok r rg
     \<and> holds_part r cpu (bits_set (rg_cpu_dirty rg)) \<and> holds_part r gpu (bits_set (rg_gpu_dirty rg))
     \<and> holds_part r cpu (bits_set (rg_writable rg)) \<and> holds_part r (- gpu) (bits_set (rg_readable rg))"

lemma bits_below: "length d = 16 \<Longrightarrow> j \<in> bits_set d \<Longrightarrow> j < REGION_PAGES"
  by (simp add: bits_set_def array_bits_def)

lemma mask_pages_alt: "mask_pages r bits = region_page r ` bits_set bits"
  by (simp add: mask_pages_def region_page_def)

lemma region_page_eq [simp]: "region_page r j = region_page r i \<longleftrightarrow> j = i"
  by (simp add: region_page_def)

lemma region_page_mem: "region_page r j \<in> region_page r ` B \<longleftrightarrow> j \<in> B"
  by auto

text \<open>The pages of a span inside a region.\<close>

lemma page_range_ok:
  assumes "arrays_ok r rg" and "r * REGION_SIZE \<le> v" and "0 < n" and "v + n \<le> r * REGION_SIZE + REGION_SIZE"
  obtains a b where "get_page_range rg v n = Some (a, b)" "a < b" "b \<le> REGION_PAGES"
    "page_span v n = region_page r ` {a..<b}"
proof -
  have A: "rg_addr rg = r * REGION_SIZE" using assms(1) by (simp add: arrays_ok_def)
  obtain x where x: "v = r * REGION_SIZE + x" using assms(2) le_Suc_ex by blast
  have n: "x + n \<le> REGION_SIZE" using assms(4) by (simp add: x)
  define a b where "a = x div PAGE_SIZE" and "b = (x + n + 4095) div PAGE_SIZE"
  have R: "r * REGION_SIZE = r * REGION_PAGES * PAGE_SIZE" by simp
  have "get_page_range rg v n = Some (a, b)"
    using assms(3) n by (simp add: get_page_range_def A x a_def b_def Let_def add.commute add.left_commute)
  moreover have "a < b"
  proof -
    have "a * PAGE_SIZE \<le> x" by (simp add: a_def)
    then have "(a + 1) * PAGE_SIZE \<le> x + n + 4095" using assms(3) by simp
    then have "a + 1 \<le> b" unfolding b_def by (simp only: less_eq_div_iff_mult_less_eq)
    then show ?thesis by simp
  qed
  moreover have "b \<le> REGION_PAGES"
  proof -
    have "x + n + 4095 < (REGION_PAGES + 1) * PAGE_SIZE" using n by simp
    then have "b < REGION_PAGES + 1" unfolding b_def by (simp only: div_less_iff_less_mult)
    then show ?thesis by simp
  qed
  moreover have "page_span v n = region_page r ` {a..<b}"
  proof -
    have "v div PAGE_SIZE = r * REGION_PAGES + a" unfolding x R a_def by simp
    moreover have "(v + n + 4095) div PAGE_SIZE = r * REGION_PAGES + b"
      unfolding x R b_def by (simp add: add.assoc)
    ultimately show ?thesis unfolding page_span_def region_page_def by (simp only: image_add_atLeastLessThan add.commute)
  qed
  ultimately show thesis by (rule that)
qed

lemma holds_part_xor:
  assumes "length d = 16" and "length e = 16" and "holds_part r X (bits_set d)" and "holds_part r Y (bits_set e)"
  shows "mask_pages r (ba_xor d e) = {P. \<exists>j < REGION_PAGES. P = region_page r j \<and> (P \<in> X) \<noteq> (P \<in> Y)}"
proof (rule set_eqI)
  fix P
  have "P \<in> mask_pages r (ba_xor d e) \<longleftrightarrow> (\<exists>j. P = region_page r j \<and> (j \<in> bits_set d) \<noteq> (j \<in> bits_set e))"
    using assms(1,2) by (auto simp: mask_pages_alt ba_xor_bits)
  also have "\<dots> \<longleftrightarrow> (\<exists>j < REGION_PAGES. P = region_page r j \<and> (P \<in> X) \<noteq> (P \<in> Y))"
    using assms bits_below [of d] bits_below [of e] unfolding holds_part_def by blast
  finally show "P \<in> mask_pages r (ba_xor d e)
      \<longleftrightarrow> P \<in> {P. \<exists>j < REGION_PAGES. P = region_page r j \<and> (P \<in> X) \<noteq> (P \<in> Y)}" by simp
qed

lemma update_protection_ok:
  assumes host: "\<forall>c. host c" and w: "world others cpu gpu pm calls" and A: "arrays_ok r rg"
    and S: "S \<subseteq> region_page r ` {..<REGION_PAGES}" "\<And>P. P \<in> S \<Longrightarrow> page_valid P" "\<And>P. P \<in> S \<Longrightarrow> others P < 127"
    and cpu': "cpu' = new_cpu source enable S cpu" and gpu': "gpu' = new_gpu source enable S gpu"
    and dirty: "holds_part r cpu' (bits_set (rg_cpu_dirty rg))" "holds_part r gpu' (bits_set (rg_gpu_dirty rg))"
    and prot: "holds_part r cpu (bits_set (rg_writable rg))" "holds_part r (- gpu) (bits_set (rg_readable rg))"
    and t: "track = (if source = FromCpu then \<not> enable else enable)" and rd: "is_read = (source = FromGpu)"
  shows "\<exists>rg' pm' calls'. update_protection host track is_read rg pm = Some (rg', pm', calls')
    \<and> region_ok r rg' cpu' gpu' \<and> world others cpu' gpu' pm' (calls @ calls')"
proof -
  define protection where "protection = (if is_read then ba_not (rg_gpu_dirty rg) else rg_cpu_dirty rg)"
  define previous where "previous = (if is_read then rg_readable rg else rg_writable rg)"
  define X where "X = (if is_read then - gpu else cpu)"
  define X' where "X' = (if is_read then - gpu' else cpu')"
  have len: "length protection = 16" "length previous = 16"
    using A by (simp_all add: protection_def previous_def arrays_ok_def ba_not_def)
  have hp: "holds_part r X' (bits_set protection)" "holds_part r X (bits_set previous)"
    using dirty prot A by (auto simp: protection_def previous_def X_def X'_def holds_part_def ba_not_bits array_bits_def arrays_ok_def)
  define D where "D = {P \<in> S. (P \<in> X') \<noteq> (P \<in> X)}"
  have outside: "P \<in> X' \<longleftrightarrow> P \<in> X" if "P \<notin> S" for P
    using that by (cases source; cases enable) (auto simp: X_def X'_def cpu' gpu' rd)
  have mask: "mask_pages r (ba_xor protection previous) = D"
    unfolding holds_part_xor [OF len hp] D_def using S(1) outside by auto
  have DS: "new_cpu source enable D cpu = cpu'" "new_gpu source enable D gpu = gpu'"
    unfolding cpu' gpu' D_def by (cases source; cases enable; auto simp: X_def X'_def cpu' gpu' rd)+
  define rg' where "rg' = (if is_read then rg\<lparr>rg_readable := protection\<rparr> else rg\<lparr>rg_writable := protection\<rparr>)"
  have keep: "cpu' = cpu" if "source = FromGpu" using that by (simp add: cpu')
  have keep2: "gpu' = gpu" if "source = FromCpu" using that by (simp add: gpu')
  have rg': "region_ok r rg' cpu' gpu'"
    using A dirty prot hp(1) keep keep2 len(1)
    by (cases source) (simp_all add: region_ok_def rg'_def rd arrays_ok_def X'_def)
  note U = update_protection_def [of host track is_read rg pm, folded protection_def previous_def, unfolded Let_def, folded rg'_def]
  have ml: "length (ba_xor protection previous) = 16" using len by (simp add: ba_xor_def)
  show ?thesis
  proof (cases "ba_none (ba_xor protection previous)")
    case True
    then have "bits_set (ba_xor protection previous) = {}" by (simp add: ba_none_iff)
    then have "D = {}" using mask by (simp add: mask_pages_def)
    then have eq: "cpu' = cpu" "gpu' = gpu" using DS by (cases source; cases enable; simp)+
    have "region_ok r rg cpu' gpu'" using A dirty prot eq by (simp add: region_ok_def)
    then show ?thesis using U True w eq by simp
  next
    case False
    then have nonempty: "bits_set (ba_xor protection previous) \<noteq> {}" by (simp add: ba_none_iff)
    have pm: "pages_ok pm" "host_follows pm (protect_effect calls (\<lambda>_. ReadWrite))" using w by (simp_all add: world_def)
    have addr: "rg_addr rg = r * REGION_SIZE" using A by (simp add: arrays_ok_def)
    have "watches track is_read D pm (protect_effect calls (\<lambda>_. ReadWrite))
        (update_watchers_for_region host track is_read (rg_addr rg) (ba_xor protection previous) pm)"
      unfolding addr mask [symmetric]
      by (rule update_watchers_for_region_watches [OF host pm ml nonempty]) (use S(2) in \<open>auto simp: mask D_def\<close>)
    then have "\<exists>pm' calls'. update_watchers_for_region host track is_read (rg_addr rg) (ba_xor protection previous) pm
        = Some (pm', calls') \<and> world others (new_cpu source enable D cpu) (new_gpu source enable D gpu) pm' (calls @ calls')"
      by (intro world_watches [OF w _ _ _ t rd])
        (use S(3) in \<open>auto simp: D_def X_def X'_def cpu' gpu' rd split: if_splits\<close>)
    then obtain pm' calls' where "update_watchers_for_region host track is_read (rg_addr rg) (ba_xor protection previous) pm
        = Some (pm', calls')" "world others cpu' gpu' pm' (calls @ calls')" unfolding DS by blast
    then show ?thesis using U False rg' by (intro exI [of _ rg'] exI [of _ pm'] exI [of _ calls']) simp
  qed
qed

subsection \<open>The operations\<close>

definition dirty_pages :: "dirty_source \<Rightarrow> nat set \<Rightarrow> nat set \<Rightarrow> nat set" where
  "dirty_pages source cpu gpu = (if source = FromCpu then cpu else gpu)"

definition forbidden_pages :: "dirty_source \<Rightarrow> bool \<Rightarrow> nat set \<Rightarrow> nat set \<Rightarrow> nat set" where
  "forbidden_pages source enable cpu gpu = (if enable then if source = FromCpu then gpu else cpu else {})"

lemma region_ok_bits:
  assumes "region_ok r rg cpu gpu"
  shows "arrays_ok r rg" "length (get_bits source rg) = 16" "holds_part r (dirty_pages source cpu gpu) (bits_set (get_bits source rg))"
  using assms by (cases source; simp add: region_ok_def arrays_ok_def dirty_pages_def)+

lemma holds_part_range:
  "\<lbrakk>holds_part r A B; b \<le> REGION_PAGES\<rbrakk> \<Longrightarrow> region_page r ` {a..<b} \<inter> A = region_page r ` (B \<inter> {a..<b})"
  unfolding holds_part_def by force

lemma first_range_meets:
  assumes "length d = 16" and "b \<le> REGION_PAGES"
  shows "fst (first_range_from d a) < b \<longleftrightarrow> bits_set d \<inter> {a..<b} \<noteq> {}"
proof -
  obtain x y where xy: "first_range_from d a = (x, y)" by force
  have n: "array_bits d = REGION_PAGES" using assms(1) by (simp add: array_bits_def)
  show ?thesis
  proof (cases "bits_set d \<inter> {a..} = {}")
    case True
    then have "x = REGION_PAGES" using first_range_correct [of d a] n by (simp add: xy is_first_range_def)
    moreover have "bits_set d \<inter> {a..<b} = {}" using True by auto
    ultimately show ?thesis using assms(2) by (simp add: xy)
  next
    case False
    then have "a \<le> x" "x < y" "{x..<y} \<subseteq> bits_set d" "bits_set d \<inter> {a..<x} = {}"
      using first_range_correct [of d a] by (simp_all add: xy is_first_range_def)
    then have x: "a \<le> x" "x \<in> bits_set d" "bits_set d \<inter> {a..<x} = {}" by auto
    have "x < b \<longleftrightarrow> bits_set d \<inter> {a..<b} \<noteq> {}"
    proof
      assume "x < b"
      then have "x \<in> bits_set d \<inter> {a..<b}" using x(1,2) by simp
      then show "bits_set d \<inter> {a..<b} \<noteq> {}" by blast
    next
      assume "bits_set d \<inter> {a..<b} \<noteq> {}"
      then obtain i where i: "i \<in> bits_set d" "a \<le> i" "i < b" by auto
      then have "\<not> i < x" using x(3) by auto
      then show "x < b" using i(3) by simp
    qed
    then show ?thesis by (simp add: xy)
  qed
qed

lemma is_modified_ok:
  assumes ok: "region_ok r rg cpu gpu" and v: "rg_addr rg + offset = v" "0 < n" "v + n \<le> r * REGION_SIZE + REGION_SIZE"
  shows "is_modified source offset n rg = Some (page_span v n \<inter> dirty_pages source cpu gpu \<noteq> {})"
proof -
  note R = region_ok_bits(1) [OF ok] region_ok_bits(2,3) [OF ok, where source = source]
  have le: "r * REGION_SIZE \<le> v" using v(1) R(1) by (simp add: arrays_ok_def)
  obtain a b where ab: "get_page_range rg v n = Some (a, b)" "a < b" "b \<le> REGION_PAGES"
    "page_span v n = region_page r ` {a..<b}" by (rule page_range_ok [OF R(1) le v(2,3)])
  have "page_span v n \<inter> dirty_pages source cpu gpu = region_page r ` (bits_set (get_bits source rg) \<inter> {a..<b})"
    unfolding ab(4) by (rule holds_part_range [OF R(3) ab(3)])
  then have "page_span v n \<inter> dirty_pages source cpu gpu \<noteq> {} \<longleftrightarrow> bits_set (get_bits source rg) \<inter> {a..<b} \<noteq> {}"
    by simp
  then show ?thesis using ab(1) first_range_meets [OF R(2) ab(3)] by (simp add: is_modified_def v(1))
qed

lemma page_span_region:
  assumes "arrays_ok r rg" and "r * REGION_SIZE \<le> v" and "0 < n" and "v + n \<le> r * REGION_SIZE + REGION_SIZE"
  shows "page_span v n \<subseteq> region_page r ` {..<REGION_PAGES}"
proof -
  obtain a b where "b \<le> REGION_PAGES" "page_span v n = region_page r ` {a..<b}" by (rule page_range_ok [OF assms])
  then show ?thesis by auto
qed

lemma change_state_ok:
  assumes host: "\<forall>c. host c" and ok: "region_ok r rg cpu gpu" and w: "world others cpu gpu pm calls"
    and v: "r * REGION_SIZE \<le> v" "0 < n" "v + n \<le> r * REGION_SIZE + REGION_SIZE"
    and S: "\<And>P. P \<in> page_span v n \<Longrightarrow> page_valid P" "\<And>P. P \<in> page_span v n \<Longrightarrow> others P < 127"
  shows "if page_span v n \<inter> forbidden_pages source enable cpu gpu \<noteq> {}
    then change_state host source enable v n rg pm = None
    else \<exists>rg' pm' calls'. change_state host source enable v n rg pm = Some (rg', pm', calls')
      \<and> region_ok r rg' (new_cpu source enable (page_span v n) cpu) (new_gpu source enable (page_span v n) gpu)
      \<and> world others (new_cpu source enable (page_span v n) cpu) (new_gpu source enable (page_span v n) gpu) pm' (calls @ calls')"
proof -
  have A: "arrays_ok r rg" and len: "length (rg_cpu_dirty rg) = 16" "length (rg_gpu_dirty rg) = 16"
    and hp: "holds_part r cpu (bits_set (rg_cpu_dirty rg))" "holds_part r gpu (bits_set (rg_gpu_dirty rg))"
      "holds_part r cpu (bits_set (rg_writable rg))" "holds_part r (- gpu) (bits_set (rg_readable rg))"
    using ok by (simp_all add: region_ok_def arrays_ok_def)
  obtain a b where ab: "get_page_range rg v n = Some (a, b)" "a < b" "b \<le> REGION_PAGES"
    "page_span v n = region_page r ` {a..<b}" by (rule page_range_ok [OF A v])
  have any: "ba_any (ba_copy d a b) \<longleftrightarrow> page_span v n \<inter> B \<noteq> {}" if "length d = 16" "holds_part r B (bits_set d)" for d B
  proof -
    have "b \<le> array_bits d" using that(1) ab(3) by (simp add: array_bits_def)
    then have "bits_set (ba_copy d a b) = bits_set d \<inter> {a..<b}" using ab(2) by (intro ba_copy_bits)
    moreover have "page_span v n \<inter> B = region_page r ` (bits_set d \<inter> {a..<b})"
      unfolding ab(4) by (rule holds_part_range [OF that(2) ab(3)])
    ultimately show ?thesis by (simp add: ba_any_def ba_none_iff)
  qed
  define rg1 where "rg1 = set_bits source (if enable then set_range (get_bits source rg) a b
    else unset_range (get_bits source rg) a b) rg"
  have D: "change_state host source enable v n rg pm =
      (if page_span v n \<inter> forbidden_pages source enable cpu gpu \<noteq> {} then None
       else update_protection host (if source = FromCpu then \<not> enable else enable) (source = FromGpu) rg1 pm)"
    using any [OF len(1) hp(1)] any [OF len(2) hp(2)]
    by (cases source; cases enable) (simp_all add: change_state_def ab(1) Let_def rg1_def forbidden_pages_def)
  have rng: "bits_set (set_range d a b) = bits_set d \<union> {a..<b}" "bits_set (unset_range d a b) = bits_set d - {a..<b}"
    if "length d = 16" for d
    using that ab(2,3) set_range_bits [of a b d] unset_range_bits [of a b d] by (simp_all add: array_bits_def)
  have upd: "holds_part r (new_cpu source enable (page_span v n) cpu) (bits_set (rg_cpu_dirty rg1))"
    "holds_part r (new_gpu source enable (page_span v n) gpu) (bits_set (rg_gpu_dirty rg1))"
    "holds_part r cpu (bits_set (rg_writable rg1))" "holds_part r (- gpu) (bits_set (rg_readable rg1))" "arrays_ok r rg1"
    using hp A len rng
    by (cases source; cases enable; auto simp: rg1_def holds_part_def ab(4) region_page_mem arrays_ok_def)+
  show ?thesis
    using update_protection_ok [OF host w upd(5) page_span_region [OF A v] S refl refl upd(1-4) refl refl]
    unfolding D by simp
qed

text \<open>The visits of a loop over the modified pages: ranges of whole pages in order, which together are these.\<close>

definition page_range :: "nat \<times> nat \<Rightarrow> u64 \<times> u64" where
  "page_range = (\<lambda>(x, y). (x * PAGE_SIZE, (y - x) * PAGE_SIZE))"

definition page_runs :: "nat set \<Rightarrow> (nat \<times> nat) list \<Rightarrow> bool" where
  "page_runs D rs \<longleftrightarrow> (\<forall>(x, y)\<in>set rs. x < y) \<and> sorted_wrt (\<lambda>(x, y) (x', y'). y \<le> x') rs
     \<and> (\<Union>(x, y)\<in>set rs. {x..<y}) = D"

definition visits_ok :: "nat set \<Rightarrow> (u64 \<times> u64) list \<Rightarrow> bool" where
  "visits_ok D vs \<longleftrightarrow> (\<exists>rs. vs = map page_range rs \<and> page_runs D rs)"

lemma visits_ok_Nil [simp]: "visits_ok {} []"
  by (simp add: visits_ok_def page_runs_def)

lemma page_runs_append:
  assumes "page_runs D rs" and "page_runs E qs" and "\<forall>P\<in>D. \<forall>Q\<in>E. P < Q"
  shows "page_runs (D \<union> E) (rs @ qs)"
proof -
  have "y \<le> x'" if r: "(x, y) \<in> set rs" and q: "(x', y') \<in> set qs" for x y x' y'
  proof -
    have "x < y" "x' < y'" using assms(1,2) r q by (auto simp: page_runs_def)
    then have "y - 1 \<in> {x..<y}" "x' \<in> {x'..<y'}" by auto
    then have "y - 1 \<in> D" "x' \<in> E" using assms(1,2) r q unfolding page_runs_def by blast+
    then have "y - 1 < x'" using assms(3) by blast
    then show ?thesis by simp
  qed
  then show ?thesis using assms(1,2) by (auto simp: page_runs_def sorted_wrt_append)
qed

lemma visits_ok_append:
  assumes "visits_ok D vs" and "visits_ok E ws" and "\<forall>P\<in>D. \<forall>Q\<in>E. P < Q"
  shows "visits_ok (D \<union> E) (vs @ ws)"
proof -
  obtain rs qs where "vs = map page_range rs" "page_runs D rs" "ws = map page_range qs" "page_runs E qs"
    using assms(1,2) unfolding visits_ok_def by blast
  then show ?thesis using page_runs_append [OF _ _ assms(3)] unfolding visits_ok_def
    by (intro exI [of _ "rs @ qs"]) simp
qed

lemma region_runs:
  assumes "(\<Union>(a, b)\<in>set rs. {a..<b}) = B" and "\<forall>(a, b)\<in>set rs. a < b" and "sorted_wrt (\<lambda>(a, b) (a', b'). b < a') rs"
  shows "visits_ok (region_page r ` B) (map (\<lambda>(x, y). (r * REGION_SIZE + x * PAGE_SIZE, (y - x) * PAGE_SIZE)) rs)"
proof -
  define qs where "qs = map (\<lambda>(x, y). (r * REGION_PAGES + x, r * REGION_PAGES + y)) rs"
  have "map (\<lambda>(x, y). (r * REGION_SIZE + x * PAGE_SIZE, (y - x) * PAGE_SIZE)) rs = map page_range qs"
    by (simp add: qs_def page_range_def case_prod_beta add_mult_distrib)
  moreover have "page_runs (region_page r ` B) qs"
    unfolding page_runs_def
  proof (intro conjI)
    show "\<forall>(x, y)\<in>set qs. x < y" using assms(2) by (auto simp: qs_def)
    show "sorted_wrt (\<lambda>(x, y) (x', y'). y \<le> x') qs"
      using assms(3) by (auto simp: qs_def sorted_wrt_map case_prod_beta elim!: sorted_wrt_mono_rel [rotated])
    have img: "region_page r ` {x..<y} = {region_page r x..<region_page r y}" for x y
      unfolding region_page_def by (simp only: image_add_atLeastLessThan add.commute)
    have "(\<Union>(x, y)\<in>set qs. {x..<y}) = (\<Union>(x, y)\<in>set rs. region_page r ` {x..<y})"
      by (simp add: img qs_def case_prod_beta) (simp add: region_page_def)
    also have "\<dots> = region_page r ` B" unfolding assms(1) [symmetric] by (auto simp: image_UN)
    finally show "(\<Union>(x, y)\<in>set qs. {x..<y}) = region_page r ` B" .
  qed
  ultimately show ?thesis unfolding visits_ok_def by blast
qed

lemma for_each_modified_ok:
  assumes host: "\<forall>c. host c" and ok: "region_ok r rg cpu gpu" and w: "world others cpu gpu pm calls"
    and v: "r * REGION_SIZE \<le> v" "0 < n" "v + n \<le> r * REGION_SIZE + REGION_SIZE"
    and S: "\<And>P. P \<in> page_span v n \<Longrightarrow> page_valid P" "\<And>P. P \<in> page_span v n \<Longrightarrow> others P < 127"
    and cpu': "cpu' = (if clear then new_cpu source False (page_span v n) cpu else cpu)"
    and gpu': "gpu' = (if clear then new_gpu source False (page_span v n) gpu else gpu)"
  shows "\<exists>vs rg' pm' calls'. for_each_modified host source clear v n rg pm = Some (vs, rg', pm', calls')
      \<and> visits_ok (page_span v n \<inter> dirty_pages source cpu gpu) vs
      \<and> region_ok r rg' cpu' gpu' \<and> world others cpu' gpu' pm' (calls @ calls')"
proof -
  have A: "arrays_ok r rg" and len: "length (rg_cpu_dirty rg) = 16" "length (rg_gpu_dirty rg) = 16"
    and hp: "holds_part r cpu (bits_set (rg_cpu_dirty rg))" "holds_part r gpu (bits_set (rg_gpu_dirty rg))"
      "holds_part r cpu (bits_set (rg_writable rg))" "holds_part r (- gpu) (bits_set (rg_readable rg))"
    using ok by (simp_all add: region_ok_def arrays_ok_def)
  note R = region_ok_bits(2,3) [OF ok, where source = source]
  obtain a b where ab: "get_page_range rg v n = Some (a, b)" "a < b" "b \<le> REGION_PAGES"
    "page_span v n = region_page r ` {a..<b}" by (rule page_range_ok [OF A v])
  define d where "d = get_bits source rg"
  have addr: "rg_addr rg = r * REGION_SIZE" using A by (simp add: arrays_ok_def)
  have D: "page_span v n \<inter> dirty_pages source cpu gpu = region_page r ` (bits_set d \<inter> {a..<b})"
    unfolding ab(4) d_def by (rule holds_part_range [OF R(2) ab(3)])
  have bn: "b \<le> array_bits d" using R(1) ab(3) by (simp add: array_bits_def d_def)
  have first: "fst (first_range_from d a) < b \<longleftrightarrow> bits_set d \<inter> {a..<b} \<noteq> {}"
    by (rule first_range_meets [OF R(1) [folded d_def] ab(3)])
  note E = for_each_modified_def [of host source clear v n rg pm, unfolded ab(1) option.case prod.case Let_def, folded d_def]
  show ?thesis
  proof (cases "bits_set d \<inter> {a..<b} = {}")
    case True
    then have none: "page_span v n \<inter> dirty_pages source cpu gpu = {}" by (simp add: D)
    then have "cpu' = cpu" "gpu' = gpu"
      by (cases source; cases clear; auto simp: cpu' gpu' dirty_pages_def)+
    moreover have "fst (first_range_from d a) \<ge> b" using first True by simp
    ultimately show ?thesis using E ok w none by simp
  next
    case False
    then have lt: "\<not> fst (first_range_from d a) \<ge> b" using first by simp
    obtain rs where rs: "ba_ranges (ba_copy d a b) = Some rs" "\<forall>(x, y)\<in>set rs. x < y \<and> y \<notin> bits_set (ba_copy d a b)"
      "sorted_wrt (\<lambda>(x, y) (x', y'). y < x') rs" "(\<Union>(x, y)\<in>set rs. {x..<y}) = bits_set (ba_copy d a b)"
      by (rule ba_ranges_correct)
    define vs where "vs = map (\<lambda>(x, y). (r * REGION_SIZE + x * PAGE_SIZE, (y - x) * PAGE_SIZE)) rs"
    have "bits_set (ba_copy d a b) = bits_set d \<inter> {a..<b}" using ab(2) bn by (intro ba_copy_bits)
    then have vs: "visits_ok (page_span v n \<inter> dirty_pages source cpu gpu) vs"
      unfolding D vs_def using rs(2-4) by (intro region_runs) auto
    define rg1 where "rg1 = set_bits source (unset_range d a b) rg"
    define upd where "upd = (if \<not> clear then Some (rg, pm, []) else update_protection host (source = FromCpu) (source = FromGpu) rg1 pm)"
    have F: "for_each_modified host source clear v n rg pm
        = map_option (\<lambda>(rg', pm', calls). (vs, rg', pm', calls)) upd"
      unfolding E if_not_P [OF lt] by (cases source) (auto simp: upd_def rg1_def rs(1) vs_def addr split: option.split)
    have "\<exists>rg' pm' calls'. upd = Some (rg', pm', calls') \<and> region_ok r rg' cpu' gpu' \<and> world others cpu' gpu' pm' (calls @ calls')"
    proof (cases clear)
      case True
      have rng: "bits_set (unset_range d a b) = bits_set d - {a..<b}" using ab(2) bn by (intro unset_range_bits)
      have upd': "holds_part r (new_cpu source False (page_span v n) cpu) (bits_set (rg_cpu_dirty rg1))"
        "holds_part r (new_gpu source False (page_span v n) gpu) (bits_set (rg_gpu_dirty rg1))"
        "holds_part r cpu (bits_set (rg_writable rg1))" "holds_part r (- gpu) (bits_set (rg_readable rg1))" "arrays_ok r rg1"
        using hp A len rng
        by (cases source; auto simp: rg1_def d_def holds_part_def ab(4) region_page_mem arrays_ok_def)+
      have t: "(source = FromCpu) = (if source = FromCpu then \<not> False else False)" by simp
      show ?thesis
        using update_protection_ok [OF host w upd'(5) page_span_region [OF A v] S refl refl upd'(1-4) t refl]
        by (simp add: upd_def True cpu' gpu')
    qed (use ok w in \<open>simp add: upd_def cpu' gpu'\<close>)
    then show ?thesis using vs unfolding F by auto
  qed
qed

end
