(* ===== verification/MemoryTrackerFacts.thy ===== *)
theory MemoryTrackerFacts
  imports MemoryTracker RegionManagerFacts RangeSetFacts
begin

text \<open>
  The memory tracker stands for two sets of pages, those the CPU and those the GPU has modified.  Every
  operation walks over the regions of its range; the walk is described once, and each operation is one
  relation between the pages visited, the states before and after, and the result.
\<close>

definition tracker_ok :: "(nat \<Rightarrow> nat) \<Rightarrow> nat set \<Rightarrow> nat set \<Rightarrow> tracker \<Rightarrow> bool" where
  "tracker_ok others cpu gpu s \<longleftrightarrow>
     (\<forall>P. others P < 127) \<and> world others cpu gpu (tr_pm s) (tr_calls s) \<and> cpu \<inter> gpu = {} \<and> rs_ok (tr_bda s)
   \<and> (\<forall>i. case tr_regions s i of
             None \<Rightarrow> (\<forall>j < REGION_PAGES. region_page i j \<in> cpu \<and> region_page i j \<notin> gpu)
           | Some rg \<Rightarrow> region_ok i rg cpu gpu)"

lemma tracker_okD:
  assumes "tracker_ok others cpu gpu s"
  shows "others P < 127" "world others cpu gpu (tr_pm s) (tr_calls s)" "cpu \<inter> gpu = {}" "rs_ok (tr_bda s)"
    and "tr_regions s i = Some rg \<Longrightarrow> region_ok i rg cpu gpu"
    and "\<lbrakk>tr_regions s i = None; j < REGION_PAGES\<rbrakk> \<Longrightarrow> region_page i j \<in> cpu"
    and "\<lbrakk>tr_regions s i = None; j < REGION_PAGES\<rbrakk> \<Longrightarrow> region_page i j \<notin> gpu"
proof -
  have "case tr_regions s i of None \<Rightarrow> (\<forall>j < REGION_PAGES. region_page i j \<in> cpu \<and> region_page i j \<notin> gpu)
      | Some rg \<Rightarrow> region_ok i rg cpu gpu" using assms unfolding tracker_ok_def by blast
  then show "tr_regions s i = Some rg \<Longrightarrow> region_ok i rg cpu gpu"
    "\<lbrakk>tr_regions s i = None; j < REGION_PAGES\<rbrakk> \<Longrightarrow> region_page i j \<in> cpu"
    "\<lbrakk>tr_regions s i = None; j < REGION_PAGES\<rbrakk> \<Longrightarrow> region_page i j \<notin> gpu" by simp_all
qed (use assms in \<open>simp_all add: tracker_ok_def\<close>)

text \<open>A region that is not there has every page modified by the CPU and none by the GPU.\<close>

lemma tracker_no_region:
  assumes "tracker_ok others cpu gpu s" and "tr_regions s i = None" and "S \<subseteq> region_page i ` {..<REGION_PAGES}"
  shows "S \<subseteq> cpu" and "S \<inter> gpu = {}"
  using tracker_okD(6,7) [OF assms(1,2)] assms(3) by auto

lemma region_init_ok:
  assumes "\<And>j. j < REGION_PAGES \<Longrightarrow> region_page i j \<in> cpu \<and> region_page i j \<notin> gpu"
  shows "\<exists>rg. region_init (i * REGION_SIZE) = Some rg \<and> region_ok i rg cpu gpu"
proof -
  have f: "bits_set (ba_fill no_bits) = {..<REGION_PAGES}" "bits_set no_bits = {}"
    using ba_fill_bits [of no_bits] ba_clear_bits [of no_bits] by (simp_all add: array_bits_def ba_clear_def)
  show ?thesis using assms f
    by (simp add: region_init_def region_ok_def arrays_ok_def holds_part_def ba_fill_def)
qed

lemma tracker_create_ok:
  assumes "tracker_ok others cpu gpu s"
  obtains s' rg where "tracker_create i s = Some s'" "tr_regions s' i = Some rg" "tracker_ok others cpu gpu s'"
    "tr_bda s' = tr_bda s" "tr_upload s' = tr_upload s" "tr_pm s' = tr_pm s" "tr_calls s' = tr_calls s"
proof (cases "tr_regions s i")
  case None
  obtain rg where rg: "region_init (i * REGION_SIZE) = Some rg" "region_ok i rg cpu gpu"
    using region_init_ok tracker_okD(6,7) [OF assms None] by blast
  have "tracker_ok others cpu gpu (s\<lparr>tr_regions := (tr_regions s)(i \<mapsto> rg)\<rparr>)"
    using assms rg(2) by (simp add: tracker_ok_def)
  then show ?thesis using that rg(1) None by (simp add: tracker_create_def)
next
  case (Some rg)
  then show ?thesis using that [of s rg] assms by (simp add: tracker_create_def)
qed

text \<open>Storing what an operation of a region returns.\<close>

lemma holds_part_other:
  assumes "holds_part i A B" and "P \<subseteq> region_page r ` {..<REGION_PAGES}" and "i \<noteq> r"
    and "\<And>x. x \<notin> P \<Longrightarrow> x \<in> A' \<longleftrightarrow> x \<in> A"
  shows "holds_part i A' B"
proof -
  have "region_page i j \<notin> P" if "j < REGION_PAGES" for j
  proof
    assume "region_page i j \<in> P"
    then obtain k where "k < REGION_PAGES" "region_page i j = region_page r k" using assms(2) by auto
    then show False using assms(3) that page_of_region [of j i] page_of_region [of k r] by (metis region_page_def)
  qed
  then show ?thesis using assms(1,4) by (simp add: holds_part_def)
qed

lemma store_region_ok:
  assumes ok: "tracker_ok others cpu gpu s" and S: "S \<subseteq> region_page r ` {..<REGION_PAGES}"
    and out: "\<And>x. x \<notin> S \<Longrightarrow> x \<in> cpu' \<longleftrightarrow> x \<in> cpu" "\<And>x. x \<notin> S \<Longrightarrow> x \<in> gpu' \<longleftrightarrow> x \<in> gpu"
    and rg: "region_ok r rg cpu' gpu'" and w: "world others cpu' gpu' pm (tr_calls s @ calls)" and d: "cpu' \<inter> gpu' = {}"
  shows "tracker_ok others cpu' gpu' (store_region r rg pm calls s)"
proof -
  have comp: "x \<in> - gpu' \<longleftrightarrow> x \<in> - gpu" if "x \<notin> S" for x using out(2) that by simp
  have "case tr_regions (store_region r rg pm calls s) i of
      None \<Rightarrow> (\<forall>j < REGION_PAGES. region_page i j \<in> cpu' \<and> region_page i j \<notin> gpu') | Some rg \<Rightarrow> region_ok i rg cpu' gpu'" for i
  proof (cases "i = r")
    case False
    note other = holds_part_other [OF _ S False]
    show ?thesis
    proof (cases "tr_regions s i")
      case None
      have "holds_part i cpu UNIV" "holds_part i gpu {}" using tracker_okD(6,7) [OF ok None] by (simp_all add: holds_part_def)
      then have "holds_part i cpu' UNIV" "holds_part i gpu' {}" using other out by blast+
      then show ?thesis using None False by (simp add: store_region_def holds_part_def)
    next
      case (Some rg1)
      then have "region_ok i rg1 cpu gpu" by (rule tracker_okD(5) [OF ok])
      then have "region_ok i rg1 cpu' gpu'"
        unfolding region_ok_def by (elim conjE) (intro conjI; (assumption | erule other [OF _ out(1)] other [OF _ out(2)] other [OF _ comp]))
      then show ?thesis using Some False by (simp add: store_region_def)
    qed
  qed (simp add: store_region_def rg)
  then show ?thesis using ok w d by (simp add: tracker_ok_def store_region_def)
qed

subsection \<open>The walk over the regions\<close>

lemma page_span_split:
  assumes "(v + n) mod PAGE_SIZE = 0"
  shows "page_span v (n + m) = page_span v n \<union> page_span (v + n) m"
    and "\<lbrakk>P \<in> page_span v n; Q \<in> page_span (v + n) m\<rbrakk> \<Longrightarrow> P < Q"
proof -
  obtain k where k: "v + n = k * PAGE_SIZE" using assms by (metis mult.commute mod_0_imp_dvd dvdE)
  have e: "(v + n + 4095) div PAGE_SIZE = k" unfolding k by simp
  have s: "(v + n) div PAGE_SIZE = k" unfolding k by simp
  have "v div PAGE_SIZE \<le> k" using div_le_mono [of v "v + n" PAGE_SIZE] by (simp add: s)
  moreover have "k \<le> (v + n + m + 4095) div PAGE_SIZE" using div_le_mono [of "v + n" "v + n + m + 4095" PAGE_SIZE] by (simp add: s)
  ultimately show "page_span v (n + m) = page_span v n \<union> page_span (v + n) m"
    unfolding page_span_def e s by (simp add: ivl_disj_un add.assoc)
  show "P < Q" if "P \<in> page_span v n" "Q \<in> page_span (v + n) m"
    using that unfolding page_span_def e s by simp
qed

text \<open>
  A relation between pages, a state and a result, that holds for no pages and no result but the state, and
  that is kept when the walk goes on: then it holds for a whole range if it holds for every region visited.
\<close>

locale region_walk =
  fixes rel :: "nat set \<Rightarrow> tracker \<times> 'a \<Rightarrow> (bool \<times> tracker \<times> 'a) option \<Rightarrow> bool"
  assumes nil: "rel {} sa (Some (False, sa))"
    and stop: "rel S sa (Some (True, sb)) \<Longrightarrow> rel (S \<union> T) sa (Some (True, sb))"
    and none: "rel S sa None \<Longrightarrow> rel (S \<union> T) sa None"
    and seq: "\<lbrakk>rel S sa (Some (False, sb)); rel T sb r; \<forall>P\<in>S. \<forall>Q\<in>T. P < Q\<rbrakk> \<Longrightarrow> rel (S \<union> T) sa r"
begin

lemma walk:
  assumes visit: "\<And>i offset bytes sa. \<lbrakk>offset + bytes \<le> REGION_SIZE; 0 < bytes; page_span (i * REGION_SIZE + offset) bytes \<subseteq> W\<rbrakk>
      \<Longrightarrow> rel (page_span (i * REGION_SIZE + offset) bytes) sa (visit_region create body i offset bytes sa)"
  shows "\<lbrakk>offset < REGION_SIZE; 0 < n; page_span (i * REGION_SIZE + offset) n \<subseteq> W\<rbrakk>
    \<Longrightarrow> rel (page_span (i * REGION_SIZE + offset) n) sa (iterate_regions create body n i offset sa)"
proof (induction n arbitrary: i offset sa rule: less_induct)
  case (less n)
  define bytes where "bytes = min (REGION_SIZE - offset) n"
  define v where "v = i * REGION_SIZE + offset"
  have b: "0 < bytes" "bytes \<le> n" "offset + bytes \<le> REGION_SIZE" using less.prems(1,2) by (auto simp: bytes_def)
  note E = iterate_regions.simps [of create body n i offset sa, unfolded Let_def, folded bytes_def]
  have last: "iterate_regions create body 0 (i + 1) 0 sb = Some (False, sb)" for sb
    by (subst iterate_regions.simps) simp
  show ?case
  proof (cases "bytes = n")
    case True
    have V: "rel (page_span v n) sa (visit_region create body i offset n sa)"
      using visit [of offset n i sa] less.prems b True by (simp add: v_def)
    have "iterate_regions create body n i offset sa = visit_region create body i offset n sa"
      unfolding E using less.prems(2) last
      by (cases "visit_region create body i offset n sa") (auto simp: True split: prod.splits)
    then show ?thesis using V by (simp only: v_def)
  next
    case False
    then have bo: "offset + bytes = REGION_SIZE" "bytes < n" using b(2) less.prems(1) by (auto simp: bytes_def min_def split: if_splits)
    have vb: "v + bytes = (i + 1) * REGION_SIZE" using bo(1) by (simp add: v_def)
    have al: "(v + bytes) mod PAGE_SIZE = 0" unfolding vb by (simp add: mod_mult_right_eq [symmetric])
    define S T where "S = page_span v bytes" and "T = page_span ((i + 1) * REGION_SIZE + 0) (n - bytes)"
    have n: "bytes + (n - bytes) = n" using bo(2) by simp
    have "page_span v n = page_span v bytes \<union> page_span (v + bytes) (n - bytes)"
      using page_span_split(1) [OF al, of "n - bytes"] unfolding n .
    then have U: "page_span v n = S \<union> T" unfolding S_def T_def vb [symmetric] by simp
    have lt: "\<forall>P\<in>S. \<forall>Q\<in>T. P < Q"
      unfolding S_def T_def vb [symmetric] add_0_right by (intro ballI page_span_split(2) [OF al])
    have SW: "S \<subseteq> W" "T \<subseteq> W" using less.prems(3) U unfolding v_def [symmetric] by blast+
    have V: "rel S sa (visit_region create body i offset bytes sa)"
      unfolding S_def v_def by (rule visit) (use b SW(1) in \<open>simp_all add: S_def v_def\<close>)
    have R: "rel T sb (iterate_regions create body (n - bytes) (i + 1) 0 sb)" for sb
      unfolding T_def
    proof (rule less.IH)
      show "n - bytes < n" "0 < n - bytes" using b(1) bo(2) by simp_all
    qed (use SW(2) in \<open>simp_all add: T_def\<close>)
    have "iterate_regions create body n i offset sa = (case visit_region create body i offset bytes sa of
        None \<Rightarrow> None
      | Some r \<Rightarrow> if fst r then Some r else iterate_regions create body (n - bytes) (i + 1) 0 (snd r))"
      unfolding E using less.prems(2) by simp
    moreover have "rel (S \<union> T) sa (case visit_region create body i offset bytes sa of
        None \<Rightarrow> None
      | Some r \<Rightarrow> if fst r then Some r else iterate_regions create body (n - bytes) (i + 1) 0 (snd r))"
    proof (cases "visit_region create body i offset bytes sa")
      case None
      then show ?thesis using none V by simp
    next
      case (Some r)
      then show ?thesis using stop [of S sa "snd r" T] seq [of S sa "snd r" T, OF _ R lt] V
        by (cases "fst r") (cases r; simp)+
    qed
    ultimately show ?thesis unfolding v_def [symmetric] U by simp
  qed
qed

lemma iterate:
  assumes "guest_range_valid v n"
    and "\<And>i offset bytes sa. \<lbrakk>offset + bytes \<le> REGION_SIZE; 0 < bytes; page_span (i * REGION_SIZE + offset) bytes \<subseteq> page_span v n\<rbrakk>
      \<Longrightarrow> rel (page_span (i * REGION_SIZE + offset) bytes) sa (visit_region create body i offset bytes sa)"
  shows "rel (page_span v n) sa (tracker_iterate create body v n sa)"
proof -
  have v: "v div REGION_SIZE * REGION_SIZE + v mod REGION_SIZE = v" by (rule div_mult_mod_eq)
  have n: "0 < n" using assms(1) by (simp add: guest_range_valid_def split: if_splits)
  have "rel (page_span (v div REGION_SIZE * REGION_SIZE + v mod REGION_SIZE) n) sa
      (iterate_regions create body n (v div REGION_SIZE) (v mod REGION_SIZE) sa)"
    by (rule walk [where W = "page_span v n"]) (use assms(2) n in \<open>simp_all add: v\<close>)
  then show ?thesis unfolding v using assms(1) by (simp add: tracker_iterate_def)
qed

end

text \<open>A region that is visited: it exists, or it is created, or it is passed over.\<close>

lemma visit_region_cases:
  assumes ok: "tracker_ok others cpu gpu s"
  obtains (passed) "\<not> create" "tr_regions s i = None" "visit_region create body i offset bytes (s, a) = Some (False, s, a)"
  | (region) s' rg where "tr_regions s' i = Some rg" "tracker_ok others cpu gpu s'" "tr_bda s' = tr_bda s" "tr_upload s' = tr_upload s"
      "visit_region create body i offset bytes (s, a) = body i rg offset bytes (s', a)"
proof (cases create)
  case True
  obtain s' rg where "tracker_create i s = Some s'" "tr_regions s' i = Some rg" "tracker_ok others cpu gpu s'"
    "tr_bda s' = tr_bda s" "tr_upload s' = tr_upload s" by (rule tracker_create_ok [OF ok])
  then show ?thesis using True by (intro region [of s' rg]) (simp_all add: visit_region_def)
next
  case False
  then show ?thesis
  proof (cases "tr_regions s i")
    case None
    then show ?thesis using False by (intro passed) (simp_all add: visit_region_def)
  next
    case (Some rg)
    then show ?thesis using False ok by (intro region [of s rg]) (simp_all add: visit_region_def)
  qed
qed

lemma page_span_in_region:
  assumes "offset + bytes \<le> REGION_SIZE" and "0 < bytes"
  shows "page_span (i * REGION_SIZE + offset) bytes \<subseteq> region_page i ` {..<REGION_PAGES}"
    and "page_span (i * REGION_SIZE + offset) bytes \<noteq> {}"
proof -
  define rg :: region_manager where "rg = \<lparr>rg_addr = i * REGION_SIZE, rg_cpu_dirty = no_bits, rg_gpu_dirty = no_bits,
    rg_writable = no_bits, rg_readable = no_bits\<rparr>"
  have "arrays_ok i rg" by (simp add: rg_def arrays_ok_def)
  then obtain a b where "a < b" "b \<le> REGION_PAGES" "page_span (i * REGION_SIZE + offset) bytes = region_page i ` {a..<b}"
    by (rule page_range_ok [where v = "i * REGION_SIZE + offset" and n = bytes]) (use assms in simp_all)
  then show "page_span (i * REGION_SIZE + offset) bytes \<subseteq> region_page i ` {..<REGION_PAGES}"
    "page_span (i * REGION_SIZE + offset) bytes \<noteq> {}" by auto
qed

subsection \<open>The abstract state and scans of pages\<close>

text \<open>
  What the tracker stands for: the pages modified by the CPU and by the GPU, the addresses to synchronise
  and whether the thread is in an upload.
\<close>

record dirty_state =
  ds_cpu :: "nat set"
  ds_gpu :: "nat set"
  ds_sync :: "u64 set"
  ds_upload :: bool

definition represents :: "(nat \<Rightarrow> nat) \<Rightarrow> dirty_state \<Rightarrow> tracker \<Rightarrow> bool" where
  "represents others x s \<longleftrightarrow> tracker_ok others (ds_cpu x) (ds_gpu x) s \<and> ds_sync x = rs_set (tr_bda s) \<and> ds_upload x = tr_upload s"

definition scan_rel :: "(nat \<Rightarrow> nat) \<Rightarrow> (nat set \<Rightarrow> dirty_state \<Rightarrow> dirty_state) \<Rightarrow> (nat set \<Rightarrow> dirty_state \<Rightarrow> bool)
    \<Rightarrow> (nat set \<Rightarrow> dirty_state \<Rightarrow> bool) \<Rightarrow> (nat set \<Rightarrow> dirty_state \<Rightarrow> bool) \<Rightarrow> (nat set \<Rightarrow> dirty_state \<Rightarrow> 'a \<Rightarrow> 'a \<Rightarrow> bool)
    \<Rightarrow> nat set \<Rightarrow> tracker \<times> 'a \<Rightarrow> (bool \<times> tracker \<times> 'a) option \<Rightarrow> bool" where
  "scan_rel others step pre bad hit out S sa r \<longleftrightarrow> (\<forall>x. represents others x (fst sa) \<and> pre S x \<longrightarrow>
     bad S x \<and> r = None
   \<or> \<not> bad S x \<and> (\<exists>s' a'. r = Some (hit S x, s', a') \<and> represents others (step S x) s' \<and> out S x (snd sa) a'))"

lemma scan_relI:
  assumes "\<And>x. \<lbrakk>represents others x (fst sa); pre S x\<rbrakk> \<Longrightarrow> bad S x \<and> r = None
      \<or> \<not> bad S x \<and> (\<exists>s' a'. r = Some (hit S x, s', a') \<and> represents others (step S x) s' \<and> out S x (snd sa) a')"
  shows "scan_rel others step pre bad hit out S sa r"
  using assms unfolding scan_rel_def by blast

lemma scan_relD:
  assumes "scan_rel others step pre bad hit out S sa r" and "represents others x (fst sa)" and "pre S x"
  obtains "bad S x" "r = None"
  | s' a' where "\<not> bad S x" "r = Some (hit S x, s', a')" "represents others (step S x) s'" "out S x (snd sa) a'"
  using assms unfolding scan_rel_def by blast

text \<open>
  An operation on the pages of a range, as the effect on the abstract state, where it may be used, where it
  stops the program, when it ends the walk early, and what it does to the caller's value.  These may be
  taken piece by piece.
\<close>

locale page_scan =
  fixes others :: "nat \<Rightarrow> nat" and step :: "nat set \<Rightarrow> dirty_state \<Rightarrow> dirty_state"
    and pre bad hit :: "nat set \<Rightarrow> dirty_state \<Rightarrow> bool" and out :: "nat set \<Rightarrow> dirty_state \<Rightarrow> 'a \<Rightarrow> 'a \<Rightarrow> bool"
  assumes empty: "step {} x = x" "\<not> bad {} x" "\<not> hit {} x" "out {} x a a"
    and pre_union: "pre (S \<union> T) x \<Longrightarrow> pre S x \<and> (\<not> bad S x \<longrightarrow> \<not> hit S x \<longrightarrow> pre T (step S x))"
    and bad_union: "bad (S \<union> T) x \<longleftrightarrow> bad S x \<or> \<not> hit S x \<and> bad T (step S x)"
    and step_union: "\<lbrakk>pre (S \<union> T) x; \<not> hit S x\<rbrakk> \<Longrightarrow> step (S \<union> T) x = step T (step S x)"
    and hit_union: "hit (S \<union> T) x \<longleftrightarrow> hit S x \<or> hit T (step S x)"
    and hit_ends: "hit S x \<Longrightarrow> step (S \<union> T) x = step S x \<and> (out S x a b \<longrightarrow> out (S \<union> T) x a b)"
    and out_union: "\<lbrakk>\<not> hit S x; \<forall>P\<in>S. \<forall>Q\<in>T. P < Q; out S x a b; out T (step S x) b c\<rbrakk> \<Longrightarrow> out (S \<union> T) x a c"

sublocale page_scan \<subseteq> region_walk "scan_rel others step pre bad hit out"
proof
  show "scan_rel others step pre bad hit out {} sa (Some (False, sa))" for sa
    by (rule scan_relI, cases sa) (simp add: empty)
next
  fix S T sa sb
  assume h: "scan_rel others step pre bad hit out S sa (Some (True, sb))"
  show "scan_rel others step pre bad hit out (S \<union> T) sa (Some (True, sb))"
  proof (rule scan_relI)
    fix x
    assume x: "represents others x (fst sa)" "pre (S \<union> T) x"
    from pre_union [OF x(2)] have "pre S x" by blast
    from h x(1) this show "bad (S \<union> T) x \<and> Some (True, sb) = None \<or> \<not> bad (S \<union> T) x \<and>
        (\<exists>s' a'. Some (True, sb) = Some (hit (S \<union> T) x, s', a') \<and> represents others (step (S \<union> T) x) s' \<and> out (S \<union> T) x (snd sa) a')"
    proof (cases rule: scan_relD)
      case (2 s' a')
      then have hit: "hit S x" by simp
      then show ?thesis using 2 bad_union [of S T x] hit_union [of S T x] hit_ends [OF hit] by auto
    qed simp
  qed
next
  fix S T sa
  assume h: "scan_rel others step pre bad hit out S sa None"
  show "scan_rel others step pre bad hit out (S \<union> T) sa None"
  proof (rule scan_relI)
    fix x
    assume x: "represents others x (fst sa)" "pre (S \<union> T) x"
    from pre_union [OF x(2)] have "pre S x" by blast
    from h x(1) this show "bad (S \<union> T) x \<and> (None :: (bool \<times> tracker \<times> 'a) option) = None \<or> \<not> bad (S \<union> T) x \<and>
        (\<exists>s' a'. None = Some (hit (S \<union> T) x, s', a') \<and> represents others (step (S \<union> T) x) s' \<and> out (S \<union> T) x (snd sa) a')"
      by (cases rule: scan_relD) (simp_all add: bad_union)
  qed
next
  fix S T sa sb r
  assume h: "scan_rel others step pre bad hit out S sa (Some (False, sb))" "scan_rel others step pre bad hit out T sb r"
    and lt: "\<forall>P\<in>S. \<forall>Q\<in>T. P < Q"
  show "scan_rel others step pre bad hit out (S \<union> T) sa r"
  proof (rule scan_relI)
    fix x
    assume x: "represents others x (fst sa)" "pre (S \<union> T) x"
    from pre_union [OF x(2)] have "pre S x" by blast
    from h(1) x(1) this obtain s1 a1 where S: "\<not> bad S x" "\<not> hit S x" "sb = (s1, a1)" "represents others (step S x) s1"
      "out S x (snd sa) a1" by (cases rule: scan_relD) auto
    have "represents others (step S x) (fst sb)" "pre T (step S x)" using S pre_union [OF x(2)] by simp_all
    from h(2) this show "bad (S \<union> T) x \<and> r = None \<or> \<not> bad (S \<union> T) x \<and>
        (\<exists>s' a'. r = Some (hit (S \<union> T) x, s', a') \<and> represents others (step (S \<union> T) x) s' \<and> out (S \<union> T) x (snd sa) a')"
    proof (cases rule: scan_relD)
      case 1
      then show ?thesis using S by (simp add: bad_union)
    next
      case (2 s' a')
      have "out (S \<union> T) x (snd sa) a'" using out_union [OF S(2) lt S(5)] 2(4) S(3) by simp
      then show ?thesis using 2 S step_union [OF x(2) S(2)] by (simp add: bad_union hit_union)
    qed
  qed
qed

subsection \<open>The scans of the tracker\<close>

definition ds_change :: "dirty_source \<Rightarrow> bool \<Rightarrow> nat set \<Rightarrow> dirty_state \<Rightarrow> dirty_state" where
  "ds_change source enable S x = x\<lparr>ds_cpu := new_cpu source enable S (ds_cpu x), ds_gpu := new_gpu source enable S (ds_gpu x)\<rparr>"

definition ds_dirty :: "dirty_source \<Rightarrow> dirty_state \<Rightarrow> nat set" where
  "ds_dirty source x = dirty_pages source (ds_cpu x) (ds_gpu x)"

definition ds_conflict :: "dirty_source \<Rightarrow> bool \<Rightarrow> nat set \<Rightarrow> dirty_state \<Rightarrow> bool" where
  "ds_conflict source enable S x \<longleftrightarrow> S \<inter> forbidden_pages source enable (ds_cpu x) (ds_gpu x) \<noteq> {}"

text \<open>A walk that creates no regions only makes changes that mean nothing for a region that is not there.\<close>

definition ds_may_change :: "dirty_source \<Rightarrow> bool \<Rightarrow> bool \<Rightarrow> nat set \<Rightarrow> dirty_state \<Rightarrow> bool" where
  "ds_may_change source enable create S x \<longleftrightarrow> (\<forall>P\<in>S. page_valid P)
     \<and> (create \<or> (source = FromCpu) = enable \<or> S \<inter> ds_cpu x = {})"

definition ds_may_ask :: "dirty_source \<Rightarrow> bool \<Rightarrow> nat set \<Rightarrow> dirty_state \<Rightarrow> bool" where
  "ds_may_ask source create S x \<longleftrightarrow> (\<forall>P\<in>S. page_valid P) \<and> (create \<or> source = FromGpu)"

definition appended_visits :: "dirty_source \<Rightarrow> nat set \<Rightarrow> dirty_state \<Rightarrow> (u64 \<times> u64) list \<Rightarrow> (u64 \<times> u64) list \<Rightarrow> bool" where
  "appended_visits source S x a b \<longleftrightarrow> (\<exists>vs. b = a @ vs \<and> visits_ok (S \<inter> ds_dirty source x) vs)"

lemma represents_store:
  assumes x: "represents others x s" and S: "S \<subseteq> region_page r ` {..<REGION_PAGES}"
    and rg: "region_ok r rg (new_cpu source enable S (ds_cpu x)) (new_gpu source enable S (ds_gpu x))"
    and w: "world others (new_cpu source enable S (ds_cpu x)) (new_gpu source enable S (ds_gpu x)) pm (tr_calls s @ calls)"
    and d: "\<not> ds_conflict source enable S x"
  shows "represents others (ds_change source enable S x) (store_region r rg pm calls s)"
proof -
  have ok: "tracker_ok others (ds_cpu x) (ds_gpu x) s" using x by (simp add: represents_def)
  have "new_cpu source enable S (ds_cpu x) \<inter> new_gpu source enable S (ds_gpu x) = {}"
    using d tracker_okD(3) [OF ok] by (cases source; cases enable) (auto simp: ds_conflict_def forbidden_pages_def)
  then have "tracker_ok others (new_cpu source enable S (ds_cpu x)) (new_gpu source enable S (ds_gpu x)) (store_region r rg pm calls s)"
    by (intro store_region_ok [OF ok S _ _ rg w]) (cases source; cases enable; simp)+
  then show ?thesis using x by (simp add: represents_def ds_change_def store_region_def)
qed

lemma new_pages_seq:
  "new_cpu source enable T (new_cpu source enable S cpu) = new_cpu source enable (S \<union> T) cpu"
  "new_gpu source enable T (new_gpu source enable S gpu) = new_gpu source enable (S \<union> T) gpu"
  "new_cpu source enable {} cpu = cpu" "new_gpu source enable {} gpu = gpu"
  "forbidden_pages source enable (new_cpu source enable S cpu) (new_gpu source enable S gpu) = forbidden_pages source enable cpu gpu"
  by (cases source; cases enable; auto simp: forbidden_pages_def)+

lemma ds_change_simps:
  "ds_change source enable {} x = x" "\<not> ds_conflict source enable {} x"
  "ds_change source enable T (ds_change source enable S x) = ds_change source enable (S \<union> T) x"
  "ds_conflict source enable T (ds_change source enable S x) \<longleftrightarrow> ds_conflict source enable T x"
  "ds_conflict source enable (S \<union> T) x \<longleftrightarrow> ds_conflict source enable S x \<or> ds_conflict source enable T x"
  by (auto simp: ds_change_def new_pages_seq ds_conflict_def)

lemma ds_may_change_union:
  assumes "ds_may_change source enable create (S \<union> T) x"
  shows "ds_may_change source enable create S x" and "ds_may_change source enable create T (ds_change source enable S x)"
proof -
  have n: "new_cpu source enable S (ds_cpu x) \<subseteq> ds_cpu x" if "(source = FromCpu) \<noteq> enable"
    using that by (cases source; cases enable) auto
  show "ds_may_change source enable create S x" using assms unfolding ds_may_change_def by blast
  have "create \<or> (source = FromCpu) = enable \<or> T \<inter> new_cpu source enable S (ds_cpu x) = {}"
    using assms n unfolding ds_may_change_def by blast
  then show "ds_may_change source enable create T (ds_change source enable S x)"
    using assms unfolding ds_may_change_def by (simp add: ds_change_def)
qed

interpretation change: page_scan others "ds_change source enable" "ds_may_change source enable create" "ds_conflict source enable"
    "\<lambda>_ _. False" "\<lambda>_ _ _ (_ :: unit). True" for others source enable create
  by unfold_locales (simp_all add: ds_change_simps ds_may_change_union)

text \<open>One region visited: passed over, or handed to the body.\<close>

lemma scan_visit:
  assumes b: "offset + bytes \<le> REGION_SIZE" "0 < bytes" and v: "v = i * REGION_SIZE + offset" and S: "S = page_span v bytes"
    and passed: "\<And>x s a. \<lbrakk>represents others x s; pre S x; \<not> create; S \<subseteq> ds_cpu x; S \<inter> ds_gpu x = {}; S \<noteq> {}\<rbrakk>
      \<Longrightarrow> \<not> bad S x \<and> \<not> hit S x \<and> step S x = x \<and> out S x a a"
    and region: "\<And>x s rg a. \<lbrakk>represents others x s; pre S x; region_ok i rg (ds_cpu x) (ds_gpu x);
        rg_addr rg + offset = v; world others (ds_cpu x) (ds_gpu x) (tr_pm s) (tr_calls s); \<And>P. others P < 127;
        i * REGION_SIZE \<le> v; v + bytes \<le> i * REGION_SIZE + REGION_SIZE; S \<subseteq> region_page i ` {..<REGION_PAGES}\<rbrakk>
      \<Longrightarrow> bad S x \<and> body i rg offset bytes (s, a) = None
        \<or> \<not> bad S x \<and> (\<exists>s' a'. body i rg offset bytes (s, a) = Some (hit S x, s', a') \<and> represents others (step S x) s' \<and> out S x a a')"
  shows "scan_rel others step pre bad hit out S sa (visit_region create body i offset bytes sa)"
proof (rule scan_relI)
  fix x
  assume x: "represents others x (fst sa)" and pre: "pre S x"
  have SR: "S \<subseteq> region_page i ` {..<REGION_PAGES}" "S \<noteq> {}" unfolding S v by (rule page_span_in_region [OF b])+
  obtain s a where sa: "sa = (s, a)" by force
  have xs: "represents others x s" using x by (simp add: sa)
  then have ok: "tracker_ok others (ds_cpu x) (ds_gpu x) s" by (simp add: represents_def)
  show "bad S x \<and> visit_region create body i offset bytes sa = None \<or> \<not> bad S x
      \<and> (\<exists>s' a'. visit_region create body i offset bytes sa = Some (hit S x, s', a') \<and> represents others (step S x) s' \<and> out S x (snd sa) a')"
  proof (rule visit_region_cases [OF ok, where create = create and body = body and i = i and offset = offset and bytes = bytes and a = a])
    assume p: "\<not> create" "tr_regions s i = None" "visit_region create body i offset bytes (s, a) = Some (False, s, a)"
    have "\<not> bad S x \<and> \<not> hit S x \<and> step S x = x \<and> out S x a a"
      using passed [OF xs pre p(1) tracker_no_region [OF ok p(2) SR(1)] SR(2)] .
    then show ?thesis using p(3) xs by (simp add: sa)
  next
    fix s' rg
    assume r: "tr_regions s' i = Some rg" "tracker_ok others (ds_cpu x) (ds_gpu x) s'" "tr_bda s' = tr_bda s"
      "tr_upload s' = tr_upload s" "visit_region create body i offset bytes (s, a) = body i rg offset bytes (s', a)"
    have rg: "region_ok i rg (ds_cpu x) (ds_gpu x)" by (rule tracker_okD(5) [OF r(2,1)])
    have x': "represents others x s'" using xs r by (simp add: represents_def)
    have addr: "rg_addr rg + offset = v" using rg by (simp add: region_ok_def arrays_ok_def v)
    have le: "i * REGION_SIZE \<le> v" "v + bytes \<le> i * REGION_SIZE + REGION_SIZE" using b by (simp_all add: v)
    show ?thesis using region [OF x' pre rg addr tracker_okD(2) [OF r(2)] tracker_okD(1) [OF ok] le SR(1)]
      by (simp add: sa r(5))
  qed
qed

lemma change_visit:
  assumes host: "\<forall>c. host c" and b: "offset + bytes \<le> REGION_SIZE" "0 < bytes"
  shows "scan_rel others (ds_change source enable) (ds_may_change source enable create) (ds_conflict source enable)
    (\<lambda>_ _. False) (\<lambda>_ _ _ (_ :: unit). True) (page_span (i * REGION_SIZE + offset) bytes) sa
    (visit_region create (change_body host source enable) i offset bytes sa)"
proof (rule scan_visit [OF b refl refl])
  fix x :: dirty_state and s :: tracker and a :: unit
  define S where "S = page_span (i * REGION_SIZE + offset) bytes"
  {
    assume pre: "ds_may_change source enable create S x" and n: "\<not> create" "S \<subseteq> ds_cpu x" "S \<inter> ds_gpu x = {}" "S \<noteq> {}"
    have "(source = FromCpu) = enable" using pre n by (auto simp: ds_may_change_def)
    then show "\<not> ds_conflict source enable S x \<and> \<not> False \<and> ds_change source enable S x = x \<and> True"
      using n by (cases source; simp add: ds_conflict_def forbidden_pages_def ds_change_def Diff_triv Int_commute Un_absorb2)
  next
    fix rg
    define v where "v = i * REGION_SIZE + offset"
    assume x: "represents others x s" and pre: "ds_may_change source enable create S x" and rg: "region_ok i rg (ds_cpu x) (ds_gpu x)"
      and addr: "rg_addr rg + offset = v" and w: "world others (ds_cpu x) (ds_gpu x) (tr_pm s) (tr_calls s)"
      and o: "\<And>P. others P < 127" and le: "i * REGION_SIZE \<le> v" "v + bytes \<le> i * REGION_SIZE + REGION_SIZE"
      and SR: "S \<subseteq> region_page i ` {..<REGION_PAGES}"
    have "\<And>P. P \<in> page_span v bytes \<Longrightarrow> page_valid P" using pre by (simp add: ds_may_change_def S_def v_def)
    note C = change_state_ok [OF host rg w le(1) b(2) le(2) this o, folded v_def S_def, where source = source and enable = enable]
    show "ds_conflict source enable S x \<and> change_body host source enable i rg offset bytes (s, a) = None
      \<or> \<not> ds_conflict source enable S x \<and> (\<exists>s' a'. change_body host source enable i rg offset bytes (s, a) = Some (False, s', a')
          \<and> represents others (ds_change source enable S x) s' \<and> True)"
    proof (cases "ds_conflict source enable S x")
      case True
      then show ?thesis using C by (simp add: ds_conflict_def change_body_def addr S_def v_def)
    next
      case False
      then obtain rg' pm' calls' where c: "change_state host source enable v bytes rg (tr_pm s) = Some (rg', pm', calls')"
        "region_ok i rg' (new_cpu source enable S (ds_cpu x)) (new_gpu source enable S (ds_gpu x))"
        "world others (new_cpu source enable S (ds_cpu x)) (new_gpu source enable S (ds_gpu x)) pm' (tr_calls s @ calls')"
        using C unfolding ds_conflict_def S_def v_def by (auto split: if_splits)
      have "change_body host source enable i rg offset bytes (s, a) = Some (False, store_region i rg' pm' calls' s, a)"
        using c(1) by (simp add: change_body_def addr)
      then show ?thesis using represents_store [OF x SR c(2,3) False] False by blast
    qed
  }
qed

text \<open>Asking whether a page of the range is modified.\<close>

interpretation query: page_scan others "\<lambda>_ x. x" "ds_may_ask source create" "\<lambda>_ _. False"
    "\<lambda>S x. S \<inter> ds_dirty source x \<noteq> {}" "\<lambda>_ _ _ (_ :: unit). True" for others source create
  by unfold_locales (auto simp: ds_may_ask_def)

lemma query_visit:
  assumes b: "offset + bytes \<le> REGION_SIZE" "0 < bytes"
  shows "scan_rel others (\<lambda>_ x. x) (ds_may_ask source create) (\<lambda>_ _. False) (\<lambda>S x. S \<inter> ds_dirty source x \<noteq> {})
    (\<lambda>_ _ _ (_ :: unit). True) (page_span (i * REGION_SIZE + offset) bytes) sa
    (visit_region create (modified_body source) i offset bytes sa)"
proof (rule scan_visit [OF b refl refl])
  fix x :: dirty_state and s :: tracker and a :: unit
  define v S where "v = i * REGION_SIZE + offset" and "S = page_span v bytes"
  {
    assume "ds_may_ask source create S x" "\<not> create" "S \<inter> ds_gpu x = {}"
    then show "\<not> False \<and> \<not> S \<inter> ds_dirty source x \<noteq> {} \<and> x = x \<and> True"
      by (simp add: ds_may_ask_def ds_dirty_def dirty_pages_def)
  next
    fix rg
    assume x: "represents others x s" and rg: "region_ok i rg (ds_cpu x) (ds_gpu x)" and addr: "rg_addr rg + offset = v"
      and le: "v + bytes \<le> i * REGION_SIZE + REGION_SIZE"
    have "is_modified source offset bytes rg = Some (S \<inter> ds_dirty source x \<noteq> {})"
      unfolding S_def ds_dirty_def by (rule is_modified_ok [OF rg addr b(2) le])
    then show "False \<and> modified_body source i rg offset bytes (s, a) = None
      \<or> \<not> False \<and> (\<exists>s' a'. modified_body source i rg offset bytes (s, a) = Some (S \<inter> ds_dirty source x \<noteq> {}, s', a')
          \<and> represents others x s' \<and> True)"
      using x by (simp add: modified_body_def)
  }
qed

text \<open>Visiting the modified ranges, and unmarking them.\<close>

definition ds_visit :: "dirty_source \<Rightarrow> bool \<Rightarrow> nat set \<Rightarrow> dirty_state \<Rightarrow> dirty_state" where
  "ds_visit source clear S x = (if clear then ds_change source False S x else x)"

lemma ds_visit_simps:
  "ds_visit source clear {} x = x"
  "ds_visit source clear T (ds_visit source clear S x) = ds_visit source clear (S \<union> T) x"
  by (simp_all add: ds_visit_def ds_change_simps)

lemma ds_visit_rest: "S \<inter> T = {} \<Longrightarrow> T \<inter> ds_dirty source (ds_visit source clear S x) = T \<inter> ds_dirty source x"
  by (cases source) (auto simp: ds_visit_def ds_dirty_def dirty_pages_def ds_change_def)

lemma appended_visits_union:
  assumes "\<forall>P\<in>S. \<forall>Q\<in>T. P < Q" and "appended_visits source S x a b"
    and "appended_visits source T (ds_visit source clear S x) b c"
  shows "appended_visits source (S \<union> T) x a c"
proof -
  have d: "S \<inter> T = {}" using assms(1) by fastforce
  obtain vs ws where vs: "b = a @ vs" "visits_ok (S \<inter> ds_dirty source x) vs" "c = b @ ws" "visits_ok (T \<inter> ds_dirty source x) ws"
    using assms(2,3) unfolding appended_visits_def ds_visit_rest [OF d] by blast
  have "visits_ok (S \<inter> ds_dirty source x \<union> T \<inter> ds_dirty source x) (vs @ ws)"
    by (rule visits_ok_append [OF vs(2,4)]) (use assms(1) in blast)
  then have "visits_ok ((S \<union> T) \<inter> ds_dirty source x) (vs @ ws)" by (simp only: Int_Un_distrib2)
  then show ?thesis using vs(1,3) by (simp add: appended_visits_def)
qed

interpretation visit: page_scan others "ds_visit source clear" "ds_may_ask source create" "\<lambda>_ _. False" "\<lambda>_ _. False"
    "appended_visits source" for others source clear create
proof unfold_locales
  show "appended_visits source {} x a a" for x a by (simp add: appended_visits_def)
  show "appended_visits source (S \<union> T) x a c" if "\<forall>P\<in>S. \<forall>Q\<in>T. P < Q" "appended_visits source S x a b"
    "appended_visits source T (ds_visit source clear S x) b c" for S T x a b c
    using that by (rule appended_visits_union)
qed (auto simp: ds_visit_simps ds_may_ask_def)

lemma ds_no_conflict: "\<not> ds_conflict source False S x"
  by (simp add: ds_conflict_def forbidden_pages_def)

lemma represents_visit:
  assumes x: "represents others x s" and S: "S \<subseteq> region_page r ` {..<REGION_PAGES}"
    and cpu: "cpu = (if clear then new_cpu source False S (ds_cpu x) else ds_cpu x)"
    and gpu: "gpu = (if clear then new_gpu source False S (ds_gpu x) else ds_gpu x)"
    and rg: "region_ok r rg cpu gpu" and w: "world others cpu gpu pm (tr_calls s @ calls)"
  shows "represents others (ds_visit source clear S x) (store_region r rg pm calls s)"
proof (cases clear)
  case True
  then show ?thesis using represents_store [OF x S _ _ ds_no_conflict] rg w by (simp add: cpu gpu ds_visit_def)
next
  case False
  have ok: "tracker_ok others (ds_cpu x) (ds_gpu x) s" using x by (simp add: represents_def)
  have "tracker_ok others (ds_cpu x) (ds_gpu x) (store_region r rg pm calls s)"
    using rg w False by (intro store_region_ok [OF ok S _ _ _ _ tracker_okD(3) [OF ok]]) (simp_all add: cpu gpu)
  then show ?thesis using x False by (simp add: represents_def ds_visit_def store_region_def)
qed

lemma visit_body_ok:
  assumes host: "\<forall>c. host c" and b: "0 < bytes" and S: "S = page_span v bytes" "\<forall>P\<in>S. page_valid P"
    and x: "represents others x s" and rg: "region_ok i rg (ds_cpu x) (ds_gpu x)"
    and addr: "rg_addr rg + offset = v" and w: "world others (ds_cpu x) (ds_gpu x) (tr_pm s) (tr_calls s)"
    and o: "\<And>P. others P < 127" and le: "i * REGION_SIZE \<le> v" "v + bytes \<le> i * REGION_SIZE + REGION_SIZE"
    and SR: "S \<subseteq> region_page i ` {..<REGION_PAGES}"
  shows "\<exists>rg' pm' calls' a'. visit_body host source clear i rg offset bytes (s, a) = Some (False, store_region i rg' pm' calls' s, a')
    \<and> represents others (ds_visit source clear S x) (store_region i rg' pm' calls' s) \<and> appended_visits source S x a a'"
proof -
  define cpu where "cpu = (if clear then new_cpu source False S (ds_cpu x) else ds_cpu x)"
  define gpu where "gpu = (if clear then new_gpu source False S (ds_gpu x) else ds_gpu x)"
  have "\<And>P. P \<in> page_span v bytes \<Longrightarrow> page_valid P" using S by blast
  from for_each_modified_ok [OF host rg w le(1) b le(2) this o cpu_def [unfolded S(1)] gpu_def [unfolded S(1)], folded S(1)]
  obtain vs rg' pm' calls' where f: "for_each_modified host source clear v bytes rg (tr_pm s) = Some (vs, rg', pm', calls')"
    "visits_ok (S \<inter> ds_dirty source x) vs" "region_ok i rg' cpu gpu" "world others cpu gpu pm' (tr_calls s @ calls')"
    unfolding ds_dirty_def by blast
  have "represents others (ds_visit source clear S x) (store_region i rg' pm' calls' s)"
    by (rule represents_visit [OF x SR cpu_def gpu_def f(3,4)])
  moreover have "visit_body host source clear i rg offset bytes (s, a) = Some (False, store_region i rg' pm' calls' s, a @ vs)"
    using f(1) by (simp add: visit_body_def addr)
  ultimately show ?thesis using f(2) unfolding appended_visits_def by blast
qed

lemma visit_visit:
  assumes host: "\<forall>c. host c" and b: "offset + bytes \<le> REGION_SIZE" "0 < bytes"
  shows "scan_rel others (ds_visit source clear) (ds_may_ask source True) (\<lambda>_ _. False) (\<lambda>_ _. False) (appended_visits source)
    (page_span (i * REGION_SIZE + offset) bytes) sa (visit_region True (visit_body host source clear) i offset bytes sa)"
proof (rule scan_visit [OF b refl refl])
  fix x :: dirty_state and s :: tracker and a :: "(u64 \<times> u64) list" and rg
  define v S where "v = i * REGION_SIZE + offset" and "S = page_span v bytes"
  assume h: "represents others x s" "ds_may_ask source True S x" "region_ok i rg (ds_cpu x) (ds_gpu x)" "rg_addr rg + offset = v"
    "world others (ds_cpu x) (ds_gpu x) (tr_pm s) (tr_calls s)" "\<And>P. others P < 127"
    "i * REGION_SIZE \<le> v" "v + bytes \<le> i * REGION_SIZE + REGION_SIZE" "S \<subseteq> region_page i ` {..<REGION_PAGES}"
  have "\<forall>P\<in>S. page_valid P" using h(2) by (simp add: ds_may_ask_def)
  from visit_body_ok [OF host b(2) S_def this h(1,3-9)]
  show "False \<and> visit_body host source clear i rg offset bytes (s, a) = None
    \<or> \<not> False \<and> (\<exists>s' a'. visit_body host source clear i rg offset bytes (s, a) = Some (False, s', a')
        \<and> represents others (ds_visit source clear S x) s' \<and> appended_visits source S x a a')" by blast
qed simp_all

text \<open>A download: it visits the pages the GPU has modified and may unmark them after the visits.\<close>

lemma download_visit:
  assumes host: "\<forall>c. host c" and b: "offset + bytes \<le> REGION_SIZE" "0 < bytes"
  shows "scan_rel others (ds_visit FromGpu clear) (ds_may_ask FromGpu False) (\<lambda>_ _. False) (\<lambda>_ _. False) (appended_visits FromGpu)
    (page_span (i * REGION_SIZE + offset) bytes) sa (visit_region False (download_body host clear) i offset bytes sa)"
proof (rule scan_visit [OF b refl refl])
  fix x :: dirty_state and s :: tracker and a :: "(u64 \<times> u64) list"
  define v S where "v = i * REGION_SIZE + offset" and "S = page_span v bytes"
  {
    assume n: "S \<inter> ds_gpu x = {}"
    then have "S \<inter> ds_dirty FromGpu x = {}" by (simp add: ds_dirty_def dirty_pages_def)
    moreover have "ds_gpu x - S = ds_gpu x" using n by blast
    ultimately show "\<not> False \<and> \<not> False \<and> ds_visit FromGpu clear S x = x \<and> appended_visits FromGpu S x a a"
      by (simp add: ds_visit_def ds_change_def appended_visits_def)
  next
    fix rg
    assume h: "represents others x s" "ds_may_ask FromGpu False S x" "region_ok i rg (ds_cpu x) (ds_gpu x)" "rg_addr rg + offset = v"
      "world others (ds_cpu x) (ds_gpu x) (tr_pm s) (tr_calls s)" "\<And>P. others P < 127"
      "i * REGION_SIZE \<le> v" "v + bytes \<le> i * REGION_SIZE + REGION_SIZE" "S \<subseteq> region_page i ` {..<REGION_PAGES}"
    have S: "\<forall>P\<in>S. page_valid P" using h(2) by (simp add: ds_may_ask_def)
    obtain rg1 pm1 calls1 a' where one: "visit_body host FromGpu False i rg offset bytes (s, a)
        = Some (False, store_region i rg1 pm1 calls1 s, a')"
      "represents others (ds_visit FromGpu False S x) (store_region i rg1 pm1 calls1 s)" "appended_visits FromGpu S x a a'"
      using visit_body_ok [OF host b(2) S_def S h(1,3-9)] by blast
    define s1 where "s1 = store_region i rg1 pm1 calls1 s"
    have x1: "represents others x s1" using one(2) by (simp add: s1_def ds_visit_def)
    then have ok1: "tracker_ok others (ds_cpu x) (ds_gpu x) s1" by (simp add: represents_def)
    have at: "tr_regions s1 i = Some rg1" by (simp add: s1_def store_region_def)
    have rg1: "region_ok i rg1 (ds_cpu x) (ds_gpu x)" by (rule tracker_okD(5) [OF ok1 at])
    have "\<And>P. P \<in> page_span v bytes \<Longrightarrow> page_valid P" using S by (simp add: S_def)
    from change_state_ok [OF host rg1 tracker_okD(2) [OF ok1] h(7) b(2) h(8) this h(6), folded S_def, of FromGpu False]
    obtain rg2 pm2 calls2 where two: "change_state host FromGpu False v bytes rg1 (tr_pm s1) = Some (rg2, pm2, calls2)"
      "region_ok i rg2 (new_cpu FromGpu False S (ds_cpu x)) (new_gpu FromGpu False S (ds_gpu x))"
      "world others (new_cpu FromGpu False S (ds_cpu x)) (new_gpu FromGpu False S (ds_gpu x)) pm2 (tr_calls s1 @ calls2)"
      by (auto simp: forbidden_pages_def)
    have "represents others (ds_change FromGpu False S x) (store_region i rg2 pm2 calls2 s1)"
      by (rule represents_store [OF x1 h(9) two(2,3) ds_no_conflict])
    then show "False \<and> download_body host clear i rg offset bytes (s, a) = None
      \<or> \<not> False \<and> (\<exists>s' a'. download_body host clear i rg offset bytes (s, a) = Some (False, s', a')
          \<and> represents others (ds_visit FromGpu clear S x) s' \<and> appended_visits FromGpu S x a a')"
      using one(1,3) x1 at two(1)
      by (cases clear) (simp_all add: download_body_def s1_def [symmetric] h(4) ds_visit_def)
  }
qed

text \<open>
  An invalidation: pages the GPU has not modified are marked for the CPU; where the GPU has modified one, the
  flush takes the whole range \<open>W\<close> over to the CPU and has the pages \<open>C\<close> synchronised too.  The flush is only
  known to do so if \<open>good\<close> holds, which must be where the GPU has modified a page of the range.
\<close>

definition page_addresses :: "nat set \<Rightarrow> u64 set" where
  "page_addresses S = {x. x div PAGE_SIZE \<in> S}"

definition ds_flush :: "nat set \<Rightarrow> nat set \<Rightarrow> dirty_state \<Rightarrow> dirty_state" where
  "ds_flush W C x = x\<lparr>ds_cpu := ds_cpu x \<union> W, ds_gpu := ds_gpu x - W, ds_sync := ds_sync x \<union> page_addresses (W \<union> C)\<rparr>"

definition ds_invalidate :: "nat set \<Rightarrow> nat set \<Rightarrow> nat set \<Rightarrow> dirty_state \<Rightarrow> dirty_state" where
  "ds_invalidate W C S x = (if S \<inter> ds_gpu x = {} then ds_change FromCpu True S x else ds_flush W C x)"

definition ds_may_invalidate :: "bool \<Rightarrow> nat set \<Rightarrow> nat set \<Rightarrow> dirty_state \<Rightarrow> bool" where
  "ds_may_invalidate good W S x \<longleftrightarrow> S \<subseteq> W \<and> (\<forall>P\<in>S. page_valid P) \<and> \<not> ds_upload x
     \<and> (good \<or> W \<inter> ds_gpu x = {})"

definition flushes :: "bool \<Rightarrow> (nat \<Rightarrow> nat) \<Rightarrow> nat set \<Rightarrow> nat set \<Rightarrow> (tracker \<Rightarrow> tracker option) \<Rightarrow> bool" where
  "flushes good others W C on_flush \<longleftrightarrow> (\<forall>x s. good \<and> represents others x s \<and> \<not> ds_upload x \<longrightarrow>
     (\<exists>s'. on_flush s = Some s' \<and> represents others (ds_flush W C x) s'))"

lemma ds_invalidate_union:
  assumes "S \<union> T \<subseteq> W"
  shows "ds_invalidate W C (S \<union> T) x = ds_invalidate W C T (ds_invalidate W C S x)"
proof (cases "S \<inter> ds_gpu x = {}")
  case True
  have "ds_flush W C (ds_change FromCpu True S x) = ds_flush W C x"
    using assms by (simp add: ds_flush_def ds_change_def Un_assoc Un_absorb1)
  then show ?thesis using True by (auto simp: ds_invalidate_def ds_change_simps) (auto simp: ds_change_def)
next
  case False
  have "ds_cpu x \<union> W \<union> T = ds_cpu x \<union> W" using assms by blast
  then have "T \<inter> ds_gpu (ds_flush W C x) = {}" "ds_change FromCpu True T (ds_flush W C x) = ds_flush W C x"
    using assms by (auto simp: ds_flush_def ds_change_def)
  then show ?thesis using False by (auto simp: ds_invalidate_def)
qed

interpretation invalidate: page_scan others "ds_invalidate W C" "ds_may_invalidate good W" "\<lambda>_ _. False" "\<lambda>_ _. False"
    "\<lambda>_ _ _ (_ :: unit). True" for others W C good
proof unfold_locales
  show "ds_invalidate W C {} x = x" for x by (simp add: ds_invalidate_def ds_change_simps)
  show "ds_may_invalidate good W S x \<and> (\<not> False \<longrightarrow> \<not> False \<longrightarrow> ds_may_invalidate good W T (ds_invalidate W C S x))"
    if "ds_may_invalidate good W (S \<union> T) x" for S T x
    using that by (auto simp: ds_may_invalidate_def ds_invalidate_def ds_change_def ds_flush_def)
  show "ds_invalidate W C (S \<union> T) x = ds_invalidate W C T (ds_invalidate W C S x)"
    if "ds_may_invalidate good W (S \<union> T) x" for S T x
    using that by (intro ds_invalidate_union) (simp add: ds_may_invalidate_def)
qed simp_all

lemma invalidate_visit:
  assumes host: "\<forall>c. host c" and f: "flushes good others W C on_flush" and b: "offset + bytes \<le> REGION_SIZE" "0 < bytes"
  shows "scan_rel others (ds_invalidate W C) (ds_may_invalidate good W) (\<lambda>_ _. False) (\<lambda>_ _. False) (\<lambda>_ _ _ (_ :: unit). True)
    (page_span (i * REGION_SIZE + offset) bytes) sa (visit_region False (invalidate_body host on_flush) i offset bytes sa)"
proof (rule scan_visit [OF b refl refl])
  fix x :: dirty_state and s :: tracker and a :: unit
  define v S where "v = i * REGION_SIZE + offset" and "S = page_span v bytes"
  {
    assume "S \<subseteq> ds_cpu x" "S \<inter> ds_gpu x = {}"
    then show "\<not> False \<and> \<not> False \<and> ds_invalidate W C S x = x \<and> True"
      by (simp add: ds_invalidate_def ds_change_def Un_absorb2)
  next
    fix rg
    assume h: "represents others x s" "ds_may_invalidate good W S x" "region_ok i rg (ds_cpu x) (ds_gpu x)" "rg_addr rg + offset = v"
      "world others (ds_cpu x) (ds_gpu x) (tr_pm s) (tr_calls s)" "\<And>P. others P < 127"
      "i * REGION_SIZE \<le> v" "v + bytes \<le> i * REGION_SIZE + REGION_SIZE" "S \<subseteq> region_page i ` {..<REGION_PAGES}"
    have m: "is_modified FromGpu offset bytes rg = Some (S \<inter> ds_gpu x \<noteq> {})"
      using is_modified_ok [OF h(3,4) b(2) h(8), of FromGpu] by (simp add: S_def dirty_pages_def)
    have "\<exists>s'. invalidate_body host on_flush i rg offset bytes (s, a) = Some (False, s', ()) \<and> represents others (ds_invalidate W C S x) s'"
    proof (cases "S \<inter> ds_gpu x = {}")
      case True
      have "\<And>P. P \<in> page_span v bytes \<Longrightarrow> page_valid P" using h(2) by (simp add: ds_may_invalidate_def S_def)
      from change_state_ok [OF host h(3,5,7) b(2) h(8) this h(6), folded S_def, of FromCpu True] True
      obtain rg' pm' calls' where c: "change_state host FromCpu True v bytes rg (tr_pm s) = Some (rg', pm', calls')"
        "region_ok i rg' (new_cpu FromCpu True S (ds_cpu x)) (new_gpu FromCpu True S (ds_gpu x))"
        "world others (new_cpu FromCpu True S (ds_cpu x)) (new_gpu FromCpu True S (ds_gpu x)) pm' (tr_calls s @ calls')"
        by (auto simp: forbidden_pages_def)
      have "\<not> ds_conflict FromCpu True S x" using True by (simp add: ds_conflict_def forbidden_pages_def)
      from represents_store [OF h(1,9) c(2,3) this] True m c(1) show ?thesis
        by (simp add: invalidate_body_def change_body_def h(4) ds_invalidate_def)
    next
      case False
      have "\<not> ds_upload x" good using h(2) False by (auto simp: ds_may_invalidate_def)
      then obtain s' where "on_flush s = Some s'" "represents others (ds_flush W C x) s'" using f h(1) unfolding flushes_def by blast
      then show ?thesis using m False by (simp add: invalidate_body_def ds_invalidate_def)
    qed
    then show "False \<and> invalidate_body host on_flush i rg offset bytes (s, a) = None
      \<or> \<not> False \<and> (\<exists>s' a'. invalidate_body host on_flush i rg offset bytes (s, a) = Some (False, s', a')
          \<and> represents others (ds_invalidate W C S x) s' \<and> True)" by blast
  }
qed

end
