(* ===== verification/MemoryTrackerTheorems.thy ===== *)
theory MemoryTrackerTheorems
  imports MemoryTrackerFacts
begin

text \<open>
  The operations of the memory tracker refine operations on sets of pages, and the protections of the host
  are a function of these sets in every state that any sequence of operations reaches.
\<close>

subsection \<open>The operations on the abstract state\<close>

datatype tracker_op =
  IsModified dirty_source u64 u64
  | MarkCpu u64 u64
  | MarkGpu u64 u64
  | UnmarkGpu u64 u64
  | Untrack u64 u64
  | Invalidate bool "(u64 \<times> u64) option" bool u64 u64
  | Download bool u64 u64
  | UploadBegin u64 u64
  | UploadEnd bool u64 u64
  | QueueSync u64 u64
  | TakeSync
  | Watch bool u64 u64

datatype tracker_result = Done | Answer bool | Visits "(u64 \<times> u64) list" | Ranges "u64 omap"

text \<open>
  \<open>ReadMemory\<close> of bufferCache.cpp, as far as it concerns the tracker, and \<open>InvalidateMemory\<close>, whose flush it
  is.  What the rest of the buffer cache answers are arguments: whether a buffer is registered for the range,
  the buffer that \<open>FindBuffer\<close> creates and registers, which queues its range, and whether the download finds
  bytes that the GPU has modified.  \<open>Watch\<close> is the texture cache's use of the page manager.
\<close>

definition find_buffer :: "(u64 \<times> u64) option \<Rightarrow> tracker \<Rightarrow> tracker option" where
  "find_buffer created s = (case created of None \<Rightarrow> Some s | Some (address, sz) \<Rightarrow> queue_bda_sync address sz s)"

definition read_memory :: "protector \<Rightarrow> bool \<Rightarrow> (u64 \<times> u64) option \<Rightarrow> bool \<Rightarrow> bool \<Rightarrow> u64 \<Rightarrow> u64 \<Rightarrow> tracker \<Rightarrow> tracker option" where
  "read_memory host registered created downloaded is_write vaddr sz s =
     (if is_write \<and> \<not> registered then Some s
      else case find_buffer created s of
             None \<Rightarrow> None
           | Some s1 \<Rightarrow>
               (case (if downloaded then unmark_gpu_modified host vaddr sz s1 else Some s1) of
                  None \<Rightarrow> None
                | Some s2 \<Rightarrow> if is_write then mark_cpu_modified host vaddr sz s2 else Some s2))"

definition invalidate_memory :: "protector \<Rightarrow> bool \<Rightarrow> (u64 \<times> u64) option \<Rightarrow> bool \<Rightarrow> u64 \<Rightarrow> u64 \<Rightarrow> tracker \<Rightarrow> tracker option" where
  "invalidate_memory host registered created downloaded vaddr sz s =
     (if \<not> guest_range_valid vaddr sz then None
      else invalidate_region host (read_memory host registered created downloaded True vaddr sz) vaddr sz s)"

definition finished :: "tracker option \<Rightarrow> (tracker_result \<times> tracker) option" where
  "finished r = map_option (Pair Done) r"

primrec tracker_exec :: "protector \<Rightarrow> tracker_op \<Rightarrow> tracker \<Rightarrow> (tracker_result \<times> tracker) option" where
  "tracker_exec host (IsModified source v n) s = map_option (\<lambda>(m, s'). (Answer m, s')) (is_region_modified source v n s)"
| "tracker_exec host (MarkCpu v n) s = finished (mark_cpu_modified host v n s)"
| "tracker_exec host (MarkGpu v n) s = finished (mark_gpu_modified host v n s)"
| "tracker_exec host (UnmarkGpu v n) s = finished (unmark_gpu_modified host v n s)"
| "tracker_exec host (Untrack v n) s = finished (untrack_memory host v n s)"
| "tracker_exec host (Invalidate registered created downloaded v n) s =
     finished (invalidate_memory host registered created downloaded v n s)"
| "tracker_exec host (Download clear v n) s = map_option (\<lambda>(vs, s'). (Visits vs, s')) (download_ranges host clear v n s)"
| "tracker_exec host (UploadBegin v n) s = map_option (\<lambda>(vs, s'). (Visits vs, s')) (upload_begin host v n s)"
| "tracker_exec host (UploadEnd is_written v n) s = finished (upload_end host is_written v n s)"
| "tracker_exec host (QueueSync v n) s = finished (queue_bda_sync v n s)"
| "tracker_exec host TakeSync s = (case take_bda_sync s of (m, s') \<Rightarrow> Some (Ranges m, s'))"
| "tracker_exec host (Watch track v n) s =
     map_option (\<lambda>(pm, calls). (Done, s\<lparr>tr_pm := pm, tr_calls := tr_calls s @ calls\<rparr>))
       (update_page_watchers host track False v n (tr_pm s))"

text \<open>The abstract state with the watchers of the texture cache, and what an operation does to it.\<close>

type_synonym spec_state = "(nat \<Rightarrow> nat) \<times> dirty_state"

definition ds_queue :: "nat set \<Rightarrow> dirty_state \<Rightarrow> dirty_state" where
  "ds_queue W x = x\<lparr>ds_sync := ds_sync x \<union> page_addresses W\<rparr>"

definition buffer_pages :: "(u64 \<times> u64) option \<Rightarrow> nat set" where
  "buffer_pages created = (case created of None \<Rightarrow> {} | Some (address, sz) \<Rightarrow> page_span address sz)"

fun spec_exec :: "tracker_op \<Rightarrow> spec_state \<Rightarrow> spec_state option" where
  "spec_exec (IsModified source v n) (w, x) = (if ds_upload x then None else Some (w, x))"
| "spec_exec (MarkCpu v n) (w, x) =
     (if ds_upload x \<or> page_span v n \<inter> ds_gpu x \<noteq> {} then None
      else Some (w, ds_queue (page_span v n) (x\<lparr>ds_cpu := ds_cpu x \<union> page_span v n\<rparr>)))"
| "spec_exec (MarkGpu v n) (w, x) =
     (if ds_upload x \<or> page_span v n \<inter> ds_cpu x \<noteq> {} then None else Some (w, x\<lparr>ds_gpu := ds_gpu x \<union> page_span v n\<rparr>))"
| "spec_exec (UnmarkGpu v n) (w, x) = (if ds_upload x then None else Some (w, x\<lparr>ds_gpu := ds_gpu x - page_span v n\<rparr>))"
| "spec_exec (Untrack v n) (w, x) =
     (if ds_upload x \<or> page_span v n \<inter> ds_gpu x \<noteq> {} then None
      else Some (w, ds_queue (page_span v n) (x\<lparr>ds_cpu := ds_cpu x \<union> page_span v n\<rparr>)))"
| "spec_exec (Invalidate registered created downloaded v n) (w, x) =
     (if ds_upload x then None
      else if page_span v n \<inter> ds_gpu x = {} then Some (w, ds_queue (page_span v n) (x\<lparr>ds_cpu := ds_cpu x \<union> page_span v n\<rparr>))
      else Some (w, ds_flush (page_span v n) (buffer_pages created) x))"
| "spec_exec (Download clear v n) (w, x) =
     (if ds_upload x then None else Some (w, if clear then x\<lparr>ds_gpu := ds_gpu x - page_span v n\<rparr> else x))"
| "spec_exec (UploadBegin v n) (w, x) =
     (if ds_upload x then None else Some (w, x\<lparr>ds_cpu := ds_cpu x - page_span v n, ds_upload := True\<rparr>))"
| "spec_exec (UploadEnd is_written v n) (w, x) =
     Some (w, x\<lparr>ds_gpu := (if is_written then ds_gpu x \<union> page_span v n else ds_gpu x), ds_upload := False\<rparr>)"
| "spec_exec (QueueSync v n) (w, x) = Some (w, ds_queue (page_span v n) x)"
| "spec_exec TakeSync (w, x) = Some (w, x\<lparr>ds_sync := {}\<rparr>)"
| "spec_exec (Watch track v n) (w, x) =
     Some (\<lambda>P. if P \<in> page_span v n then if track then w P + 1 else w P - 1 else w P, x)"

text \<open>What the result of an operation says.\<close>

fun spec_result :: "tracker_op \<Rightarrow> dirty_state \<Rightarrow> tracker_result \<Rightarrow> bool" where
  "spec_result (IsModified source v n) x r \<longleftrightarrow> r = Answer (page_span v n \<inter> ds_dirty source x \<noteq> {})"
| "spec_result (Download clear v n) x r \<longleftrightarrow> (\<exists>vs. r = Visits vs \<and> visits_ok (page_span v n \<inter> ds_gpu x) vs)"
| "spec_result (UploadBegin v n) x r \<longleftrightarrow> (\<exists>vs. r = Visits vs \<and> visits_ok (page_span v n \<inter> ds_cpu x) vs)"
| "spec_result TakeSync x r \<longleftrightarrow> (\<exists>m. r = Ranges m \<and> rs_ok m \<and> rs_set m = ds_sync x)"
| "spec_result _ x r \<longleftrightarrow> r = Done"

text \<open>
  How the operations are used: on ranges of the guest's memory above its first page, an upload ends where it
  began, where the GPU has modified a page a buffer is registered that holds bytes to download, and the texture
  cache takes back only watchers it has, at most 126 for one page.
\<close>

definition range_ok :: "u64 \<Rightarrow> u64 \<Rightarrow> bool" where
  "range_ok v n \<longleftrightarrow> guest_range_valid v n \<and> PAGE_SIZE \<le> v"

fun op_ok :: "tracker_op \<Rightarrow> spec_state \<Rightarrow> bool" where
  "op_ok TakeSync (w, x) \<longleftrightarrow> True"
| "op_ok (UploadEnd is_written v n) (w, x) \<longleftrightarrow> range_ok v n \<and> ds_upload x \<and> page_span v n \<inter> ds_cpu x = {}"
| "op_ok (Watch track v n) (w, x) \<longleftrightarrow>
     range_ok v n \<and> (\<forall>P\<in>page_span v n. if track then w P < 126 else 0 < w P)"
| "op_ok (IsModified _ v n) (w, x) \<longleftrightarrow> range_ok v n"
| "op_ok (MarkCpu v n) (w, x) \<longleftrightarrow> range_ok v n"
| "op_ok (MarkGpu v n) (w, x) \<longleftrightarrow> range_ok v n"
| "op_ok (UnmarkGpu v n) (w, x) \<longleftrightarrow> range_ok v n"
| "op_ok (Untrack v n) (w, x) \<longleftrightarrow> range_ok v n"
| "op_ok (Invalidate registered created downloaded v n) (w, x) \<longleftrightarrow>
     range_ok v n \<and> (case created of None \<Rightarrow> True | Some (address, sz) \<Rightarrow> range_ok address sz)
   \<and> (registered \<and> downloaded \<or> page_span v n \<inter> ds_gpu x = {})"
| "op_ok (Download _ v n) (w, x) \<longleftrightarrow> range_ok v n"
| "op_ok (UploadBegin v n) (w, x) \<longleftrightarrow> range_ok v n"
| "op_ok (QueueSync v n) (w, x) \<longleftrightarrow> range_ok v n"

subsection \<open>Each operation\<close>

lemma range_okD:
  assumes "range_ok v n"
  shows "guest_range_valid v n" and "\<forall>P\<in>page_span v n. page_valid P"
  using assms page_span_valid [of v n] by (auto simp: range_ok_def)

text \<open>The result of a whole scan.\<close>

lemma change_all:
  assumes host: "\<forall>c. host c" and r: "range_ok v n" and x: "represents others x s"
    and pre: "create \<or> (source = FromCpu) = enable \<or> page_span v n \<inter> ds_cpu x = {}"
  shows "if ds_conflict source enable (page_span v n) x then tracker_iterate create (change_body host source enable) v n (s, ()) = None
    else \<exists>s'. tracker_iterate create (change_body host source enable) v n (s, ()) = Some (False, s', ())
      \<and> represents others (ds_change source enable (page_span v n) x) s'"
proof -
  have "scan_rel others (ds_change source enable) (ds_may_change source enable create) (ds_conflict source enable)
      (\<lambda>_ _. False) (\<lambda>_ _ _ (_ :: unit). True) (page_span v n) (s, ())
      (tracker_iterate create (change_body host source enable) v n (s, ()))"
    by (rule change.iterate [OF range_okD(1) [OF r] change_visit [OF host]])
  moreover have "represents others x (fst (s, ()))" "ds_may_change source enable create (page_span v n) x"
    using x pre range_okD(2) [OF r] by (simp_all add: ds_may_change_def)
  ultimately show ?thesis by (cases rule: scan_relD) auto
qed

lemma query_all:
  assumes r: "range_ok v n" and x: "represents others x s" and c: "create \<or> source = FromGpu"
  obtains s' where "tracker_iterate create (modified_body source) v n (s, ()) = Some (page_span v n \<inter> ds_dirty source x \<noteq> {}, s', ())"
    "represents others x s'"
proof -
  have "scan_rel others (\<lambda>_ x. x) (ds_may_ask source create) (\<lambda>_ _. False) (\<lambda>S x. S \<inter> ds_dirty source x \<noteq> {})
      (\<lambda>_ _ _ (_ :: unit). True) (page_span v n) (s, ()) (tracker_iterate create (modified_body source) v n (s, ()))"
    by (rule query.iterate [OF range_okD(1) [OF r] query_visit])
  moreover have "represents others x (fst (s, ()))" "ds_may_ask source create (page_span v n) x"
    using x c range_okD(2) [OF r] by (simp_all add: ds_may_ask_def)
  ultimately show thesis by (cases rule: scan_relD) (use that in auto)
qed

lemma visit_all:
  assumes host: "\<forall>c. host c" and r: "range_ok v n" and x: "represents others x s"
  obtains s' vs where "tracker_iterate True (visit_body host source clear) v n (s, []) = Some (False, s', vs)"
    "represents others (ds_visit source clear (page_span v n) x) s'" "visits_ok (page_span v n \<inter> ds_dirty source x) vs"
proof -
  have "scan_rel others (ds_visit source clear) (ds_may_ask source True) (\<lambda>_ _. False) (\<lambda>_ _. False) (appended_visits source)
      (page_span v n) (s, []) (tracker_iterate True (visit_body host source clear) v n (s, []))"
    by (rule visit.iterate [OF range_okD(1) [OF r] visit_visit [OF host]])
  moreover have "represents others x (fst (s, []))" "ds_may_ask source True (page_span v n) x"
    using x range_okD(2) [OF r] by (simp_all add: ds_may_ask_def)
  ultimately show thesis by (cases rule: scan_relD) (use that in \<open>auto simp: appended_visits_def\<close>)
qed

lemma download_all:
  assumes host: "\<forall>c. host c" and r: "range_ok v n" and x: "represents others x s"
  obtains s' vs where "tracker_iterate False (download_body host clear) v n (s, []) = Some (False, s', vs)"
    "represents others (ds_visit FromGpu clear (page_span v n) x) s'" "visits_ok (page_span v n \<inter> ds_gpu x) vs"
proof -
  have "scan_rel others (ds_visit FromGpu clear) (ds_may_ask FromGpu False) (\<lambda>_ _. False) (\<lambda>_ _. False) (appended_visits FromGpu)
      (page_span v n) (s, []) (tracker_iterate False (download_body host clear) v n (s, []))"
    by (rule visit.iterate [OF range_okD(1) [OF r] download_visit [OF host]])
  moreover have "represents others x (fst (s, []))" "ds_may_ask FromGpu False (page_span v n) x"
    using x range_okD(2) [OF r] by (simp_all add: ds_may_ask_def)
  ultimately show thesis
    by (cases rule: scan_relD) (use that in \<open>auto simp: appended_visits_def ds_dirty_def dirty_pages_def\<close>)
qed

lemma invalidate_all:
  assumes host: "\<forall>c. host c" and r: "range_ok v n" and x: "represents others x s" "\<not> ds_upload x"
    and f: "flushes good others (page_span v n) C on_flush" and g: "good \<or> page_span v n \<inter> ds_gpu x = {}"
  obtains s' where "tracker_iterate False (invalidate_body host on_flush) v n (s, ()) = Some (False, s', ())"
    "represents others (ds_invalidate (page_span v n) C (page_span v n) x) s'"
proof -
  have "scan_rel others (ds_invalidate (page_span v n) C) (ds_may_invalidate good (page_span v n)) (\<lambda>_ _. False) (\<lambda>_ _. False)
      (\<lambda>_ _ _ (_ :: unit). True) (page_span v n) (s, ()) (tracker_iterate False (invalidate_body host on_flush) v n (s, ()))"
    by (rule invalidate.iterate [OF range_okD(1) [OF r] invalidate_visit [OF host f]])
  moreover have "represents others x (fst (s, ()))" "ds_may_invalidate good (page_span v n) (page_span v n) x"
    using x g range_okD(2) [OF r] by (simp_all add: ds_may_invalidate_def)
  ultimately show thesis by (cases rule: scan_relD) (use that in auto)
qed

lemma page_addresses_span:
  "page_addresses (page_span v n) = {align_down v PAGE_SIZE..<align_up (v + n) PAGE_SIZE}"
proof (rule set_eqI)
  fix x
  have "v div PAGE_SIZE \<le> x div PAGE_SIZE \<longleftrightarrow> v div PAGE_SIZE * PAGE_SIZE \<le> x"
    by (rule less_eq_div_iff_mult_less_eq) simp
  moreover have "x div PAGE_SIZE < (v + n + 4095) div PAGE_SIZE \<longleftrightarrow> x < (v + n + 4095) div PAGE_SIZE * PAGE_SIZE"
    by (rule div_less_iff_less_mult) simp
  ultimately show "x \<in> page_addresses (page_span v n) \<longleftrightarrow> x \<in> {align_down v PAGE_SIZE..<align_up (v + n) PAGE_SIZE}"
    by (simp add: page_addresses_def page_span_def page_floor page_ceiling)
qed

lemma queue_sync_ok:
  assumes r: "range_ok v n" and x: "represents others x s"
  obtains s' where "queue_bda_sync v n s = Some s'" "represents others (ds_queue (page_span v n) x) s'"
    "tr_upload s' = tr_upload s"
proof -
  define b e where "b = align_down v PAGE_SIZE" and "e = align_up (v + n) PAGE_SIZE"
  have n: "0 < n" and vn: "v + n \<le> ADDRESS_SIZE"
    using r by (auto simp: range_ok_def guest_range_valid_def split: if_splits)
  have "v + n + 4095 < (4294967296 + 1) * PAGE_SIZE" using vn by simp
  then have "(v + n + 4095) div PAGE_SIZE < 4294967296 + 1" by (simp only: div_less_iff_less_mult)
  then have e: "e \<le> ADDRESS_SIZE" unfolding e_def page_ceiling by simp
  have "b \<le> v" by (simp add: b_def align_down_def)
  moreover have "v + n \<le> e" unfolding e_def by (rule align_up_above) simp
  ultimately have be: "b < e" using n by simp
  have ok: "rs_ok (tr_bda s)" using x by (simp add: represents_def tracker_ok_def)
  obtain m where m: "rs_add b (e - b) (tr_bda s) = Some m" "rs_ok m" "rs_set m = rs_set (tr_bda s) \<union> {b..<e}"
    using rs_add_ok [OF ok, of "e - b" b] be e by auto
  have "queue_bda_sync v n s = Some (s\<lparr>tr_bda := m\<rparr>)" using m(1) by (simp add: queue_bda_sync_def b_def e_def)
  moreover have "represents others (ds_queue (page_span v n) x) (s\<lparr>tr_bda := m\<rparr>)"
    using x m(2,3) by (simp add: represents_def tracker_ok_def ds_queue_def page_addresses_span b_def e_def)
  ultimately show thesis using that by simp
qed

lemma represents_upload: "represents others x s \<Longrightarrow> tr_upload s = ds_upload x"
  by (simp add: represents_def)

lemma represents_set_upload: "represents others x s \<Longrightarrow> represents others (x\<lparr>ds_upload := u\<rparr>) (s\<lparr>tr_upload := u\<rparr>)"
  by (simp add: represents_def tracker_ok_def)

lemma ds_change_upload [simp]: "ds_upload (ds_change source enable S x) = ds_upload x"
  by (simp add: ds_change_def)

lemma mark_cpu_ok:
  assumes host: "\<forall>c. host c" and r: "range_ok v n" and x: "represents others x s"
  shows "if ds_upload x \<or> page_span v n \<inter> ds_gpu x \<noteq> {} then mark_cpu_modified host v n s = None
    else \<exists>s'. mark_cpu_modified host v n s = Some s'
      \<and> represents others (ds_queue (page_span v n) (x\<lparr>ds_cpu := ds_cpu x \<union> page_span v n\<rparr>)) s'"
proof -
  have c: "ds_conflict FromCpu True (page_span v n) x \<longleftrightarrow> page_span v n \<inter> ds_gpu x \<noteq> {}"
    by (simp add: ds_conflict_def forbidden_pages_def)
  note A = change_all [OF host r x, of True FromCpu True, unfolded c, simplified]
  show ?thesis
  proof (cases "ds_upload x \<or> page_span v n \<inter> ds_gpu x \<noteq> {}")
    case True
    then show ?thesis using A represents_upload [OF x]
      by (cases "page_span v n \<inter> ds_gpu x = {}") (simp_all add: mark_cpu_modified_def)
  next
    case False
    then obtain s1 where s1: "tracker_iterate True (change_body host FromCpu True) v n (s, ()) = Some (False, s1, ())"
      "represents others (ds_change FromCpu True (page_span v n) x) s1" using A by auto
    obtain s2 where "queue_bda_sync v n s1 = Some s2" "represents others (ds_queue (page_span v n) (ds_change FromCpu True (page_span v n) x)) s2"
      by (rule queue_sync_ok [OF r s1(2)])
    then show ?thesis using False s1(1) represents_upload [OF x] by (simp add: mark_cpu_modified_def ds_change_def)
  qed
qed

lemma mark_gpu_ok:
  assumes host: "\<forall>c. host c" and r: "range_ok v n" and x: "represents others x s"
  shows "if ds_upload x \<or> page_span v n \<inter> ds_cpu x \<noteq> {} then mark_gpu_modified host v n s = None
    else \<exists>s'. mark_gpu_modified host v n s = Some s' \<and> represents others (x\<lparr>ds_gpu := ds_gpu x \<union> page_span v n\<rparr>) s'"
proof -
  have c: "ds_conflict FromGpu True (page_span v n) x \<longleftrightarrow> page_span v n \<inter> ds_cpu x \<noteq> {}"
    by (simp add: ds_conflict_def forbidden_pages_def)
  note A = change_all [OF host r x, of True FromGpu True, unfolded c, simplified]
  show ?thesis
  proof (cases "ds_upload x \<or> page_span v n \<inter> ds_cpu x \<noteq> {}")
    case True
    then show ?thesis using A represents_upload [OF x]
      by (cases "page_span v n \<inter> ds_cpu x = {}") (simp_all add: mark_gpu_modified_def)
  next
    case False
    then obtain s1 where "tracker_iterate True (change_body host FromGpu True) v n (s, ()) = Some (False, s1, ())"
      "represents others (ds_change FromGpu True (page_span v n) x) s1" using A by auto
    then show ?thesis using False represents_upload [OF x] by (simp add: mark_gpu_modified_def ds_change_def)
  qed
qed

lemma unmark_gpu_ok:
  assumes host: "\<forall>c. host c" and r: "range_ok v n" and x: "represents others x s" and u: "\<not> ds_upload x"
  obtains s' where "unmark_gpu_modified host v n s = Some s'" "represents others (x\<lparr>ds_gpu := ds_gpu x - page_span v n\<rparr>) s'"
  using change_all [OF host r x, of False FromGpu False, simplified] u represents_upload [OF x] that
  by (auto simp: unmark_gpu_modified_def ds_change_def ds_no_conflict)

lemma untrack_ok:
  assumes host: "\<forall>c. host c" and r: "range_ok v n" and x: "represents others x s"
  shows "if ds_upload x \<or> page_span v n \<inter> ds_gpu x \<noteq> {} then untrack_memory host v n s = None
    else \<exists>s'. untrack_memory host v n s = Some s'
      \<and> represents others (ds_queue (page_span v n) (x\<lparr>ds_cpu := ds_cpu x \<union> page_span v n\<rparr>)) s'"
proof -
  obtain s1 where s1: "tracker_iterate False (modified_body FromGpu) v n (s, ()) = Some (page_span v n \<inter> ds_dirty FromGpu x \<noteq> {}, s1, ())"
    "represents others x s1" by (rule query_all [OF r x, of False FromGpu]) simp
  have d: "ds_dirty FromGpu x = ds_gpu x" by (simp add: ds_dirty_def dirty_pages_def)
  have c: "ds_conflict FromCpu True (page_span v n) x \<longleftrightarrow> page_span v n \<inter> ds_gpu x \<noteq> {}"
    by (simp add: ds_conflict_def forbidden_pages_def)
  note A = change_all [OF host r s1(2), of False FromCpu True, unfolded c, simplified]
  show ?thesis
  proof (cases "ds_upload x \<or> page_span v n \<inter> ds_gpu x \<noteq> {}")
    case True
    then show ?thesis using s1(1) represents_upload [OF x] by (auto simp: untrack_memory_def d)
  next
    case False
    then obtain s2 where s2: "tracker_iterate False (change_body host FromCpu True) v n (s1, ()) = Some (False, s2, ())"
      "represents others (ds_change FromCpu True (page_span v n) x) s2" using A by auto
    obtain s3 where "queue_bda_sync v n s2 = Some s3" "represents others (ds_queue (page_span v n) (ds_change FromCpu True (page_span v n) x)) s3"
      by (rule queue_sync_ok [OF r s2(2)])
    then show ?thesis using False s1(1) s2(1) represents_upload [OF x] by (simp add: untrack_memory_def ds_change_def d)
  qed
qed

lemma find_buffer_ok:
  assumes "case created of None \<Rightarrow> True | Some (address, sz) \<Rightarrow> range_ok address sz" and "represents others x s"
  obtains s' where "find_buffer created s = Some s'" "represents others (ds_queue (buffer_pages created) x) s'"
    "tr_upload s' = tr_upload s"
proof (cases created)
  case None
  have "ds_queue {} x = x" by (simp add: ds_queue_def page_addresses_def)
  then show thesis using that assms(2) None by (simp add: find_buffer_def buffer_pages_def)
next
  case (Some c)
  obtain address sz where c: "c = (address, sz)" by force
  have "range_ok address sz" using assms(1) by (simp add: Some c)
  then obtain s' where "queue_bda_sync address sz s = Some s'" "represents others (ds_queue (page_span address sz) x) s'"
    "tr_upload s' = tr_upload s" by (rule queue_sync_ok [OF _ assms(2)])
  then show thesis using that by (simp add: find_buffer_def buffer_pages_def Some c)
qed

lemma page_addresses_union: "page_addresses (S \<union> T) = page_addresses S \<union> page_addresses T"
  by (auto simp: page_addresses_def)

lemma read_memory_flushes:
  assumes host: "\<forall>c. host c" and r: "range_ok v n"
    and c: "case created of None \<Rightarrow> True | Some (address, sz) \<Rightarrow> range_ok address sz"
  shows "flushes (registered \<and> downloaded) others (page_span v n) (buffer_pages created)
    (read_memory host registered created downloaded True v n)"
  unfolding flushes_def
proof (intro allI impI)
  fix x s
  assume x: "(registered \<and> downloaded) \<and> represents others x s \<and> \<not> ds_upload x"
  define y0 where "y0 = ds_queue (buffer_pages created) x"
  define y where "y = y0\<lparr>ds_gpu := ds_gpu y0 - page_span v n\<rparr>"
  obtain s0 where s0: "find_buffer created s = Some s0" "represents others y0 s0"
    using find_buffer_ok [OF c] x unfolding y0_def by blast
  have u0: "\<not> ds_upload y0" using x by (simp add: y0_def ds_queue_def)
  obtain s1 where s1: "unmark_gpu_modified host v n s0 = Some s1" "represents others y s1"
    using unmark_gpu_ok [OF host r s0(2) u0] unfolding y_def by blast
  have "\<not> (ds_upload y \<or> page_span v n \<inter> ds_gpu y \<noteq> {})" using u0 by (auto simp: y_def)
  then obtain s2 where "mark_cpu_modified host v n s1 = Some s2"
    "represents others (ds_queue (page_span v n) (y\<lparr>ds_cpu := ds_cpu y \<union> page_span v n\<rparr>)) s2"
    using mark_cpu_ok [OF host r s1(2)] by auto
  moreover have "ds_queue (page_span v n) (y\<lparr>ds_cpu := ds_cpu y \<union> page_span v n\<rparr>)
      = ds_flush (page_span v n) (buffer_pages created) x"
    by (cases x) (simp add: y_def y0_def ds_queue_def ds_flush_def page_addresses_union Un_ac)
  ultimately show "\<exists>s'. read_memory host registered created downloaded True v n s = Some s'
      \<and> represents others (ds_flush (page_span v n) (buffer_pages created) x) s'"
    using x s0(1) s1(1) by (simp add: read_memory_def)
qed

lemma invalidate_memory_ok:
  assumes host: "\<forall>c. host c" and x: "represents others x s" and u: "\<not> ds_upload x"
    and ok: "op_ok (Invalidate registered created downloaded v n) (others, x)"
  obtains s' where "invalidate_memory host registered created downloaded v n s = Some s'"
    "represents others (snd (the (spec_exec (Invalidate registered created downloaded v n) (others, x)))) s'"
proof -
  have r: "range_ok v n" and c: "case created of None \<Rightarrow> True | Some (address, sz) \<Rightarrow> range_ok address sz"
    and g: "registered \<and> downloaded \<or> page_span v n \<inter> ds_gpu x = {}" using ok by simp_all
  let ?flush = "read_memory host registered created downloaded True v n"
  let ?y = "ds_invalidate (page_span v n) (buffer_pages created) (page_span v n) x"
  obtain s1 where s1: "tracker_iterate False (invalidate_body host ?flush) v n (s, ()) = Some (False, s1, ())"
    "represents others ?y s1"
    by (rule invalidate_all [OF host r x u read_memory_flushes [OF host r c] g])
  obtain s2 where s2: "queue_bda_sync v n s1 = Some s2" "represents others (ds_queue (page_span v n) ?y) s2"
    by (rule queue_sync_ok [OF r s1(2)])
  have "ds_queue (page_span v n) ?y = snd (the (spec_exec (Invalidate registered created downloaded v n) (others, x)))"
    using u by (cases "page_span v n \<inter> ds_gpu x = {}")
      (simp_all add: ds_invalidate_def ds_queue_def ds_flush_def ds_change_def page_addresses_union Un_ac)
  then show thesis using that s1(1) s2 u represents_upload [OF x] range_okD(1) [OF r]
    by (simp add: invalidate_memory_def invalidate_region_def)
qed

lemma watch_ok:
  assumes host: "\<forall>c. host c" and r: "range_ok v n" and x: "represents w x s"
    and b: "\<forall>P\<in>page_span v n. if track then w P < 126 else 0 < w P"
    and w': "w' = (\<lambda>P. if P \<in> page_span v n then if track then w P + 1 else w P - 1 else w P)"
  obtains pm calls where "update_page_watchers host track False v n (tr_pm s) = Some (pm, calls)"
    "represents w' x (s\<lparr>tr_pm := pm, tr_calls := tr_calls s @ calls\<rparr>)"
proof -
  have ok: "tracker_ok w (ds_cpu x) (ds_gpu x) s" using x by (simp add: represents_def)
  have W: "pages_ok (tr_pm s)" "host_follows (tr_pm s) (protect_effect (tr_calls s) (\<lambda>_. ReadWrite))"
    "\<And>P. write_watchers (page_at (tr_pm s) P) = w P + of_bool (P \<notin> ds_cpu x)"
    "\<And>P. access_watchers (page_at (tr_pm s) P) = of_bool (P \<in> ds_gpu x)"
    using tracker_okD(2) [OF ok] by (simp_all add: world_def)
  have bump: "bump track False (page_at (tr_pm s) P) = Some ((page_at (tr_pm s) P)\<lparr>write_watchers := w' P + of_bool (P \<notin> ds_cpu x)\<rparr>)"
    if "P \<in> page_span v n" for P
    using b [rule_format, OF that] that by (cases track) (auto simp: bump_simps W(3) w')
  have "w' P < 127" for P
    using b tracker_okD(1) [OF ok, of P] by (cases "P \<in> page_span v n"; cases track) (force simp: w')+
  note w'_less = this
  from update_page_watchers_watches [OF host range_okD(1) [OF r] W(1,2), of track False] show thesis
  proof (cases rule: watchesE)
    case (1 P)
    then show ?thesis using bump [of P] by simp
  next
    case (2 pm calls)
    have at: "page_at pm P = (if P \<in> page_span v n then (page_at (tr_pm s) P)\<lparr>write_watchers := w' P + of_bool (P \<notin> ds_cpu x)\<rparr>
        else page_at (tr_pm s) P)" for P
      using 2(5) [of P] bump [of P] by simp
    have "world w' (ds_cpu x) (ds_gpu x) pm (tr_calls s @ calls)"
      unfolding world_def using 2(3,4) W(3,4) by (simp add: at) (simp add: w')
    then have "tracker_ok w' (ds_cpu x) (ds_gpu x) (s\<lparr>tr_pm := pm, tr_calls := tr_calls s @ calls\<rparr>)"
      using ok w'_less by (simp add: tracker_ok_def)
    then have "represents w' x (s\<lparr>tr_pm := pm, tr_calls := tr_calls s @ calls\<rparr>)" using x by (simp add: represents_def)
    then show ?thesis using that 2(2) by blast
  qed
qed

subsection \<open>Refinement\<close>

text \<open>One operation: it stops the program exactly where the abstract one does, and else keeps the relation.\<close>

definition refines_step :: "protector \<Rightarrow> tracker_op \<Rightarrow> spec_state \<Rightarrow> tracker \<Rightarrow> bool" where
  "refines_step host c y s \<longleftrightarrow>
     (case spec_exec c y of
        None \<Rightarrow> tracker_exec host c s = None
      | Some y' \<Rightarrow> \<exists>r s'. tracker_exec host c s = Some (r, s') \<and> represents (fst y') (snd y') s' \<and> spec_result c (snd y) r)"

lemma download_ok:
  assumes host: "\<forall>c. host c" and r: "range_ok v n" and x: "represents w x s"
  shows "refines_step host (Download clear v n) (w, x) s"
proof (cases "ds_upload x")
  case True
  then show ?thesis using represents_upload [OF x] by (simp add: refines_step_def download_ranges_def)
next
  case False
  obtain s' vs where d: "tracker_iterate False (download_body host clear) v n (s, []) = Some (False, s', vs)"
    "represents w (ds_visit FromGpu clear (page_span v n) x) s'" "visits_ok (page_span v n \<inter> ds_gpu x) vs"
    by (rule download_all [OF host r x])
  have "ds_visit FromGpu clear (page_span v n) x = (if clear then x\<lparr>ds_gpu := ds_gpu x - page_span v n\<rparr> else x)"
    by (simp add: ds_visit_def ds_change_def)
  then show ?thesis using False d represents_upload [OF x] by (simp add: refines_step_def download_ranges_def)
qed

lemma upload_begin_ok:
  assumes host: "\<forall>c. host c" and r: "range_ok v n" and x: "represents w x s"
  shows "refines_step host (UploadBegin v n) (w, x) s"
proof (cases "ds_upload x")
  case True
  then show ?thesis using represents_upload [OF x] by (simp add: refines_step_def upload_begin_def)
next
  case False
  obtain s' vs where d: "tracker_iterate True (visit_body host FromCpu True) v n (s\<lparr>tr_upload := True\<rparr>, []) = Some (False, s', vs)"
    "represents w (ds_visit FromCpu True (page_span v n) (x\<lparr>ds_upload := True\<rparr>)) s'"
    "visits_ok (page_span v n \<inter> ds_dirty FromCpu (x\<lparr>ds_upload := True\<rparr>)) vs"
    by (rule visit_all [OF host r represents_set_upload [OF x]])
  have "ds_visit FromCpu True (page_span v n) (x\<lparr>ds_upload := True\<rparr>) = x\<lparr>ds_cpu := ds_cpu x - page_span v n, ds_upload := True\<rparr>"
    "ds_dirty FromCpu (x\<lparr>ds_upload := True\<rparr>) = ds_cpu x"
    by (simp_all add: ds_visit_def ds_change_def ds_dirty_def dirty_pages_def)
  then show ?thesis using False d represents_upload [OF x] by (simp add: refines_step_def upload_begin_def)
qed

lemma upload_end_ok:
  assumes host: "\<forall>c. host c" and r: "range_ok v n" and x: "represents w x s" and c: "page_span v n \<inter> ds_cpu x = {}"
  shows "refines_step host (UploadEnd is_written v n) (w, x) s"
proof (cases is_written)
  case True
  have "\<not> ds_conflict FromGpu True (page_span v n) x" using c by (simp add: ds_conflict_def forbidden_pages_def)
  then obtain s' where s': "tracker_iterate False (change_body host FromGpu True) v n (s, ()) = Some (False, s', ())"
    "represents w (ds_change FromGpu True (page_span v n) x) s'"
    using change_all [OF host r x, of False FromGpu True] c by auto
  have "represents w ((ds_change FromGpu True (page_span v n) x)\<lparr>ds_upload := False\<rparr>) (s'\<lparr>tr_upload := False\<rparr>)"
    by (rule represents_set_upload [OF s'(2)])
  then show ?thesis using True s'(1) by (simp add: refines_step_def upload_end_def finished_def ds_change_def)
next
  case False
  then show ?thesis using represents_set_upload [OF x, of False]
    by (simp add: refines_step_def upload_end_def finished_def)
qed

lemma refines_step_ok:
  assumes host: "\<forall>c. host c" and x: "represents w x s" and ok: "op_ok c (w, x)"
  shows "refines_step host c (w, x) s"
proof (cases c)
  case (IsModified source v n)
  then have r: "range_ok v n" using ok by simp
  obtain s' where "tracker_iterate (source = FromCpu) (modified_body source) v n (s, ())
      = Some (page_span v n \<inter> ds_dirty source x \<noteq> {}, s', ())" "represents w x s'"
    by (rule query_all [OF r x, of "source = FromCpu" source]) (use dirty_source.exhaust in auto)
  then show ?thesis using represents_upload [OF x] by (simp add: IsModified refines_step_def is_region_modified_def)
next
  case (MarkCpu v n)
  then show ?thesis using mark_cpu_ok [OF host _ x, of v n] ok
    by (auto simp: refines_step_def finished_def split: if_splits)
next
  case (MarkGpu v n)
  then show ?thesis using mark_gpu_ok [OF host _ x, of v n] ok
    by (auto simp: refines_step_def finished_def split: if_splits)
next
  case (UnmarkGpu v n)
  then have r: "range_ok v n" using ok by simp
  show ?thesis
  proof (cases "ds_upload x")
    case True
    then show ?thesis using represents_upload [OF x] by (simp add: UnmarkGpu refines_step_def finished_def unmark_gpu_modified_def)
  next
    case False
    obtain s' where "unmark_gpu_modified host v n s = Some s'" "represents w (x\<lparr>ds_gpu := ds_gpu x - page_span v n\<rparr>) s'"
      by (rule unmark_gpu_ok [OF host r x False])
    then show ?thesis using False by (simp add: UnmarkGpu refines_step_def finished_def)
  qed
next
  case (Untrack v n)
  then show ?thesis using untrack_ok [OF host _ x, of v n] ok
    by (auto simp: refines_step_def finished_def split: if_splits)
next
  case (Invalidate registered created downloaded v n)
  show ?thesis
  proof (cases "ds_upload x")
    case True
    then show ?thesis using represents_upload [OF x] by (simp add: Invalidate refines_step_def finished_def invalidate_memory_def invalidate_region_def)
  next
    case False
    obtain s' where "invalidate_memory host registered created downloaded v n s = Some s'"
      "represents w (snd (the (spec_exec (Invalidate registered created downloaded v n) (w, x)))) s'"
      by (rule invalidate_memory_ok [OF host x False ok [unfolded Invalidate]])
    then show ?thesis using False by (cases "page_span v n \<inter> ds_gpu x = {}") (simp_all add: Invalidate refines_step_def finished_def)
  qed
next
  case (Download clear v n)
  then show ?thesis using download_ok [OF host _ x] ok by simp
next
  case (UploadBegin v n)
  then show ?thesis using upload_begin_ok [OF host _ x] ok by simp
next
  case (UploadEnd is_written v n)
  then show ?thesis using upload_end_ok [OF host _ x] ok by simp
next
  case (QueueSync v n)
  then have r: "range_ok v n" using ok by simp
  obtain s' where "queue_bda_sync v n s = Some s'" "represents w (ds_queue (page_span v n) x) s'" by (rule queue_sync_ok [OF r x])
  then show ?thesis by (simp add: QueueSync refines_step_def finished_def)
next
  case TakeSync
  have "represents w (x\<lparr>ds_sync := {}\<rparr>) (s\<lparr>tr_bda := rs_clear\<rparr>)" "rs_ok (tr_bda s)" "rs_set (tr_bda s) = ds_sync x"
    using x by (simp_all add: represents_def tracker_ok_def rs_clear_def rs_ok_simps)
  then show ?thesis by (simp add: TakeSync refines_step_def take_bda_sync_def)
next
  case (Watch track v n)
  then have r: "range_ok v n" and b: "\<forall>P\<in>page_span v n. if track then w P < 126 else 0 < w P" using ok by simp_all
  obtain pm calls where "update_page_watchers host track False v n (tr_pm s) = Some (pm, calls)"
    "represents (\<lambda>P. if P \<in> page_span v n then if track then w P + 1 else w P - 1 else w P) x
       (s\<lparr>tr_pm := pm, tr_calls := tr_calls s @ calls\<rparr>)"
    by (rule watch_ok [OF host r x b refl])
  then show ?thesis by (simp add: Watch refines_step_def)
qed

subsection \<open>Runs\<close>

text \<open>Sequences of operations, with their results; what they do to the abstract state; and their use as intended.\<close>

fun tracker_run :: "protector \<Rightarrow> tracker_op list \<Rightarrow> tracker \<Rightarrow> (tracker_result list \<times> tracker) option" where
  "tracker_run host [] s = Some ([], s)"
| "tracker_run host (c # cs) s =
     (case tracker_exec host c s of
        None \<Rightarrow> None
      | Some (r, s') \<Rightarrow> map_option (\<lambda>(rs, s''). (r # rs, s'')) (tracker_run host cs s'))"

fun spec_run :: "tracker_op list \<Rightarrow> spec_state \<Rightarrow> spec_state option" where
  "spec_run [] y = Some y"
| "spec_run (c # cs) y = (case spec_exec c y of None \<Rightarrow> None | Some y' \<Rightarrow> spec_run cs y')"

fun run_ok :: "tracker_op list \<Rightarrow> spec_state \<Rightarrow> bool" where
  "run_ok [] y \<longleftrightarrow> True"
| "run_ok (c # cs) y \<longleftrightarrow> op_ok c y \<and> (case spec_exec c y of None \<Rightarrow> True | Some y' \<Rightarrow> run_ok cs y')"

fun results_ok :: "tracker_op list \<Rightarrow> spec_state \<Rightarrow> tracker_result list \<Rightarrow> bool" where
  "results_ok [] y rs \<longleftrightarrow> rs = []"
| "results_ok (c # cs) y rs \<longleftrightarrow>
     (case rs of
        [] \<Rightarrow> False
      | r # rs' \<Rightarrow> spec_result c (snd y) r \<and> (case spec_exec c y of None \<Rightarrow> False | Some y' \<Rightarrow> results_ok cs y' rs'))"

text \<open>At first the CPU has modified every page and nothing is watched.\<close>

definition spec_start :: spec_state where
  "spec_start = (\<lambda>_. 0, \<lparr>ds_cpu = UNIV, ds_gpu = {}, ds_sync = {}, ds_upload = False\<rparr>)"

definition tracker_start :: tracker where
  "tracker_start = tracker_init (\<lambda>_. None)"

lemma start_represents: "represents (fst spec_start) (snd spec_start) tracker_start"
  by (simp add: spec_start_def tracker_start_def tracker_init_def represents_def tracker_ok_def world_def pages_ok_def
      host_follows_def page_at_def unwatched_page_def perms_def rs_clear_def rs_ok_simps)

lemma run_refines:
  assumes "\<forall>c. host c" and "represents (fst y) (snd y) s" and "run_ok cs y"
  shows "case spec_run cs y of
      None \<Rightarrow> tracker_run host cs s = None
    | Some y' \<Rightarrow> \<exists>rs s'. tracker_run host cs s = Some (rs, s') \<and> represents (fst y') (snd y') s' \<and> results_ok cs y rs"
  using assms(2,3)
proof (induction cs arbitrary: y s)
  case (Cons c cs)
  have step: "refines_step host c y s"
    using refines_step_ok [OF assms(1) Cons.prems(1)] Cons.prems(2) by simp
  show ?case
  proof (cases "spec_exec c y")
    case None
    then show ?thesis using step by (simp add: refines_step_def)
  next
    case (Some y1)
    then obtain r s1 where r: "tracker_exec host c s = Some (r, s1)" "represents (fst y1) (snd y1) s1" "spec_result c (snd y) r"
      using step by (auto simp: refines_step_def)
    have "run_ok cs y1" using Cons.prems(2) Some by simp
    from Cons.IH [OF r(2) this] show ?thesis
      by (cases "spec_run cs y1") (auto simp: Some r(1,3))
  qed
qed simp

subsection \<open>Properties\<close>

text \<open>
  C38. The memory tracker refines two sets of pages.  Any sequence of its operations, and of the texture
  cache's on the same page manager, from the initial state, stops the program exactly where the sets say so
  (a page would be modified by both sides, or an operation is called within an upload); else every answer,
  every list of visited ranges and every set of ranges to synchronise is that of the sets, and so is the state.
\<close>

theorem tracker_refines:
  assumes "\<forall>c. host c" and "run_ok cs spec_start"
  shows "case spec_run cs spec_start of
      None \<Rightarrow> tracker_run host cs tracker_start = None
    | Some y \<Rightarrow> \<exists>rs s. tracker_run host cs tracker_start = Some (rs, s) \<and> represents (fst y) (snd y) s
        \<and> results_ok cs spec_start rs"
  by (rule run_refines [OF assms(1) start_represents assms(2)])

text \<open>An upload that the GPU writes, a fault of the CPU on the page, and a mark of the GPU, which must not come now.\<close>

definition sample_run :: "tracker_op list" where
  "sample_run = [Watch True 8192 4096, UploadBegin 8192 4096, UploadEnd True 8192 4096, IsModified FromGpu 8192 10,
     Invalidate True None True 8192 100, QueueSync 16384 10, TakeSync]"

lemma sample_span:
  "page_span 8192 4096 = {2}" "page_span 8192 100 = {2}" "page_span 8192 10 = {2}" "page_span 16384 10 = {4}"
  by (auto simp: page_span_def)

lemma sample_ranges: "range_ok 8192 4096" "range_ok 8192 100" "range_ok 8192 10" "range_ok 16384 10"
  by (simp_all add: range_ok_def guest_range_valid_def)

lemma sample_run_ok: "run_ok (sample_run @ [MarkGpu 8192 4096]) spec_start" "run_ok sample_run spec_start"
  by (simp_all add: sample_run_def spec_start_def sample_span sample_ranges ds_flush_def ds_queue_def buffer_pages_def)

lemma sample_run_end:
  "spec_run (sample_run @ [MarkGpu 8192 4096]) spec_start = None"
  "spec_run sample_run spec_start =
     Some (\<lambda>P. if P = 2 then 1 else 0, \<lparr>ds_cpu = UNIV, ds_gpu = {}, ds_sync = {}, ds_upload = False\<rparr>)"
  by (auto simp: sample_run_def spec_start_def sample_span ds_flush_def ds_queue_def buffer_pages_def)

lemma tracker_refines_witness:
  "tracker_run (\<lambda>_. True) (sample_run @ [MarkGpu 8192 4096]) tracker_start = None
   \<and> (\<exists>rs s. tracker_run (\<lambda>_. True) sample_run tracker_start = Some (rs, s) \<and> results_ok sample_run spec_start rs)"
  using tracker_refines [of "\<lambda>_. True", OF _ sample_run_ok(1)] tracker_refines [of "\<lambda>_. True", OF _ sample_run_ok(2)]
  by (auto simp: sample_run_end)

text \<open>
  C39. In every state that a sequence of operations reaches no page is modified by both sides, and the host
  protects each address accordingly: no access where the GPU has modified the page, reading only where the CPU
  has not modified it or the texture cache watches it, and full access elsewhere.  No count leaves its field.
\<close>

theorem tracker_protects:
  assumes "\<forall>c. host c" and "run_ok cs spec_start" and "tracker_run host cs tracker_start = Some (rs, s)"
  shows "\<exists>w x. spec_run cs spec_start = Some (w, x) \<and> ds_cpu x \<inter> ds_gpu x = {} \<and> (\<forall>P. w P < 127)
    \<and> (\<forall>a. protect_effect (tr_calls s) (\<lambda>_. ReadWrite) a =
         (let P = a div PAGE_SIZE in
          if P \<in> ds_gpu x then NoAccess else if P \<notin> ds_cpu x \<or> 0 < w P then MRead else ReadWrite))"
proof -
  obtain w x where y: "spec_run cs spec_start = Some (w, x)" and "represents w x s"
    using run_refines [OF assms(1) start_represents assms(2)] assms(3) by (auto split: option.splits)
  then have ok: "tracker_ok w (ds_cpu x) (ds_gpu x) s" by (simp add: represents_def)
  have "protect_effect (tr_calls s) (\<lambda>_. ReadWrite) a =
      (if a div PAGE_SIZE \<in> ds_gpu x then NoAccess
       else if a div PAGE_SIZE \<notin> ds_cpu x \<or> 0 < w (a div PAGE_SIZE) then MRead else ReadWrite)" for a
    using tracker_okD(2) [OF ok] by (simp add: world_def host_follows_def perms_def)
  then show ?thesis using y tracker_okD(1,3) [OF ok]
    by (intro exI [where x = w] exI [where x = x]) (simp add: Let_def)
qed

definition sample_upload :: "tracker_op list" where
  "sample_upload = [UploadBegin 8192 8192, UploadEnd True 8192 4096]"

lemma tracker_protects_witness:
  "\<exists>rs s. tracker_run (\<lambda>_. True) sample_upload tracker_start = Some (rs, s)
     \<and> protect_effect (tr_calls s) (\<lambda>_. ReadWrite) 8200 = NoAccess
     \<and> protect_effect (tr_calls s) (\<lambda>_. ReadWrite) 12300 = MRead
     \<and> protect_effect (tr_calls s) (\<lambda>_. ReadWrite) 16384 = ReadWrite"
proof -
  have "page_span 8192 8192 = {2, 3}" by (auto simp: page_span_def)
  moreover have "range_ok 8192 8192" by (simp add: range_ok_def guest_range_valid_def)
  ultimately have ok: "run_ok sample_upload spec_start" and last_state: "spec_run sample_upload spec_start =
      Some (\<lambda>_. 0, \<lparr>ds_cpu = UNIV - {2, 3}, ds_gpu = {2}, ds_sync = {}, ds_upload = False\<rparr>)"
    by (simp_all add: sample_upload_def spec_start_def sample_span sample_ranges)
  obtain rs s where run: "tracker_run (\<lambda>_. True) sample_upload tracker_start = Some (rs, s)"
    using run_refines [of "\<lambda>_. True", OF _ start_represents ok] last_state by auto
  show ?thesis using run tracker_protects [of "\<lambda>_. True", OF _ ok run] last_state by (auto simp: Let_def)
qed

end
