(* ===== verification/Spec2Isabelle.thy ===== *)
theory Spec2Isabelle
  imports VirtualRangesFacts PhysicalMemoryTheorems DateTimeFacts SemaphoreFacts PosixSemaphore EventFlagFacts
  EventQueueTheorems BitArrayFacts PooledTheorems FlexibleTheorems RangeSetFacts PageManagerTheorems
  MemoryTrackerTheorems
begin

text \<open>
  A verification library for KytyPlus, an emulator that runs the guest's programs against its own
  implementation of the console's kernel and libraries (src/).  It models the parts of the kernel
  (src/kernel) that keep state of their own, with the helpers of src/common they use, and the tracking of
  the guest's memory by the GPU emulation (src/graphics/host_gpu):

  \<^item> Memory (src/kernel/memory.cpp).  \<open>MemBase\<close>: protections, range types, alignment.  \<open>OrderedMap\<close> and
    \<open>IntervalMap\<close>: \<open>std::map\<close> as a sorted association list with the iterators the code moves, and maps
    whose nodes are disjoint address ranges.  \<open>VirtualRanges\<close>, \<open>VirtualRangesFacts\<close>: the class
    \<open>VirtualRanges\<close>, which records what every guest address is used for; the state is the map, the two
    page-table counters and the operations are the methods.  \<open>FreeRanges\<close>: free lists, and the locale
    \<open>free_set\<close>, the contract the memory classes rely on, interpreted on them.  \<open>PhysicalMemory\<close>,
    \<open>PhysicalMemoryFacts\<close>, \<open>PhysicalMemoryTheorems\<close>: the class \<open>PhysicalMemory\<close> with its owner map, free
    lists and mappings.  \<open>RangeLists\<close>: lists of ranges as multisets of addresses.  \<open>PooledMemory\<close>,
    \<open>PooledFacts\<close>, \<open>PooledTheorems\<close>: the class \<open>PooledMemory\<close>, whose vector of free ranges provides the
    same contract.  \<open>FlexibleMemory\<close>, \<open>FlexibleFacts\<close>, \<open>FlexibleOps\<close>, \<open>FlexibleTheorems\<close>: the class
    \<open>FlexibleMemory\<close>, blocks of guest memory over a backing store, with the calls it makes to the guest
    address space and its answers.
  \<^item> Synchronisation.  \<open>Errno\<close>: the two tables of error numbers (src/libs/errno.h).  \<open>Semaphore\<close>,
    \<open>SemaphoreFacts\<close>: \<open>KernelSemaPrivate\<close> and the kernel's semaphore calls; \<open>PosixSemaphore\<close>: \<open>PosixSemPrivate\<close>, the
    table of POSIX semaphores and their calls (src/kernel/semaphore.cpp).  \<open>EventFlag\<close>, \<open>EventFlagFacts\<close>:
    src/kernel/eventFlag.cpp.  A method that waits is cut where it gives up its mutex; the threads that
    block and the moments they resume are the steps of an inductive relation.
  \<^item> Event queues (src/kernel/eventQueue.cpp).  \<open>EventQueue\<close>: the class \<open>KernelEqueuePrivate\<close> and the hooks a
    registration holds, with those of the video output and the renderer; \<open>EventCalls\<close>: the table of
    queues and the kernel calls; \<open>EventQueueFacts\<close>, \<open>EventQueueTheorems\<close>: timers, delivery, invariants.
  \<^item> Helpers (src/common).  \<open>StringUtils\<close>: stringUtils.h; \<open>DateTime\<close>, \<open>DateTimeFacts\<close>: dateTime.cpp and dateTime.h;
    \<open>BitArray\<close>, \<open>BitArrayFacts\<close>: bitArray.h.
  \<^item> GPU memory (src/graphics/host_gpu).  \<open>RangeSet\<close>, \<open>RangeSetFacts\<close>: rangeSet.h.  \<open>PageManager\<close>,
    \<open>PageManagerFacts\<close>, \<open>PageManagerTheorems\<close>: pageManager.cpp, the counts of watchers of each page and the
    protections asked of the host.  \<open>RegionManager\<close>, \<open>RegionManagerFacts\<close>: regionManager.h, four bit arrays
    for the 1024 pages of a region.  \<open>MemoryTracker\<close>, \<open>MemoryTrackerFacts\<close>, \<open>MemoryTrackerTheorems\<close>:
    memoryTracker.h and memoryTracker.cpp, the walk over regions created on demand, over a page manager and a
    range set, with the flush of an invalidation from bufferCache.cpp.  The walk is one locale, and each
    operation an interpretation of it.

  How the code is represented.  A method of a class that holds the class mutex throughout is one
  function from the state to the state and the result.  An unsigned 64-bit number is a natural
  number below \<open>2 ^ 64\<close> with the wrap-around written out (\<open>add64\<close>, \<open>sub64\<close>) where sums can wrap, a bit
  mask a word, a signed number an integer brought back to its width where it can overflow.  Errors,
  early returns and the places where the program stops are values (options, sums, and the outcome
  types of each theory).  Clocks, elapsed times, the size of the machine's memory and the answers of
  library code are arguments of the operations that ask for them.

  What is shown.  Memory: the invariants of the two tables in every reachable state, the refinement of
  every mutating method to its effect on the map from addresses to attributes, the exactness of
  allocation, release, mapping, unmapping and protection, the queries, and the accounting of the pool,
  where every address given to it is free or behind one mapping, the sharing of the flexible memory's backing
  store and the round trip through a snapshot.  Synchronisation: POSIX counts
  that account for every token, kernel queues in order without lost wake-ups, which threads a signal wakes, that
  deletions and cancellations let every thread go in any order, and how a deadline becomes a time to wait.
  Event queues: timers that count every period once, delivery that loses nothing and repeats only
  level-triggered events, one registration for each event, handles that are never given out again.  Helpers:
  round trips of dates and times where the code's 32 bits hold them, splitting and joining, and the bit array
  as a set of positions with its searches for runs.  GPU memory: the range set as a set of addresses; that the
  host's protections are those of the counts of watchers after any calls; and the tracker as two disjoint
  sets of pages, which decide every answer and every protection.

  Bounds.  The only fuel is that of the loop over a bit array, one more round than the array has bits;
  \<open>bit_array_runs\<close> shows that it is enough.  The walk of the tracker, \<open>iterate_regions\<close>, is a partial
  function; \<open>tracker_refines\<close> shows that it returns on every valid range unless the program stops.  Every
  other loop is a structural recursion or has a termination proof.  The tracker is used on ranges above
  the first page of the guest's memory, by one thread at a time, and the texture cache holds at most 126
  watchers on a page: the field has seven bits, and the tracker takes one watcher itself.  An invalidation finds
  a registered buffer with bytes to download where the GPU has modified a page.  Dates are exact from day
  number -536866432 to 536838867, beyond which \<open>JdToYmd\<close> overflows; a kernel semaphore's count may become
  negative only by signals with negative or overflowing numbers, which the code does not check; a deadline is
  exact up to 9,223,372,036,853 seconds from the present, beyond which its microseconds overflow.

  Not modelled.  The futex waits of syncOnAddress.cpp and the calls that combine the memory classes with
  the host's address space; the rest of the program is the guest's threads (over host
  threads), files, the loader and the package reader, the emulated libraries, the shader recompiler, the
  GPU and its Vulkan back end, the presentation, the launcher and the updater, which work on host
  resources and file formats.  Logging is left out everywhere, and so is the order in which the host's
  scheduler lets threads run, which is arbitrary in the step relations.
\<close>

end
